(* ===== verification/C_Prelude.thy ===== *)
theory C_Prelude
  imports Main "HOL-Library.Word"
begin

text \<open>
  What every component of the relay shares: the faults a C statement can run into, results
  that may be a fault, C character arrays with their uninitialised bytes, and the functions of
  \<open>string.h\<close> the code calls on them.

  A byte is an \<open>8 word\<close>. A C string passed by pointer is the list of its bytes before the
  terminating NUL. A \<open>char\<close> array that the code declares with a size is a list of that length
  whose elements are \<open>None\<close> where nothing has been written yet, so that reading memory that
  \<open>malloc\<close> returned, or running past the end of an array for want of a NUL, is a visible
  outcome of the model and not an arbitrary value.
\<close>

section \<open>Faults and results\<close>

text \<open>
  Each constructor is a way in which the C program leaves defined behaviour: an integer
  division by zero, an access outside an array, a read of memory never written, an access
  through a null, freed or never allocated pointer.
\<close>

datatype fault = Div_By_Zero | Out_Of_Bounds | Uninit_Read | Bad_Pointer

type_synonym 'a res = "fault + 'a"

type_synonym byte = "8 word"

type_synonym cstring = "byte list"

type_synonym carr = "byte option list"

text \<open>Sequential composition: the first fault ends the run.\<close>

fun bindE :: "'a res \<Rightarrow> ('a \<Rightarrow> 'b res) \<Rightarrow> 'b res" where
  "bindE (Inl e) f = Inl e"
| "bindE (Inr x) f = f x"

named_theorems c_simps "evaluation of results and of character arrays"

lemma bindE_cong [fundef_cong]:
  "m = m' \<Longrightarrow> (\<And>x. m' = Inr x \<Longrightarrow> f x = g x) \<Longrightarrow> bindE m f = bindE m' g"
  by (cases m') auto

lemma bindE_Inr_iff [c_simps]: "bindE m f = Inr y \<longleftrightarrow> (\<exists>x. m = Inr x \<and> f x = Inr y)"
  by (cases m) auto

lemma bindE_Inl_iff: "bindE m f = Inl e \<longleftrightarrow> m = Inl e \<or> (\<exists>x. m = Inr x \<and> f x = Inl e)"
  by (cases m) auto

lemma bindE_assoc: "bindE (bindE m f) g = bindE m (\<lambda>x. bindE (f x) g)"
  by (cases m) auto

lemma bindE_if: "bindE (if b then m else n) f = (if b then bindE m f else bindE n f)"
  by simp

text \<open>A loop over a list that may stop with a fault.\<close>

fun foldE :: "('s \<Rightarrow> 'a \<Rightarrow> 's res) \<Rightarrow> 's \<Rightarrow> 'a list \<Rightarrow> 's res" where
  "foldE f s [] = Inr s"
| "foldE f s (x # xs) = bindE (f s x) (\<lambda>s'. foldE f s' xs)"

text \<open>
  A run that may also fail to return (a recursion or a loop without end) is \<open>None\<close> then.
\<close>

type_synonym 'a run = "'a res option"

definition bindR :: "'a run \<Rightarrow> ('a \<Rightarrow> 'b run) \<Rightarrow> 'b run" where
  "bindR m f = Option.bind m (\<lambda>r. case r of Inl e \<Rightarrow> Some (Inl e) | Inr x \<Rightarrow> f x)"

lemma bindR_simps [simp]:
  "bindR None f = None"
  "bindR (Some (Inl e)) f = Some (Inl e)"
  "bindR (Some (Inr x)) f = f x"
  by (simp_all add: bindR_def)

lemma bindR_cong [fundef_cong]:
  "m = m' \<Longrightarrow> (\<And>x. m' = Some (Inr x) \<Longrightarrow> f x = g x) \<Longrightarrow> bindR m f = bindR m' g"
  by (cases m') (auto simp: bindR_def split: sum.splits)

lemma bindR_mono [partial_function_mono]:
  assumes "mono_option B" and "\<And>y. mono_option (\<lambda>f. C y f)"
  shows "mono_option (\<lambda>f. bindR (B f) (\<lambda>y. C y f))"
  unfolding bindR_def
proof (rule bind_mono [OF assms(1)])
  show "mono_option (\<lambda>f. case r of Inl e \<Rightarrow> Some (Inl e) | Inr x \<Rightarrow> C x f)" for r
    using assms(2) by (cases r) (auto simp: option.const_mono)
qed

fun foldR :: "('s \<Rightarrow> 'a \<Rightarrow> 's run) \<Rightarrow> 's \<Rightarrow> 'a list \<Rightarrow> 's run" where
  "foldR f s [] = Some (Inr s)"
| "foldR f s (x # xs) = bindR (f s x) (\<lambda>s'. foldR f s' xs)"

lemma foldE_append: "foldE f s (xs @ ys) = bindE (foldE f s xs) (\<lambda>s'. foldE f s' ys)"
  by (induction xs arbitrary: s) (simp_all add: bindE_assoc)

lemma foldE_unit: "(\<And>i. i < n \<Longrightarrow> f () i = Inr ()) \<Longrightarrow> foldE f () [0..<n] = Inr ()"
  by (induction n) (simp_all add: foldE_append)

lemma bindR_assoc: "bindR (bindR m f) g = bindR m (\<lambda>x. bindR (f x) g)"
  by (cases m) (auto simp: bindR_def split: sum.splits)

lemma foldR_append: "foldR f s (xs @ ys) = bindR (foldR f s xs) (\<lambda>s'. foldR f s' ys)"
  by (induction xs arbitrary: s) (simp_all add: bindR_assoc)

text \<open>A function that may fault on every element of a list.\<close>

fun mapE :: "('a \<Rightarrow> 'b res) \<Rightarrow> 'a list \<Rightarrow> 'b list res" where
  "mapE f [] = Inr []"
| "mapE f (x # xs) = bindE (f x) (\<lambda>y. bindE (mapE f xs) (\<lambda>ys. Inr (y # ys)))"

lemma mapE_iff: "mapE f xs = Inr ys \<longleftrightarrow> list_all2 (\<lambda>x y. f x = Inr y) xs ys"
proof (induction xs arbitrary: ys)
  case (Cons x xs)
  then show ?case by (cases ys) (auto simp: bindE_Inr_iff)
qed auto

lemma mapE_upt_iff:
  "mapE f [0..<n] = Inr ys \<longleftrightarrow> length ys = n \<and> (\<forall>i < n. f i = Inr (ys ! i))"
  by (auto simp: mapE_iff list_all2_conv_all_nth)

lemma mapE_cong [fundef_cong]:
  "xs = ys \<Longrightarrow> (\<And>x. x \<in> set ys \<Longrightarrow> f x = g x) \<Longrightarrow> mapE f xs = mapE g ys"
  by (induction ys arbitrary: xs) auto

text \<open>Invariants of counting loops.\<close>

lemma foldE_upt_inv:
  assumes "P 0 s" and "\<And>i s. i < n \<Longrightarrow> P i s \<Longrightarrow> \<exists>s'. f s i = Inr s' \<and> P (Suc i) s'"
  obtains s' where "foldE f s [0..<n] = Inr s'" and "P n s'"
proof -
  have "\<exists>s'. foldE f s [0..<n] = Inr s' \<and> P n s'"
    using assms
  proof (induction n)
    case (Suc n)
    then obtain s' where "foldE f s [0..<n] = Inr s'" "P n s'" by auto
    with Suc.prems(2) [of n s'] show ?case by (auto simp: foldE_append)
  qed simp
  with that show ?thesis by blast
qed

lemma foldR_upt_inv:
  assumes "P 0 s" and "\<And>i s. i < n \<Longrightarrow> P i s \<Longrightarrow> \<exists>s'. f s i = Some (Inr s') \<and> P (Suc i) s'"
  obtains s' where "foldR f s [0..<n] = Some (Inr s')" and "P n s'"
proof -
  have "\<exists>s'. foldR f s [0..<n] = Some (Inr s') \<and> P n s'"
    using assms
  proof (induction n)
    case (Suc n)
    then obtain s' where "foldR f s [0..<n] = Some (Inr s')" "P n s'" by auto
    with Suc.prems(2) [of n s'] show ?case by (auto simp: foldR_append)
  qed simp
  with that show ?thesis by blast
qed

lemma bindR_Inr_iff: "bindR m f = Some (Inr y) \<longleftrightarrow> (\<exists>x. m = Some (Inr x) \<and> f x = Some (Inr y))"
  by (cases m) (auto simp: bindR_def split: sum.splits)

lemma foldR_upt_Inr:
  assumes "foldR f s [0..<n] = Some (Inr s')" and "P 0 s"
    and "\<And>i s s'. i < n \<Longrightarrow> P i s \<Longrightarrow> f s i = Some (Inr s') \<Longrightarrow> P (Suc i) s'"
  shows "P n s'"
  using assms
proof (induction n arbitrary: s')
  case (Suc n)
  from Suc.prems(1) obtain t where t: "foldR f s [0..<n] = Some (Inr t)" "f t n = Some (Inr s')"
    by (auto simp: foldR_append bindR_Inr_iff)
  have "P n t" by (rule Suc.IH [OF t(1)]) (use Suc.prems in auto)
  then show ?case using Suc.prems(3) t(2) by simp
qed simp

section \<open>Character arrays\<close>

text \<open>Reading the string an array holds, as \<open>strlen\<close> or a \<open>while (*name)\<close> loop does.\<close>

fun cstr :: "carr \<Rightarrow> cstring res" where
  "cstr [] = Inl Out_Of_Bounds"
| "cstr (None # xs) = Inl Uninit_Read"
| "cstr (Some b # xs) = (if b = 0 then Inr [] else bindE (cstr xs) (\<lambda>s. Inr (b # s)))"

text \<open>Reading at most \<open>n\<close> bytes of it, as \<open>strncpy\<close> does with its source.\<close>

fun cstrn :: "nat \<Rightarrow> carr \<Rightarrow> cstring res" where
  "cstrn 0 xs = Inr []"
| "cstrn (Suc n) [] = Inl Out_Of_Bounds"
| "cstrn (Suc n) (None # xs) = Inl Uninit_Read"
| "cstrn (Suc n) (Some b # xs) = (if b = 0 then Inr [] else bindE (cstrn n xs) (\<lambda>s. Inr (b # s)))"

text \<open>
  \<open>strcmp(arr, s) == 0\<close>: the comparison stops at the first difference, so bytes of the
  array behind it are never read.
\<close>

fun streq :: "carr \<Rightarrow> cstring \<Rightarrow> bool res" where
  "streq [] s = Inl Out_Of_Bounds"
| "streq (None # xs) s = Inl Uninit_Read"
| "streq (Some b # xs) [] = Inr (b = 0)"
| "streq (Some b # xs) (c # s) = (if b = c then streq xs s else Inr False)"

text \<open>
  \<open>strncpy(dst, src, n)\<close>: \<open>n\<close> bytes are written, the source's bytes and then NULs; a
  source of \<open>n\<close> or more bytes leaves no terminator. What is behind the \<open>n\<close> bytes stays.
\<close>

definition strncpy :: "carr \<Rightarrow> cstring \<Rightarrow> nat \<Rightarrow> carr res" where
  "strncpy dst src n =
     (if length dst < n then Inl Out_Of_Bounds
      else Inr (map Some (take n src @ replicate (n - length src) 0) @ drop n dst))"

text \<open>The same with an array as source, which \<open>strncpy\<close> reads up to its NUL or \<open>n\<close> bytes.\<close>

definition strncpy_arr :: "carr \<Rightarrow> carr \<Rightarrow> nat \<Rightarrow> carr res" where
  "strncpy_arr dst src n = bindE (cstrn n src) (\<lambda>s. strncpy dst s n)"

text \<open>An array in memory that nothing has written to, and one that \<open>calloc\<close> or \<open>bzero\<close> cleared.\<close>

definition uninit :: "nat \<Rightarrow> carr" where
  "uninit n = replicate n None"

definition zeroed :: "nat \<Rightarrow> carr" where
  "zeroed n = replicate n (Some 0)"

lemma length_uninit [simp]: "length (uninit n) = n"
  by (simp add: uninit_def)

text \<open>A byte list is the content of a C string when it has no NUL in it.\<close>

definition is_cstring :: "cstring \<Rightarrow> bool" where
  "is_cstring s \<longleftrightarrow> 0 \<notin> set s"

lemma is_cstring_simps [simp]:
  "is_cstring []"
  "is_cstring (b # s) \<longleftrightarrow> b \<noteq> 0 \<and> is_cstring s"
  "is_cstring (s @ t) \<longleftrightarrow> is_cstring s \<and> is_cstring t"
  by (auto simp: is_cstring_def)

lemma is_cstring_take_drop: "is_cstring s \<Longrightarrow> is_cstring (take n s)" "is_cstring s \<Longrightarrow> is_cstring (drop n s)"
  by (auto simp: is_cstring_def dest: in_set_takeD in_set_dropD)

lemma cstr_is_cstring: "cstr a = Inr s \<Longrightarrow> is_cstring s"
  by (induction a arbitrary: s rule: cstr.induct) (auto simp: bindE_Inr_iff split: if_splits)

lemma cstr_length: "cstr a = Inr s \<Longrightarrow> length s < length a"
  by (induction a arbitrary: s rule: cstr.induct) (auto simp: bindE_Inr_iff split: if_splits)

lemma cstr_map_Some: "is_cstring s \<Longrightarrow> cstr (map Some (s @ 0 # t) @ a) = Inr s"
  by (induction s) auto

lemma cstr_append: "cstr a = Inr s \<Longrightarrow> cstr (a @ b) = Inr s"
  by (induction a arbitrary: s rule: cstr.induct) (auto simp: bindE_Inr_iff split: if_splits)

lemma cstrn_cstr: "cstr a = Inr s \<Longrightarrow> cstrn n a = Inr (take n s)"
proof (induction n a arbitrary: s rule: cstrn.induct)
  case (4 n b xs)
  then show ?case by (auto simp: bindE_Inr_iff split: if_splits)
qed auto

lemma streq_cstr: "cstr a = Inr s \<Longrightarrow> is_cstring t \<Longrightarrow> streq a t = Inr (s = t)"
proof (induction a t arbitrary: s rule: streq.induct)
  case (4 b xs c t)
  then show ?case by (auto simp: bindE_Inr_iff split: if_splits)
qed (auto simp: bindE_Inr_iff split: if_splits)

text \<open>A source shorter than the count is stored with its terminator and reads back whole.\<close>

lemma strncpy_short:
  assumes "length s < n" and "n \<le> length dst" and "is_cstring s"
  obtains a where "strncpy dst s n = Inr a" and "length a = length dst" and "cstr a = Inr s"
proof -
  let ?a = "map Some (take n s @ replicate (n - length s) 0) @ drop n dst"
  from assms(1) obtain m where m: "n - length s = Suc m"
    by (metis Suc_diff_Suc)
  have "?a = map Some (s @ 0 # replicate m 0) @ drop n dst"
    using assms(1) m by simp
  then have "cstr ?a = Inr s"
    using cstr_map_Some [OF assms(3)] by metis
  moreover have "strncpy dst s n = Inr ?a"
    using assms by (simp add: strncpy_def)
  moreover have "length ?a = length dst"
    using assms by simp
  ultimately show ?thesis using that by blast
qed

section \<open>Lists\<close>

text \<open>Two lists of lists that differ in one bucket.\<close>

lemma concat_split_at:
  "i < length xss \<Longrightarrow> concat xss = concat (take i xss) @ xss ! i @ concat (drop (Suc i) xss)"
  by (subst id_take_nth_drop [of i xss]) auto

lemma concat_update_at:
  "i < length xss \<Longrightarrow>
     concat (xss[i := ys]) = concat (take i xss) @ ys @ concat (drop (Suc i) xss)"
  by (simp add: upd_conv_take_nth_drop)

lemma set_concat_update_Cons:
  "i < length xss \<Longrightarrow> set (concat (xss[i := y # xss ! i])) = Set.insert y (set (concat xss))"
  by (auto simp: concat_split_at [of i xss] concat_update_at)

lemma Suc_length_remove1: "a \<in> set xs \<Longrightarrow> Suc (length (remove1 a xs)) = length xs"
  by (induction xs) auto

lemma in_concat_take:
  assumes "x \<in> set (concat (take i xss))"
  obtains j where "j < i" and "j < length xss" and "x \<in> set (xss ! j)"
proof -
  obtain ys where "x \<in> set ys" "ys \<in> set (take i xss)" using assms by auto
  then show ?thesis using that by (auto simp: in_set_conv_nth [of ys])
qed

lemma in_concat_drop:
  assumes "x \<in> set (concat (drop (Suc i) xss))"
  obtains j where "i < j" and "j < length xss" and "x \<in> set (xss ! j)"
proof -
  obtain ys k where "x \<in> set ys" "k < length (drop (Suc i) xss)" "drop (Suc i) xss ! k = ys"
    using assms by (auto simp: in_set_conv_nth [of _ "drop (Suc i) xss"])
  then show ?thesis using that [of "Suc i + k"] by auto
qed

lemma map_of_eqI_distinct:
  assumes "distinct (map fst xs)" and "distinct (map fst ys)" and "set xs = set ys"
  shows "map_of xs = map_of ys"
  using assms map_of_eqI map_of_inject_set by metis

text \<open>Strings written as character literals, as bytes, and bytes printed as characters.\<close>

definition bytes :: "string \<Rightarrow> cstring" where
  "bytes s = map of_char s"

definition chars :: "cstring \<Rightarrow> string" where
  "chars s = map (\<lambda>c. char_of (unat c)) s"

text \<open>One place of a family of threads, or buckets, changes.\<close>

lemma sum_update:
  fixes f :: "nat \<Rightarrow> 'b :: comm_monoid_add"
  assumes "t \<le> n"
  shows "(\<Sum>u \<le> n. (f(t := c)) u) + f t = (\<Sum>u \<le> n. f u) + c"
proof -
  have split: "(\<Sum>u \<le> n. g u) = g t + (\<Sum>u \<in> {..n} - {t}. g u)" for g :: "nat \<Rightarrow> 'b"
    by (rule sum.remove) (use assms in auto)
  have "(\<Sum>u \<in> {..n} - {t}. (f(t := c)) u) = (\<Sum>u \<in> {..n} - {t}. f u)"
    by (rule sum.cong) auto
  then show ?thesis using split [of f] split [of "f(t := c)"] by (simp add: ac_simps)
qed

end
