(* ===== verification/Hash.thy ===== *)
theory Hash
  imports C_Prelude "HOL-Library.Multiset"
begin

text \<open>
  The chained hash table of \<open>cache/hash.c\<close>. A bucket of \<open>h\<close> is the list of its nodes from the
  head of the chain on; \<open>len\<close> and \<open>num\<close> are the C \<open>unsigned int\<close>s, as 32-bit words. The data
  a node owns is a copy of the caller's bytes, so it is a value here. Every operation may end
  in a fault: the bucket index is computed modulo \<open>len\<close>, and the 51st byte of a node's name is
  never initialised, so a name of 50 or more bytes has no terminator.
\<close>

section \<open>Data\<close>

definition HASH_KEY_MAX_LEN :: nat where
  "HASH_KEY_MAX_LEN = 50"

definition INIT_SIZE :: "32 word" where
  "INIT_SIZE = 1024"

record 'v node =
  nd_name :: carr
  nd_data :: 'v

record 'v HashTab =
  ht_h :: "'v node list list"
  ht_len :: "32 word"
  ht_num :: "32 word"

section \<open>Operations\<close>

definition NewHashTab :: "'v HashTab" where
  "NewHashTab = \<lparr>ht_h = replicate (unat INIT_SIZE) [], ht_len = INIT_SIZE, ht_num = 0\<rparr>"

text \<open>
  \<open>newNode\<close>: the node comes from \<open>malloc\<close>, so \<open>name\<close> starts uninitialised, and
  \<open>strncpy\<close> writes 50 of its 51 bytes.
\<close>

definition newNode :: "cstring \<Rightarrow> 'v \<Rightarrow> 'v node res" where
  "newNode name d =
     bindE (strncpy (uninit (HASH_KEY_MAX_LEN + 1)) name HASH_KEY_MAX_LEN)
       (\<lambda>a. Inr \<lparr>nd_name = a, nd_data = d\<rparr>)"

text \<open>
  \<open>hash\<close>: each \<open>char\<close> is promoted to \<open>int\<close> (sign-extended, as \<open>char\<close> is signed on the
  x86-64 and Apple targets of the program), multiplied by 39 and added modulo \<open>2^32\<close>.
\<close>

fun hash_from :: "32 word \<Rightarrow> cstring \<Rightarrow> 32 word" where
  "hash_from res [] = res"
| "hash_from res (c # cs) = hash_from (res + scast c * 39) cs"

definition hash :: "cstring \<Rightarrow> 32 word" where
  "hash name = hash_from 0 name"

definition slot :: "'v HashTab \<Rightarrow> cstring \<Rightarrow> nat res" where
  "slot ht name =
     (if ht_len ht = 0 then Inl Div_By_Zero else Inr (unat (hash name) mod unat (ht_len ht)))"

text \<open>
  \<open>rescale\<close>: the nodes are moved in the order of the old buckets, each to the front of its
  new chain. The hash is that of the stored name, and the modulus is the new size.
\<close>

fun move_nodes :: "nat \<Rightarrow> 'v node list list \<Rightarrow> 'v node list \<Rightarrow> 'v node list list res" where
  "move_nodes sz h [] = Inr h"
| "move_nodes sz h (t # ts) =
     bindE (cstr (nd_name t)) (\<lambda>s.
       if sz = 0 then Inl Div_By_Zero
       else let hs = unat (hash s) mod sz
            in move_nodes sz (h[hs := t # h ! hs]) ts)"

definition rescale :: "'v HashTab \<Rightarrow> 32 word \<Rightarrow> 'v HashTab res" where
  "rescale ht sz =
     bindE (move_nodes (unat sz) (replicate (unat sz) []) (concat (ht_h ht)))
       (\<lambda>h. Inr (ht\<lparr>ht_h := h, ht_len := sz\<rparr>))"

text \<open>
  The loop of \<open>insert\<close> over a chain: the chain with the data of the first node of that name
  replaced, or \<open>None\<close> when there is no such node.
\<close>

fun replace_data :: "'v node list \<Rightarrow> cstring \<Rightarrow> 'v \<Rightarrow> 'v node list option res" where
  "replace_data [] name d = Inr None"
| "replace_data (t # ts) name d =
     bindE (streq (nd_name t) name) (\<lambda>eq.
       if eq then Inr (Some (t\<lparr>nd_data := d\<rparr> # ts))
       else bindE (replace_data ts name d) (\<lambda>r. Inr (map_option ((#) t) r)))"

definition insert_ht :: "'v HashTab \<Rightarrow> cstring \<Rightarrow> 'v \<Rightarrow> 'v HashTab res" where
  "insert_ht ht name d =
     bindE (slot ht name) (\<lambda>ha.
     bindE (replace_data (ht_h ht ! ha) name d) (\<lambda>r.
       case r of
         Some c \<Rightarrow> Inr (ht\<lparr>ht_h := (ht_h ht)[ha := c]\<rparr>)
       | None \<Rightarrow>
           bindE (newNode name d) (\<lambda>n.
           let ht' = ht\<lparr>ht_h := (ht_h ht)[ha := n # ht_h ht ! ha], ht_num := ht_num ht + 1\<rparr>
           in if ht_len ht' * 2 \<le> ht_num ht' then rescale ht' (push_bit 1 (ht_len ht'))
              else Inr ht')))"

fun find_data :: "'v node list \<Rightarrow> cstring \<Rightarrow> 'v option res" where
  "find_data [] name = Inr None"
| "find_data (t # ts) name =
     bindE (streq (nd_name t) name) (\<lambda>eq. if eq then Inr (Some (nd_data t)) else find_data ts name)"

definition search :: "'v HashTab \<Rightarrow> cstring \<Rightarrow> 'v option res" where
  "search ht name = bindE (slot ht name) (\<lambda>hs. find_data (ht_h ht ! hs) name)"

fun deleteNode :: "'v node list \<Rightarrow> cstring \<Rightarrow> 'v node list res" where
  "deleteNode [] name = Inr []"
| "deleteNode (t # ts) name =
     bindE (streq (nd_name t) name) (\<lambda>eq.
       if eq then Inr ts else bindE (deleteNode ts name) (\<lambda>r. Inr (t # r)))"

text \<open>\<open>delete\<close>: \<open>num\<close> is decremented whether or not a node was removed.\<close>

definition delete_ht :: "'v HashTab \<Rightarrow> cstring \<Rightarrow> 'v HashTab res" where
  "delete_ht ht name =
     bindE (slot ht name) (\<lambda>hs.
     bindE (deleteNode (ht_h ht ! hs) name) (\<lambda>c.
       let ht' = ht\<lparr>ht_h := (ht_h ht)[hs := c], ht_num := ht_num ht - 1\<rparr>
       in if ht_num ht' * 2 < ht_len ht' then rescale ht' (drop_bit 1 (ht_len ht'))
          else Inr ht'))"

section \<open>Invariant and abstraction\<close>

text \<open>
  A table stands for the finite map from the keys of its nodes to their data. The invariant:
  there is at least one bucket, every node has a terminated name of fewer than 50 bytes and
  hangs in the bucket of its hash, no two nodes share a name, \<open>num\<close> counts the nodes, and the
  load is below 2, with the sizes far from the end of an \<open>unsigned int\<close>.
\<close>

definition node_key :: "'v node \<Rightarrow> cstring" where
  "node_key t = (case cstr (nd_name t) of Inl _ \<Rightarrow> [] | Inr s \<Rightarrow> s)"

definition entry :: "'v node \<Rightarrow> cstring \<times> 'v" where
  "entry t = (node_key t, nd_data t)"

definition good_key :: "cstring \<Rightarrow> bool" where
  "good_key s \<longleftrightarrow> is_cstring s \<and> length s < HASH_KEY_MAX_LEN"

definition wf_node :: "'v node \<Rightarrow> bool" where
  "wf_node t \<longleftrightarrow> cstr (nd_name t) = Inr (node_key t) \<and> good_key (node_key t)"

definition buckets_ok :: "nat \<Rightarrow> 'v node list list \<Rightarrow> bool" where
  "buckets_ok sz h \<longleftrightarrow>
     length h = sz \<and>
     (\<forall>i < sz. \<forall>t \<in> set (h ! i). wf_node t \<and> unat (hash (node_key t)) mod sz = i)"

definition ht_nodes :: "'v HashTab \<Rightarrow> 'v node list" where
  "ht_nodes ht = concat (ht_h ht)"

definition ht_map :: "'v HashTab \<Rightarrow> cstring \<Rightarrow> 'v option" where
  "ht_map ht = map_of (map entry (ht_nodes ht))"

definition ht_inv :: "'v HashTab \<Rightarrow> bool" where
  "ht_inv ht \<longleftrightarrow>
     0 < unat (ht_len ht) \<and>
     buckets_ok (unat (ht_len ht)) (ht_h ht) \<and>
     distinct (map node_key (ht_nodes ht)) \<and>
     unat (ht_num ht) = length (ht_nodes ht) \<and>
     unat (ht_num ht) < 2 * unat (ht_len ht) \<and>
     unat (ht_len ht) \<le> 2 ^ 30"

text \<open>
  The counters are compared after a multiplication by 2, which wraps from \<open>2^31\<close> on: the
  invariant keeps \<open>len\<close> below that, and an insertion needs a table of fewer than \<open>2^29\<close> nodes.
\<close>

definition ht_room :: "'v HashTab \<Rightarrow> bool" where
  "ht_room ht \<longleftrightarrow> unat (ht_num ht) < 2 ^ 29"

text \<open>A deletion is safe when it does not halve a table of one bucket.\<close>

definition ht_spare :: "'v HashTab \<Rightarrow> bool" where
  "ht_spare ht \<longleftrightarrow> 1 < unat (ht_len ht) \<or> 1 < unat (ht_num ht)"

section \<open>Chains\<close>

lemma fst_comp_entry [simp]: "fst \<circ> entry = node_key"
  by (rule ext) (simp add: entry_def)

lemma entry_simps [simp]: "fst (entry t) = node_key t" "snd (entry t) = nd_data t"
  by (simp_all add: entry_def)

lemma map_of_entry_Cons [simp]:
  "map_of (entry t # es) = (map_of es)(node_key t \<mapsto> nd_data t)"
  by (simp add: entry_def)

lemma node_key_data_update [simp]: "node_key (t\<lparr>nd_data := d\<rparr>) = node_key t"
  by (simp add: node_key_def)

lemma wf_node_data_update [simp]: "wf_node (t\<lparr>nd_data := d\<rparr>) = wf_node t"
  by (simp add: wf_node_def)

lemma wf_node_streq:
  "wf_node t \<Longrightarrow> is_cstring name \<Longrightarrow> streq (nd_name t) name = Inr (node_key t = name)"
  by (auto simp: wf_node_def intro: streq_cstr)

lemma newNode_good:
  assumes "good_key name"
  obtains n where "newNode name d = Inr n" and "wf_node n" and "node_key n = name"
    and "nd_data n = d"
proof -
  obtain a where a: "strncpy (uninit (HASH_KEY_MAX_LEN + 1)) name HASH_KEY_MAX_LEN = Inr a"
      "cstr a = Inr name"
    using assms strncpy_short [of name HASH_KEY_MAX_LEN "uninit (HASH_KEY_MAX_LEN + 1)"]
    by (auto simp: good_key_def uninit_def)
  let ?n = "\<lparr>nd_name = a, nd_data = d\<rparr>"
  have k: "node_key ?n = name" by (simp add: node_key_def a(2))
  moreover have "newNode name d = Inr ?n" unfolding newNode_def a(1) by simp
  moreover have "wf_node ?n" using assms a(2) k by (simp add: wf_node_def)
  ultimately show ?thesis using that [of ?n] by simp
qed

lemma find_data_map_of:
  "\<forall>t \<in> set ts. wf_node t \<Longrightarrow> is_cstring name \<Longrightarrow>
     find_data ts name = Inr (map_of (map entry ts) name)"
  by (induction ts) (simp_all add: wf_node_streq)

lemma replace_data_None:
  "\<forall>t \<in> set ts. wf_node t \<Longrightarrow> is_cstring name \<Longrightarrow> name \<notin> set (map node_key ts) \<Longrightarrow>
     replace_data ts name d = Inr None"
  by (induction ts) (auto simp: wf_node_streq)

lemma replace_data_Some:
  assumes "\<forall>t \<in> set ts. wf_node t" and "is_cstring name" and "name \<in> set (map node_key ts)"
  obtains us where "replace_data ts name d = Inr (Some us)"
    and "map node_key us = map node_key ts" and "\<forall>t \<in> set us. wf_node t"
    and "map_of (map entry us) = (map_of (map entry ts))(name \<mapsto> d)"
proof -
  have "\<exists>us. replace_data ts name d = Inr (Some us) \<and> map node_key us = map node_key ts \<and>
      (\<forall>t \<in> set us. wf_node t) \<and> map_of (map entry us) = (map_of (map entry ts))(name \<mapsto> d)"
    using assms
  proof (induction ts)
    case (Cons t ts)
    show ?case
    proof (cases "node_key t = name")
      case True
      with Cons.prems show ?thesis
        by (intro exI [of _ "t\<lparr>nd_data := d\<rparr> # ts"]) (auto simp: wf_node_streq fun_eq_iff)
    next
      case False
      have "\<exists>us. replace_data ts name d = Inr (Some us) \<and> map node_key us = map node_key ts \<and>
          (\<forall>t \<in> set us. wf_node t) \<and> map_of (map entry us) = (map_of (map entry ts))(name \<mapsto> d)"
        using Cons.prems False by (intro Cons.IH) auto
      then obtain us where "replace_data ts name d = Inr (Some us)"
          "map node_key us = map node_key ts" "\<forall>t \<in> set us. wf_node t"
          "map_of (map entry us) = (map_of (map entry ts))(name \<mapsto> d)"
        by blast
      with False Cons.prems show ?thesis
        by (intro exI [of _ "t # us"]) (auto simp: wf_node_streq fun_eq_iff)
    qed
  qed simp
  with that show ?thesis by blast
qed

lemma deleteNode_absent:
  "\<forall>t \<in> set ts. wf_node t \<Longrightarrow> is_cstring name \<Longrightarrow> name \<notin> set (map node_key ts) \<Longrightarrow>
     deleteNode ts name = Inr ts"
  by (induction ts) (auto simp: wf_node_streq)

lemma deleteNode_present:
  assumes "\<forall>t \<in> set ts. wf_node t" and "is_cstring name" and "name \<in> set (map node_key ts)"
  obtains us t where "deleteNode ts name = Inr us" and "mset ts = add_mset t (mset us)"
    and "node_key t = name" and "set us \<subseteq> set ts"
proof -
  have "\<exists>us t. deleteNode ts name = Inr us \<and> mset ts = add_mset t (mset us) \<and>
      node_key t = name \<and> set us \<subseteq> set ts"
    using assms
  proof (induction ts)
    case (Cons t ts)
    show ?case
    proof (cases "node_key t = name")
      case True
      with Cons.prems show ?thesis by (auto simp: wf_node_streq)
    next
      case False
      have "\<exists>us u. deleteNode ts name = Inr us \<and> mset ts = add_mset u (mset us) \<and>
          node_key u = name \<and> set us \<subseteq> set ts"
        using Cons.prems False by (intro Cons.IH) auto
      then obtain us u where "deleteNode ts name = Inr us" "mset ts = add_mset u (mset us)"
          "node_key u = name" "set us \<subseteq> set ts"
        by blast
      with False Cons.prems show ?thesis
        by (intro exI [of _ "t # us"] exI [of _ u]) (auto simp: wf_node_streq)
    qed
  qed simp
  with that show ?thesis by blast
qed

section \<open>Rescaling\<close>

lemma buckets_ok_empty: "0 < sz \<Longrightarrow> buckets_ok sz (replicate sz [])"
  by (simp add: buckets_ok_def)

lemma buckets_ok_wf: "buckets_ok sz h \<Longrightarrow> t \<in> set (concat h) \<Longrightarrow> wf_node t"
  unfolding buckets_ok_def set_concat by (metis UN_E in_set_conv_nth)

lemma buckets_ok_Cons:
  assumes "buckets_ok sz h" and "wf_node t" and "i = unat (hash (node_key t)) mod sz" and "i < sz"
  shows "buckets_ok sz (h[i := t # h ! i])"
  using assms by (auto simp: buckets_ok_def nth_list_update)

lemma buckets_ok_update:
  assumes "buckets_ok sz h" and "i < sz"
    and "\<forall>t \<in> set c. wf_node t \<and> node_key t \<in> set (map node_key (h ! i))"
  shows "buckets_ok sz (h[i := c])"
  using assms by (fastforce simp: buckets_ok_def nth_list_update)

lemma move_nodes_ok:
  assumes "0 < sz" and "buckets_ok sz h" and "\<forall>t \<in> set ts. wf_node t"
  obtains h' where "move_nodes sz h ts = Inr h'" and "buckets_ok sz h'"
    and "mset (concat h') = mset (concat h) + mset ts"
proof -
  have "\<exists>h'. move_nodes sz h ts = Inr h' \<and> buckets_ok sz h' \<and>
      mset (concat h') = mset (concat h) + mset ts"
    using assms(2,3)
  proof (induction ts arbitrary: h)
    case (Cons t ts)
    let ?i = "unat (hash (node_key t)) mod sz"
    have i: "?i < sz" "?i < length h" and t: "wf_node t"
      using assms(1) Cons.prems by (auto simp: buckets_ok_def)
    have "buckets_ok sz (h[?i := t # h ! ?i])"
      using Cons.prems(1) t i by (intro buckets_ok_Cons) auto
    then obtain h' where h': "move_nodes sz (h[?i := t # h ! ?i]) ts = Inr h'" "buckets_ok sz h'"
        "mset (concat h') = mset (concat (h[?i := t # h ! ?i])) + mset ts"
      using Cons.IH [of "h[?i := t # h ! ?i]"] Cons.prems by auto
    moreover have "mset (concat (h[?i := t # h ! ?i])) = add_mset t (mset (concat h))"
      using i by (simp add: concat_split_at [of ?i h] concat_update_at)
    ultimately show ?case
      using t assms(1) by (auto simp: wf_node_def Let_def)
  qed auto
  with that show ?thesis by blast
qed

lemma rescale_ok:
  assumes "0 < unat sz" and "\<forall>t \<in> set (ht_nodes ht). wf_node t"
  obtains ht' where "rescale ht sz = Inr ht'" and "ht_len ht' = sz" and "ht_num ht' = ht_num ht"
    and "buckets_ok (unat sz) (ht_h ht')" and "mset (ht_nodes ht') = mset (ht_nodes ht)"
proof -
  obtain h where "move_nodes (unat sz) (replicate (unat sz) []) (ht_nodes ht) = Inr h"
      "buckets_ok (unat sz) h" "mset (concat h) = mset (ht_nodes ht)"
    using move_nodes_ok [OF assms(1) buckets_ok_empty [OF assms(1)] assms(2)] by auto
  then show ?thesis
    by (intro that [of "ht\<lparr>ht_h := h, ht_len := sz\<rparr>"]) (auto simp: rescale_def ht_nodes_def)
qed

text \<open>Permuted nodes are the same map.\<close>

lemma distinct_keys_mset:
  "mset ts = mset us \<Longrightarrow> distinct (map node_key ts) = distinct (map node_key us)"
  by (metis mset_eq_imp_distinct_iff mset_map)

lemma map_of_entry_mset:
  assumes "mset ts = mset us" and "distinct (map node_key us)"
  shows "map_of (map entry ts) = map_of (map entry us)"
proof (rule map_of_eqI_distinct)
  show "distinct (map fst (map entry ts))" "distinct (map fst (map entry us))"
    using assms distinct_keys_mset by auto
  show "set (map entry ts) = set (map entry us)"
    using mset_eq_setD [OF assms(1)] by simp
qed

section \<open>The operations implement a finite map\<close>

lemma ht_inv_wf: "ht_inv ht \<Longrightarrow> t \<in> set (ht_nodes ht) \<Longrightarrow> wf_node t"
  unfolding ht_inv_def ht_nodes_def using buckets_ok_wf by blast

lemma ht_inv_slot:
  assumes "ht_inv ht"
  obtains i where "slot ht name = Inr i" and "i < length (ht_h ht)"
    and "i = unat (hash name) mod unat (ht_len ht)"
proof -
  let ?i = "unat (hash name) mod unat (ht_len ht)"
  have pos: "0 < unat (ht_len ht)" using assms by (simp add: ht_inv_def)
  then have "slot ht name = Inr ?i"
    by (auto simp: slot_def)
  moreover have "?i < length (ht_h ht)"
    using assms pos by (simp add: ht_inv_def buckets_ok_def)
  ultimately show ?thesis using that by blast
qed

text \<open>Only the bucket of its hash can hold a key.\<close>

lemma key_in_slot:
  assumes "buckets_ok sz h" and "t \<in> set (concat h)" and "node_key t = name"
    and "i = unat (hash name) mod sz"
  shows "t \<in> set (h ! i)"
  using assms by (force simp: buckets_ok_def in_set_conv_nth [of _ h])

lemma no_key_elsewhere:
  assumes "buckets_ok sz h" and "i = unat (hash name) mod sz"
    and "xss = take i h \<or> xss = drop (Suc i) h"
  shows "name \<notin> node_key ` set (concat xss)"
proof -
  have "node_key t \<noteq> name" if "t \<in> set (h ! j)" "j < length h" "j \<noteq> i" for t j
    using assms(1,2) that by (auto simp: buckets_ok_def)
  with assms(3) show ?thesis
    by (auto simp del: set_concat elim!: in_concat_take in_concat_drop)
qed

lemma map_of_no_key:
  "name \<notin> node_key ` set ts \<Longrightarrow> map_of (map entry ts) name = None"
  by (auto simp: map_of_eq_None_iff image_image)

lemma ht_map_slot:
  assumes "ht_inv ht" and "i = unat (hash name) mod unat (ht_len ht)" and "i < length (ht_h ht)"
  shows "ht_map ht name = map_of (map entry (ht_h ht ! i)) name"
proof -
  have b: "buckets_ok (unat (ht_len ht)) (ht_h ht)"
    using assms(1) by (simp add: ht_inv_def)
  have "map_of (map entry (concat (take i (ht_h ht)))) name = None"
       "map_of (map entry (concat (drop (Suc i) (ht_h ht)))) name = None"
    using no_key_elsewhere [OF b assms(2)] map_of_no_key by blast+
  then show ?thesis
    unfolding ht_map_def ht_nodes_def concat_split_at [OF assms(3)]
    by (simp add: map_add_def split: option.splits)
qed

text \<open>Adding or removing a node, up to the order of the nodes.\<close>

lemma map_of_entry_add:
  assumes "mset ts = add_mset t (mset us)" and "distinct (map node_key (t # us))"
  shows "map_of (map entry ts) = (map_of (map entry us))(node_key t \<mapsto> nd_data t)"
  using map_of_entry_mset [of ts "t # us"] assms by simp

lemma map_of_entry_remove:
  assumes "mset ts = add_mset t (mset us)" and "distinct (map node_key ts)"
  shows "map_of (map entry us) = (map_of (map entry ts))(node_key t := None)"
proof -
  have d: "distinct (map node_key (t # us))"
    using assms distinct_keys_mset [of ts "t # us"] by simp
  then have "map_of (map entry us) (node_key t) = None"
    by (intro map_of_no_key) auto
  with map_of_entry_add [OF assms(1) d] show ?thesis by (auto simp: fun_eq_iff)
qed

lemma search_ok:
  assumes "ht_inv ht" and "is_cstring name"
  shows "search ht name = Inr (ht_map ht name)"
proof -
  obtain i where i: "slot ht name = Inr i" "i < length (ht_h ht)"
      "i = unat (hash name) mod unat (ht_len ht)"
    using ht_inv_slot [OF assms(1)] .
  have "\<forall>t \<in> set (ht_h ht ! i). wf_node t"
    using assms(1) i(2) by (auto simp: ht_inv_def buckets_ok_def)
  with i assms(2) show ?thesis
    by (simp add: search_def find_data_map_of ht_map_slot [OF assms(1) i(3,2)])
qed

lemma NewHashTab_ok: "ht_inv NewHashTab" "ht_map NewHashTab = Map.empty" "ht_nodes NewHashTab = []"
  by (auto simp: ht_inv_def NewHashTab_def INIT_SIZE_def buckets_ok_def ht_nodes_def ht_map_def)

text \<open>Halving and doubling the number of buckets.\<close>

lemma unat_double: "unat (w :: 32 word) < 2 ^ 31 \<Longrightarrow> unat (push_bit 1 w) = 2 * unat w \<and> unat (w * 2) = 2 * unat w"
  by (simp add: unat_word_ariths push_bit_eq_mult)

lemma unat_halve: "unat (drop_bit 1 (w :: 32 word)) = unat w div 2"
  by (simp add: drop_bit_eq_div unat_div)

text \<open>A table whose nodes are permuted by a rescaling satisfies the invariant again.\<close>

lemma ht_inv_rescaled:
  assumes "0 < unat (ht_len ht)" and "buckets_ok (unat (ht_len ht)) (ht_h ht)"
    and "mset (ht_nodes ht) = mset ts" and "distinct (map node_key ts)"
    and "unat (ht_num ht) = length ts" and "length ts < 2 * unat (ht_len ht)"
    and "unat (ht_len ht) \<le> 2 ^ 30"
  shows "ht_inv ht \<and> ht_map ht = map_of (map entry ts)"
  unfolding ht_inv_def ht_map_def
  using assms distinct_keys_mset [OF assms(3)] map_of_entry_mset [OF assms(3,4)]
    mset_eq_length [OF assms(3)]
  by simp

lemma insert_present:
  assumes inv: "ht_inv ht" and k: "good_key name" and present: "ht_map ht name \<noteq> None"
  obtains ht' where "insert_ht ht name d = Inr ht'" and "ht_inv ht'"
    and "ht_map ht' = (ht_map ht)(name \<mapsto> d)"
    and "ht_len ht' = ht_len ht" and "ht_num ht' = ht_num ht"
proof -
  have c: "is_cstring name" using k by (simp add: good_key_def)
  obtain i where i: "slot ht name = Inr i" "i < length (ht_h ht)"
      "i = unat (hash name) mod unat (ht_len ht)"
    using ht_inv_slot [OF inv] .
  have b: "buckets_ok (unat (ht_len ht)) (ht_h ht)" and d: "distinct (map node_key (ht_nodes ht))"
    using inv by (simp_all add: ht_inv_def)
  have w: "\<forall>t \<in> set (ht_h ht ! i). wf_node t"
    using b i(2) by (auto simp: buckets_ok_def)
  have "name \<in> set (map node_key (ht_h ht ! i))"
    using present ht_map_slot [OF inv i(3,2)] map_of_no_key by fastforce
  then obtain us where us: "replace_data (ht_h ht ! i) name d = Inr (Some us)"
      "map node_key us = map node_key (ht_h ht ! i)" "\<forall>t \<in> set us. wf_node t"
      "map_of (map entry us) = (map_of (map entry (ht_h ht ! i)))(name \<mapsto> d)"
    using replace_data_Some [OF w c] by metis
  let ?ht = "ht\<lparr>ht_h := (ht_h ht)[i := us]\<rparr>"
  have "\<forall>t \<in> set us. wf_node t \<and> node_key t \<in> set (map node_key (ht_h ht ! i))"
    using us(3) us(2) [symmetric] by auto
  then have "buckets_ok (unat (ht_len ht)) ((ht_h ht)[i := us])"
    using b i(2) by (intro buckets_ok_update) (auto simp: buckets_ok_def)
  moreover have "map node_key (ht_nodes ?ht) = map node_key (ht_nodes ht)"
    using i(2) us(2) by (simp add: ht_nodes_def concat_update_at concat_split_at [of i "ht_h ht"])
  then have "distinct (map node_key (ht_nodes ?ht))" "length (ht_nodes ?ht) = length (ht_nodes ht)"
    using d by (auto dest: map_eq_imp_length_eq)
  moreover have "name \<notin> dom (map_of (map entry (concat (take i (ht_h ht)))))"
    using map_of_no_key [OF no_key_elsewhere [OF b i(3)]] by (auto simp: domIff)
  then have "ht_map ?ht = (ht_map ht)(name \<mapsto> d)"
    using i(2) us(4)
    by (simp add: ht_map_def ht_nodes_def concat_update_at concat_split_at [of i "ht_h ht"]
        map_add_upd map_add_upd_left del: map_add_assoc)
  ultimately show ?thesis
    using inv i us(1) by (intro that [of ?ht]) (auto simp: insert_ht_def ht_inv_def)
qed

text \<open>Both operations change one bucket, giving the nodes \<open>ts\<close>, and then rescale when \<open>c\<close> says so.\<close>

lemma resize_ok:
  assumes "0 < unat (ht_len ht)" and "unat (ht_len ht) \<le> 2 ^ 30" and "buckets_ok (unat (ht_len ht)) (ht_h ht)"
    and "mset (ht_nodes ht) = mset ts" and "distinct (map node_key ts)" and "unat (ht_num ht) = length ts"
    and "\<not> c \<Longrightarrow> length ts < 2 * unat (ht_len ht)"
    and "c \<Longrightarrow> 0 < unat len \<and> length ts < 2 * unat len \<and> unat len \<le> 2 ^ 30"
  obtains ht' where "(if c then rescale ht len else Inr ht) = Inr ht'" and "ht_inv ht'"
    and "ht_map ht' = map_of (map entry ts)" and "ht_num ht' = ht_num ht"
    and "ht_len ht' = (if c then len else ht_len ht)"
proof (cases c)
  case True
  have "\<forall>t \<in> set (ht_nodes ht). wf_node t" using buckets_ok_wf [OF assms(3)] by (simp add: ht_nodes_def)
  then obtain ht' where r: "rescale ht len = Inr ht'" "ht_len ht' = len" "ht_num ht' = ht_num ht"
      "buckets_ok (unat len) (ht_h ht')" "mset (ht_nodes ht') = mset (ht_nodes ht)"
    using rescale_ok [of len ht] assms(8) [OF True] by metis
  have "ht_inv ht' \<and> ht_map ht' = map_of (map entry ts)"
    using r assms(4-6) assms(8) [OF True] by (intro ht_inv_rescaled) auto
  then show ?thesis using that True r by simp
next
  case False
  have "ht_inv ht \<and> ht_map ht = map_of (map entry ts)"
    using assms(1-6) assms(7) [OF False] by (intro ht_inv_rescaled) auto
  then show ?thesis using that False by simp
qed

text \<open>The bucket of a key, and what the invariant says of it.\<close>

lemma ht_inv_bucket:
  assumes "ht_inv ht"
  obtains i where "slot ht name = Inr i" and "i < length (ht_h ht)" and "i = unat (hash name) mod unat (ht_len ht)"
    and "\<forall>t \<in> set (ht_h ht ! i). wf_node t"
    and "name \<in> set (map node_key (ht_h ht ! i)) \<longleftrightarrow> ht_map ht name \<noteq> None"
proof -
  obtain i where i: "slot ht name = Inr i" "i < length (ht_h ht)" "i = unat (hash name) mod unat (ht_len ht)"
    using ht_inv_slot [OF assms] .
  moreover have "\<forall>t \<in> set (ht_h ht ! i). wf_node t"
    using assms i(2) by (auto simp: ht_inv_def buckets_ok_def)
  moreover have "name \<in> set (map node_key (ht_h ht ! i)) \<longleftrightarrow> ht_map ht name \<noteq> None"
    using ht_map_slot [OF assms i(3,2)] by (auto simp: map_of_eq_None_iff image_image)
  ultimately show ?thesis by (rule that)
qed

lemma push_node:
  assumes inv: "ht_inv ht" and i: "i < length (ht_h ht)" "i = unat (hash name) mod unat (ht_len ht)"
    and n: "wf_node n" "node_key n = name" and absent: "ht_map ht name = None"
    and ht': "ht' = ht\<lparr>ht_h := (ht_h ht)[i := n # ht_h ht ! i], ht_num := ht_num ht + 1\<rparr>"
  shows "buckets_ok (unat (ht_len ht)) (ht_h ht')" and "mset (ht_nodes ht') = mset (n # ht_nodes ht)"
    and "distinct (map node_key (n # ht_nodes ht))"
    and "map_of (map entry (n # ht_nodes ht)) = (ht_map ht)(name \<mapsto> nd_data n)"
    and "unat (ht_num ht') = unat (ht_num ht) + 1"
proof -
  note I = inv [unfolded ht_inv_def]
  show "buckets_ok (unat (ht_len ht)) (ht_h ht')" using I n i ht' by (auto intro!: buckets_ok_Cons)
  show "mset (ht_nodes ht') = mset (n # ht_nodes ht)"
    using i(1) by (simp add: ht' ht_nodes_def concat_update_at concat_split_at [of i "ht_h ht"])
  have "name \<notin> set (map node_key (ht_nodes ht))"
    using absent by (auto simp: ht_map_def map_of_eq_None_iff image_image)
  then show "distinct (map node_key (n # ht_nodes ht))" using I n(2) by simp
  show "map_of (map entry (n # ht_nodes ht)) = (ht_map ht)(name \<mapsto> nd_data n)" using n by (simp add: ht_map_def)
  show "unat (ht_num ht') = unat (ht_num ht) + 1" using I by (simp add: ht' unat_word_ariths)
qed

lemma insert_absent:
  assumes inv: "ht_inv ht" and room: "ht_room ht" and k: "good_key name"
    and absent: "ht_map ht name = None"
  obtains ht' where "insert_ht ht name d = Inr ht'" and "ht_inv ht'"
    and "ht_map ht' = (ht_map ht)(name \<mapsto> d)" and "unat (ht_num ht') = unat (ht_num ht) + 1"
    and "ht_len ht' = (if 2 * unat (ht_len ht) \<le> unat (ht_num ht) + 1
                        then push_bit 1 (ht_len ht) else ht_len ht)"
proof -
  have c: "is_cstring name" using k by (simp add: good_key_def)
  obtain i where i: "slot ht name = Inr i" "i < length (ht_h ht)" "i = unat (hash name) mod unat (ht_len ht)"
      "\<forall>t \<in> set (ht_h ht ! i). wf_node t" "name \<in> set (map node_key (ht_h ht ! i)) \<longleftrightarrow> ht_map ht name \<noteq> None"
    using ht_inv_bucket [OF inv] .
  have none: "replace_data (ht_h ht ! i) name d = Inr None"
    using i(5) absent by (intro replace_data_None [OF i(4) c]) simp
  obtain n where n: "newNode name d = Inr n" "wf_node n" "node_key n = name" "nd_data n = d"
    using newNode_good [OF k] .
  define mid where "mid = ht\<lparr>ht_h := (ht_h ht)[i := n # ht_h ht ! i], ht_num := ht_num ht + 1\<rparr>"
  note p = push_node [OF inv i(2,3) n(2,3) absent mid_def]
  have len: "0 < unat (ht_len ht)" "unat (ht_len ht) \<le> 2 ^ 30" "unat (ht_num ht) < 2 ^ 29" "ht_len mid = ht_len ht"
    and num: "unat (ht_num ht) = length (ht_nodes ht)" "unat (ht_num ht) < 2 * unat (ht_len ht)"
    using inv room by (simp_all add: ht_inv_def ht_room_def mid_def)
  have dbl: "unat (push_bit 1 (ht_len ht)) = 2 * unat (ht_len ht)" "unat (ht_len ht * 2) = 2 * unat (ht_len ht)"
    using unat_double [of "ht_len ht"] len(2) by auto
  let ?c = "2 * unat (ht_len ht) \<le> unat (ht_num ht) + 1"
  have "ht_len ht * 2 \<le> ht_num ht + 1 \<longleftrightarrow> ?c"
    using dbl(2) p(5) by (simp add: word_le_nat_alt mid_def)
  then have ins: "insert_ht ht name d = (if ?c then rescale mid (push_bit 1 (ht_len ht)) else Inr mid)"
    by (simp add: insert_ht_def i(1) none n(1) mid_def)
  obtain ht' where "(if ?c then rescale mid (push_bit 1 (ht_len ht)) else Inr mid) = Inr ht'" "ht_inv ht'"
      "ht_map ht' = map_of (map entry (n # ht_nodes ht))" "ht_num ht' = ht_num mid"
      "ht_len ht' = (if ?c then push_bit 1 (ht_len ht) else ht_len mid)"
    by (rule resize_ok [of mid "n # ht_nodes ht" ?c "push_bit 1 (ht_len ht)"]) (use p len num dbl(1) in auto)
  then show ?thesis using that ins p(4,5) n(4) len(4) by simp
qed

lemma drop_node:
  assumes inv: "ht_inv ht" and i: "i < length (ht_h ht)"
    and us: "mset (ht_h ht ! i) = add_mset t (mset us)" "node_key t = name"
    and ht': "ht' = ht\<lparr>ht_h := (ht_h ht)[i := us], ht_num := ht_num ht - 1\<rparr>"
  shows "buckets_ok (unat (ht_len ht)) (ht_h ht')" and "distinct (map node_key (ht_nodes ht'))"
    and "map_of (map entry (ht_nodes ht')) = (ht_map ht)(name := None)"
    and "0 < unat (ht_num ht)" and "length (ht_nodes ht') = unat (ht_num ht) - 1"
    and "unat (ht_num ht') = unat (ht_num ht) - 1"
proof -
  note I = inv [unfolded ht_inv_def]
  have "set us \<subseteq> set (ht_h ht ! i)" using us(1) by (metis set_mset_mset set_mset_add_mset_insert subset_insertI)
  then show "buckets_ok (unat (ht_len ht)) (ht_h ht')"
    using I i by (auto simp: ht' buckets_ok_def nth_list_update split: if_splits)
  have m: "mset (ht_nodes ht) = add_mset t (mset (ht_nodes ht'))"
    using i us(1) by (simp add: ht' ht_nodes_def concat_update_at concat_split_at [of i "ht_h ht"])
  then show "distinct (map node_key (ht_nodes ht'))"
    using I distinct_keys_mset [of "ht_nodes ht" "t # ht_nodes ht'"] by simp
  show "map_of (map entry (ht_nodes ht')) = (ht_map ht)(name := None)"
    using map_of_entry_remove [OF m] I us(2) by (simp add: ht_map_def)
  show num: "0 < unat (ht_num ht)" "length (ht_nodes ht') = unat (ht_num ht) - 1"
    using I mset_eq_length [of "ht_nodes ht" "t # ht_nodes ht'"] m by auto
  show "unat (ht_num ht') = unat (ht_num ht) - 1"
    using num(1) unat_sub [of 1 "ht_num ht"] by (simp add: ht' word_le_nat_alt Suc_leI)
qed

lemma delete_present:
  assumes inv: "ht_inv ht" and k: "is_cstring name" and present: "ht_map ht name \<noteq> None"
    and spare: "ht_spare ht"
  obtains ht' where "delete_ht ht name = Inr ht'" and "ht_inv ht'"
    and "ht_map ht' = (ht_map ht)(name := None)" and "unat (ht_num ht') = unat (ht_num ht) - 1"
    and "ht_len ht' = (if 2 * (unat (ht_num ht) - 1) < unat (ht_len ht)
                        then drop_bit 1 (ht_len ht) else ht_len ht)"
proof -
  obtain i where i: "slot ht name = Inr i" "i < length (ht_h ht)" "i = unat (hash name) mod unat (ht_len ht)"
      "\<forall>t \<in> set (ht_h ht ! i). wf_node t" "name \<in> set (map node_key (ht_h ht ! i)) \<longleftrightarrow> ht_map ht name \<noteq> None"
    using ht_inv_bucket [OF inv] .
  obtain us t where us: "deleteNode (ht_h ht ! i) name = Inr us"
      "mset (ht_h ht ! i) = add_mset t (mset us)" "node_key t = name"
    using deleteNode_present [OF i(4) k] i(5) present by blast
  define mid where "mid = ht\<lparr>ht_h := (ht_h ht)[i := us], ht_num := ht_num ht - 1\<rparr>"
  note p = drop_node [OF inv i(2) us(2,3) mid_def]
  have len: "0 < unat (ht_len ht)" "unat (ht_len ht) \<le> 2 ^ 30" "ht_len mid = ht_len ht"
    and num: "unat (ht_num ht) < 2 * unat (ht_len ht)"
    using inv by (simp_all add: ht_inv_def mid_def)
  let ?c = "2 * (unat (ht_num ht) - 1) < unat (ht_len ht)"
  have "unat (ht_num ht - 1) < 2 ^ 31" using p(6) num len(2) by (simp add: mid_def)
  then have "unat ((ht_num ht - 1) * 2) = 2 * (unat (ht_num ht) - 1)"
    using conjunct2 [OF unat_double [of "ht_num ht - 1"]] p(6) by (simp add: mid_def)
  then have "(ht_num ht - 1) * 2 < ht_len ht \<longleftrightarrow> ?c" by (simp only: word_less_nat_alt)
  then have del: "delete_ht ht name = (if ?c then rescale mid (drop_bit 1 (ht_len ht)) else Inr mid)"
    by (simp add: delete_ht_def i(1) us(1) mid_def)
  have half: "0 < unat (drop_bit 1 (ht_len ht)) \<and> length (ht_nodes mid) < 2 * unat (drop_bit 1 (ht_len ht)) \<and>
      unat (drop_bit 1 (ht_len ht)) \<le> 2 ^ 30" if ?c
    using that spare p(4,5) len num unfolding unat_halve ht_spare_def by auto
  obtain ht' where "(if ?c then rescale mid (drop_bit 1 (ht_len ht)) else Inr mid) = Inr ht'" "ht_inv ht'"
      "ht_map ht' = map_of (map entry (ht_nodes mid))" "ht_num ht' = ht_num mid"
      "ht_len ht' = (if ?c then drop_bit 1 (ht_len ht) else ht_len mid)"
    by (rule resize_ok [of mid "ht_nodes mid" ?c "drop_bit 1 (ht_len ht)"])
      (use p len num half in \<open>auto simp del: not_less\<close>)
  then show ?thesis using that del p(3,6) len(3) by simp
qed

section \<open>The contract of a table of C strings\<close>

text \<open>
  What the cache, the name compression, the command line and the local file rely on. The
  promises are stated over the abstract map only: looking a key up, storing a key of fewer
  than 50 bytes, and removing a key that is there from a map that keeps another one.
\<close>

locale string_table =
  fixes inv :: "'t \<Rightarrow> bool"
    and alpha :: "'t \<Rightarrow> cstring \<Rightarrow> 'v option"
    and get :: "'t \<Rightarrow> cstring \<Rightarrow> 'v option res"
    and put :: "'t \<Rightarrow> cstring \<Rightarrow> 'v \<Rightarrow> 't res"
    and del :: "'t \<Rightarrow> cstring \<Rightarrow> 't res"
  assumes finite_alpha: "inv t \<Longrightarrow> finite (dom (alpha t))"
    and good_alpha: "inv t \<Longrightarrow> k \<in> dom (alpha t) \<Longrightarrow> good_key k"
    and get_ok: "inv t \<Longrightarrow> is_cstring k \<Longrightarrow> get t k = Inr (alpha t k)"
    and put_ok: "inv t \<Longrightarrow> card (dom (alpha t)) < 2 ^ 29 \<Longrightarrow> good_key k \<Longrightarrow>
      \<exists>t'. put t k v = Inr t' \<and> inv t' \<and> alpha t' = (alpha t)(k \<mapsto> v)"
    and del_ok: "inv t \<Longrightarrow> k \<in> dom (alpha t) \<Longrightarrow> 1 < card (dom (alpha t)) \<Longrightarrow>
      \<exists>t'. del t k = Inr t' \<and> inv t' \<and> alpha t' = (alpha t)(k := None)"
begin

lemma get_put:
  assumes "inv t" and "card (dom (alpha t)) < 2 ^ 29" and "good_key k" and "is_cstring k'"
  shows "bindE (put t k v) (\<lambda>t'. get t' k') = (if k' = k then Inr (Some v) else get t k')"
  using put_ok [OF assms(1,2,3), of v] assms(1,4) get_ok by auto

lemma get_del:
  assumes "inv t" and "k \<in> dom (alpha t)" and "1 < card (dom (alpha t))" and "is_cstring k'"
  shows "bindE (del t k) (\<lambda>t'. get t' k') = (if k' = k then Inr None else get t k')"
  using del_ok [OF assms(1,2,3)] assms(1,4) get_ok by auto

text \<open>Filling a table from a list of pairs: the last value of a key wins.\<close>

lemma put_list_ok:
  assumes "inv t" and "card (dom (alpha t)) + length kvs \<le> 2 ^ 29"
    and "\<forall>kv \<in> set kvs. good_key (fst kv)"
  obtains t' where "foldE (\<lambda>t kv. put t (fst kv) (snd kv)) t kvs = Inr t'" and "inv t'"
    and "alpha t' = alpha t ++ map_of (rev kvs)"
proof -
  have "\<exists>t'. foldE (\<lambda>t kv. put t (fst kv) (snd kv)) t kvs = Inr t' \<and> inv t' \<and>
      alpha t' = alpha t ++ map_of (rev kvs)"
    using assms
  proof (induction kvs arbitrary: t)
    case (Cons kv kvs)
    obtain t' where t': "put t (fst kv) (snd kv) = Inr t'" "inv t'"
        "alpha t' = (alpha t)(fst kv \<mapsto> snd kv)"
      using put_ok [of t "fst kv" "snd kv"] Cons.prems by auto
    have "card (dom (alpha t')) \<le> Suc (card (dom (alpha t)))"
      using t'(3) by (simp add: card_insert_le_m1 card_insert_if finite_alpha [OF Cons.prems(1)])
    then obtain t'' where "foldE (\<lambda>t kv. put t (fst kv) (snd kv)) t' kvs = Inr t''" "inv t''"
        "alpha t'' = alpha t' ++ map_of (rev kvs)"
      using Cons.IH [OF t'(2)] Cons.prems by auto
    with t' show ?case
      by (cases kv) (auto simp: map_add_assoc [symmetric] simp flip: fun_upd_def)
  qed auto
  with that show ?thesis by blast
qed

end

lemma card_dom_ht_map:
  assumes "ht_inv ht"
  shows "card (dom (ht_map ht)) = unat (ht_num ht)"
proof -
  have "dom (ht_map ht) = set (map node_key (ht_nodes ht))"
    by (auto simp: ht_map_def dom_map_of_conv_image_fst image_image)
  with assms show ?thesis
    by (simp add: ht_inv_def distinct_card del: set_map)
qed

interpretation ht: string_table ht_inv ht_map search insert_ht delete_ht
proof
  fix t :: "'a HashTab" and k and v :: 'a
  assume inv: "ht_inv t"
  show "finite (dom (ht_map t))" by (simp add: ht_map_def finite_dom_map_of)
  show "good_key k" if "k \<in> dom (ht_map t)"
    using that ht_inv_wf [OF inv]
    by (auto simp: ht_map_def dom_map_of_conv_image_fst image_image wf_node_def)
  show "search t k = Inr (ht_map t k)" if "is_cstring k"
    using search_ok [OF inv that] .
  show "\<exists>t'. insert_ht t k v = Inr t' \<and> ht_inv t' \<and> ht_map t' = (ht_map t)(k \<mapsto> v)"
    if "card (dom (ht_map t)) < 2 ^ 29" "good_key k"
  proof (cases "ht_map t k")
    case None
    have "ht_room t" using that(1) card_dom_ht_map [OF inv] by (simp add: ht_room_def)
    then show ?thesis using insert_absent [OF inv _ that(2) None, of v] by metis
  next
    case (Some x)
    then show ?thesis using insert_present [OF inv that(2), of v] by fastforce
  qed
  show "\<exists>t'. delete_ht t k = Inr t' \<and> ht_inv t' \<and> ht_map t' = (ht_map t)(k := None)"
    if "k \<in> dom (ht_map t)" "1 < card (dom (ht_map t))"
  proof -
    have "ht_spare t" using that(2) card_dom_ht_map [OF inv] by (simp add: ht_spare_def)
    moreover have "good_key k"
      using that(1) ht_inv_wf [OF inv]
      by (auto simp: ht_map_def dom_map_of_conv_image_fst image_image wf_node_def)
    ultimately show ?thesis
      using delete_present [OF inv, of k] that(1) unfolding good_key_def by (metis domIff)
  qed
qed

section \<open>Outside the contract\<close>

text \<open>A table that has been halved down to no bucket at all faults on every use.\<close>

lemma ht_len_0_dead:
  assumes "ht_len ht = 0"
  shows "search ht k = Inl Div_By_Zero" "insert_ht ht k v = Inl Div_By_Zero"
    "delete_ht ht k = Inl Div_By_Zero"
  using assms by (simp_all add: slot_def search_def insert_ht_def delete_ht_def)

definition empty_tab :: "32 word \<Rightarrow> 'v HashTab" where
  "empty_tab l = \<lparr>ht_h = replicate (unat l) [], ht_len = l, ht_num = 0\<rparr>"

lemma NewHashTab_empty_tab: "NewHashTab = empty_tab 1024"
  by (simp add: NewHashTab_def empty_tab_def INIT_SIZE_def)

lemma empty_tab_inv:
  assumes "0 < unat l" and "unat l \<le> 2 ^ 30"
  shows "ht_inv (empty_tab l)" "ht_map (empty_tab l) = Map.empty"
  using assms buckets_ok_empty [OF assms(1)]
  by (simp_all add: ht_inv_def empty_tab_def ht_map_def ht_nodes_def concat_replicate_trivial)

text \<open>Storing and removing one key leaves an empty table of half the buckets.\<close>

lemma insert_delete_halves:
  fixes v :: 'v
  assumes "0 < unat l" and "unat l \<le> 1024" and k: "good_key k"
  shows "bindE (insert_ht (empty_tab l) k v) (\<lambda>t. delete_ht t k) = Inr (empty_tab (drop_bit 1 l))"
proof -
  let ?i = "unat (hash k) mod unat l"
  have l: "l \<noteq> 0" and i: "?i < unat l" using assms(1) by auto
  obtain n where n: "newNode k v = Inr n" "wf_node n" "node_key n = k" "nd_data n = v"
    using newNode_good [OF k] .
  have eq: "streq (nd_name n) k = Inr True"
    using wf_node_streq [OF n(2)] k n(3) by (auto simp: good_key_def)
  have big: "\<not> l * 2 \<le> 1"
    using conjunct2 [OF unat_double [of l]] assms(1,2) by (simp add: word_le_nat_alt)
  let ?t = "\<lparr>ht_h = (replicate (unat l) [])[?i := [n]], ht_len = l, ht_num = 1\<rparr>"
  have ins: "insert_ht (empty_tab l) k v = Inr ?t"
    using l i big by (simp add: insert_ht_def slot_def empty_tab_def n(1))
  have emp: "(replicate (unat l) ([] :: 'v node list))[?i := []] = replicate (unat l) []"
    using i by (simp add: list_update_same_conv)
  have "delete_ht ?t k = Inr (empty_tab (drop_bit 1 l))"
    using l i eq emp
    by (simp add: delete_ht_def slot_def rescale_def empty_tab_def word_gt_0 concat_replicate_trivial)
  with ins show ?thesis by simp
qed

lemma insert_delete_rounds:
  assumes "\<forall>kv \<in> set kvs. good_key (fst kv)" and "unat l \<le> 1024"
    and "kvs = [] \<or> 2 ^ length kvs \<le> 2 * unat l"
  shows "foldE (\<lambda>t kv. bindE (insert_ht t (fst kv) (snd kv)) (\<lambda>t'. delete_ht t' (fst kv)))
           (empty_tab l) kvs = Inr (empty_tab (drop_bit (length kvs) l))"
  using assms
proof (induction kvs arbitrary: l)
  case (Cons kv kvs)
  have le: "2 ^ length kvs \<le> unat l" using Cons.prems(3) by simp
  then have pos: "0 < unat l" by (rule order.strict_trans2 [rotated]) simp
  have half: "bindE (insert_ht (empty_tab l) (fst kv) (snd kv)) (\<lambda>t'. delete_ht t' (fst kv))
      = Inr (empty_tab (drop_bit 1 l))"
    by (rule insert_delete_halves) (use pos Cons.prems in auto)
  have d: "drop_bit (length kvs) (drop_bit 1 l) = drop_bit (Suc (length kvs)) l"
    by (simp add: drop_bit_drop_bit)
  have "kvs = [] \<or> 2 ^ length kvs \<le> 2 * unat (drop_bit 1 l)"
    using le unfolding unat_halve by (cases kvs) auto
  then show ?case
    using Cons.IH [of "drop_bit 1 l"] Cons.prems unat_halve [of l] d
    by (simp only: foldE.simps half bindE.simps) (simp del: One_nat_def)
qed simp

text \<open>A name of 50 bytes or more fills the written part of its node and has no terminator.\<close>

lemma streq_unterminated:
  "is_cstring s \<Longrightarrow> n \<le> length s \<Longrightarrow> streq (map Some (take n s) @ None # a) s = Inl Uninit_Read"
proof (induction s arbitrary: n)
  case (Cons b s)
  then show ?case by (cases n) auto
qed simp

lemma cstr_unterminated:
  "is_cstring s \<Longrightarrow> cstr (map Some s @ None # a) = Inl Uninit_Read"
  by (induction s) auto

lemma newNode_long:
  assumes "is_cstring name" and "HASH_KEY_MAX_LEN \<le> length name"
  obtains n where "newNode name d = Inr n" and "cstr (nd_name n) = Inl Uninit_Read"
    and "streq (nd_name n) name = Inl Uninit_Read"
proof -
  let ?a = "map Some (take HASH_KEY_MAX_LEN name) @ [None]"
  have rest: "drop HASH_KEY_MAX_LEN (uninit (HASH_KEY_MAX_LEN + 1)) = [None]"
    unfolding uninit_def drop_replicate by simp
  have len: "HASH_KEY_MAX_LEN \<le> length (uninit (HASH_KEY_MAX_LEN + 1))"
    by (simp add: uninit_def)
  have "newNode name d = Inr \<lparr>nd_name = ?a, nd_data = d\<rparr>"
    unfolding newNode_def strncpy_def rest using assms(2) len by simp
  moreover have "cstr ?a = Inl Uninit_Read"
    by (rule cstr_unterminated [OF is_cstring_take_drop(1) [OF assms(1)]])
  moreover have "streq ?a name = Inl Uninit_Read"
    by (rule streq_unterminated [OF assms])
  ultimately show ?thesis using that [of "\<lparr>nd_name = ?a, nd_data = d\<rparr>"] by simp
qed

lemma move_nodes_unterminated:
  "t \<in> set ts \<Longrightarrow> cstr (nd_name t) = Inl Uninit_Read \<Longrightarrow>
     \<forall>u \<in> set ts. wf_node u \<or> cstr (nd_name u) = Inl Uninit_Read \<Longrightarrow> 0 < sz \<Longrightarrow>
     move_nodes sz h ts = Inl Uninit_Read"
proof (induction ts arbitrary: h)
  case (Cons u ts)
  then show ?case
    by (cases "cstr (nd_name u) = Inl Uninit_Read") (auto simp: wf_node_def Let_def)
qed simp

lemma insert_long_search:
  assumes inv: "ht_inv ht" and c: "is_cstring name" and long: "HASH_KEY_MAX_LEN \<le> length name"
  shows "insert_ht ht name d = Inl Uninit_Read \<or>
     (\<exists>ht'. insert_ht ht name d = Inr ht' \<and> search ht' name = Inl Uninit_Read)"
proof -
  obtain i where i: "slot ht name = Inr i" "i < length (ht_h ht)"
      "i = unat (hash name) mod unat (ht_len ht)"
    using ht_inv_slot [OF inv] .
  obtain n where n: "newNode name d = Inr n" "cstr (nd_name n) = Inl Uninit_Read"
      "streq (nd_name n) name = Inl Uninit_Read"
    using newNode_long [OF c long] .
  have "\<forall>t \<in> set (ht_nodes ht). wf_node t" using ht_inv_wf [OF inv] by blast
  then have w: "\<forall>t \<in> set (ht_h ht ! i). wf_node t"
    using i(2) by (auto simp: ht_nodes_def)
  then have "name \<notin> set (map node_key (ht_h ht ! i))"
    using long by (auto simp: wf_node_def good_key_def)
  then have none: "replace_data (ht_h ht ! i) name d = Inr None"
    by (rule replace_data_None [OF w c])
  let ?ht = "ht\<lparr>ht_h := (ht_h ht)[i := n # ht_h ht ! i], ht_num := ht_num ht + 1\<rparr>"
  have ins: "insert_ht ht name d = (if ht_len ht * 2 \<le> ht_num ht + 1
      then rescale ?ht (push_bit 1 (ht_len ht)) else Inr ?ht)"
    by (simp add: insert_ht_def i(1) none n(1))
  have "search ?ht name = Inl Uninit_Read"
    using i(1,2) n(3) by (auto simp: search_def slot_def split: if_splits)
  moreover have "rescale ?ht (push_bit 1 (ht_len ht)) = Inl Uninit_Read"
  proof -
    have "unat (push_bit 1 (ht_len ht)) = 2 * unat (ht_len ht)"
      using conjunct1 [OF unat_double [of "ht_len ht"]] inv by (simp add: ht_inv_def)
    then have "0 < unat (push_bit 1 (ht_len ht))" using inv by (simp add: ht_inv_def)
    moreover have "set (concat ((ht_h ht)[i := n # ht_h ht ! i])) = Set.insert n (set (ht_nodes ht))"
      unfolding ht_nodes_def by (rule set_concat_update_Cons [OF i(2)])
    ultimately show ?thesis
      using n(2) ht_inv_wf [OF inv] move_nodes_unterminated [of n "concat ((ht_h ht)[i := n # ht_h ht ! i])"]
      by (simp add: rescale_def)
  qed
  ultimately show ?thesis using ins by auto
qed

text \<open>Deleting a name that is not there.\<close>

lemma delete_absent:
  assumes inv: "ht_inv ht" and c: "is_cstring name" and absent: "ht_map ht name = None"
    and load: "\<not> (ht_num ht - 1) * 2 < ht_len ht"
  shows "delete_ht ht name = Inr (ht\<lparr>ht_num := ht_num ht - 1\<rparr>)"
proof -
  obtain i where i: "slot ht name = Inr i" "i < length (ht_h ht)"
      "i = unat (hash name) mod unat (ht_len ht)"
    using ht_inv_slot [OF inv] .
  have w: "\<forall>t \<in> set (ht_h ht ! i). wf_node t"
    using inv i(2) by (auto simp: ht_inv_def buckets_ok_def)
  have "name \<notin> set (map node_key (ht_h ht ! i))"
    using absent ht_map_slot [OF inv i(3,2)] by (auto simp: map_of_eq_None_iff image_image)
  then have "deleteNode (ht_h ht ! i) name = Inr (ht_h ht ! i)"
    by (rule deleteNode_absent [OF w c])
  with i(1) load show ?thesis by (simp add: delete_ht_def list_update_id)
qed

section \<open>Properties\<close>

lemma good_key_bytes_example: "good_key (bytes ''qq.com'')" "good_key (bytes ''baidu.com'')"
  by (simp_all add: good_key_def HASH_KEY_MAX_LEN_def is_cstring_def bytes_def)

text \<open>
  C20. Storing a name of fewer than 50 bytes succeeds, keeps the invariant of the table (load
  below 2, every node in the bucket of its hash, whether or not the table was doubled), and
  from then on \<open>search\<close> returns the stored data for that name and what it returned before for
  every other one.
\<close>
theorem hash_insert_correct:
  assumes "ht_inv ht" and "unat (ht_num ht) < 2 ^ 29" and "good_key name"
  shows "\<exists>ht'. insert_ht ht name d = Inr ht' \<and> ht_inv ht' \<and>
     (\<forall>k. is_cstring k \<longrightarrow>
        search ht' k = (if k = name then Inr (Some d) else search ht k))"
proof -
  have "card (dom (ht_map ht)) < 2 ^ 29"
    using assms(2) card_dom_ht_map [OF assms(1)] by simp
  then obtain ht' where "insert_ht ht name d = Inr ht'" "ht_inv ht'"
      "ht_map ht' = (ht_map ht)(name \<mapsto> d)"
    using ht.put_ok [OF assms(1) _ assms(3), of d] by blast
  then show ?thesis
    using assms(1) by (intro exI [of _ ht']) (auto simp: ht.get_ok)
qed

theorem hash_insert_correct_witness:
  "\<exists>ht'. insert_ht NewHashTab (bytes ''qq.com'') (7 :: nat) = Inr ht' \<and>
     search ht' (bytes ''qq.com'') = Inr (Some 7)"
proof -
  have "unat (ht_num (NewHashTab :: nat HashTab)) < 2 ^ 29" by (simp add: NewHashTab_def)
  from hash_insert_correct [OF NewHashTab_ok(1) this good_key_bytes_example(1), of 7]
  show ?thesis using good_key_bytes_example(1) unfolding good_key_def by auto
qed

text \<open>
  C21. Removing a stored name succeeds, keeps the invariant and forgets exactly that name,
  provided the table is not a single bucket with a single node.
\<close>
theorem hash_delete_correct:
  assumes "ht_inv ht" and "is_cstring name" and "search ht name = Inr (Some d)"
    and "1 < unat (ht_len ht) \<or> 1 < unat (ht_num ht)"
  shows "\<exists>ht'. delete_ht ht name = Inr ht' \<and> ht_inv ht' \<and>
     unat (ht_num ht') + 1 = unat (ht_num ht) \<and>
     (\<forall>k. is_cstring k \<longrightarrow> search ht' k = (if k = name then Inr None else search ht k))"
proof -
  have some: "ht_map ht name \<noteq> None"
    using assms(3) ht.get_ok [OF assms(1,2)] by auto
  then have "0 < card (dom (ht_map ht))"
    using ht.finite_alpha [OF assms(1)] by (auto simp: card_gt_0_iff)
  then have pos: "0 < unat (ht_num ht)"
    using card_dom_ht_map [OF assms(1)] by simp
  obtain ht' where "delete_ht ht name = Inr ht'" "ht_inv ht'"
      "ht_map ht' = (ht_map ht)(name := None)" "unat (ht_num ht') = unat (ht_num ht) - 1"
    using delete_present [OF assms(1,2) some] assms(4) unfolding ht_spare_def by metis
  then show ?thesis
    using assms(1) pos by (intro exI [of _ ht']) (auto simp: ht.get_ok)
qed

theorem hash_delete_correct_witness:
  "\<exists>ht ht'. insert_ht NewHashTab (bytes ''qq.com'') (7 :: nat) = Inr ht \<and>
     delete_ht ht (bytes ''qq.com'') = Inr ht' \<and> search ht' (bytes ''qq.com'') = Inr None"
proof -
  let ?k = "bytes ''qq.com''"
  have c: "is_cstring ?k" using good_key_bytes_example(1) by (simp add: good_key_def)
  have "ht_room (NewHashTab :: nat HashTab)" "ht_map (NewHashTab :: nat HashTab) ?k = None"
    by (simp_all add: ht_room_def NewHashTab_def ht_map_def ht_nodes_def)
  then obtain ht where ht: "insert_ht NewHashTab ?k (7 :: nat) = Inr ht" "ht_inv ht"
      "ht_map ht = (ht_map NewHashTab)(?k \<mapsto> 7)" "ht_len ht = 1024"
    by (rule insert_absent [OF NewHashTab_ok(1) _ good_key_bytes_example(1)])
      (auto simp: NewHashTab_def INIT_SIZE_def)
  have "search ht ?k = Inr (Some 7)" using ht.get_ok [OF ht(2) c] ht(3) by simp
  then show ?thesis
    using hash_delete_correct [OF ht(2) c, of 7] ht(1,4) c by auto
qed

text \<open>
  A table that is emptied loses its buckets: from the 1024 buckets of \<open>NewHashTab\<close>, eleven
  rounds of storing a name and deleting it again (any names of fewer than 50 bytes, any data)
  leave a table with \<open>len = 0\<close>, on which the next \<open>search\<close>, \<open>insert\<close> or \<open>delete\<close> of any
  name divides by zero.
\<close>
theorem hash_shrinks_to_division_by_zero:
  assumes "length kvs = 11" and "\<forall>kv \<in> set kvs. good_key (fst kv)"
  shows "\<exists>ht. foldE (\<lambda>t kv. bindE (insert_ht t (fst kv) (snd kv)) (\<lambda>t'. delete_ht t' (fst kv)))
           NewHashTab kvs = Inr ht \<and>
     (\<forall>k v. search ht k = Inl Div_By_Zero \<and> insert_ht ht k v = Inl Div_By_Zero \<and>
            delete_ht ht k = Inl Div_By_Zero)"
proof -
  have "foldE (\<lambda>t kv. bindE (insert_ht t (fst kv) (snd kv)) (\<lambda>t'. delete_ht t' (fst kv)))
      (empty_tab 1024) kvs = Inr (empty_tab (drop_bit (length kvs) 1024))"
    using assms by (intro insert_delete_rounds) simp_all
  moreover have "drop_bit (length kvs) (1024 :: 32 word) = 0"
    unfolding assms(1) by (simp add: drop_bit_eq_div)
  ultimately show ?thesis
    by (intro exI [of _ "empty_tab 0"])
      (simp add: NewHashTab_empty_tab ht_len_0_dead, simp add: empty_tab_def ht_len_0_dead)
qed

theorem hash_shrinks_to_division_by_zero_witness:
  "\<exists>ht. foldE (\<lambda>t kv. bindE (insert_ht t (fst kv) (snd kv)) (\<lambda>t'. delete_ht t' (fst kv)))
       NewHashTab (replicate 11 (bytes ''qq.com'', 7 :: nat)) = Inr ht \<and>
     search ht (bytes ''baidu.com'') = Inl Div_By_Zero"
  using hash_shrinks_to_division_by_zero [of "replicate 11 (bytes ''qq.com'', 7 :: nat)"]
    good_key_bytes_example by auto

text \<open>
  A name of 50 bytes or more is stored without a terminator: in a well-formed table, the
  insertion itself (when it rehashes) or else the next \<open>search\<close> for the same name reads the
  byte of the node that nothing has initialised.
\<close>
theorem hash_long_key_reads_uninitialised:
  assumes "ht_inv ht" and "is_cstring name" and "50 \<le> length name"
  shows "insert_ht ht name d = Inl Uninit_Read \<or>
     (\<exists>ht'. insert_ht ht name d = Inr ht' \<and> search ht' name = Inl Uninit_Read)"
  using insert_long_search [OF assms(1,2)] assms(3) by (simp add: HASH_KEY_MAX_LEN_def)

theorem hash_long_key_reads_uninitialised_witness:
  "insert_ht NewHashTab (replicate 50 97) (7 :: nat) = Inl Uninit_Read \<or>
     (\<exists>ht'. insert_ht NewHashTab (replicate 50 97) (7 :: nat) = Inr ht' \<and>
        search ht' (replicate 50 97) = Inl Uninit_Read)"
  by (rule hash_long_key_reads_uninitialised [OF NewHashTab_ok(1)]) (simp_all add: is_cstring_def)

text \<open>
  Deleting a name that is not stored is not without effect: while the load keeps the table
  from being halved, all chains stay as they are but \<open>num\<close> is decremented, so that it no longer
  counts the nodes.
\<close>
theorem hash_delete_absent_miscounts:
  assumes "ht_inv ht" and "is_cstring name" and "search ht name = Inr None"
    and "0 < unat (ht_num ht)" and "unat (ht_len ht) \<le> 2 * (unat (ht_num ht) - 1)"
  shows "\<exists>ht'. delete_ht ht name = Inr ht' \<and> ht_h ht' = ht_h ht \<and> ht_len ht' = ht_len ht \<and>
     unat (ht_num ht') < length (ht_nodes ht') \<and> \<not> ht_inv ht'"
proof -
  have inv: "unat (ht_num ht) = length (ht_nodes ht)" "unat (ht_num ht) < 2 ^ 31"
    using assms(1) by (auto simp: ht_inv_def)
  have sub: "unat (ht_num ht - 1) = unat (ht_num ht) - 1"
    using assms(4) unat_sub [of 1 "ht_num ht"] by (simp add: word_le_nat_alt Suc_leI)
  then have "unat ((ht_num ht - 1) * 2) = 2 * (unat (ht_num ht) - 1)"
    using conjunct2 [OF unat_double [of "ht_num ht - 1"]] inv(2) by simp
  then have "\<not> (ht_num ht - 1) * 2 < ht_len ht"
    using assms(5) by (simp only: word_less_nat_alt)
  moreover have "ht_map ht name = None"
    using assms(3) ht.get_ok [OF assms(1,2)] by simp
  ultimately have "delete_ht ht name = Inr (ht\<lparr>ht_num := ht_num ht - 1\<rparr>)"
    using delete_absent [OF assms(1,2)] by blast
  moreover have "unat (ht_num ht - 1) < length (ht_nodes ht)"
    using sub inv(1) assms(4) by simp
  ultimately show ?thesis
    by (auto simp: ht_inv_def ht_nodes_def)
qed

text \<open>Two nodes in two buckets, as two insertions and some halvings leave them.\<close>

definition short_node :: "byte \<Rightarrow> nat node" where
  "short_node b = \<lparr>nd_name = map Some [b, 0] @ replicate 48 (Some 0) @ [None], nd_data = 0\<rparr>"

definition two_buckets :: "nat HashTab" where
  "two_buckets = \<lparr>ht_h = [[short_node 98], [short_node 97]], ht_len = 2, ht_num = 2\<rparr>"

lemma short_node_key: "b \<noteq> 0 \<Longrightarrow> cstr (nd_name (short_node b)) = Inr [b]"
  by (simp add: short_node_def)

lemma all_less_two: "(\<forall>i < (2 :: nat). P i) \<longleftrightarrow> P 0 \<and> P 1"
  by (auto simp: less_2_cases_iff)

lemma two_buckets_inv: "ht_inv two_buckets"
proof -
  have k: "node_key (short_node 97) = [97]" "node_key (short_node 98) = [98]"
    by (simp_all add: node_key_def short_node_key)
  have w: "wf_node (short_node 97)" "wf_node (short_node 98)"
    by (simp_all add: wf_node_def k short_node_key good_key_def HASH_KEY_MAX_LEN_def)
  have "unat (hash [97]) mod 2 = 1" "unat (hash [98]) mod 2 = 0"
    by (simp_all add: hash_def)
  then have "buckets_ok 2 [[short_node 98], [short_node 97]]"
    using k w by (simp add: buckets_ok_def all_less_two)
  then show ?thesis
    using k by (simp add: ht_inv_def two_buckets_def ht_nodes_def)
qed

theorem hash_delete_absent_miscounts_witness:
  "\<exists>ht'. delete_ht two_buckets [99] = Inr ht' \<and> ht_h ht' = ht_h two_buckets \<and> \<not> ht_inv ht'"
proof -
  have "search two_buckets [99] = Inr None"
    by (simp add: search_def slot_def two_buckets_def hash_def short_node_def)
  then show ?thesis
    using hash_delete_absent_miscounts [OF two_buckets_inv, of "[99]"]
    by (auto simp: two_buckets_def)
qed

end
