(* ===== verification/LinkList.thy ===== *)
theory LinkList
  imports C_Prelude
begin

text \<open>
  The doubly linked list of \<open>cache/linkList.c\<close>, over an explicit heap of nodes. A pointer is
  \<open>None\<close> (NULL) or an address; an address that is not allocated (never, or not any more) makes
  every access through it a fault. Head and tail are one sentinel node, whose data is never
  written. The data a node points to is owned by it alone (\<open>newLinkNode\<close> copies it and
  \<open>freeLinkNode\<close> frees it with the node), so it is stored in the node.
\<close>

section \<open>Data\<close>

type_synonym addr = nat

type_synonym ptr = "addr option"

record 'a linkNode =
  ln_data :: "'a option"
  ln_pre :: ptr
  ln_next :: ptr

record 'a heap =
  hp_cells :: "addr \<Rightarrow> 'a linkNode option"
  hp_brk :: addr

record LinkList =
  ll_head :: ptr
  ll_tail :: ptr

definition empty_heap :: "'a heap" where
  "empty_heap = \<lparr>hp_cells = (\<lambda>_. None), hp_brk = 0\<rparr>"

definition alloc :: "'a heap \<Rightarrow> addr \<Rightarrow> bool" where
  "alloc hp a \<longleftrightarrow> hp_cells hp a \<noteq> None"

definition nx :: "'a heap \<Rightarrow> addr \<Rightarrow> ptr" where
  "nx hp a = (case hp_cells hp a of None \<Rightarrow> None | Some n \<Rightarrow> ln_next n)"

definition pv :: "'a heap \<Rightarrow> addr \<Rightarrow> ptr" where
  "pv hp a = (case hp_cells hp a of None \<Rightarrow> None | Some n \<Rightarrow> ln_pre n)"

definition dat :: "'a heap \<Rightarrow> addr \<Rightarrow> 'a option" where
  "dat hp a = (case hp_cells hp a of None \<Rightarrow> None | Some n \<Rightarrow> ln_data n)"

section \<open>Access through a pointer\<close>

definition w_next :: "'a heap \<Rightarrow> addr \<Rightarrow> ptr \<Rightarrow> 'a heap" where
  "w_next hp a v = hp\<lparr>hp_cells := (hp_cells hp)(a := map_option (\<lambda>n. n\<lparr>ln_next := v\<rparr>) (hp_cells hp a))\<rparr>"

definition w_pre :: "'a heap \<Rightarrow> addr \<Rightarrow> ptr \<Rightarrow> 'a heap" where
  "w_pre hp a v = hp\<lparr>hp_cells := (hp_cells hp)(a := map_option (\<lambda>n. n\<lparr>ln_pre := v\<rparr>) (hp_cells hp a))\<rparr>"

definition w_data :: "'a heap \<Rightarrow> addr \<Rightarrow> 'a \<Rightarrow> 'a heap" where
  "w_data hp a v = hp\<lparr>hp_cells := (hp_cells hp)(a := map_option (\<lambda>n. n\<lparr>ln_data := Some v\<rparr>) (hp_cells hp a))\<rparr>"

definition free_cell :: "'a heap \<Rightarrow> addr \<Rightarrow> 'a heap" where
  "free_cell hp a = hp\<lparr>hp_cells := (hp_cells hp)(a := None)\<rparr>"

text \<open>The address behind a pointer, a fault for a null or a dangling one.\<close>

definition cell_at :: "'a heap \<Rightarrow> ptr \<Rightarrow> addr res" where
  "cell_at hp p = (case p of None \<Rightarrow> Inl Bad_Pointer
                      | Some a \<Rightarrow> if alloc hp a then Inr a else Inl Bad_Pointer)"

definition get_next :: "'a heap \<Rightarrow> ptr \<Rightarrow> ptr res" where
  "get_next hp p = bindE (cell_at hp p) (\<lambda>a. Inr (nx hp a))"

definition get_pre :: "'a heap \<Rightarrow> ptr \<Rightarrow> ptr res" where
  "get_pre hp p = bindE (cell_at hp p) (\<lambda>a. Inr (pv hp a))"

definition get_data :: "'a heap \<Rightarrow> ptr \<Rightarrow> 'a res" where
  "get_data hp p = bindE (cell_at hp p) (\<lambda>a.
     case dat hp a of None \<Rightarrow> Inl Uninit_Read | Some d \<Rightarrow> Inr d)"

definition set_next :: "'a heap \<Rightarrow> ptr \<Rightarrow> ptr \<Rightarrow> 'a heap res" where
  "set_next hp p v = bindE (cell_at hp p) (\<lambda>a. Inr (w_next hp a v))"

definition set_pre :: "'a heap \<Rightarrow> ptr \<Rightarrow> ptr \<Rightarrow> 'a heap res" where
  "set_pre hp p v = bindE (cell_at hp p) (\<lambda>a. Inr (w_pre hp a v))"

definition set_data :: "'a heap \<Rightarrow> ptr \<Rightarrow> 'a \<Rightarrow> 'a heap res" where
  "set_data hp p v = bindE (cell_at hp p) (\<lambda>a. Inr (w_data hp a v))"

section \<open>Operations\<close>

text \<open>\<open>malloc\<close> returns an address that was never used before.\<close>

definition malloc_node :: "'a heap \<Rightarrow> 'a linkNode \<Rightarrow> 'a heap \<times> ptr" where
  "malloc_node hp n =
     (hp\<lparr>hp_cells := (hp_cells hp)(hp_brk hp \<mapsto> n), hp_brk := Suc (hp_brk hp)\<rparr>, Some (hp_brk hp))"

definition newLinkNode :: "'a heap \<Rightarrow> 'a \<Rightarrow> 'a heap \<times> ptr" where
  "newLinkNode hp d = malloc_node hp \<lparr>ln_data = Some d, ln_pre = None, ln_next = None\<rparr>"

definition freeLinkNode :: "'a heap \<Rightarrow> ptr \<Rightarrow> 'a heap res" where
  "freeLinkNode hp nod =
     bindE (cell_at hp nod) (\<lambda>a. Inr (free_cell hp a))"

definition NewLinkList :: "'a heap \<Rightarrow> 'a heap \<times> LinkList" where
  "NewLinkList hp =
     (let (hp1, s) = malloc_node hp \<lparr>ln_data = None, ln_pre = None, ln_next = None\<rparr>;
          hp2 = (case s of None \<Rightarrow> hp1 | Some a \<Rightarrow> w_next (w_pre hp1 a s) a s)
      in (hp2, \<lparr>ll_head = s, ll_tail = s\<rparr>))"

definition PutInHead :: "'a heap \<Rightarrow> LinkList \<Rightarrow> ptr \<Rightarrow> 'a heap res" where
  "PutInHead hp l nod =
     bindE (get_next hp (ll_head l)) (\<lambda>f.
     bindE (set_next hp nod f) (\<lambda>hp.
     bindE (get_next hp (ll_head l)) (\<lambda>f.
     bindE (set_pre hp f nod) (\<lambda>hp.
     bindE (set_next hp (ll_head l) nod) (\<lambda>hp.
     set_pre hp nod (ll_head l))))))"

definition PutInTail :: "'a heap \<Rightarrow> LinkList \<Rightarrow> ptr \<Rightarrow> 'a heap res" where
  "PutInTail hp l nod =
     bindE (get_pre hp (ll_tail l)) (\<lambda>e.
     bindE (set_pre hp nod e) (\<lambda>hp.
     bindE (get_pre hp (ll_tail l)) (\<lambda>e.
     bindE (set_next hp e nod) (\<lambda>hp.
     bindE (set_next hp nod (ll_tail l)) (\<lambda>hp.
     set_pre hp (ll_tail l) nod)))))"

definition RemoveFromLinkList :: "'a heap \<Rightarrow> LinkList \<Rightarrow> ptr \<Rightarrow> 'a heap res" where
  "RemoveFromLinkList hp l nod =
     bindE (get_pre hp nod) (\<lambda>p.
     bindE (get_next hp nod) (\<lambda>n.
     bindE (set_next hp p n) (\<lambda>hp.
     bindE (get_next hp nod) (\<lambda>n.
     bindE (get_pre hp nod) (\<lambda>p.
     bindE (set_pre hp n p) (\<lambda>hp.
     bindE (set_pre hp nod None) (\<lambda>hp.
     set_next hp nod None)))))))"

definition GetFirstLinkNode :: "'a heap \<Rightarrow> LinkList \<Rightarrow> ptr res" where
  "GetFirstLinkNode hp l =
     bindE (get_next hp (ll_head l)) (\<lambda>n. if n = ll_tail l then Inr None else Inr n)"

definition GetLastLinkNode :: "'a heap \<Rightarrow> LinkList \<Rightarrow> ptr res" where
  "GetLastLinkNode hp l =
     bindE (get_next hp (ll_head l)) (\<lambda>n.
       if n = ll_tail l then Inr None else get_pre hp (ll_tail l))"

text \<open>
  The loop of \<open>DestroyLinkList\<close>: \<open>next\<close> is read before the node is freed. \<open>None\<close> would be a
  loop that never returns.
\<close>

partial_function (option) destroy_nodes :: "'a heap \<Rightarrow> LinkList \<Rightarrow> ptr \<Rightarrow> 'a heap res option" where
  "destroy_nodes hp l t =
     (if t = ll_tail l then Some (Inr hp)
      else case get_next hp t of
             Inl e \<Rightarrow> Some (Inl e)
           | Inr next \<Rightarrow>
               (case freeLinkNode hp t of
                  Inl e \<Rightarrow> Some (Inl e)
                | Inr hp' \<Rightarrow> destroy_nodes hp' l next))"

definition DestroyLinkList :: "'a heap \<Rightarrow> LinkList \<Rightarrow> 'a heap res option" where
  "DestroyLinkList hp l =
     (case get_next hp (ll_head l) of
        Inl e \<Rightarrow> Some (Inl e)
      | Inr t \<Rightarrow> map_option (\<lambda>r. bindE r (\<lambda>hp'. freeLinkNode hp' (ll_head l)))
                   (destroy_nodes hp l t))"

section \<open>Reading back a heap after a write\<close>

named_theorems heap_simps "reading a heap after a write"

lemma read_w_next [heap_simps]:
  "nx (w_next hp a v) b = (if b = a \<and> alloc hp a then v else nx hp b)"
  "pv (w_next hp a v) b = pv hp b"
  "dat (w_next hp a v) b = dat hp b"
  "alloc (w_next hp a v) b = alloc hp b"
  "hp_brk (w_next hp a v) = hp_brk hp"
  by (auto simp: nx_def pv_def dat_def alloc_def w_next_def split: option.splits)

lemma read_w_pre [heap_simps]:
  "nx (w_pre hp a v) b = nx hp b"
  "pv (w_pre hp a v) b = (if b = a \<and> alloc hp a then v else pv hp b)"
  "dat (w_pre hp a v) b = dat hp b"
  "alloc (w_pre hp a v) b = alloc hp b"
  "hp_brk (w_pre hp a v) = hp_brk hp"
  by (auto simp: nx_def pv_def dat_def alloc_def w_pre_def split: option.splits)

lemma read_w_data [heap_simps]:
  "nx (w_data hp a d) b = nx hp b"
  "pv (w_data hp a d) b = pv hp b"
  "dat (w_data hp a d) b = (if b = a \<and> alloc hp a then Some d else dat hp b)"
  "alloc (w_data hp a d) b = alloc hp b"
  "hp_brk (w_data hp a d) = hp_brk hp"
  by (auto simp: nx_def pv_def dat_def alloc_def w_data_def split: option.splits)

lemma read_free_cell [heap_simps]:
  "nx (free_cell hp a) b = (if b = a then None else nx hp b)"
  "pv (free_cell hp a) b = (if b = a then None else pv hp b)"
  "dat (free_cell hp a) b = (if b = a then None else dat hp b)"
  "alloc (free_cell hp a) b \<longleftrightarrow> b \<noteq> a \<and> alloc hp b"
  "hp_cells (free_cell hp a) b = (if b = a then None else hp_cells hp b)"
  "hp_brk (free_cell hp a) = hp_brk hp"
  by (auto simp: nx_def pv_def dat_def alloc_def free_cell_def split: option.splits)

lemma cell_at_Some [heap_simps]: "alloc hp a \<Longrightarrow> cell_at hp (Some a) = Inr a"
  by (simp add: cell_at_def)

lemmas field_defs = get_next_def get_pre_def get_data_def set_next_def set_pre_def set_data_def

section \<open>The list a heap holds\<close>

text \<open>
  \<open>seg hp a xs b\<close>: following \<open>next\<close> from \<open>a\<close> one meets the nodes \<open>xs\<close> and then \<open>b\<close>, and the
  \<open>pre\<close> pointers lead back.
\<close>

fun seg :: "'a heap \<Rightarrow> addr \<Rightarrow> addr list \<Rightarrow> addr \<Rightarrow> bool" where
  "seg hp a [] b \<longleftrightarrow> nx hp a = Some b \<and> pv hp b = Some a"
| "seg hp a (x # xs) b \<longleftrightarrow> nx hp a = Some x \<and> pv hp x = Some a \<and> seg hp x xs b"

definition dll :: "'a heap \<Rightarrow> LinkList \<Rightarrow> addr list \<Rightarrow> bool" where
  "dll hp l xs \<longleftrightarrow>
     (case ll_head l of
        None \<Rightarrow> False
      | Some h \<Rightarrow> ll_tail l = Some h \<and> distinct (h # xs) \<and>
                  (\<forall>a \<in> set (h # xs). alloc hp a \<and> a < hp_brk hp) \<and> seg hp h xs h)"

text \<open>The heap determines the list.\<close>

lemma seg_unique: "seg hp a xs b \<Longrightarrow> seg hp a ys b \<Longrightarrow> b \<notin> set xs \<Longrightarrow> b \<notin> set ys \<Longrightarrow> xs = ys"
proof (induction xs arbitrary: a ys)
  case Nil
  then show ?case by (cases ys) auto
next
  case (Cons x xs)
  then show ?case by (cases ys) auto
qed

lemma dll_unique: "dll hp l xs \<Longrightarrow> dll hp l ys \<Longrightarrow> xs = ys"
  by (auto simp: dll_def intro: seg_unique split: option.splits)

lemma seg_append: "seg hp a (xs @ y # ys) b \<longleftrightarrow> seg hp a xs y \<and> seg hp y ys b"
  by (induction xs arbitrary: a) auto

lemma seg_frame:
  assumes "\<And>y. y \<in> set (a # xs) \<Longrightarrow> nx hp' y = nx hp y"
    and "\<And>y. y \<in> set (b # xs) \<Longrightarrow> pv hp' y = pv hp y"
  shows "seg hp' a xs b = seg hp a xs b"
  using assms by (induction xs arbitrary: a) auto

lemma seg_ends:
  "seg hp a xs b \<Longrightarrow> nx hp a = Some (hd (xs @ [b])) \<and> pv hp b = Some (last (a # xs))"
  by (induction xs arbitrary: a) auto

text \<open>Two segments joined by making the neighbours of the node between them point at each other.\<close>

lemma seg_join:
  assumes "seg hp a xs m" and "seg hp m ys c"
    and "distinct (a # xs @ ys)" and "distinct (c # xs @ ys)"
    and "nx hp' (last (a # xs)) = Some (hd (ys @ [c]))"
    and "pv hp' (hd (ys @ [c])) = Some (last (a # xs))"
    and "\<And>z. z \<in> set (a # xs @ ys) \<Longrightarrow> z \<noteq> last (a # xs) \<Longrightarrow> nx hp' z = nx hp z"
    and "\<And>z. z \<in> set (c # xs @ ys) \<Longrightarrow> z \<noteq> hd (ys @ [c]) \<Longrightarrow> pv hp' z = pv hp z"
  shows "seg hp' a (xs @ ys) c"
  using assms
proof (induction xs arbitrary: a)
  case Nil
  show ?case
  proof (cases ys)
    case (Cons y ys')
    have "seg hp' y ys' c = seg hp y ys' c"
      using Nil.prems Cons by (intro seg_frame) auto
    with Nil.prems Cons show ?thesis by auto
  qed (use Nil.prems in auto)
next
  case (Cons x xs)
  have "a \<noteq> last (x # xs)" using Cons.prems(3) last_in_set [of "x # xs"] by auto
  moreover have "x \<noteq> hd (ys @ [c])" using Cons.prems(3,4) by (cases ys) auto
  ultimately have "nx hp' a = Some x" "pv hp' x = Some a"
    using Cons.prems(1,7,8) by auto
  moreover have "seg hp' x (xs @ ys) c"
    using Cons.prems by (intro Cons.IH) auto
  ultimately show ?case by simp
qed

section \<open>The operations on lists\<close>

text \<open>What an operation on the links leaves alone.\<close>

definition same_nodes :: "'a heap \<Rightarrow> 'a heap \<Rightarrow> bool" where
  "same_nodes hp hp' \<longleftrightarrow>
     (\<forall>a. alloc hp' a = alloc hp a \<and> dat hp' a = dat hp a) \<and> hp_brk hp' = hp_brk hp"

lemma dll_head:
  assumes "dll hp l xs"
  obtains h where "ll_head l = Some h" and "ll_tail l = Some h" and "distinct (h # xs)"
    and "\<forall>a \<in> set (h # xs). alloc hp a \<and> a < hp_brk hp" and "seg hp h xs h"
  using assms by (auto simp: dll_def split: option.splits)

lemma dllI:
  assumes "ll_head l = Some h" and "ll_tail l = Some h" and "distinct (h # xs)"
    and "\<forall>a \<in> set (h # xs). alloc hp a \<and> a < hp_brk hp" and "seg hp h xs h"
  shows "dll hp l xs"
  using assms by (auto simp: dll_def)

lemma PutInHead_ok:
  assumes l: "dll hp l xs" and a: "alloc hp a" "a < hp_brk hp"
    and new: "a \<notin> set xs" "Some a \<noteq> ll_head l"
  obtains hp' where "PutInHead hp l (Some a) = Inr hp'" and "dll hp' l (a # xs)"
    and "same_nodes hp hp'"
proof -
  obtain h where h: "ll_head l = Some h" "ll_tail l = Some h" "distinct (h # xs)"
      "\<forall>a \<in> set (h # xs). alloc hp a \<and> a < hp_brk hp" "seg hp h xs h"
    using dll_head [OF l] .
  let ?f = "hd (xs @ [h])"
  have f: "nx hp h = Some ?f" "alloc hp ?f" and ha: "alloc hp h"
    using seg_ends [OF h(5)] h(4) by (cases xs; auto)+
  have ne: "a \<noteq> h" "?f \<noteq> a" using new h(1) by (cases xs; auto)+
  let ?hp = "w_pre (w_next (w_pre (w_next hp a (Some ?f)) ?f (Some a)) h (Some a)) a (Some h)"
  have "PutInHead hp l (Some a) = Inr ?hp"
    using f a ne ha by (simp add: PutInHead_def field_defs heap_simps h(1))
  moreover have "same_nodes hp ?hp"
    by (simp add: same_nodes_def heap_simps)
  moreover have "seg ?hp a xs h"
  proof (cases xs)
    case Nil
    then show ?thesis using f a ne ha by (simp add: heap_simps)
  next
    case (Cons x xs')
    have "seg ?hp x xs' h = seg hp x xs' h"
      using h(3) Cons new ne by (intro seg_frame) (auto simp: heap_simps)
    then show ?thesis using Cons f a ne ha h(3,5) new by (auto simp: heap_simps)
  qed
  then have "dll ?hp l (a # xs)"
    using h(1-4) f a ne ha new by (intro dllI [OF h(1,2)]) (auto simp: heap_simps)
  ultimately show ?thesis using that by blast
qed

lemma PutInTail_ok:
  assumes l: "dll hp l xs" and a: "alloc hp a" "a < hp_brk hp"
    and new: "a \<notin> set xs" "Some a \<noteq> ll_head l"
  obtains hp' where "PutInTail hp l (Some a) = Inr hp'" and "dll hp' l (xs @ [a])"
    and "same_nodes hp hp'"
proof -
  obtain h where h: "ll_head l = Some h" "ll_tail l = Some h" "distinct (h # xs)"
      "\<forall>a \<in> set (h # xs). alloc hp a \<and> a < hp_brk hp" "seg hp h xs h"
    using dll_head [OF l] .
  let ?e = "last (h # xs)"
  have e: "pv hp h = Some ?e" "alloc hp ?e" and ha: "alloc hp h"
    using seg_ends [OF h(5)] h(4) last_in_set [of "h # xs"] by auto
  have ne: "a \<noteq> h" "?e \<noteq> a" using new h(1) last_in_set [of "h # xs"] by auto
  let ?hp = "w_pre (w_next (w_next (w_pre hp a (Some ?e)) ?e (Some a)) a (Some h)) h (Some a)"
  have "PutInTail hp l (Some a) = Inr ?hp"
    using e a ne ha by (simp add: PutInTail_def field_defs heap_simps h(2))
  moreover have "same_nodes hp ?hp"
    by (simp add: same_nodes_def heap_simps)
  moreover have "seg ?hp h (xs @ [a]) h"
  proof -
    show ?thesis
    proof (cases xs rule: rev_cases)
      case Nil
      then show ?thesis using e a ne ha by (simp add: heap_simps)
    next
      case (snoc ys y)
      have "seg hp h ys y" using h(5) snoc by (simp add: seg_append)
      moreover have "seg ?hp h ys y = seg hp h ys y"
        using h(3) snoc new ne by (intro seg_frame) (auto simp: heap_simps)
      moreover have "seg ?hp y [a] h"
        using snoc e a ne ha h(3) new by (auto simp: heap_simps)
      ultimately show ?thesis using snoc by (simp add: seg_append)
    qed
  qed
  then have "dll ?hp l (xs @ [a])"
    using h(1-4) e a ne ha new by (intro dllI [OF h(1,2)]) (auto simp: heap_simps)
  ultimately show ?thesis using that by blast
qed

lemma RemoveFromLinkList_ok:
  assumes l: "dll hp l (xs @ a # ys)"
  obtains hp' where "RemoveFromLinkList hp l (Some a) = Inr hp'" and "dll hp' l (xs @ ys)"
    and "same_nodes hp hp'" and "nx hp' a = None" and "pv hp' a = None"
proof -
  obtain h where h: "ll_head l = Some h" "ll_tail l = Some h" "distinct (h # xs @ a # ys)"
      "\<forall>b \<in> set (h # xs @ a # ys). alloc hp b \<and> b < hp_brk hp" "seg hp h (xs @ a # ys) h"
    using dll_head [OF l] .
  have s: "seg hp h xs a" "seg hp a ys h" using h(5) by (simp_all add: seg_append)
  let ?p = "last (h # xs)" and ?n = "hd (ys @ [h])"
  have pn: "pv hp a = Some ?p" "nx hp a = Some ?n"
    using seg_ends [OF s(1)] seg_ends [OF s(2)] by auto
  have p_in: "?p \<in> set (h # xs)" by (rule last_in_set) simp
  have n_in: "?n \<in> set (h # ys)" by (cases ys) auto
  have al: "alloc hp ?p" "alloc hp ?n" "alloc hp a" "?p \<noteq> a" "?n \<noteq> a"
    using h(3,4) p_in n_in by auto
  let ?hp = "w_next (w_pre (w_pre (w_next hp ?p (Some ?n)) ?n (Some ?p)) a None) a None"
  have "RemoveFromLinkList hp l (Some a) = Inr ?hp"
    using pn al by (simp add: RemoveFromLinkList_def field_defs heap_simps del: last.simps)
  moreover have "same_nodes hp ?hp"
    by (simp add: same_nodes_def heap_simps)
  moreover have "seg ?hp h (xs @ ys) h"
    using s h(3) al by (intro seg_join [of hp h xs a ys h]) (auto simp: heap_simps simp del: last.simps)
  then have "dll ?hp l (xs @ ys)"
    using h(3,4) by (intro dllI [OF h(1,2)]) (auto simp: heap_simps simp del: last.simps)
  moreover have "nx ?hp a = None" "pv ?hp a = None"
    using al by (simp_all add: heap_simps del: last.simps)
  ultimately show ?thesis using that by blast
qed

lemma GetFirstLinkNode_ok:
  assumes "dll hp l xs"
  shows "GetFirstLinkNode hp l = Inr (case xs of [] \<Rightarrow> None | x # _ \<Rightarrow> Some x)"
  using assms
  by (cases xs) (auto simp: dll_def GetFirstLinkNode_def field_defs heap_simps split: option.splits)

lemma GetLastLinkNode_ok:
  assumes "dll hp l xs"
  shows "GetLastLinkNode hp l = Inr (if xs = [] then None else Some (last xs))"
proof -
  obtain h where h: "ll_head l = Some h" "ll_tail l = Some h" "distinct (h # xs)"
      "\<forall>a \<in> set (h # xs). alloc hp a \<and> a < hp_brk hp" "seg hp h xs h"
    using dll_head [OF assms] .
  then show ?thesis
    using seg_ends [OF h(5)]
    by (cases xs) (auto simp: GetLastLinkNode_def field_defs heap_simps)
qed

lemma NewLinkList_ok:
  assumes "NewLinkList hp = (hp', l)"
  shows "dll hp' l []" "hp_brk hp' = Suc (hp_brk hp)"
  using assms
  by (auto simp: NewLinkList_def malloc_node_def dll_def heap_simps)
    (simp_all add: nx_def pv_def alloc_def w_next_def w_pre_def)

text \<open>A new node is nowhere in a list that was there before.\<close>

lemma newLinkNode_ok:
  assumes "dll hp l xs" and "newLinkNode hp d = (hp', p)"
  obtains a where "p = Some a" and "dll hp' l xs" and "alloc hp' a" and "a < hp_brk hp'"
    and "a \<notin> set xs" and "Some a \<noteq> ll_head l" and "dat hp' a = Some d"
    and "\<And>b. b \<in> set xs \<Longrightarrow> dat hp' b = dat hp b"
proof -
  let ?a = "hp_brk hp"
  have hp': "hp' = hp\<lparr>hp_cells := (hp_cells hp)(?a \<mapsto> \<lparr>ln_data = Some d, ln_pre = None, ln_next = None\<rparr>),
      hp_brk := Suc ?a\<rparr>" and p: "p = Some ?a"
    using assms(2) by (simp_all add: newLinkNode_def malloc_node_def)
  obtain h where h: "ll_head l = Some h" "ll_tail l = Some h" "distinct (h # xs)"
      "\<forall>a \<in> set (h # xs). alloc hp a \<and> a < hp_brk hp" "seg hp h xs h"
    using dll_head [OF assms(1)] .
  have old: "nx hp' b = nx hp b" "pv hp' b = pv hp b" "dat hp' b = dat hp b" "alloc hp' b = alloc hp b"
    if "b \<noteq> ?a" for b
    using that by (simp_all add: hp' nx_def pv_def dat_def alloc_def)
  have ne: "b \<noteq> ?a" if "b \<in> set (h # xs)" for b using h(4) that by auto
  have "seg hp' h xs h = seg hp h xs h"
    by (rule seg_frame) (use ne old in auto)
  then have "dll hp' l xs"
    using h ne old by (intro dllI [OF h(1-3)]) (auto simp: hp' alloc_def less_Suc_eq)
  then show ?thesis
    using that [of ?a] p h(1) ne old(3) by (auto simp: hp' alloc_def dat_def)
qed

lemma freeLinkNode_ok:
  assumes "dll hp l xs" and "alloc hp a" and "a \<notin> set xs" and "Some a \<noteq> ll_head l"
  obtains hp' where "freeLinkNode hp (Some a) = Inr hp'" and "dll hp' l xs" and "\<not> alloc hp' a"
    and "\<And>b. b \<noteq> a \<Longrightarrow> dat hp' b = dat hp b \<and> alloc hp' b = alloc hp b"
proof -
  obtain h where h: "ll_head l = Some h" "ll_tail l = Some h" "distinct (h # xs)"
      "\<forall>a \<in> set (h # xs). alloc hp a \<and> a < hp_brk hp" "seg hp h xs h"
    using dll_head [OF assms(1)] .
  have ne: "a \<notin> set (h # xs)" using assms(3,4) h(1) by auto
  have "seg (free_cell hp a) h xs h = seg hp h xs h"
    by (rule seg_frame) (use ne in \<open>auto simp: heap_simps\<close>)
  then have "dll (free_cell hp a) l xs"
    using h ne by (intro dllI [OF h(1-3)]) (auto simp: heap_simps)
  then show ?thesis
    using that [of "free_cell hp a"] assms(2) by (auto simp: freeLinkNode_def heap_simps)
qed

text \<open>Overwriting the data of a node changes no link.\<close>

lemma set_data_ok:
  assumes "dll hp l xs" and "a \<in> set xs"
  obtains hp' where "set_data hp (Some a) d = Inr hp'" and "dll hp' l xs" and "dat hp' a = Some d"
    and "\<And>b. b \<noteq> a \<Longrightarrow> dat hp' b = dat hp b"
proof -
  obtain h where h: "ll_head l = Some h" "ll_tail l = Some h" "distinct (h # xs)"
      "\<forall>a \<in> set (h # xs). alloc hp a \<and> a < hp_brk hp" "seg hp h xs h"
    using dll_head [OF assms(1)] .
  have "seg (w_data hp a d) h xs h = seg hp h xs h"
    by (rule seg_frame) (auto simp: heap_simps)
  then have "dll (w_data hp a d) l xs"
    using h by (intro dllI [OF h(1-3)]) (auto simp: heap_simps)
  then show ?thesis
    using that [of "w_data hp a d"] h(4) assms(2) by (auto simp: field_defs heap_simps)
qed

section \<open>Destroying a list\<close>

lemma destroy_nodes_ok:
  assumes "ll_tail l = Some h" and "distinct (h # xs)" and "\<forall>a \<in> set xs. alloc hp a"
    and "xs = [] \<Longrightarrow> t = Some h" and "xs \<noteq> [] \<Longrightarrow> t = Some (hd xs) \<and> seg hp (hd xs) (tl xs) h"
  shows "\<exists>hp'. destroy_nodes hp l t = Some (Inr hp') \<and>
     (\<forall>b. hp_cells hp' b = (if b \<in> set xs then None else hp_cells hp b))"
  using assms(2-)
proof (induction xs arbitrary: hp t)
  case Nil
  then show ?case using assms(1) by (simp add: destroy_nodes.simps)
next
  case (Cons x xs)
  have t: "t = Some x" "t \<noteq> ll_tail l" and s: "seg hp x xs h" and x: "alloc hp x" "x \<notin> set xs" "x \<noteq> h"
    using Cons.prems assms(1) by auto
  have free: "freeLinkNode hp t = Inr (free_cell hp x)" and nxt: "get_next hp t = Inr (nx hp x)"
    using t(1) x(1) by (simp_all add: freeLinkNode_def field_defs heap_simps)
  have "seg (free_cell hp x) (hd xs) (tl xs) h" if "xs \<noteq> []"
  proof -
    from that obtain y ys where xs: "xs = y # ys" by (cases xs) auto
    have "seg (free_cell hp x) y ys h = seg hp y ys h"
      by (rule seg_frame) (use x xs in \<open>auto simp: heap_simps\<close>)
    with s xs show ?thesis by simp
  qed
  moreover have "nx hp x = (if xs = [] then Some h else Some (hd xs))"
    using s by (cases xs) auto
  moreover have "\<forall>a \<in> set xs. alloc (free_cell hp x) a"
    using Cons.prems(2) x(2) by (auto simp: heap_simps)
  moreover have "distinct (h # xs)" using Cons.prems(1) by simp
  ultimately have "\<exists>hp'. destroy_nodes (free_cell hp x) l (nx hp x) = Some (Inr hp') \<and>
      (\<forall>b. hp_cells hp' b = (if b \<in> set xs then None else hp_cells (free_cell hp x) b))"
    by (intro Cons.IH) simp_all
  then show ?case
    using t(2) free nxt by (subst destroy_nodes.simps) (auto simp: heap_simps)
qed

text \<open>Destroying a list returns, frees its nodes and its sentinel and nothing else.\<close>

lemma DestroyLinkList_ok:
  assumes "dll hp l xs"
  obtains hp' h where "DestroyLinkList hp l = Some (Inr hp')" and "ll_head l = Some h"
    and "\<forall>b. hp_cells hp' b = (if b \<in> set (h # xs) then None else hp_cells hp b)"
proof -
  obtain h where h: "ll_head l = Some h" "ll_tail l = Some h" "distinct (h # xs)"
      "\<forall>a \<in> set (h # xs). alloc hp a \<and> a < hp_brk hp" "seg hp h xs h"
    using dll_head [OF assms] .
  have first: "get_next hp (ll_head l) = Inr (nx hp h)"
    using h(1,4) by (simp add: field_defs heap_simps)
  have "\<exists>hp'. destroy_nodes hp l (nx hp h) = Some (Inr hp') \<and>
      (\<forall>b. hp_cells hp' b = (if b \<in> set xs then None else hp_cells hp b))"
    using h(3-5) by (intro destroy_nodes_ok [OF h(2)]) (auto simp: neq_Nil_conv)
  then obtain hp1 where hp1: "destroy_nodes hp l (nx hp h) = Some (Inr hp1)"
      "\<forall>b. hp_cells hp1 b = (if b \<in> set xs then None else hp_cells hp b)"
    by blast
  then have "alloc hp1 h" using h(3,4) by (simp add: alloc_def)
  then have "DestroyLinkList hp l = Some (Inr (free_cell hp1 h))"
    using first hp1(1) h(1) by (simp add: DestroyLinkList_def freeLinkNode_def cell_at_def)
  with hp1(2) show ?thesis by (intro that [OF _ h(1)]) (auto simp: heap_simps)
qed

section \<open>The contract of a list of nodes\<close>

text \<open>
  What a client that keeps its nodes in order of use relies on: a node can be linked in at the
  front and unlinked wherever it is, and neither touches the data of a node.
\<close>

definition linkable :: "'a heap \<Rightarrow> LinkList \<Rightarrow> addr \<Rightarrow> bool" where
  "linkable hp l a \<longleftrightarrow> alloc hp a \<and> a < hp_brk hp \<and> Some a \<noteq> ll_head l"

locale node_list =
  fixes lists :: "'h \<Rightarrow> LinkList \<Rightarrow> addr list \<Rightarrow> bool"
    and usable :: "'h \<Rightarrow> LinkList \<Rightarrow> addr \<Rightarrow> bool"
    and same :: "'h \<Rightarrow> 'h \<Rightarrow> bool"
    and push :: "'h \<Rightarrow> LinkList \<Rightarrow> ptr \<Rightarrow> 'h res"
    and unlink :: "'h \<Rightarrow> LinkList \<Rightarrow> ptr \<Rightarrow> 'h res"
  assumes lists_distinct: "lists hp l xs \<Longrightarrow> distinct xs"
    and lists_usable: "lists hp l xs \<Longrightarrow> a \<in> set xs \<Longrightarrow> usable hp l a"
    and same_usable: "same hp hp' \<Longrightarrow> usable hp' l a = usable hp l a"
    and same_trans: "same hp hp' \<Longrightarrow> same hp' hp'' \<Longrightarrow> same hp hp''"
    and push_ok: "lists hp l xs \<Longrightarrow> usable hp l a \<Longrightarrow> a \<notin> set xs \<Longrightarrow>
      \<exists>hp'. push hp l (Some a) = Inr hp' \<and> lists hp' l (a # xs) \<and> same hp hp'"
    and unlink_ok: "lists hp l xs \<Longrightarrow> a \<in> set xs \<Longrightarrow>
      \<exists>hp'. unlink hp l (Some a) = Inr hp' \<and> lists hp' l (remove1 a xs) \<and> same hp hp'"
begin

lemma move_to_front:
  assumes "lists hp l xs" and "a \<in> set xs"
  obtains hp' where "bindE (unlink hp l (Some a)) (\<lambda>hp. push hp l (Some a)) = Inr hp'"
    and "lists hp' l (a # remove1 a xs)" and "same hp hp'"
proof -
  obtain h1 where h1: "unlink hp l (Some a) = Inr h1" "lists h1 l (remove1 a xs)" "same hp h1"
    using unlink_ok [OF assms] by blast
  have "a \<notin> set (remove1 a xs)" using lists_distinct [OF assms(1)] by simp
  moreover have "usable h1 l a"
    using same_usable [OF h1(3)] lists_usable [OF assms] by simp
  ultimately obtain h2 where "push h1 l (Some a) = Inr h2" "lists h2 l (a # remove1 a xs)" "same h1 h2"
    using push_ok [OF h1(2)] by blast
  moreover from this h1 have "bindE (unlink hp l (Some a)) (\<lambda>hp. push hp l (Some a)) = Inr h2"
    by simp
  ultimately show ?thesis using that same_trans [OF h1(3)] by blast
qed

text \<open>Moving the front node to the front again changes nothing.\<close>

lemma move_front_idle:
  assumes "lists hp l (a # xs)"
  obtains hp' where "bindE (unlink hp l (Some a)) (\<lambda>hp. push hp l (Some a)) = Inr hp'"
    and "lists hp' l (a # xs)" and "same hp hp'"
  using move_to_front [OF assms, of a] by auto

end

lemma dll_linkable: "dll hp l xs \<Longrightarrow> a \<in> set xs \<Longrightarrow> linkable hp l a"
  by (auto simp: dll_def linkable_def split: option.splits)

lemma dll_distinct: "dll hp l xs \<Longrightarrow> distinct xs"
  by (auto simp: dll_def split: option.splits)

interpretation ll: node_list dll linkable same_nodes PutInHead RemoveFromLinkList
proof
  fix hp hp' hp'' :: "'a heap" and l xs a
  show "distinct xs" if "dll hp l xs" using dll_distinct [OF that] .
  show "linkable hp l a" if "dll hp l xs" "a \<in> set xs" using dll_linkable [OF that] .
  show "linkable hp' l a = linkable hp l a" if "same_nodes hp hp'"
    using that by (auto simp: same_nodes_def linkable_def)
  show "same_nodes hp hp''" if "same_nodes hp hp'" "same_nodes hp' hp''"
    using that by (auto simp: same_nodes_def)
  show "\<exists>hp'. PutInHead hp l (Some a) = Inr hp' \<and> dll hp' l (a # xs) \<and> same_nodes hp hp'"
    if "dll hp l xs" "linkable hp l a" "a \<notin> set xs"
    using PutInHead_ok [OF that(1), of a] that(2,3) by (auto simp: linkable_def)
  show "\<exists>hp'. RemoveFromLinkList hp l (Some a) = Inr hp' \<and> dll hp' l (remove1 a xs) \<and> same_nodes hp hp'"
    if "dll hp l xs" "a \<in> set xs"
  proof -
    from that(2) obtain us vs where xs: "xs = us @ a # vs" "a \<notin> set us"
      using split_list_first by metis
    then have "remove1 a xs = us @ vs" by (simp add: remove1_append)
    with RemoveFromLinkList_ok [of hp l us a vs] that(1) xs(1) show ?thesis by metis
  qed
qed

section \<open>Properties\<close>

text \<open>
  C22. In a heap that holds the list \<open>xs\<close>, unlinking any of its nodes gives the list without
  it and leaves the node's own pointers null; linking in a node that is not in the list gives the
  list with it in front (\<open>PutInHead\<close>) or at the end (\<open>PutInTail\<close>). No operation changes the
  data of a node.
\<close>
theorem linklist_ops_correct:
  assumes "dll hp l xs" and "a \<in> set xs" and "linkable hp l b" and "b \<notin> set xs"
  shows "(\<exists>h. RemoveFromLinkList hp l (Some a) = Inr h \<and> dll h l (remove1 a xs) \<and>
           same_nodes hp h \<and> nx h a = None \<and> pv h a = None) \<and>
         (\<exists>h. PutInHead hp l (Some b) = Inr h \<and> dll h l (b # xs) \<and> same_nodes hp h) \<and>
         (\<exists>h. PutInTail hp l (Some b) = Inr h \<and> dll h l (xs @ [b]) \<and> same_nodes hp h)"
proof (intro conjI)
  obtain us vs where xs: "xs = us @ a # vs" "a \<notin> set us" using assms(2) split_list_first by metis
  then have "remove1 a xs = us @ vs" by (simp add: remove1_append)
  with RemoveFromLinkList_ok [of hp l us a vs] assms(1) xs(1)
  show "\<exists>h. RemoveFromLinkList hp l (Some a) = Inr h \<and> dll h l (remove1 a xs) \<and>
      same_nodes hp h \<and> nx h a = None \<and> pv h a = None" by metis
  show "\<exists>h. PutInHead hp l (Some b) = Inr h \<and> dll h l (b # xs) \<and> same_nodes hp h"
    using ll.push_ok [OF assms(1,3,4)] .
  show "\<exists>h. PutInTail hp l (Some b) = Inr h \<and> dll h l (xs @ [b]) \<and> same_nodes hp h"
    using PutInTail_ok [OF assms(1), of b] assms(3,4) by (auto simp: linkable_def)
qed

text \<open>A heap with a list of the nodes 1 and 2 and a node 3 outside it.\<close>

definition sample_heap :: "nat heap" where
  "sample_heap = \<lparr>hp_cells = [0 \<mapsto> \<lparr>ln_data = None, ln_pre = Some 2, ln_next = Some 1\<rparr>,
     1 \<mapsto> \<lparr>ln_data = Some 10, ln_pre = Some 0, ln_next = Some 2\<rparr>,
     2 \<mapsto> \<lparr>ln_data = Some 20, ln_pre = Some 1, ln_next = Some 0\<rparr>,
     3 \<mapsto> \<lparr>ln_data = Some 30, ln_pre = None, ln_next = None\<rparr>], hp_brk = 4\<rparr>"

definition sample_list :: LinkList where
  "sample_list = \<lparr>ll_head = Some 0, ll_tail = Some 0\<rparr>"

lemma sample_dll: "dll sample_heap sample_list [1, 2]" "linkable sample_heap sample_list 3"
  by (simp_all add: dll_def linkable_def sample_heap_def sample_list_def nx_def pv_def alloc_def)

theorem linklist_ops_correct_witness:
  "\<exists>h. RemoveFromLinkList sample_heap sample_list (Some 2) = Inr h \<and> dll h sample_list [1]"
  using linklist_ops_correct [OF sample_dll(1) _ sample_dll(2), of 2] by auto

text \<open>
  C23. \<open>DestroyLinkList\<close> returns on every well-formed list: it reads each node's \<open>next\<close> before
  freeing it, frees every node and the sentinel exactly once, and no other memory.
\<close>
theorem destroy_linklist_terminates:
  assumes "dll hp l xs" and "ll_head l = Some h"
  shows "\<exists>hp'. DestroyLinkList hp l = Some (Inr hp') \<and>
     (\<forall>b. hp_cells hp' b = (if b \<in> set (h # xs) then None else hp_cells hp b))"
  using DestroyLinkList_ok [OF assms(1)] assms(2) by (metis option.inject)

theorem destroy_linklist_terminates_witness:
  "\<exists>hp'. DestroyLinkList sample_heap sample_list = Some (Inr hp') \<and>
     \<not> alloc hp' 0 \<and> \<not> alloc hp' 1 \<and> \<not> alloc hp' 2 \<and> alloc hp' 3"
proof -
  have "ll_head sample_list = Some 0" by (simp add: sample_list_def)
  from destroy_linklist_terminates [OF sample_dll(1) this] show ?thesis
    by (auto simp: alloc_def sample_heap_def)
qed

end
