(* ===== verification/Cache.thy ===== *)
theory Cache
  imports Hash LinkList
begin

text \<open>
  The cache of \<open>cache/cache.c\<close>: a hash table from keys to pointers to list nodes, and the list
  of those nodes in order of use. The data put in by a caller is a value of any type (its copy
  in memory is owned by one unit); \<open>copy\<close> is the caller's copy function, absent for the default
  \<open>memcpy\<close>. The clock reading of \<open>time(NULL)\<close> is an argument of the operations that read it.
\<close>

section \<open>Data\<close>

definition SAVE_UNIT_KEY_MAX_LEN :: nat where
  "SAVE_UNIT_KEY_MAX_LEN = 50"

record 'v saveUnit =
  su_key :: carr
  su_saveTime :: int
  su_TTL :: int
  su_data :: 'v
  su_dataSize :: nat

record 'v Cache =
  c_hTab :: "ptr HashTab"
  c_heap :: "'v saveUnit heap"
  c_lList :: LinkList
  c_len :: int
  c_maxSize :: int
  c_copy :: "('v \<Rightarrow> 'v) option"

section \<open>Operations\<close>

definition CreateCache :: "int \<Rightarrow> ('v \<Rightarrow> 'v) option \<Rightarrow> 'v Cache" where
  "CreateCache maxSize copy =
     (let (hp, l) = NewLinkList empty_heap
      in \<lparr>c_hTab = NewHashTab, c_heap = hp, c_lList = l, c_len = 0, c_maxSize = maxSize,
          c_copy = copy\<rparr>)"

definition copied :: "'v Cache \<Rightarrow> 'v \<Rightarrow> 'v" where
  "copied c d = (case c_copy c of None \<Rightarrow> d | Some f \<Rightarrow> f d)"

text \<open>The branch of \<open>CachePut\<close> for a key that is there: the unit is overwritten and moved to the head.\<close>

definition cache_update :: "'v Cache \<Rightarrow> ptr \<Rightarrow> 'v \<Rightarrow> nat \<Rightarrow> int \<Rightarrow> int \<Rightarrow> 'v Cache res" where
  "cache_update c lkn data sz TTL now =
     bindE (get_data (c_heap c) lkn) (\<lambda>pui.
     bindE (set_data (c_heap c) lkn
              (pui\<lparr>su_data := copied c data, su_saveTime := now, su_TTL := TTL, su_dataSize := sz\<rparr>)) (\<lambda>hp.
     bindE (RemoveFromLinkList hp (c_lList c) lkn) (\<lambda>hp.
     bindE (PutInHead hp (c_lList c) lkn) (\<lambda>hp.
     Inr (c\<lparr>c_heap := hp\<rparr>)))))"

text \<open>The branch that makes room: the unit at the tail goes, from the table first.\<close>

definition cache_evict :: "'v Cache \<Rightarrow> 'v Cache res" where
  "cache_evict c =
     (if c_maxSize c \<le> c_len c then
        bindE (GetLastLinkNode (c_heap c) (c_lList c)) (\<lambda>lkn.
        bindE (get_data (c_heap c) lkn) (\<lambda>pui.
        bindE (cstr (su_key pui)) (\<lambda>key.
        bindE (delete_ht (c_hTab c) key) (\<lambda>tab.
        bindE (RemoveFromLinkList (c_heap c) (c_lList c) lkn) (\<lambda>hp.
        bindE (freeLinkNode hp lkn) (\<lambda>hp.
        Inr (c\<lparr>c_hTab := tab, c_heap := hp, c_len := c_len c - 1\<rparr>)))))))
      else Inr c)"

text \<open>The rest of \<open>CachePut\<close>: a new unit at the head. Its key array is on the stack, uninitialised.\<close>

definition cache_add :: "'v Cache \<Rightarrow> cstring \<Rightarrow> 'v \<Rightarrow> nat \<Rightarrow> int \<Rightarrow> int \<Rightarrow> 'v Cache res" where
  "cache_add c key data sz TTL now =
     bindE (strncpy (uninit (SAVE_UNIT_KEY_MAX_LEN + 1)) key (SAVE_UNIT_KEY_MAX_LEN + 1)) (\<lambda>k.
     let (hp, nod) = newLinkNode (c_heap c)
           \<lparr>su_key = k, su_saveTime = now, su_TTL = TTL, su_data = copied c data, su_dataSize = sz\<rparr>
     in bindE (PutInHead hp (c_lList c) nod) (\<lambda>hp.
        bindE (insert_ht (c_hTab c) key nod) (\<lambda>tab.
        Inr (c\<lparr>c_hTab := tab, c_heap := hp, c_len := c_len c + 1\<rparr>))))"

definition CachePut :: "'v Cache \<Rightarrow> cstring \<Rightarrow> 'v \<Rightarrow> nat \<Rightarrow> int \<Rightarrow> int \<Rightarrow> 'v Cache res" where
  "CachePut c key data sz TTL now =
     bindE (search (c_hTab c) key) (\<lambda>tmp.
       case tmp of
         Some lkn \<Rightarrow> cache_update c lkn data sz TTL now
       | None \<Rightarrow> bindE (cache_evict c) (\<lambda>c. cache_add c key data sz TTL now))"

text \<open>
  \<open>CacheGet\<close> has two critical sections. Under the write lock: the lookup, the removal of a unit
  past its time, the move to the head. What the second section gets is the pointer \<open>ui\<close>.
\<close>

definition cache_drop :: "'v Cache \<Rightarrow> ptr \<Rightarrow> 'v saveUnit \<Rightarrow> 'v Cache res" where
  "cache_drop c lkn ui =
     bindE (cstr (su_key ui)) (\<lambda>key.
     bindE (delete_ht (c_hTab c) key) (\<lambda>tab.
     bindE (RemoveFromLinkList (c_heap c) (c_lList c) lkn) (\<lambda>hp.
     bindE (freeLinkNode hp lkn) (\<lambda>hp.
     Inr (c\<lparr>c_hTab := tab, c_heap := hp, c_len := c_len c - 1\<rparr>)))))"

definition CacheGet_find :: "'v Cache \<Rightarrow> cstring \<Rightarrow> int \<Rightarrow> ('v Cache \<times> ptr option) res" where
  "CacheGet_find c key now =
     bindE (search (c_hTab c) key) (\<lambda>t.
       case t of
         None \<Rightarrow> Inr (c, None)
       | Some lkn \<Rightarrow>
           bindE (get_data (c_heap c) lkn) (\<lambda>ui.
             if su_TTL ui < now - su_saveTime ui
             then bindE (cache_drop c lkn ui) (\<lambda>c. Inr (c, None))
             else bindE (RemoveFromLinkList (c_heap c) (c_lList c) lkn) (\<lambda>hp.
                  bindE (PutInHead hp (c_lList c) lkn) (\<lambda>hp.
                  Inr (c\<lparr>c_heap := hp\<rparr>, Some lkn)))))"

text \<open>Under the read lock: the copy of what \<open>ui\<close> points to then.\<close>

definition CacheGet_copy :: "'v Cache \<Rightarrow> ptr \<Rightarrow> 'v res" where
  "CacheGet_copy c lkn = bindE (get_data (c_heap c) lkn) (\<lambda>ui. Inr (copied c (su_data ui)))"

definition CacheGet :: "'v Cache \<Rightarrow> cstring \<Rightarrow> int \<Rightarrow> ('v Cache \<times> 'v option) res" where
  "CacheGet c key now =
     bindE (CacheGet_find c key now) (\<lambda>(c, r).
       case r of
         None \<Rightarrow> Inr (c, None)
       | Some lkn \<Rightarrow> bindE (CacheGet_copy c lkn) (\<lambda>d. Inr (c, Some d)))"

section \<open>The specification: a list of entries, most recently used first\<close>

record 'v slot_entry =
  e_key :: cstring
  e_saved :: int
  e_ttl :: int
  e_data :: 'v

type_synonym 'v lru = "'v slot_entry list"

definition lru_others :: "cstring \<Rightarrow> 'v lru \<Rightarrow> 'v lru" where
  "lru_others k es = filter (\<lambda>e. e_key e \<noteq> k) es"

definition lru_find :: "cstring \<Rightarrow> 'v lru \<Rightarrow> 'v slot_entry option" where
  "lru_find k es = find (\<lambda>e. e_key e = k) es"

definition lru_put :: "nat \<Rightarrow> int \<Rightarrow> cstring \<Rightarrow> 'v \<Rightarrow> int \<Rightarrow> 'v lru \<Rightarrow> 'v lru" where
  "lru_put cap now k d ttl es =
     \<lparr>e_key = k, e_saved = now, e_ttl = ttl, e_data = d\<rparr> #
       (if lru_find k es \<noteq> None then lru_others k es
        else if cap \<le> length es then butlast es else es)"

definition lru_get :: "int \<Rightarrow> cstring \<Rightarrow> 'v lru \<Rightarrow> 'v lru \<times> 'v option" where
  "lru_get now k es =
     (case lru_find k es of
        None \<Rightarrow> (es, None)
      | Some e \<Rightarrow> if e_ttl e < now - e_saved e then (lru_others k es, None)
                   else (e # lru_others k es, Some (e_data e)))"

section \<open>Invariant and abstraction\<close>

definition unit_key :: "'v saveUnit \<Rightarrow> cstring" where
  "unit_key u = (case cstr (su_key u) of Inl _ \<Rightarrow> [] | Inr s \<Rightarrow> s)"

definition view :: "'v saveUnit \<Rightarrow> 'v slot_entry" where
  "view u = \<lparr>e_key = unit_key u, e_saved = su_saveTime u, e_ttl = su_TTL u, e_data = su_data u\<rparr>"

definition unit_at :: "'v Cache \<Rightarrow> addr \<Rightarrow> 'v saveUnit" where
  "unit_at c a = the (dat (c_heap c) a)"

definition key_at :: "'v Cache \<Rightarrow> addr \<Rightarrow> cstring" where
  "key_at c a = unit_key (unit_at c a)"

definition entries :: "'v Cache \<Rightarrow> addr list \<Rightarrow> 'v lru" where
  "entries c xs = map (\<lambda>a. view (unit_at c a)) xs"

definition units_ok :: "'v Cache \<Rightarrow> addr list \<Rightarrow> bool" where
  "units_ok c xs \<longleftrightarrow>
     (\<forall>a \<in> set xs. dat (c_heap c) a \<noteq> None \<and> cstr (su_key (unit_at c a)) = Inr (key_at c a))"

text \<open>
  The table has exactly the keys of the listed units and points each to its node; the list is
  within its size.
\<close>

definition cache_inv :: "'v Cache \<Rightarrow> addr list \<Rightarrow> bool" where
  "cache_inv c xs \<longleftrightarrow>
     dll (c_heap c) (c_lList c) xs \<and> units_ok c xs \<and>
     ht_inv (c_hTab c) \<and> distinct (map (key_at c) xs) \<and>
     ht_map (c_hTab c) = map_of (map (\<lambda>a. (key_at c a, Some a)) xs) \<and>
     c_len c = int (length xs) \<and> int (length xs) \<le> c_maxSize c \<and> c_maxSize c \<le> 2 ^ 28"

definition cache_rel :: "'v Cache \<Rightarrow> 'v lru \<Rightarrow> bool" where
  "cache_rel c es \<longleftrightarrow> (\<exists>xs. cache_inv c xs \<and> entries c xs = es)"

section \<open>Lookup in the list of entries\<close>

lemma view_simps [simp]:
  "e_key (view u) = unit_key u" "e_saved (view u) = su_saveTime u" "e_ttl (view u) = su_TTL u"
  "e_data (view u) = su_data u"
  by (simp_all add: view_def)

lemma lru_find_None: "lru_find k es = None \<longleftrightarrow> k \<notin> e_key ` set es"
  by (auto simp: lru_find_def find_None_iff)

lemma keys_entries [simp]: "map e_key (entries c xs) = map (key_at c) xs"
  by (simp add: entries_def key_at_def)

lemma length_entries [simp]: "length (entries c xs) = length xs"
  by (simp add: entries_def)

lemma lru_find_entries:
  "distinct (map (key_at c) xs) \<Longrightarrow> a \<in> set xs \<Longrightarrow>
     lru_find (key_at c a) (entries c xs) = Some (view (unit_at c a))"
  by (induction xs) (auto simp: lru_find_def entries_def key_at_def)

lemma lru_find_entries_None:
  "k \<notin> key_at c ` set xs \<Longrightarrow> lru_find k (entries c xs) = None"
  by (auto simp: lru_find_None entries_def key_at_def)

lemma lru_others_entries:
  "distinct (map (key_at c) xs) \<Longrightarrow> a \<in> set xs \<Longrightarrow>
     lru_others (key_at c a) (entries c xs) = entries c (remove1 a xs)"
proof (induction xs)
  case (Cons x xs)
  show ?case
  proof (cases "a = x")
    case True
    have "\<forall>b \<in> set xs. key_at c b \<noteq> key_at c x"
      using Cons.prems(1) by (metis distinct.simps(2) image_eqI list.set_map list.simps(9))
    with True show ?thesis
      by (auto simp: lru_others_def entries_def key_at_def filter_id_conv)
  next
    case False
    then have "key_at c x \<noteq> key_at c a" using Cons.prems by auto
    with False Cons show ?thesis
      by (simp add: lru_others_def entries_def key_at_def)
  qed
qed simp

lemma entries_cong:
  "(\<And>a. a \<in> set xs \<Longrightarrow> dat (c_heap c') a = dat (c_heap c) a) \<Longrightarrow> entries c' xs = entries c xs"
  by (simp add: entries_def unit_at_def)

lemma key_at_cong:
  "dat (c_heap c') a = dat (c_heap c) a \<Longrightarrow> key_at c' a = key_at c a"
  by (simp add: key_at_def unit_at_def)

lemma units_ok_cong:
  "(\<And>a. a \<in> set xs \<Longrightarrow> dat (c_heap c') a = dat (c_heap c) a) \<Longrightarrow> units_ok c xs \<Longrightarrow> units_ok c' xs"
  by (simp add: units_ok_def unit_at_def key_at_def)

text \<open>The map of the table does not depend on the order of the nodes.\<close>

lemma map_of_nodes_perm:
  assumes "distinct (map f xs)" and "distinct (map f ys)" and "set xs = set ys"
  shows "map_of (map (\<lambda>a. (f a, g a)) xs) = map_of (map (\<lambda>a. (f a, g a)) ys)"
  by (rule map_of_eqI_distinct) (use assms in \<open>auto simp: comp_def\<close>)

lemma map_of_nodes:
  "distinct (map f xs) \<Longrightarrow> a \<in> set xs \<Longrightarrow> map_of (map (\<lambda>a. (f a, g a)) xs) (f a) = Some (g a)"
  by (rule map_of_is_SomeI) (auto simp: comp_def)

lemma map_of_nodes_None:
  "map_of (map (\<lambda>a. (f a, g a)) xs) k = None \<longleftrightarrow> k \<notin> f ` set xs"
  by (auto simp: map_of_eq_None_iff image_image)

lemma map_of_nodes_remove1:
  assumes "distinct (map f xs)" and "a \<in> set xs"
  shows "map_of (map (\<lambda>a. (f a, g a)) (remove1 a xs)) = (map_of (map (\<lambda>a. (f a, g a)) xs))(f a := None)"
proof -
  have d: "distinct xs" using assms(1) by (simp add: distinct_map)
  have "distinct (map f (a # remove1 a xs))"
    using assms d by (auto simp: distinct_map inj_on_def distinct_remove1)
  then have "map_of (map (\<lambda>a. (f a, g a)) xs) = map_of (map (\<lambda>a. (f a, g a)) (a # remove1 a xs))"
    using assms d by (intro map_of_nodes_perm) auto
  moreover have "map_of (map (\<lambda>a. (f a, g a)) (remove1 a xs)) (f a) = None"
    using \<open>distinct (map f (a # remove1 a xs))\<close> by (simp add: map_of_nodes_None)
  ultimately show ?thesis by (auto simp: fun_eq_iff)
qed

section \<open>The parts of the operations\<close>

lemma cache_invD:
  assumes "cache_inv c xs"
  shows "dll (c_heap c) (c_lList c) xs" "units_ok c xs" "ht_inv (c_hTab c)"
    "distinct (map (key_at c) xs)" "ht_map (c_hTab c) = map_of (map (\<lambda>a. (key_at c a, Some a)) xs)"
    "c_len c = int (length xs)" "int (length xs) \<le> c_maxSize c" "c_maxSize c \<le> 2 ^ 28"
    "distinct xs"
  using assms by (auto simp: cache_inv_def distinct_map)

lemma cache_unit:
  assumes "cache_inv c xs" and "a \<in> set xs"
  shows "get_data (c_heap c) (Some a) = Inr (unit_at c a)"
    and "cstr (su_key (unit_at c a)) = Inr (key_at c a)"
proof -
  have "alloc (c_heap c) a" using dll_linkable [OF cache_invD(1) [OF assms(1)] assms(2)]
    by (simp add: linkable_def)
  then show "get_data (c_heap c) (Some a) = Inr (unit_at c a)"
    using cache_invD(2) [OF assms(1)] assms(2)
    by (auto simp: field_defs heap_simps units_ok_def unit_at_def)
  show "cstr (su_key (unit_at c a)) = Inr (key_at c a)"
    using cache_invD(2) [OF assms(1)] assms(2) by (simp add: units_ok_def)
qed

lemma cache_search:
  assumes "cache_inv c xs" and "is_cstring key"
  shows "search (c_hTab c) key = Inr (map_of (map (\<lambda>a. (key_at c a, Some a)) xs) key)"
  using ht.get_ok [OF cache_invD(3) [OF assms(1)] assms(2)] cache_invD(5) [OF assms(1)] by simp

lemma cache_card:
  assumes "cache_inv c xs"
  shows "card (dom (ht_map (c_hTab c))) = length xs"
proof -
  have "dom (ht_map (c_hTab c)) = set (map (key_at c) xs)"
    unfolding cache_invD(5) [OF assms] by (auto simp: dom_map_of_conv_image_fst image_image)
  then show ?thesis
    using distinct_card [OF cache_invD(4) [OF assms]] by simp
qed

lemma cache_num: "cache_inv c xs \<Longrightarrow> unat (ht_num (c_hTab c)) = length xs"
  using cache_card card_dom_ht_map cache_invD(3) by metis

text \<open>Moving a unit to the head, the end of both operations on a key that is there.\<close>

lemma cache_move_ok:
  assumes inv: "cache_inv c xs" and a: "a \<in> set xs"
  obtains hp where "bindE (RemoveFromLinkList (c_heap c) (c_lList c) (Some a))
        (\<lambda>hp. PutInHead hp (c_lList c) (Some a)) = Inr hp"
    and "cache_inv (c\<lparr>c_heap := hp\<rparr>) (a # remove1 a xs)"
    and "entries (c\<lparr>c_heap := hp\<rparr>) (a # remove1 a xs) =
           view (unit_at c a) # lru_others (key_at c a) (entries c xs)"
    and "same_nodes (c_heap c) hp"
proof -
  note D = cache_invD [OF inv]
  obtain hp where hp: "bindE (RemoveFromLinkList (c_heap c) (c_lList c) (Some a))
        (\<lambda>hp. PutInHead hp (c_lList c) (Some a)) = Inr hp"
      "dll hp (c_lList c) (a # remove1 a xs)" "same_nodes (c_heap c) hp"
    using ll.move_to_front [OF D(1) a] .
  let ?c = "c\<lparr>c_heap := hp\<rparr>" and ?xs = "a # remove1 a xs"
  have dat: "dat (c_heap ?c) b = dat (c_heap c) b" for b
    using hp(3) by (simp add: same_nodes_def)
  have keys: "key_at ?c = key_at c" by (rule ext) (rule key_at_cong, rule dat)
  have set: "set ?xs = set xs" using a D(9) by auto
  have dist: "distinct (map (key_at c) ?xs)"
    using D(4,9) a by (auto simp: distinct_map inj_on_def distinct_remove1)
  have e: "entries ?c ?xs = entries c ?xs" by (rule entries_cong) (rule dat)
  have "units_ok c ?xs" using D(2) set by (simp add: units_ok_def)
  then have "units_ok ?c ?xs" using dat by (rule units_ok_cong [rotated])
  moreover have "ht_map (c_hTab c) = map_of (map (\<lambda>a. (key_at c a, Some a)) ?xs)"
    unfolding D(5) using D(4) dist set by (intro map_of_nodes_perm) auto
  moreover have "length ?xs = length xs" using Suc_length_remove1 [OF a] by simp
  ultimately have "cache_inv ?c ?xs"
    using D hp(2) dist keys by (simp add: cache_inv_def del: remove1.simps)
  moreover have "entries ?c ?xs = view (unit_at c a) # lru_others (key_at c a) (entries c xs)"
    unfolding e lru_others_entries [OF D(4) a] by (simp add: entries_def)
  ultimately show ?thesis using that hp(1,3) by blast
qed

text \<open>Taking a unit out of the list and freeing it, whatever the table became.\<close>

lemma cache_drop_list:
  assumes inv: "cache_inv c xs" and a: "a \<in> set xs"
    and tab: "delete_ht (c_hTab c) (key_at c a) = Inr tab"
  obtains c' where "cache_drop c (Some a) (unit_at c a) = Inr c'"
    and "c_hTab c' = tab" and "c_maxSize c' = c_maxSize c" and "c_copy c' = c_copy c"
    and "c_len c' = c_len c - 1" and "c_lList c' = c_lList c"
    and "dll (c_heap c') (c_lList c') (remove1 a xs)" and "\<not> alloc (c_heap c') a"
    and "\<And>b. b \<in> set (remove1 a xs) \<Longrightarrow> dat (c_heap c') b = dat (c_heap c) b"
proof -
  note D = cache_invD [OF inv]
  obtain h1 where h1: "RemoveFromLinkList (c_heap c) (c_lList c) (Some a) = Inr h1"
      "dll h1 (c_lList c) (remove1 a xs)" "same_nodes (c_heap c) h1"
    using ll.unlink_ok [OF D(1) a] by blast
  have "linkable h1 (c_lList c) a"
    using ll.same_usable [OF h1(3)] ll.lists_usable [OF D(1) a] by simp
  moreover have "a \<notin> set (remove1 a xs)" using D(9) by simp
  ultimately obtain h2 where h2: "freeLinkNode h1 (Some a) = Inr h2" "dll h2 (c_lList c) (remove1 a xs)"
      "\<not> alloc h2 a" "\<And>b. b \<noteq> a \<Longrightarrow> dat h2 b = dat h1 b \<and> alloc h2 b = alloc h1 b"
    using freeLinkNode_ok [OF h1(2), of a] by (auto simp: linkable_def)
  let ?c = "c\<lparr>c_hTab := tab, c_heap := h2, c_len := c_len c - 1\<rparr>"
  have "dat (c_heap ?c) b = dat (c_heap c) b" if "b \<in> set (remove1 a xs)" for b
  proof -
    have "b \<noteq> a" using that D(9) by auto
    then show ?thesis using h2(4) h1(3) by (simp add: same_nodes_def)
  qed
  moreover have "cache_drop c (Some a) (unit_at c a) = Inr ?c"
    using cache_unit(2) [OF inv a] tab h1(1) h2(1) by (simp add: cache_drop_def)
  ultimately show ?thesis using h2(2,3) by (intro that [of ?c]) simp_all
qed

lemma cache_drop_ok:
  assumes inv: "cache_inv c xs" and a: "a \<in> set xs" and spare: "ht_spare (c_hTab c)"
  obtains c' where "cache_drop c (Some a) (unit_at c a) = Inr c'"
    and "cache_inv c' (remove1 a xs)" and "c_maxSize c' = c_maxSize c" and "c_copy c' = c_copy c"
    and "entries c' (remove1 a xs) = lru_others (key_at c a) (entries c xs)"
    and "\<not> alloc (c_heap c') a"
proof -
  note D = cache_invD [OF inv]
  have m: "ht_map (c_hTab c) (key_at c a) = Some (Some a)"
    unfolding D(5) using D(4) a by (rule map_of_nodes)
  have k: "is_cstring (key_at c a)" using cache_unit(2) [OF inv a] by (rule cstr_is_cstring)
  obtain tab where tab: "delete_ht (c_hTab c) (key_at c a) = Inr tab" "ht_inv tab"
      "ht_map tab = (ht_map (c_hTab c))(key_at c a := None)"
    using delete_present [OF D(3) k _ spare] m by (metis option.distinct(1))
  obtain c' where c': "cache_drop c (Some a) (unit_at c a) = Inr c'"
      "c_hTab c' = tab" "c_maxSize c' = c_maxSize c" "c_copy c' = c_copy c"
      "c_len c' = c_len c - 1" "c_lList c' = c_lList c"
      "dll (c_heap c') (c_lList c') (remove1 a xs)" "\<not> alloc (c_heap c') a"
      "\<And>b. b \<in> set (remove1 a xs) \<Longrightarrow> dat (c_heap c') b = dat (c_heap c) b"
    using cache_drop_list [OF inv a tab(1)] by metis
  have keys: "map (key_at c') (remove1 a xs) = map (key_at c) (remove1 a xs)"
    using key_at_cong [OF c'(9)] by (intro map_cong refl) blast
  have nodes: "map (\<lambda>a. (key_at c' a, Some a)) (remove1 a xs) = map (\<lambda>a. (key_at c a, Some a)) (remove1 a xs)"
    using key_at_cong [OF c'(9)] by (intro map_cong refl) blast
  have "units_ok c (remove1 a xs)" using D(2) D(9) by (auto simp: units_ok_def)
  then have "units_ok c' (remove1 a xs)" using c'(9) by (rule units_ok_cong [rotated])
  moreover have "distinct (map (key_at c) (remove1 a xs))"
    using D(4,9) by (auto simp: distinct_map inj_on_def distinct_remove1)
  moreover have "length xs = Suc (length (remove1 a xs))"
    using Suc_length_remove1 [OF a] by simp
  ultimately have "cache_inv c' (remove1 a xs)"
    unfolding cache_inv_def keys nodes
    using D tab(2,3) c' map_of_nodes_remove1 [OF D(4) a, of Some] by simp
  moreover have "entries c' (remove1 a xs) = lru_others (key_at c a) (entries c xs)"
    unfolding lru_others_entries [OF D(4) a] by (rule entries_cong) (rule c'(9))
  ultimately show ?thesis using c' that by blast
qed

text \<open>Overwriting a unit under its own key.\<close>

lemma cache_set_data_ok:
  assumes inv: "cache_inv c xs" and a: "a \<in> set xs" and k: "su_key u = su_key (unit_at c a)"
  obtains hp where "set_data (c_heap c) (Some a) u = Inr hp" and "cache_inv (c\<lparr>c_heap := hp\<rparr>) xs"
    and "unit_at (c\<lparr>c_heap := hp\<rparr>) a = u" and "key_at (c\<lparr>c_heap := hp\<rparr>) = key_at c"
    and "\<And>b. b \<noteq> a \<Longrightarrow> unit_at (c\<lparr>c_heap := hp\<rparr>) b = unit_at c b"
proof -
  note D = cache_invD [OF inv]
  obtain hp where hp: "set_data (c_heap c) (Some a) u = Inr hp" "dll hp (c_lList c) xs"
      "dat hp a = Some u" "\<And>b. b \<noteq> a \<Longrightarrow> dat hp b = dat (c_heap c) b"
    using set_data_ok [OF D(1) a] by metis
  let ?c = "c\<lparr>c_heap := hp\<rparr>"
  have u: "unit_at ?c a = u" "\<And>b. b \<noteq> a \<Longrightarrow> unit_at ?c b = unit_at c b"
    using hp(3,4) by (simp_all add: unit_at_def)
  have keys: "key_at ?c = key_at c"
  proof (rule ext)
    fix b show "key_at ?c b = key_at c b"
      using u k by (cases "b = a") (simp_all add: key_at_def unit_key_def)
  qed
  have "units_ok ?c xs"
    unfolding units_ok_def keys
  proof
    fix b assume "b \<in> set xs"
    then show "dat (c_heap ?c) b \<noteq> None \<and> cstr (su_key (unit_at ?c b)) = Inr (key_at c b)"
      using D(2) u k hp(3,4) by (cases "b = a") (simp_all add: units_ok_def)
  qed
  then have "cache_inv ?c xs" using D hp(2) keys by (simp add: cache_inv_def)
  then show ?thesis using that hp(1) u keys by blast
qed

lemma cache_update_ok:
  assumes inv: "cache_inv c xs" and a: "a \<in> set xs"
  obtains c' where "cache_update c (Some a) data sz ttl now = Inr c'"
    and "cache_inv c' (a # remove1 a xs)" and "c_maxSize c' = c_maxSize c" and "c_copy c' = c_copy c"
    and "entries c' (a # remove1 a xs) =
      \<lparr>e_key = key_at c a, e_saved = now, e_ttl = ttl, e_data = copied c data\<rparr> #
        lru_others (key_at c a) (entries c xs)"
proof -
  let ?u = "unit_at c a\<lparr>su_data := copied c data, su_saveTime := now, su_TTL := ttl, su_dataSize := sz\<rparr>"
  obtain h1 where h1: "set_data (c_heap c) (Some a) ?u = Inr h1" "cache_inv (c\<lparr>c_heap := h1\<rparr>) xs"
      "unit_at (c\<lparr>c_heap := h1\<rparr>) a = ?u" "key_at (c\<lparr>c_heap := h1\<rparr>) = key_at c"
      "\<And>b. b \<noteq> a \<Longrightarrow> unit_at (c\<lparr>c_heap := h1\<rparr>) b = unit_at c b"
    using cache_set_data_ok [OF inv a, of ?u] by auto
  let ?c = "c\<lparr>c_heap := h1\<rparr>" and ?xs = "a # remove1 a xs"
  obtain h2 where h2: "bindE (RemoveFromLinkList h1 (c_lList c) (Some a))
        (\<lambda>hp. PutInHead hp (c_lList c) (Some a)) = Inr h2"
      "cache_inv (?c\<lparr>c_heap := h2\<rparr>) ?xs"
      "entries (?c\<lparr>c_heap := h2\<rparr>) ?xs =
         view (unit_at ?c a) # lru_others (key_at ?c a) (entries ?c xs)"
    using cache_move_ok [OF h1(2) a] by auto
  have "cache_update c (Some a) data sz ttl now = Inr (c\<lparr>c_heap := h2\<rparr>)"
    using cache_unit(1) [OF inv a] h1(1) h2(1)
    by (simp add: cache_update_def bindE_assoc [symmetric])
  moreover have "lru_others (key_at c a) (entries ?c xs) = lru_others (key_at c a) (entries c xs)"
  proof -
    have D: "distinct (map (key_at c) xs)" "distinct xs" using cache_invD [OF inv] by simp_all
    have "entries ?c (remove1 a xs) = entries c (remove1 a xs)"
      unfolding entries_def using D(2) h1(5) by (intro map_cong refl) auto
    then show ?thesis
      using lru_others_entries [OF D(1) a] lru_others_entries [of ?c xs a] D a h1(4) by simp
  qed
  moreover have "view (unit_at ?c a) =
      \<lparr>e_key = key_at c a, e_saved = now, e_ttl = ttl, e_data = copied c data\<rparr>"
    unfolding h1(3) by (simp add: view_def unit_key_def key_at_def)
  ultimately show ?thesis
    using h1(4) h2(2,3) by (intro that [of "c\<lparr>c_heap := h2\<rparr>"]) simp_all
qed

text \<open>Making room: with two units or more there is always one left in the table.\<close>

lemma cache_evict_drop:
  assumes "cache_inv c xs" and "xs \<noteq> []" and "c_maxSize c \<le> c_len c"
  shows "cache_evict c = cache_drop c (Some (last xs)) (unit_at c (last xs))"
  using assms cache_unit [OF assms(1), of "last xs"] GetLastLinkNode_ok [OF cache_invD(1) [OF assms(1)]]
  by (simp add: cache_evict_def cache_drop_def)

lemma remove1_last: "distinct xs \<Longrightarrow> xs \<noteq> [] \<Longrightarrow> remove1 (last xs) xs = butlast xs"
  by (induction xs) auto

lemma cache_evict_ok:
  assumes inv: "cache_inv c xs" and size: "2 \<le> c_maxSize c"
  obtains c' ys where "cache_evict c = Inr c'" and "cache_inv c' ys"
    and "c_maxSize c' = c_maxSize c" and "c_copy c' = c_copy c" and "int (length ys) < c_maxSize c"
    and "entries c' ys = (if nat (c_maxSize c) \<le> length xs then butlast (entries c xs) else entries c xs)"
    and "set ys \<subseteq> set xs" and "\<And>k. k \<in> key_at c' ` set ys \<Longrightarrow> k \<in> key_at c ` set xs"
proof (cases "c_maxSize c \<le> c_len c")
  case True
  note D = cache_invD [OF inv]
  have len: "2 \<le> length xs" "int (length xs) = c_maxSize c" using True D(6,7) size by auto
  then have ne: "xs \<noteq> []" by auto
  have "ht_spare (c_hTab c)" using cache_num [OF inv] len by (simp add: ht_spare_def)
  then obtain c' where c': "cache_drop c (Some (last xs)) (unit_at c (last xs)) = Inr c'"
      "cache_inv c' (remove1 (last xs) xs)" "c_maxSize c' = c_maxSize c" "c_copy c' = c_copy c"
      "entries c' (remove1 (last xs) xs) = lru_others (key_at c (last xs)) (entries c xs)"
    using cache_drop_ok [OF inv last_in_set [OF ne]] by metis
  have e: "lru_others (key_at c (last xs)) (entries c xs) = butlast (entries c xs)"
    using lru_others_entries [OF D(4) last_in_set [OF ne]] remove1_last [OF D(9) ne]
    by (simp add: entries_def map_butlast)
  have "key_at c' ` set (remove1 (last xs) xs) = e_key ` set (entries c' (remove1 (last xs) xs))"
    by (metis keys_entries list.set_map)
  then have "key_at c' ` set (remove1 (last xs) xs) \<subseteq> key_at c ` set xs"
    unfolding c'(5) e using in_set_butlastD by (fastforce simp: entries_def key_at_def)
  moreover have "length (remove1 (last xs) xs) < length xs"
    using Suc_length_remove1 [OF last_in_set [OF ne]] by simp
  ultimately show ?thesis
    using c' e len cache_evict_drop [OF inv ne True] set_remove1_subset [of "last xs" xs]
    by (intro that [of c' "remove1 (last xs) xs"]) auto
next
  case False
  then show ?thesis
    using cache_invD(6) [OF inv] inv by (intro that [of c xs]) (auto simp: cache_evict_def)
qed

lemma cache_add_ok:
  assumes inv: "cache_inv c xs" and k: "good_key key" and new: "key \<notin> key_at c ` set xs"
    and room: "int (length xs) < c_maxSize c"
  obtains c' a where "cache_add c key data sz ttl now = Inr c'" and "cache_inv c' (a # xs)"
    and "c_maxSize c' = c_maxSize c" and "c_copy c' = c_copy c"
    and "entries c' (a # xs) =
      \<lparr>e_key = key, e_saved = now, e_ttl = ttl, e_data = copied c data\<rparr> # entries c xs"
    and "insert_ht (c_hTab c) key (Some a) = Inr (c_hTab c')"
proof -
  note D = cache_invD [OF inv]
  let ?N = "SAVE_UNIT_KEY_MAX_LEN + 1"
  obtain arr where arr: "strncpy (uninit ?N) key ?N = Inr arr" "cstr arr = Inr key"
    using strncpy_short [of key ?N "uninit ?N"] k
    by (auto simp: good_key_def uninit_def HASH_KEY_MAX_LEN_def SAVE_UNIT_KEY_MAX_LEN_def)
  let ?u = "\<lparr>su_key = arr, su_saveTime = now, su_TTL = ttl, su_data = copied c data, su_dataSize = sz\<rparr>"
  obtain h1 p where new1: "newLinkNode (c_heap c) ?u = (h1, p)" by fastforce
  obtain a where a: "p = Some a" "dll h1 (c_lList c) xs" "alloc h1 a" "a < hp_brk h1"
      "a \<notin> set xs" "Some a \<noteq> ll_head (c_lList c)" "dat h1 a = Some ?u"
      "\<And>b. b \<in> set xs \<Longrightarrow> dat h1 b = dat (c_heap c) b"
    using newLinkNode_ok [OF D(1) new1] by metis
  obtain h2 where h2: "PutInHead h1 (c_lList c) (Some a) = Inr h2" "dll h2 (c_lList c) (a # xs)"
      "same_nodes h1 h2"
    using ll.push_ok [OF a(2), of a] a by (auto simp: linkable_def)
  have "card (dom (ht_map (c_hTab c))) < 2 ^ 29"
    using cache_card [OF inv] D(7,8) by simp
  then obtain tab where tab: "insert_ht (c_hTab c) key (Some a) = Inr tab" "ht_inv tab"
      "ht_map tab = (ht_map (c_hTab c))(key \<mapsto> Some a)"
    using ht.put_ok [OF D(3) _ k, of "Some a"] by blast
  let ?c = "c\<lparr>c_hTab := tab, c_heap := h2, c_len := c_len c + 1\<rparr>"
  have dat: "dat (c_heap ?c) b = dat (c_heap c) b" if "b \<in> set xs" for b
    using a(8) [OF that] h2(3) by (simp add: same_nodes_def)
  have u: "unit_at ?c a = ?u" "dat h2 a \<noteq> None"
    using a(7) h2(3) by (simp_all add: unit_at_def same_nodes_def)
  have ka: "key_at ?c a = key" unfolding key_at_def u(1) using arr(2) by (simp add: unit_key_def)
  have kb: "key_at ?c b = key_at c b" if "b \<in> set xs" for b
    by (rule key_at_cong) (rule dat [OF that])
  have nodes: "map (\<lambda>a. (key_at ?c a, Some a)) xs = map (\<lambda>a. (key_at c a, Some a)) xs"
    and keys: "map (key_at ?c) xs = map (key_at c) xs"
    using kb by auto
  have "units_ok ?c xs" using D(2) dat by (rule units_ok_cong [rotated])
  then have "units_ok ?c (a # xs)"
    using u arr(2) ka by (simp add: units_ok_def)
  moreover have "distinct (map (key_at ?c) (a # xs))"
    unfolding list.map(2) keys using D(4) new ka by simp
  moreover have "ht_map tab = map_of (map (\<lambda>a. (key_at ?c a, Some a)) (a # xs))"
    unfolding list.map(2) nodes tab(3) D(5) by (simp only: map_of.simps fst_conv snd_conv ka)
  ultimately have "cache_inv ?c (a # xs)"
    unfolding cache_inv_def using D tab h2(2) room by simp
  moreover have "entries ?c (a # xs) =
      \<lparr>e_key = key, e_saved = now, e_ttl = ttl, e_data = copied c data\<rparr> # entries c xs"
    using entries_cong [of xs ?c c] dat u(1) arr(2) by (simp add: entries_def view_def unit_key_def)
  moreover have "cache_add c key data sz ttl now = Inr ?c"
    using arr(1) new1 a(1) h2(1) tab(1) by (simp add: cache_add_def)
  ultimately show ?thesis using tab(1) by (intro that [of ?c a]) auto
qed

section \<open>The operations refine the specification\<close>

lemma CreateCache_ok:
  assumes "0 \<le> m" and "m \<le> 2 ^ 28"
  shows "cache_inv (CreateCache m copy) []" "c_hTab (CreateCache m copy) = NewHashTab"
    "c_maxSize (CreateCache m copy) = m" "c_copy (CreateCache m copy) = copy"
proof -
  obtain hp l where n: "NewLinkList (empty_heap :: 'a saveUnit heap) = (hp, l)" by fastforce
  show "c_hTab (CreateCache m copy) = NewHashTab" "c_maxSize (CreateCache m copy) = m"
    "c_copy (CreateCache m copy) = copy"
    by (simp_all add: CreateCache_def n)
  show "cache_inv (CreateCache m copy) []"
    using NewLinkList_ok(1) [OF n] NewHashTab_ok assms
    by (simp add: CreateCache_def n cache_inv_def units_ok_def)
qed

lemma cache_lookup:
  assumes "cache_inv c xs" and "is_cstring key"
  obtains (miss) "search (c_hTab c) key = Inr None" and "key \<notin> key_at c ` set xs"
    and "lru_find key (entries c xs) = None"
  | (hit) a where "search (c_hTab c) key = Inr (Some (Some a))" and "a \<in> set xs"
    and "key = key_at c a" and "lru_find key (entries c xs) = Some (view (unit_at c a))"
proof (cases "key \<in> key_at c ` set xs")
  case True
  then obtain a where a: "a \<in> set xs" "key = key_at c a" by auto
  have "search (c_hTab c) key = Inr (Some (Some a))"
    unfolding cache_search [OF assms] unfolding a(2)
    using map_of_nodes [OF cache_invD(4) [OF assms(1)] a(1), of Some] by simp
  then show ?thesis
    using hit a lru_find_entries [OF cache_invD(4) [OF assms(1)] a(1)] by simp
next
  case False
  then have "search (c_hTab c) key = Inr None"
    unfolding cache_search [OF assms] by (simp add: map_of_nodes_None)
  then show ?thesis
    using False lru_find_entries_None [OF False] by (rule miss)
qed

lemma CachePut_refines:
  assumes inv: "cache_inv c xs" and k: "good_key key" and size: "2 \<le> c_maxSize c"
  obtains c' xs' where "CachePut c key d sz ttl now = Inr c'" and "cache_inv c' xs'"
    and "entries c' xs' = lru_put (nat (c_maxSize c)) now key (copied c d) ttl (entries c xs)"
    and "c_maxSize c' = c_maxSize c" and "c_copy c' = c_copy c"
proof -
  have cs: "is_cstring key" using k by (simp add: good_key_def)
  from inv cs show ?thesis
  proof (cases rule: cache_lookup)
    case miss
    obtain c1 ys where c1: "cache_evict c = Inr c1" "cache_inv c1 ys" "c_maxSize c1 = c_maxSize c"
        "c_copy c1 = c_copy c" "int (length ys) < c_maxSize c"
        "entries c1 ys = (if nat (c_maxSize c) \<le> length xs then butlast (entries c xs) else entries c xs)"
        "\<And>k. k \<in> key_at c1 ` set ys \<Longrightarrow> k \<in> key_at c ` set xs"
      using cache_evict_ok [OF inv size] by metis
    have cp: "copied c1 d = copied c d" using c1(4) by (simp add: copied_def)
    have new: "key \<notin> key_at c1 ` set ys" using c1(7) miss(2) by blast
    have room: "int (length ys) < c_maxSize c1" using c1(3,5) by simp
    obtain c' a where "cache_add c1 key d sz ttl now = Inr c'" "cache_inv c' (a # ys)"
        "c_maxSize c' = c_maxSize c1" "c_copy c' = c_copy c1"
        "entries c' (a # ys) = \<lparr>e_key = key, e_saved = now, e_ttl = ttl, e_data = copied c1 d\<rparr> # entries c1 ys"
      using cache_add_ok [OF c1(2) k new room] by metis
    then show ?thesis
      using miss c1 cp by (intro that [of c' "a # ys"]) (simp_all add: CachePut_def lru_put_def)
  next
    case (hit a)
    obtain c' where "cache_update c (Some a) d sz ttl now = Inr c'" "cache_inv c' (a # remove1 a xs)"
        "c_maxSize c' = c_maxSize c" "c_copy c' = c_copy c"
        "entries c' (a # remove1 a xs) = \<lparr>e_key = key_at c a, e_saved = now, e_ttl = ttl,
           e_data = copied c d\<rparr> # lru_others (key_at c a) (entries c xs)"
      using cache_update_ok [OF inv hit(2)] by metis
    then show ?thesis
      using hit by (intro that [of c' "a # remove1 a xs"]) (simp_all add: CachePut_def lru_put_def)
  qed
qed

lemma CacheGet_find_hit:
  assumes inv: "cache_inv c xs" and hit: "search (c_hTab c) key = Inr (Some (Some a))" "a \<in> set xs"
    and fresh: "\<not> su_TTL (unit_at c a) < now - su_saveTime (unit_at c a)"
  obtains c' where "CacheGet_find c key now = Inr (c', Some (Some a))"
    and "cache_inv c' (a # remove1 a xs)" and "unit_at c' a = unit_at c a"
    and "entries c' (a # remove1 a xs) = view (unit_at c a) # lru_others (key_at c a) (entries c xs)"
    and "c_hTab c' = c_hTab c" and "c_maxSize c' = c_maxSize c" and "c_copy c' = c_copy c"
proof -
  obtain hp where hp: "bindE (RemoveFromLinkList (c_heap c) (c_lList c) (Some a))
        (\<lambda>hp. PutInHead hp (c_lList c) (Some a)) = Inr hp"
      "cache_inv (c\<lparr>c_heap := hp\<rparr>) (a # remove1 a xs)"
      "entries (c\<lparr>c_heap := hp\<rparr>) (a # remove1 a xs) =
         view (unit_at c a) # lru_others (key_at c a) (entries c xs)"
      "same_nodes (c_heap c) hp"
    using cache_move_ok [OF inv hit(2)] .
  have "CacheGet_find c key now = Inr (c\<lparr>c_heap := hp\<rparr>, Some (Some a))"
    using hit(1) cache_unit(1) [OF inv hit(2)] fresh hp(1)
    by (simp add: CacheGet_find_def bindE_assoc [symmetric])
  then show ?thesis
    using hp by (intro that [of "c\<lparr>c_heap := hp\<rparr>"]) (auto simp: unit_at_def same_nodes_def)
qed

lemma CacheGet_refines:
  assumes inv: "cache_inv c xs" and k: "is_cstring key"
    and keep: "fst (lru_get now key (entries c xs)) \<noteq> [] \<or> xs = [] \<or> 1 < unat (ht_len (c_hTab c))"
  obtains c' xs' where
    "CacheGet c key now = Inr (c', map_option (copied c) (snd (lru_get now key (entries c xs))))"
    and "cache_inv c' xs'" and "entries c' xs' = fst (lru_get now key (entries c xs))"
    and "c_maxSize c' = c_maxSize c" and "c_copy c' = c_copy c"
  using inv k
proof (cases rule: cache_lookup)
  case miss
  then show ?thesis
    using inv by (intro that [of c xs]) (simp_all add: CacheGet_def CacheGet_find_def lru_get_def)
next
  case (hit a)
  show ?thesis
  proof (cases "su_TTL (unit_at c a) < now - su_saveTime (unit_at c a)")
    case True
    then have get: "lru_get now key (entries c xs) = (lru_others key (entries c xs), None)"
      using hit by (simp add: lru_get_def)
    have "ht_spare (c_hTab c)"
    proof (cases "1 < unat (ht_len (c_hTab c))")
      case False
      then have "entries c (remove1 a xs) \<noteq> []"
        using keep get hit(2,3) lru_others_entries [OF cache_invD(4) [OF inv] hit(2)] by auto
      then have "1 < length xs"
        using Suc_length_remove1 [OF hit(2)] by (cases "remove1 a xs") (auto simp: entries_def)
      then show ?thesis using cache_num [OF inv] by (simp add: ht_spare_def)
    qed (simp add: ht_spare_def)
    then obtain c' where "cache_drop c (Some a) (unit_at c a) = Inr c'" "cache_inv c' (remove1 a xs)"
        "c_maxSize c' = c_maxSize c" "c_copy c' = c_copy c"
        "entries c' (remove1 a xs) = lru_others (key_at c a) (entries c xs)"
      using cache_drop_ok [OF inv hit(2)] by metis
    then show ?thesis
      using hit True get cache_unit(1) [OF inv hit(2)]
      by (intro that [of c' "remove1 a xs"]) (simp_all add: CacheGet_def CacheGet_find_def)
  next
    case False
    then have get: "lru_get now key (entries c xs) =
        (view (unit_at c a) # lru_others key (entries c xs), Some (su_data (unit_at c a)))"
      using hit by (simp add: lru_get_def)
    obtain c' where c': "CacheGet_find c key now = Inr (c', Some (Some a))"
        "cache_inv c' (a # remove1 a xs)" "unit_at c' a = unit_at c a"
        "entries c' (a # remove1 a xs) = view (unit_at c a) # lru_others (key_at c a) (entries c xs)"
        "c_maxSize c' = c_maxSize c" "c_copy c' = c_copy c"
      using CacheGet_find_hit [OF inv hit(1,2) False] by metis
    have "CacheGet_copy c' (Some a) = Inr (copied c (su_data (unit_at c a)))"
      using cache_unit(1) [OF c'(2), of a] c'(3,6) by (simp add: CacheGet_copy_def copied_def)
    then show ?thesis
      using c' get hit(3) by (intro that [of c' "a # remove1 a xs"]) (simp_all add: CacheGet_def)
  qed
qed

section \<open>The contract of the cache\<close>

text \<open>An entry that is there and not past its time.\<close>

definition live :: "'v lru \<Rightarrow> cstring \<Rightarrow> int \<Rightarrow> 'v \<Rightarrow> bool" where
  "live es k now d \<longleftrightarrow>
     (\<exists>e. lru_find k es = Some e \<and> now - e_saved e \<le> e_ttl e \<and> e_data e = d)"

text \<open>
  What a client of the cache relies on, without the pointers: a representation by the list of
  entries that \<open>put\<close> and \<open>get\<close> change as the specification says.
\<close>

locale lru_store =
  fixes put :: "'c \<Rightarrow> cstring \<Rightarrow> 'v \<Rightarrow> nat \<Rightarrow> int \<Rightarrow> int \<Rightarrow> 'c res"
    and get :: "'c \<Rightarrow> cstring \<Rightarrow> int \<Rightarrow> ('c \<times> 'v option) res"
    and rel :: "'c \<Rightarrow> 'v lru \<Rightarrow> bool"
    and cap :: "'c \<Rightarrow> nat"
  assumes put_ok: "rel c es \<Longrightarrow> good_key k \<Longrightarrow>
      \<exists>c'. put c k d sz ttl now = Inr c' \<and> rel c' (lru_put (cap c) now k d ttl es) \<and> cap c' = cap c"
    and get_ok: "rel c es \<Longrightarrow> is_cstring k \<Longrightarrow> fst (lru_get now k es) \<noteq> [] \<or> es = [] \<Longrightarrow>
      \<exists>c'. get c k now = Inr (c', snd (lru_get now k es)) \<and> rel c' (fst (lru_get now k es)) \<and> cap c' = cap c"
begin

lemma get_miss:
  assumes "rel c es" and "is_cstring k" and "lru_find k es = None"
  obtains c' where "get c k now = Inr (c', None)" and "rel c' es" and "cap c' = cap c"
  using get_ok [OF assms(1,2), of now] assms(3) that by (auto simp: lru_get_def)

lemma get_hit:
  assumes "rel c es" and "is_cstring k" and "live es k now d"
  obtains c' es' where "get c k now = Inr (c', Some d)" and "rel c' es'" and "cap c' = cap c"
    and "\<And>k'. lru_find k' es' = lru_find k' es"
proof -
  obtain e where e: "lru_find k es = Some e" "now - e_saved e \<le> e_ttl e" "e_data e = d"
    using assms(3) by (auto simp: live_def)
  then have g: "lru_get now k es = (e # lru_others k es, Some d)" by (simp add: lru_get_def)
  have k: "e_key e = k" using e(1) by (auto simp: lru_find_def find_Some_iff)
  have "lru_find k' (e # lru_others k es) = lru_find k' es" for k'
  proof (cases "k' = k")
    case False
    have "find (\<lambda>e. e_key e = k') (filter (\<lambda>e. e_key e \<noteq> k) es) = find (\<lambda>e. e_key e = k') es"
      using False by (induction es) auto
    then show ?thesis using False k by (simp add: lru_find_def lru_others_def)
  qed (use e(1) k in \<open>simp add: lru_find_def\<close>)
  then show ?thesis using get_ok [OF assms(1,2), of now] g that [of _ "e # lru_others k es"] by auto
qed

lemma get_after_put:
  assumes "rel c es" and "good_key k" and "now' - now \<le> ttl"
  obtains c' c'' es' where "put c k d sz ttl now = Inr c'" and "get c' k now' = Inr (c'', Some d)" and "rel c'' es'"
    and "cap c'' = cap c"
proof -
  obtain c' where c': "put c k d sz ttl now = Inr c'" "rel c' (lru_put (cap c) now k d ttl es)" "cap c' = cap c"
    using put_ok [OF assms(1,2)] by blast
  have l: "live (lru_put (cap c) now k d ttl es) k now' d"
    using assms(3) by (simp add: live_def lru_put_def lru_find_def)
  have "is_cstring k" using assms(2) by (simp add: good_key_def)
  from get_hit [OF c'(2) this l] c' that show ?thesis by metis
qed

end

definition plain_rel :: "'v Cache \<Rightarrow> 'v lru \<Rightarrow> bool" where
  "plain_rel c es \<longleftrightarrow> cache_rel c es \<and> 2 \<le> c_maxSize c \<and> c_copy c = None"

definition plain_cap :: "'v Cache \<Rightarrow> nat" where
  "plain_cap c = nat (c_maxSize c)"

lemma CreateCache_rel: "0 \<le> m \<Longrightarrow> m \<le> 2 ^ 28 \<Longrightarrow> cache_rel (CreateCache m copy) []"
  using CreateCache_ok [of m copy] unfolding cache_rel_def by (metis entries_def list.map(1))

interpretation plain: lru_store CachePut CacheGet plain_rel plain_cap
proof
  fix c :: "'v Cache" and es :: "'v lru" and k sz ttl now and d :: 'v
  assume r: "plain_rel c es" and k: "good_key k"
  obtain xs where xs: "cache_inv c xs" "entries c xs = es" "2 \<le> c_maxSize c" "c_copy c = None"
    using r unfolding plain_rel_def cache_rel_def by blast
  then have "copied c d = d" by (simp add: copied_def)
  with CachePut_refines [OF xs(1) k xs(3), of d sz ttl now] xs
  show "\<exists>c'. CachePut c k d sz ttl now = Inr c' \<and>
      plain_rel c' (lru_put (plain_cap c) now k d ttl es) \<and> plain_cap c' = plain_cap c"
    unfolding plain_rel_def plain_cap_def cache_rel_def by metis
next
  fix c :: "'v Cache" and es :: "'v lru" and k now
  assume r: "plain_rel c es" and k: "is_cstring k" and keep: "fst (lru_get now k es) \<noteq> [] \<or> es = []"
  obtain xs where xs: "cache_inv c xs" "entries c xs = es" "2 \<le> c_maxSize c" "c_copy c = None"
    using r unfolding plain_rel_def cache_rel_def by blast
  have cp: "copied c = (\<lambda>d. d)" using xs(4) by (simp add: copied_def fun_eq_iff)
  have "fst (lru_get now k (entries c xs)) \<noteq> [] \<or> xs = [] \<or> 1 < unat (ht_len (c_hTab c))"
    using keep xs(2) by (auto simp: entries_def)
  then obtain c' xs' where c': "CacheGet c k now = Inr (c', map_option (copied c) (snd (lru_get now k (entries c xs))))"
      "cache_inv c' xs'" "entries c' xs' = fst (lru_get now k (entries c xs))"
      "c_maxSize c' = c_maxSize c" "c_copy c' = c_copy c"
    by (rule CacheGet_refines [OF xs(1) k])
  have "cache_rel c' (fst (lru_get now k es))"
    unfolding cache_rel_def using c'(2,3) xs(2) by metis
  then show "\<exists>c'. CacheGet c k now = Inr (c', snd (lru_get now k es)) \<and>
      plain_rel c' (fst (lru_get now k es)) \<and> plain_cap c' = plain_cap c"
    using c' xs cp by (simp add: plain_rel_def plain_cap_def option.map_ident)
qed

lemma CreateCache_plain:
  assumes "2 \<le> m" and "m \<le> 2 ^ 28"
  shows "plain_rel (CreateCache m None :: 'v Cache) []"
proof -
  have "cache_rel (CreateCache m None :: 'v Cache) []"
    by (rule CreateCache_rel) (use assms in auto)
  moreover have "c_maxSize (CreateCache m None :: 'v Cache) = m" "c_copy (CreateCache m None :: 'v Cache) = None"
    using CreateCache_ok [of m None] assms by simp_all
  ultimately show ?thesis using assms by (simp add: plain_rel_def)
qed

lemma plain_rel_unique: "plain_rel c es \<Longrightarrow> plain_rel c es' \<Longrightarrow> es = es'"
  using dll_unique by (fastforce simp: plain_rel_def cache_rel_def cache_inv_def)

text \<open>A key of 50 bytes or more is stored without a terminator, if it is stored at all.\<close>

lemma cache_add_long:
  assumes inv: "cache_inv c xs" and k: "is_cstring key" and long: "HASH_KEY_MAX_LEN \<le> length key"
  shows "cache_add c key data sz ttl now = Inl Uninit_Read \<or>
     (\<exists>c'. cache_add c key data sz ttl now = Inr c' \<and> search (c_hTab c') key = Inl Uninit_Read)"
proof -
  note D = cache_invD [OF inv]
  let ?N = "SAVE_UNIT_KEY_MAX_LEN + 1"
  obtain arr where arr: "strncpy (uninit ?N) key ?N = Inr arr" by (simp add: strncpy_def uninit_def)
  let ?u = "\<lparr>su_key = arr, su_saveTime = now, su_TTL = ttl, su_data = copied c data, su_dataSize = sz\<rparr>"
  obtain h1 p where new1: "newLinkNode (c_heap c) ?u = (h1, p)" by fastforce
  obtain a where a: "p = Some a" "dll h1 (c_lList c) xs" "alloc h1 a" "a < hp_brk h1"
      "a \<notin> set xs" "Some a \<noteq> ll_head (c_lList c)"
    using newLinkNode_ok [OF D(1) new1] by metis
  obtain h2 where h2: "PutInHead h1 (c_lList c) (Some a) = Inr h2"
    using ll.push_ok [OF a(2), of a] a by (auto simp: linkable_def)
  show ?thesis
    using insert_long_search [OF D(3) k long, of "Some a"] arr new1 a(1) h2 by (auto simp: cache_add_def)
qed

lemma cache_keys_short:
  assumes "cache_inv c xs" and "a \<in> set xs"
  shows "length (key_at c a) < HASH_KEY_MAX_LEN"
proof -
  have "key_at c a \<in> dom (ht_map (c_hTab c))" unfolding cache_invD(5) [OF assms(1)] using assms(2) by (auto simp: dom_map_of_conv_image_fst image_image)
  then show ?thesis using ht.good_alpha [OF cache_invD(3) [OF assms(1)]] by (simp add: good_key_def)
qed

lemma CachePut_long:
  assumes rel: "plain_rel c es" and k: "is_cstring key" and long: "HASH_KEY_MAX_LEN \<le> length key"
  shows "CachePut c key data sz ttl now = Inl Uninit_Read \<or>
     (\<exists>c'. CachePut c key data sz ttl now = Inr c' \<and> CacheGet c' key now' = Inl Uninit_Read)"
proof -
  obtain xs where inv: "cache_inv c xs" and size: "2 \<le> c_maxSize c"
    using rel by (auto simp: plain_rel_def cache_rel_def)
  have "key \<notin> key_at c ` set xs" using cache_keys_short [OF inv] long by fastforce
  then have s: "search (c_hTab c) key = Inr None" by (cases rule: cache_lookup [OF inv k]) auto
  obtain c1 ys where c1: "cache_evict c = Inr c1" "cache_inv c1 ys" by (rule cache_evict_ok [OF inv size])
  show ?thesis
    using cache_add_long [OF c1(2) k long, of data sz ttl now] s c1(1)
    by (auto simp: CachePut_def CacheGet_def CacheGet_find_def)
qed

section \<open>Sequences of operations\<close>

datatype 'v cache_op = Op_Put cstring 'v nat int int | Op_Get cstring int

text \<open>What the calls of \<open>CacheGet\<close> in a sequence of operations return.\<close>

fun cache_run :: "'v Cache \<Rightarrow> 'v cache_op list \<Rightarrow> 'v option list res" where
  "cache_run c [] = Inr []"
| "cache_run c (Op_Put k d sz ttl now # ops) = bindE (CachePut c k d sz ttl now) (\<lambda>c. cache_run c ops)"
| "cache_run c (Op_Get k now # ops) =
     bindE (CacheGet c k now) (\<lambda>(c, r). bindE (cache_run c ops) (\<lambda>rs. Inr (r # rs)))"

fun lru_run :: "nat \<Rightarrow> 'v lru \<Rightarrow> 'v cache_op list \<Rightarrow> 'v option list" where
  "lru_run cap es [] = []"
| "lru_run cap es (Op_Put k d sz ttl now # ops) = lru_run cap (lru_put cap now k d ttl es) ops"
| "lru_run cap es (Op_Get k now # ops) =
     (let (es', r) = lru_get now k es in r # lru_run cap es' ops)"

text \<open>The keys are short enough and no lookup removes the last entry of the cache.\<close>

fun in_contract :: "nat \<Rightarrow> 'v lru \<Rightarrow> 'v cache_op list \<Rightarrow> bool" where
  "in_contract cap es [] \<longleftrightarrow> True"
| "in_contract cap es (Op_Put k d sz ttl now # ops) \<longleftrightarrow>
     good_key k \<and> in_contract cap (lru_put cap now k d ttl es) ops"
| "in_contract cap es (Op_Get k now # ops) \<longleftrightarrow>
     is_cstring k \<and> (es = [] \<or> fst (lru_get now k es) \<noteq> []) \<and>
     in_contract cap (fst (lru_get now k es)) ops"

lemma cache_run_refines:
  assumes "cache_inv c xs" and "2 \<le> c_maxSize c" and "c_copy c = None"
    and "in_contract (nat (c_maxSize c)) (entries c xs) ops"
  shows "cache_run c ops = Inr (lru_run (nat (c_maxSize c)) (entries c xs) ops)"
  using assms
proof (induction ops arbitrary: c xs)
  case (Cons op ops)
  have cp: "copied c = (\<lambda>d. d)" using Cons.prems(3) by (simp add: copied_def fun_eq_iff)
  show ?case
  proof (cases op)
    case (Op_Put k d sz ttl now)
    then have "good_key k" using Cons.prems(4) by simp
    then obtain c' xs' where "CachePut c k d sz ttl now = Inr c'" "cache_inv c' xs'"
        "entries c' xs' = lru_put (nat (c_maxSize c)) now k d ttl (entries c xs)"
        "c_maxSize c' = c_maxSize c" "c_copy c' = c_copy c"
      using CachePut_refines [OF Cons.prems(1) _ Cons.prems(2)] cp by metis
    then show ?thesis using Cons.IH [of c' xs'] Cons.prems Op_Put by simp
  next
    case (Op_Get k now)
    then have "is_cstring k" "fst (lru_get now k (entries c xs)) \<noteq> [] \<or> xs = [] \<or> 1 < unat (ht_len (c_hTab c))"
      using Cons.prems(4) by (auto simp: entries_def)
    then obtain c' xs' where
        "CacheGet c k now = Inr (c', map_option (copied c) (snd (lru_get now k (entries c xs))))"
        "cache_inv c' xs'" "entries c' xs' = fst (lru_get now k (entries c xs))"
        "c_maxSize c' = c_maxSize c" "c_copy c' = c_copy c"
      using CacheGet_refines [OF Cons.prems(1)] by metis
    then show ?thesis using Cons.IH [of c' xs'] Cons.prems Op_Get
      by (simp add: case_prod_beta option.map_ident cp)
  qed
qed simp

section \<open>An entry that expires alone\<close>

lemma ht_empty_is_empty_tab:
  assumes "ht_inv ht" and "ht_map ht = Map.empty"
  shows "ht = empty_tab (ht_len ht)"
proof -
  have none: "ht_nodes ht = []"
    using assms(2) by (simp add: ht_map_def)
  then have "ht_num ht = 0" using assms(1) by (simp add: ht_inv_def unat_eq_zero)
  moreover have "ht_h ht = replicate (unat (ht_len ht)) []"
    using none assms(1) by (intro replicate_eqI) (auto simp: ht_nodes_def ht_inv_def buckets_ok_def)
  ultimately show ?thesis by (simp add: empty_tab_def)
qed

text \<open>An entry is put into the cache and looked up after its time.\<close>

definition expire_round :: "'v Cache \<Rightarrow> cstring \<times> 'v \<times> nat \<times> int \<times> int \<times> int \<Rightarrow> 'v Cache res" where
  "expire_round c r =
     (case r of (k, d, sz, ttl, t1, t2) \<Rightarrow>
        bindE (CachePut c k d sz ttl t1) (\<lambda>c. bindE (CacheGet c k t2) (\<lambda>(c, _). Inr c)))"

fun round_ok :: "cstring \<times> 'v \<times> nat \<times> int \<times> int \<times> int \<Rightarrow> bool" where
  "round_ok (k, d, sz, ttl, t1, t2) \<longleftrightarrow> good_key k \<and> ttl < t2 - t1"

lemma expire_round_halves:
  assumes inv: "cache_inv c []" and size: "1 \<le> c_maxSize c" and ok: "round_ok r"
    and l: "unat (ht_len (c_hTab c)) \<le> 1024"
  obtains c' where "expire_round c r = Inr c'"
    and "c_hTab c' = empty_tab (drop_bit 1 (ht_len (c_hTab c)))"
    and "1 < unat (ht_len (c_hTab c)) \<Longrightarrow> cache_inv c' []" and "c_maxSize c' = c_maxSize c"
proof -
  obtain k d sz ttl t1 t2 where r: "r = (k, d, sz, ttl, t1, t2)" by (cases r) auto
  have k: "good_key k" and late: "ttl < t2 - t1" using ok r by simp_all
  have cs: "is_cstring k" using k by (simp add: good_key_def)
  let ?l = "ht_len (c_hTab c)"
  have tab: "c_hTab c = empty_tab ?l" "0 < unat ?l"
    using ht_empty_is_empty_tab [OF cache_invD(3) [OF inv]] cache_invD(3,5) [OF inv]
    by (simp_all add: ht_inv_def)
  have miss: "search (c_hTab c) k = Inr None" using cache_search [OF inv cs] by simp
  have new: "k \<notin> key_at c ` set []" and room: "int (length []) < c_maxSize c"
    using size by simp_all
  obtain c1 a where c1: "cache_add c k d sz ttl t1 = Inr c1" "cache_inv c1 [a]"
      "c_maxSize c1 = c_maxSize c"
      "entries c1 [a] = \<lparr>e_key = k, e_saved = t1, e_ttl = ttl, e_data = copied c d\<rparr> # entries c []"
      "insert_ht (empty_tab ?l) k (Some a) = Inr (c_hTab c1)"
    unfolding tab(1) [symmetric] using cache_add_ok [OF inv k new room] by metis
  have put: "CachePut c k d sz ttl t1 = Inr c1"
    using miss c1(1) cache_invD(6) [OF inv] size by (simp add: CachePut_def cache_evict_def)
  have ka: "key_at c1 a = k" and times: "su_TTL (unit_at c1 a) = ttl" "su_saveTime (unit_at c1 a) = t1"
    using c1(4) by (simp_all add: entries_def view_def key_at_def)
  have del: "delete_ht (c_hTab c1) (key_at c1 a) = Inr (empty_tab (drop_bit 1 ?l))"
    using insert_delete_halves [OF tab(2) l k, of "Some a"] c1(5) ka by simp
  have mem: "a \<in> set [a]" by simp
  obtain c2 where c2: "cache_drop c1 (Some a) (unit_at c1 a) = Inr c2"
      "c_hTab c2 = empty_tab (drop_bit 1 ?l)" "c_maxSize c2 = c_maxSize c1" "c_len c2 = c_len c1 - 1"
      "dll (c_heap c2) (c_lList c2) (remove1 a [a])"
    using cache_drop_list [OF c1(2) mem del] by metis
  have hit: "search (c_hTab c1) k = Inr (Some (Some a))"
    using cache_search [OF c1(2) cs] ka by simp
  have "expire_round c r = Inr c2"
    using put hit cache_unit(1) [OF c1(2), of a] times late c2(1)
    by (simp add: r expire_round_def CacheGet_def CacheGet_find_def)
  moreover have "cache_inv c2 []" if "1 < unat ?l"
  proof -
    have "0 < unat (drop_bit 1 ?l)" "unat (drop_bit 1 ?l) \<le> 2 ^ 30"
      using that l unfolding unat_halve by auto
    then have "ht_inv (c_hTab c2)" "ht_map (c_hTab c2) = Map.empty"
      unfolding c2(2) by (rule empty_tab_inv)+
    then show ?thesis
      using c2(3-5) c1(3) cache_invD(6) [OF c1(2)] cache_invD(7,8) [OF inv]
      by (simp add: cache_inv_def units_ok_def)
  qed
  ultimately show ?thesis using that c2(2,3) c1(3) by metis
qed

lemma expire_rounds:
  assumes "cache_inv c []" and "1 \<le> c_maxSize c" and "\<forall>r \<in> set rs. round_ok r"
    and "unat (ht_len (c_hTab c)) = 2 ^ n" and "n \<le> 10" and "length rs = Suc n"
  shows "\<exists>c'. foldE expire_round c rs = Inr c' \<and> ht_len (c_hTab c') = 0"
  using assms
proof (induction n arbitrary: c rs)
  case 0
  then obtain r where rs: "rs = [r]" by (cases rs) auto
  obtain c' where "expire_round c r = Inr c'"
      "c_hTab c' = empty_tab (drop_bit 1 (ht_len (c_hTab c)))"
    using expire_round_halves [of c r] 0 rs by auto
  moreover have "drop_bit 1 (ht_len (c_hTab c)) = 0"
    using unat_halve [of "ht_len (c_hTab c)"] 0(4) by (simp add: unat_eq_zero del: One_nat_def)
  ultimately show ?case using rs by (auto simp: empty_tab_def)
next
  case (Suc n)
  then obtain r rs' where rs: "rs = r # rs'" by (cases rs) auto
  have "(2 :: nat) ^ Suc n \<le> 2 ^ 10" using Suc.prems(5) by (intro power_increasing) auto
  then have le: "unat (ht_len (c_hTab c)) \<le> 1024" using Suc.prems(4) by simp
  have "1 < unat (ht_len (c_hTab c))" using Suc.prems(4) by (simp add: Suc_lessI)
  then obtain c' where c': "expire_round c r = Inr c'"
      "c_hTab c' = empty_tab (drop_bit 1 (ht_len (c_hTab c)))" "cache_inv c' []"
      "c_maxSize c' = c_maxSize c"
    using expire_round_halves [of c r] Suc.prems(1-3) rs le by auto
  have "unat (ht_len (c_hTab c')) = 2 ^ n"
    using c'(2) Suc.prems(4) unat_halve [of "ht_len (c_hTab c)"]
    by (simp add: empty_tab_def del: One_nat_def)
  then have "\<exists>c''. foldE expire_round c' rs' = Inr c'' \<and> ht_len (c_hTab c'') = 0"
    using Suc.prems rs c' by (intro Suc.IH) auto
  then show ?case using rs c'(1) by simp
qed

section \<open>Properties\<close>

text \<open>The cache of one entry that the examples below start from.\<close>

abbreviation qq_key :: cstring where
  "qq_key \<equiv> bytes ''qq.com:A''"

lemma qq_key_good: "good_key qq_key" "is_cstring qq_key"
  by (simp_all add: good_key_def HASH_KEY_MAX_LEN_def is_cstring_def bytes_def)

definition qq_entry :: "nat slot_entry" where
  "qq_entry = \<lparr>e_key = qq_key, e_saved = 1000, e_ttl = 60, e_data = 7\<rparr>"

lemma qq_cache:
  obtains c xs where "CachePut (CreateCache 2 None) qq_key (7 :: nat) 4 60 1000 = Inr c"
    and "cache_inv c xs" and "entries c xs = [qq_entry]" and "c_copy c = None" and "c_maxSize c = 2"
proof -
  have m: "c_maxSize (CreateCache 2 None :: nat Cache) = 2" "c_copy (CreateCache 2 None :: nat Cache) = None"
    "cache_inv (CreateCache 2 None :: nat Cache) []"
    using CreateCache_ok [of 2 None] by simp_all
  have size: "2 \<le> c_maxSize (CreateCache 2 None :: nat Cache)" using m(1) by simp
  have put: "lru_put 2 1000 qq_key 7 60 [] = [qq_entry]"
    by (simp add: lru_put_def lru_find_def qq_entry_def)
  obtain c xs where "CachePut (CreateCache 2 None) qq_key (7 :: nat) 4 60 1000 = Inr c" "cache_inv c xs"
      "entries c xs = lru_put (nat (c_maxSize (CreateCache 2 None :: nat Cache))) 1000 qq_key
         (copied (CreateCache 2 None) 7) 60 (entries (CreateCache 2 None) [])"
      "c_maxSize c = c_maxSize (CreateCache 2 None :: nat Cache)"
      "c_copy c = c_copy (CreateCache 2 None :: nat Cache)"
    by (rule CachePut_refines [OF m(3) qq_key_good(1) size])
  then show ?thesis
    using m put by (intro that [of c xs]) (simp_all add: copied_def entries_def)
qed

text \<open>
  C14. \<open>CachePut\<close> behaves as the specification of a least-recently-used cache says: the entry is
  at the head with the new data and time, an older entry of the key is gone, and a full cache
  loses exactly its least recently used entry. The pointer structures stay consistent. The key
  must be shorter than 50 bytes and the cache have at least two places.
\<close>
theorem cache_put_refines_lru:
  assumes "cache_rel c es" and "good_key key" and "2 \<le> c_maxSize c"
  shows "\<exists>c'. CachePut c key d sz ttl now = Inr c' \<and>
     cache_rel c' (lru_put (nat (c_maxSize c)) now key (copied c d) ttl es) \<and>
     c_maxSize c' = c_maxSize c \<and> c_copy c' = c_copy c"
proof -
  obtain xs where xs: "cache_inv c xs" "entries c xs = es"
    using assms(1) unfolding cache_rel_def by blast
  show ?thesis
    using CachePut_refines [OF xs(1) assms(2,3), of d sz ttl now] xs(2)
    unfolding cache_rel_def by metis
qed

theorem cache_put_refines_lru_witness:
  "\<exists>c. CachePut (CreateCache 2 None) qq_key (7 :: nat) 4 60 1000 = Inr c \<and> cache_rel c [qq_entry]"
proof -
  have r: "cache_rel (CreateCache 2 None :: nat Cache) []" by (rule CreateCache_rel) simp_all
  have m: "c_maxSize (CreateCache 2 None :: nat Cache) = 2" "c_copy (CreateCache 2 None :: nat Cache) = None"
    using CreateCache_ok [of 2 None] by simp_all
  show ?thesis
    using cache_put_refines_lru [OF r qq_key_good(1), of 7 4 60 1000] m
    by (auto simp: lru_put_def lru_find_def copied_def qq_entry_def)
qed

text \<open>
  C15. \<open>CacheGet\<close> behaves as the specification says: it returns a copy of the stored data of a
  live entry and moves the entry to the head, returns nothing for a key that is not there, and
  removes an entry past its time. The hypothesis excludes only the removal of the last entry of
  a cache whose table has shrunk to one bucket.
\<close>
theorem cache_get_refines_lru:
  assumes "cache_rel c es" and "is_cstring key"
    and "fst (lru_get now key es) \<noteq> [] \<or> es = [] \<or> 1 < unat (ht_len (c_hTab c))"
  shows "\<exists>c'. CacheGet c key now = Inr (c', map_option (copied c) (snd (lru_get now key es))) \<and>
     cache_rel c' (fst (lru_get now key es)) \<and> c_maxSize c' = c_maxSize c \<and> c_copy c' = c_copy c"
proof -
  obtain xs where xs: "cache_inv c xs" "entries c xs = es"
    using assms(1) unfolding cache_rel_def by blast
  have "fst (lru_get now key (entries c xs)) \<noteq> [] \<or> xs = [] \<or> 1 < unat (ht_len (c_hTab c))"
    using assms(3) xs(2) by (auto simp: entries_def)
  from CacheGet_refines [OF xs(1) assms(2) this] show ?thesis
    unfolding cache_rel_def xs(2) by metis
qed

theorem cache_get_refines_lru_witness:
  "\<exists>c c'. CachePut (CreateCache 2 None) qq_key (7 :: nat) 4 60 1000 = Inr c \<and>
     CacheGet c qq_key 1030 = Inr (c', Some 7)"
proof -
  obtain c xs where c: "CachePut (CreateCache 2 None) qq_key (7 :: nat) 4 60 1000 = Inr c"
      "cache_inv c xs" "entries c xs = [qq_entry]" "c_copy c = None"
    by (rule qq_cache)
  then have r: "cache_rel c [qq_entry]" unfolding cache_rel_def by blast
  have get: "lru_get 1030 qq_key [qq_entry] = ([qq_entry], Some 7)"
    by (simp add: lru_get_def lru_find_def lru_others_def qq_entry_def)
  from cache_get_refines_lru [OF r qq_key_good(2), of 1030] get c(1,4) show ?thesis
    by (auto simp: copied_def)
qed

text \<open>
  C16. A whole sequence of calls on a new cache (at least two places, default copying) returns
  from its lookups exactly what the least-recently-used specification returns, as long as the
  keys are shorter than 50 bytes and no lookup empties the cache.
\<close>
theorem cache_run_equals_lru_run:
  assumes "2 \<le> m" and "m \<le> 2 ^ 28" and "in_contract (nat m) [] ops"
  shows "cache_run (CreateCache m None) ops = Inr (lru_run (nat m) [] ops)"
proof -
  have c: "c_maxSize (CreateCache m None :: 'a Cache) = m" "cache_inv (CreateCache m None :: 'a Cache) []"
    "c_copy (CreateCache m None :: 'a Cache) = None"
    using CreateCache_ok [of m None] assms(1,2) by simp_all
  have "entries (CreateCache m None :: 'a Cache) [] = []" by (simp add: entries_def)
  with cache_run_refines [OF c(2) _ c(3), of ops] c(1) assms(1,3) show ?thesis by simp
qed

theorem cache_run_equals_lru_run_witness:
  "cache_run (CreateCache 2 None)
     [Op_Put [97] (1 :: nat) 4 60 0, Op_Put [98] 2 4 60 1, Op_Get [97] 2,
      Op_Put [99] 3 4 60 3, Op_Get [98] 4, Op_Get [97] 5, Op_Get [97] 70]
   = Inr [Some 1, None, Some 1, None]"
proof -
  let ?ops = "[Op_Put [97] (1 :: nat) 4 60 0, Op_Put [98] 2 4 60 1, Op_Get [97] 2,
      Op_Put [99] 3 4 60 3, Op_Get [98] 4, Op_Get [97] 5, Op_Get [97] 70]"
  have ok: "in_contract (nat 2) [] ?ops"
    by (simp add: lru_put_def lru_get_def lru_find_def lru_others_def good_key_def HASH_KEY_MAX_LEN_def)
  have run: "lru_run (nat 2) [] ?ops = [Some 1, None, Some 1, None]"
    by (simp add: lru_put_def lru_get_def lru_find_def lru_others_def)
  show ?thesis using cache_run_equals_lru_run [OF _ _ ok] run by simp
qed

text \<open>
  C17. Whatever \<open>CacheGet\<close> returns is a copy of data that was stored under that key and whose
  time to live, counted from when it was put in, is not over.
\<close>
theorem cache_get_never_stale:
  assumes "cache_rel c es" and "is_cstring key" and "CacheGet c key now = Inr (c', Some d)"
  shows "\<exists>e \<in> set es. e_key e = key \<and> d = copied c (e_data e) \<and> now \<le> e_saved e + e_ttl e"
proof -
  obtain xs where xs: "cache_inv c xs" "entries c xs = es"
    using assms(1) unfolding cache_rel_def by blast
  from xs(1) assms(2) show ?thesis
  proof (cases rule: cache_lookup)
    case miss
    then show ?thesis using assms(3) by (simp add: CacheGet_def CacheGet_find_def)
  next
    case (hit a)
    have fresh: "\<not> su_TTL (unit_at c a) < now - su_saveTime (unit_at c a)"
    proof
      assume "su_TTL (unit_at c a) < now - su_saveTime (unit_at c a)"
      then show False
        using assms(3) hit(1) cache_unit(1) [OF xs(1) hit(2)]
        by (auto simp: CacheGet_def CacheGet_find_def bindE_Inr_iff)
    qed
    obtain c1 where c1: "CacheGet_find c key now = Inr (c1, Some (Some a))"
        "cache_inv c1 (a # remove1 a xs)" "unit_at c1 a = unit_at c a" "c_copy c1 = c_copy c"
      using CacheGet_find_hit [OF xs(1) hit(1,2) fresh] by metis
    have "d = copied c (su_data (unit_at c a))"
      using assms(3) c1 cache_unit(1) [OF c1(2), of a]
      by (simp add: CacheGet_def CacheGet_copy_def copied_def)
    moreover have "view (unit_at c a) \<in> set es"
      using xs(2) hit(2) by (auto simp: entries_def)
    ultimately show ?thesis
      using fresh hit(3) by (intro bexI [of _ "view (unit_at c a)"]) (auto simp: key_at_def)
  qed
qed

theorem cache_get_never_stale_witness:
  "\<exists>c c' d. cache_rel c [qq_entry] \<and> CacheGet c qq_key 1060 = Inr (c', Some d) \<and> d = 7"
proof -
  obtain c xs where c: "cache_inv c xs" "entries c xs = [qq_entry]" "c_copy c = None"
    by (rule qq_cache)
  then have r: "cache_rel c [qq_entry]" unfolding cache_rel_def by blast
  have get: "lru_get 1060 qq_key (entries c xs) = ([qq_entry], Some 7)"
    unfolding c(2) by (simp add: lru_get_def lru_find_def lru_others_def qq_entry_def)
  have "fst (lru_get 1060 qq_key (entries c xs)) \<noteq> [] \<or> xs = [] \<or> 1 < unat (ht_len (c_hTab c))"
    using get by simp
  then obtain c' where g: "CacheGet c qq_key 1060 =
      Inr (c', map_option (copied c) (snd (lru_get 1060 qq_key (entries c xs))))"
    by (rule CacheGet_refines [OF c(1) qq_key_good(2)])
  then have g: "CacheGet c qq_key 1060 = Inr (c', Some 7)"
    using get c(3) by (simp add: copied_def)
  then show ?thesis
    using r cache_get_never_stale [OF r qq_key_good(2) g] by blast
qed

text \<open>
  The cache breaks when it is emptied again and again: after eleven rounds in which one
  entry is put into the empty cache and looked up after its time, every further \<open>CacheGet\<close> and
  \<open>CachePut\<close>, of whatever key, divides by zero. (The table halves at each removal of the last
  entry, from 1024 buckets to none.)
\<close>
theorem cache_expiry_division_by_zero:
  assumes "length rs = 11" and "\<forall>r \<in> set rs. round_ok r" and "1 \<le> m" and "m \<le> 2 ^ 28"
  shows "\<exists>c. foldE expire_round (CreateCache m copy) rs = Inr c \<and>
     (\<forall>key now. CacheGet c key now = Inl Div_By_Zero) \<and>
     (\<forall>key d sz ttl now. CachePut c key d sz ttl now = Inl Div_By_Zero)"
proof -
  have "\<exists>c. foldE expire_round (CreateCache m copy) rs = Inr c \<and> ht_len (c_hTab c) = 0"
    using CreateCache_ok [of m copy] assms
    by (intro expire_rounds [where n = 10]) (simp_all add: NewHashTab_def INIT_SIZE_def)
  then show ?thesis
    by (auto simp: CacheGet_def CacheGet_find_def CachePut_def ht_len_0_dead)
qed

theorem cache_expiry_division_by_zero_witness:
  "\<exists>c. foldE expire_round (CreateCache 1024 None)
       (map (\<lambda>i. (qq_key, 7 :: nat, 4, 60, int i * 100, int i * 100 + 61)) [0..<11]) = Inr c \<and>
     CacheGet c (bytes ''baidu.com:A'') 1100 = Inl Div_By_Zero"
  using cache_expiry_division_by_zero
    [of "map (\<lambda>i. (qq_key, 7 :: nat, 4, 60, int i * 100, int i * 100 + 61)) [0..<11]" 1024 None]
    qq_key_good by auto

text \<open>
  C18. \<open>CacheGet\<close> is not safe between its two critical sections: when its first section has
  found a unit, and before its second section copies the data another thread's \<open>CacheGet\<close> of the
  same key runs and finds the unit past its time, the copy reads through a pointer to freed
  memory.
\<close>
theorem cache_get_race_use_after_free:
  assumes "cache_rel c es" and "is_cstring key" and "2 \<le> length es"
    and "CacheGet_find c key now = Inr (c1, Some lkn)"
    and "\<forall>e \<in> set es. e_key e = key \<longrightarrow> e_ttl e < now' - e_saved e"
  shows "\<exists>c2. CacheGet c1 key now' = Inr (c2, None) \<and> CacheGet_copy c2 lkn = Inl Bad_Pointer"
proof -
  obtain xs where xs: "cache_inv c xs" "entries c xs = es"
    using assms(1) unfolding cache_rel_def by blast
  from xs(1) assms(2) show ?thesis
  proof (cases rule: cache_lookup)
    case miss
    then show ?thesis using assms(4) by (simp add: CacheGet_find_def)
  next
    case (hit a)
    have fresh: "\<not> su_TTL (unit_at c a) < now - su_saveTime (unit_at c a)"
      using assms(4) hit(1) cache_unit(1) [OF xs(1) hit(2)]
      by (auto simp: CacheGet_find_def bindE_Inr_iff split: if_splits)
    obtain c' where c': "CacheGet_find c key now = Inr (c', Some (Some a))"
        "cache_inv c' (a # remove1 a xs)" "unit_at c' a = unit_at c a" "c_hTab c' = c_hTab c"
      using CacheGet_find_hit [OF xs(1) hit(1,2) fresh] by metis
    have eq: "c1 = c'" "lkn = Some a" using c'(1) assms(4) by simp_all
    have "view (unit_at c a) \<in> set es" "e_key (view (unit_at c a)) = key"
      using xs(2) hit(2,3) by (auto simp: entries_def key_at_def)
    then have late: "su_TTL (unit_at c' a) < now' - su_saveTime (unit_at c' a)"
      using assms(5) c'(3) by fastforce
    have "2 \<le> length xs" using assms(3) xs(2) by auto
    then have spare: "ht_spare (c_hTab c')"
      using cache_num [OF xs(1)] c'(4) by (simp add: ht_spare_def)
    have mem: "a \<in> set (a # remove1 a xs)" by simp
    obtain c2 where c2: "cache_drop c' (Some a) (unit_at c' a) = Inr c2" "\<not> alloc (c_heap c2) a"
      by (rule cache_drop_ok [OF c'(2) mem spare])
    have "CacheGet c' key now' = Inr (c2, None)"
      using hit(1) c'(4) cache_unit(1) [OF c'(2), of a] late c2(1)
      by (simp add: CacheGet_def CacheGet_find_def)
    moreover have "CacheGet_copy c2 (Some a) = Inl Bad_Pointer"
      using c2(2) by (simp add: CacheGet_copy_def field_defs cell_at_def)
    ultimately show ?thesis using eq by simp
  qed
qed

theorem cache_get_race_use_after_free_witness:
  "\<exists>(c :: nat Cache) es c1 lkn c2. cache_rel c es \<and> CacheGet_find c qq_key 1060 = Inr (c1, Some lkn) \<and>
     CacheGet c1 qq_key (1061 :: int) = Inr (c2, None) \<and> CacheGet_copy c2 lkn = Inl Bad_Pointer"
proof -
  obtain c0 xs0 where c0: "cache_inv c0 xs0" "entries c0 xs0 = [qq_entry]" "c_maxSize c0 = 2"
    "c_copy c0 = None"
    by (rule qq_cache)
  have k: "good_key [97]" "2 \<le> c_maxSize c0" using c0(3)
    by (simp_all add: good_key_def HASH_KEY_MAX_LEN_def)
  let ?es = "[\<lparr>e_key = [97], e_saved = 1000, e_ttl = 5, e_data = 8\<rparr>, qq_entry]"
  obtain c xs where "cache_inv c xs" "entries c xs =
      lru_put (nat (c_maxSize c0)) 1000 [97] (copied c0 8) 5 (entries c0 xs0)"
    by (rule CachePut_refines [OF c0(1) k])
  moreover have ne: "[97] \<noteq> qq_key" by (simp add: bytes_def)
  ultimately have c: "cache_inv c xs" "entries c xs = ?es"
    using c0(2-4) by (simp_all add: lru_put_def lru_find_def copied_def qq_entry_def)
  then have r: "cache_rel c ?es" unfolding cache_rel_def by blast
  from c(1) qq_key_good(2) obtain c1 lkn where "CacheGet_find c qq_key 1060 = Inr (c1, Some lkn)"
  proof (cases rule: cache_lookup)
    case miss
    then show ?thesis unfolding c(2) using ne by (simp add: lru_find_def qq_entry_def)
  next
    case (hit a)
    then have "view (unit_at c a) = qq_entry"
      unfolding c(2) using ne by (simp add: lru_find_def qq_entry_def)
    then have "\<not> su_TTL (unit_at c a) < 1060 - su_saveTime (unit_at c a)"
      by (auto simp: view_def qq_entry_def)
    then show ?thesis using CacheGet_find_hit [OF c(1) hit(1,2)] that by metis
  qed
  note f = this
  have "2 \<le> length ?es" "\<forall>e \<in> set ?es. e_key e = qq_key \<longrightarrow> e_ttl e < 1061 - e_saved e"
    using ne by (simp_all add: qq_entry_def)
  from cache_get_race_use_after_free [OF r qq_key_good(2) this(1) f this(2)]
  obtain c2 where "CacheGet c1 qq_key 1061 = Inr (c2, None)" "CacheGet_copy c2 lkn = Inl Bad_Pointer"
    by blast
  with r f show ?thesis by blast
qed

end
