(* ===== verification/Wire.thy ===== *)
theory Wire
  imports C_Prelude
begin

text \<open>
  Packets in memory: reading and writing bytes and big-endian words at an offset of a buffer,
  as the code does through \<open>uint8_t *\<close>, \<open>uint16_t *\<close> and \<open>uint32_t *\<close> with \<open>htons\<close>,
  \<open>ntohs\<close>, \<open>htonl\<close> and \<open>ntohl\<close>, and \<open>memcpy\<close> between buffers. An offset outside the
  buffer and a byte that was never written are faults.
\<close>

section \<open>Access\<close>

definition rd8 :: "carr \<Rightarrow> nat \<Rightarrow> byte res" where
  "rd8 buf i =
     (if i < length buf then case buf ! i of None \<Rightarrow> Inl Uninit_Read | Some b \<Rightarrow> Inr b
      else Inl Out_Of_Bounds)"

definition wr8 :: "carr \<Rightarrow> nat \<Rightarrow> byte \<Rightarrow> carr res" where
  "wr8 buf i b = (if i < length buf then Inr (buf[i := Some b]) else Inl Out_Of_Bounds)"

definition hi8 :: "16 word \<Rightarrow> byte" where
  "hi8 w = ucast (drop_bit 8 w)"

definition lo8 :: "16 word \<Rightarrow> byte" where
  "lo8 w = ucast w"

definition be16 :: "byte \<Rightarrow> byte \<Rightarrow> 16 word" where
  "be16 h l = or (push_bit 8 (ucast h)) (ucast l)"

definition hi16 :: "32 word \<Rightarrow> 16 word" where
  "hi16 w = ucast (drop_bit 16 w)"

definition lo16 :: "32 word \<Rightarrow> 16 word" where
  "lo16 w = ucast w"

definition be32 :: "16 word \<Rightarrow> 16 word \<Rightarrow> 32 word" where
  "be32 h l = or (push_bit 16 (ucast h)) (ucast l)"

definition rd16 :: "carr \<Rightarrow> nat \<Rightarrow> 16 word res" where
  "rd16 buf i = bindE (rd8 buf i) (\<lambda>h. bindE (rd8 buf (i + 1)) (\<lambda>l. Inr (be16 h l)))"

definition wr16 :: "carr \<Rightarrow> nat \<Rightarrow> 16 word \<Rightarrow> carr res" where
  "wr16 buf i w = bindE (wr8 buf i (hi8 w)) (\<lambda>buf'. wr8 buf' (i + 1) (lo8 w))"

definition rd32 :: "carr \<Rightarrow> nat \<Rightarrow> 32 word res" where
  "rd32 buf i = bindE (rd16 buf i) (\<lambda>h. bindE (rd16 buf (i + 2)) (\<lambda>l. Inr (be32 h l)))"

definition wr32 :: "carr \<Rightarrow> nat \<Rightarrow> 32 word \<Rightarrow> carr res" where
  "wr32 buf i w = bindE (wr16 buf i (hi16 w)) (\<lambda>buf'. wr16 buf' (i + 2) (lo16 w))"

text \<open>\<open>memcpy\<close> copies bytes as they are, the never written ones too.\<close>

definition rd_block :: "carr \<Rightarrow> nat \<Rightarrow> nat \<Rightarrow> carr res" where
  "rd_block buf i n =
     (if i + n \<le> length buf then Inr (take n (drop i buf)) else Inl Out_Of_Bounds)"

definition blit :: "carr \<Rightarrow> nat \<Rightarrow> carr \<Rightarrow> carr" where
  "blit buf i bs = take i buf @ bs @ drop (i + length bs) buf"

definition wr_block :: "carr \<Rightarrow> nat \<Rightarrow> carr \<Rightarrow> carr res" where
  "wr_block buf i bs =
     (if i + length bs \<le> length buf then Inr (blit buf i bs) else Inl Out_Of_Bounds)"

section \<open>Blocks\<close>

lemma blit_length [simp]: "i + length bs \<le> length buf \<Longrightarrow> length (blit buf i bs) = length buf"
  by (simp add: blit_def)

lemma blit_one: "i < length buf \<Longrightarrow> buf[i := x] = blit buf i [x]"
  by (simp add: blit_def upd_conv_take_nth_drop)

lemma blit_Nil [simp]: "blit buf i [] = buf"
  by (simp add: blit_def)

lemma blit_blit:
  "i + length bs + length cs \<le> length buf \<Longrightarrow> j = i + length bs \<Longrightarrow>
     blit (blit buf i bs) j cs = blit buf i (bs @ cs)"
  by (simp add: blit_def ac_simps)

lemma blit_over:
  "i + length bs < length buf \<Longrightarrow> j = i + length bs \<Longrightarrow>
     (blit buf i (bs @ [x]))[j := y] = blit buf i (bs @ [y])"
  by (simp add: blit_def list_update_append)

lemma blit_cstr:
  "is_cstring s \<Longrightarrow> cstr (blit buf 0 (map Some (s @ [0]))) = Inr s"
  using cstr_map_Some [of s "[]"] by (simp add: blit_def)

section \<open>Byte order\<close>

lemma be16_split [simp]: "be16 (hi8 w) (lo8 w) = w"
  by (rule bit_word_eqI) (auto simp: be16_def hi8_def lo8_def bit_simps)

lemma be16_parts [simp]: "hi8 (be16 h l) = h" "lo8 (be16 h l) = l"
  by (rule bit_word_eqI, auto simp: be16_def hi8_def lo8_def bit_simps dest: bit_imp_le_length)+

lemma be32_split [simp]: "be32 (hi16 w) (lo16 w) = w"
  by (rule bit_word_eqI) (auto simp: be32_def hi16_def lo16_def bit_simps)

lemma be32_parts [simp]: "hi16 (be32 h l) = h" "lo16 (be32 h l) = l"
  by (rule bit_word_eqI, auto simp: be32_def hi16_def lo16_def bit_simps dest: bit_imp_le_length)+

lemma byte_of_nat_less: "a < 256 \<Longrightarrow> b < 256 \<Longrightarrow> (of_nat a :: byte) < of_nat b \<longleftrightarrow> a < b"
  by (simp add: word_of_nat_less_iff take_bit_eq_mod)

lemma byte_of_nat_le: "a < 256 \<Longrightarrow> b < 256 \<Longrightarrow> (of_nat a :: byte) \<le> of_nat b \<longleftrightarrow> a \<le> b"
  by (simp add: word_of_nat_less_eq_iff take_bit_eq_mod)

lemma byte_of_nat_0: "a < 256 \<Longrightarrow> (of_nat a :: byte) = 0 \<longleftrightarrow> a = 0"
  by (auto simp: word_of_nat_eq_0_iff nat_dvd_not_less)

section \<open>What the accesses do to a buffer\<close>

text \<open>
  Two buffers of the same size that agree below an offset: what a reader that stays below it
  cannot tell apart.
\<close>

definition same_below :: "nat \<Rightarrow> carr \<Rightarrow> carr \<Rightarrow> bool" where
  "same_below n buf buf' \<longleftrightarrow> length buf' = length buf \<and> (\<forall>i < n. buf' ! i = buf ! i)"

lemma same_below_refl [simp]: "same_below n buf buf"
  by (simp add: same_below_def)

lemma same_below_trans: "same_below n a b \<Longrightarrow> same_below m b c \<Longrightarrow> k \<le> n \<Longrightarrow> k \<le> m \<Longrightarrow> same_below k a c"
  by (simp add: same_below_def)

lemma same_below_length: "same_below n a b \<Longrightarrow> length b = length a"
  by (simp add: same_below_def)

lemma same_below_mono: "same_below n a b \<Longrightarrow> m \<le> n \<Longrightarrow> same_below m a b"
  by (simp add: same_below_def)

lemma same_below_rd8: "same_below n a b \<Longrightarrow> i < n \<Longrightarrow> rd8 b i = rd8 a i"
  by (simp add: same_below_def rd8_def)

lemma wr8_ok:
  "i < length buf \<Longrightarrow> wr8 buf i b = Inr (buf[i := Some b])"
  by (simp add: wr8_def)

lemma wr8_cases:
  assumes "wr8 buf i b = Inr buf'"
  shows "rd8 buf' i = Inr b" and "same_below i buf buf'" and "i < length buf"
    and "j \<noteq> i \<Longrightarrow> rd8 buf' j = rd8 buf j"
  using assms by (auto simp: wr8_def rd8_def same_below_def split: if_splits)

lemma wr16_ok:
  assumes "i + 2 \<le> length buf"
  obtains buf' where "wr16 buf i w = Inr buf'" and "same_below i buf buf'"
    and "rd8 buf' i = Inr (hi8 w)" and "rd8 buf' (i + 1) = Inr (lo8 w)" and "rd16 buf' i = Inr w"
proof
  let ?b = "buf[i := Some (hi8 w), i + 1 := Some (lo8 w)]"
  show "wr16 buf i w = Inr ?b" using assms by (simp add: wr16_def wr8_def)
  show "same_below i buf ?b" by (simp add: same_below_def)
  show "rd8 ?b i = Inr (hi8 w)" "rd8 ?b (i + 1) = Inr (lo8 w)" using assms by (simp_all add: rd8_def)
  then show "rd16 ?b i = Inr w" by (simp add: rd16_def)
qed

lemma same_below_rd16: "same_below n a b \<Longrightarrow> i + 2 \<le> n \<Longrightarrow> rd16 b i = rd16 a i"
  by (simp add: rd16_def same_below_rd8)

lemma same_below_rd32: "same_below n a b \<Longrightarrow> i + 4 \<le> n \<Longrightarrow> rd32 b i = rd32 a i"
  by (simp add: rd32_def same_below_rd16)

lemma wr32_ok:
  assumes "i + 4 \<le> length buf"
  obtains buf' where "wr32 buf i w = Inr buf'" and "same_below i buf buf'" and "rd32 buf' i = Inr w"
proof -
  obtain b1 where b1: "wr16 buf i (hi16 w) = Inr b1" "same_below i buf b1" "rd16 b1 i = Inr (hi16 w)"
    by (rule wr16_ok [of i buf "hi16 w"]) (use assms in auto)
  have "i + 2 + 2 \<le> length b1" using assms same_below_length [OF b1(2)] by simp
  then obtain b2 where b2: "wr16 b1 (i + 2) (lo16 w) = Inr b2" "same_below (i + 2) b1 b2"
      "rd16 b2 (i + 2) = Inr (lo16 w)"
    by (rule wr16_ok [of "i + 2" b1 "lo16 w"]) auto
  have "rd16 b2 i = Inr (hi16 w)" using same_below_rd16 [OF b2(2)] b1(3) by simp
  then have "rd32 b2 i = Inr w" using b2(3) by (simp add: rd32_def)
  moreover have "wr32 buf i w = Inr b2" using b1(1) b2(1) by (simp add: wr32_def)
  moreover have "same_below i buf b2" using same_below_trans [OF b1(2) b2(2)] by simp
  ultimately show ?thesis using that by blast
qed

lemma wr_block_ok:
  assumes "i + length bs \<le> length buf"
  obtains buf' where "wr_block buf i bs = Inr buf'" and "same_below i buf buf'"
    and "rd_block buf' i (length bs) = Inr bs"
proof
  let ?b = "blit buf i bs"
  show "wr_block buf i bs = Inr ?b" using assms by (simp add: wr_block_def)
  show "same_below i buf ?b" using assms by (simp add: same_below_def nth_append blit_def)
  show "rd_block ?b i (length bs) = Inr bs" using assms by (simp add: rd_block_def blit_def)
qed

lemma same_below_rd_block:
  assumes "same_below m a b" and "i + n \<le> m"
  shows "rd_block b i n = rd_block a i n"
proof -
  have "take n (drop i b) = take n (drop i a)" if "i + n \<le> length a"
    using assms that by (intro nth_equalityI) (auto simp: same_below_def)
  with assms show ?thesis by (simp add: rd_block_def same_below_length)
qed

end
