(* ===== verification/Message.thy ===== *)
theory Message
  imports Wire Hash
begin

text \<open>
  DNS packets, \<open>message/message.c\<close>: the structs of \<open>message.h\<close>, the setters, the encoder with
  its name compression over the hash table, and the decoder. A packet buffer is an array of
  bytes, offsets are relative to its start (\<open>origin\<close>), and \<open>decodeName\<close>, which follows
  compression pointers by recursion, is a partial function: a packet on which it never returns
  has the value \<open>None\<close>.
\<close>

section \<open>Data\<close>

definition MAX_LEN :: nat where
  "MAX_LEN = 256"

definition MAX_SIZE :: nat where
  "MAX_SIZE = 32"

definition TYPE_A :: "16 word" where "TYPE_A = 1"

definition TYPE_NS :: "16 word" where "TYPE_NS = 2"

definition TYPE_CNAME :: "16 word" where "TYPE_CNAME = 5"

definition TYPE_PTR :: "16 word" where "TYPE_PTR = 12"

definition TYPE_AAAA :: "16 word" where "TYPE_AAAA = 28"

definition CLASS_IN :: "16 word" where "CLASS_IN = 1"

definition RCODE_SERVER_FAILURE :: "16 word" where "RCODE_SERVER_FAILURE = 2"

definition RCODE_NAME_ERR :: "16 word" where "RCODE_NAME_ERR = 3"

definition FLAG_RD :: "16 word" where "FLAG_RD = 7"

definition FLAG_RA :: "16 word" where "FLAG_RA = 8"

definition ANSWER :: nat where "ANSWER = 0"

definition ADDITIONAL :: nat where "ADDITIONAL = 2"

lemmas const_defs = MAX_LEN_def MAX_SIZE_def TYPE_A_def TYPE_NS_def TYPE_CNAME_def TYPE_PTR_def
  TYPE_AAAA_def CLASS_IN_def RCODE_SERVER_FAILURE_def RCODE_NAME_ERR_def FLAG_RD_def FLAG_RA_def
  ANSWER_def ADDITIONAL_def

record question =
  q_name :: carr
  q_type :: "16 word"
  q_class :: "16 word"

text \<open>\<open>data_type\<close>, a byte of the struct that holds one of two macros.\<close>

datatype data_type = STRING_TYPE | BINARY_TYPE

text \<open>\<open>data\<close> is the heap block it points to, which belongs to the record alone, or \<open>None\<close>.\<close>

record RR =
  rr_name :: carr
  rr_type :: "16 word"
  rr_class :: "16 word"
  rr_TTL :: "32 word"
  rr_data_length :: "16 word"
  rr_data :: "carr option"
  rr_data_type :: data_type
  rr_string_data :: carr

record message =
  msg_ID :: "16 word"
  msg_flag :: "16 word"
  msg_q_count :: "16 word"
  msg_RR_count :: "16 word list"
  msg_ques :: "question option list"
  msg_resourse_record :: "RR option list list"

section \<open>Building a message\<close>

definition newMsg :: message where
  "newMsg = \<lparr>msg_ID = 0, msg_flag = 0, msg_q_count = 0, msg_RR_count = replicate 3 0,
     msg_ques = replicate MAX_SIZE None,
     msg_resourse_record = replicate 3 (replicate MAX_SIZE None)\<rparr>"

definition setQuery :: "message \<Rightarrow> message" where
  "setQuery msg = msg\<lparr>msg_flag := and (msg_flag msg) (not 1)\<rparr>"

definition setResp :: "message \<Rightarrow> message" where
  "setResp msg = msg\<lparr>msg_flag := or (msg_flag msg) 1\<rparr>"

definition setOpcode :: "message \<Rightarrow> 16 word \<Rightarrow> message" where
  "setOpcode msg op =
     (let msg = msg\<lparr>msg_flag := and (msg_flag msg) (not (push_bit 1 0xf))\<rparr>
      in msg\<lparr>msg_flag := or (msg_flag msg) (push_bit 1 op)\<rparr>)"

definition setFlag :: "message \<Rightarrow> 16 word \<Rightarrow> message" where
  "setFlag msg b = msg\<lparr>msg_flag := or (msg_flag msg) (push_bit (unat b) 1)\<rparr>"

definition reverse8 :: "byte \<Rightarrow> byte" where
  "reverse8 b =
     (let b = or (push_bit 1 (and b 0x55)) (drop_bit 1 (and b 0xAA));
          b = or (push_bit 2 (and b 0x33)) (drop_bit 2 (and b 0xCC));
          b = or (push_bit 4 (and b 0x0F)) (drop_bit 4 (and b 0xF0))
      in b)"

text \<open>\<open>setRCODE\<close>: the argument is cut to the byte that \<open>reverse8\<close> takes.\<close>

definition setRCODE :: "message \<Rightarrow> 16 word \<Rightarrow> message" where
  "setRCODE msg rcode =
     (let rcode = push_bit 8 (ucast (reverse8 (ucast rcode)))
      in msg\<lparr>msg_flag := or (msg_flag msg) rcode\<rparr>)"

text \<open>\<open>addQuestion\<close> and \<open>addRR\<close> store a copy of the struct; allocation never fails here.\<close>

definition addQuestion :: "message \<Rightarrow> question \<Rightarrow> message \<times> int" where
  "addQuestion msg q =
     (if of_nat MAX_SIZE \<le> msg_q_count msg then (msg, 0)
      else (msg\<lparr>msg_ques := (msg_ques msg)[unat (msg_q_count msg) := Some q],
                msg_q_count := msg_q_count msg + 1\<rparr>, 1))"

definition addRR :: "message \<Rightarrow> RR \<Rightarrow> nat \<Rightarrow> (message \<times> int) res" where
  "addRR msg rr type =
     (if length (msg_RR_count msg) \<le> type then Inl Out_Of_Bounds
      else let n = msg_RR_count msg ! type in
        if of_nat MAX_SIZE \<le> n then Inr (msg, 0)
        else Inr (msg\<lparr>msg_resourse_record := (msg_resourse_record msg)
                         [type := (msg_resourse_record msg ! type)[unat n := Some rr]],
                      msg_RR_count := (msg_RR_count msg)[type := n + 1]\<rparr>, 1))"

text \<open>
  The slots of the released records keep dangling pointers, but the count makes them
  unreachable; a count above 32 or a null pointer is followed as the loop of the code does.
\<close>

definition ques_at :: "message \<Rightarrow> nat \<Rightarrow> question res" where
  "ques_at msg i =
     (if length (msg_ques msg) \<le> i then Inl Out_Of_Bounds
      else case msg_ques msg ! i of None \<Rightarrow> Inl Bad_Pointer | Some q \<Rightarrow> Inr q)"

definition rr_at :: "message \<Rightarrow> nat \<Rightarrow> nat \<Rightarrow> RR res" where
  "rr_at msg s j =
     (if length (msg_resourse_record msg) \<le> s \<or> length (msg_resourse_record msg ! s) \<le> j
      then Inl Out_Of_Bounds
      else case msg_resourse_record msg ! s ! j of None \<Rightarrow> Inl Bad_Pointer | Some r \<Rightarrow> Inr r)"

definition releaseAdditionalRR :: "message \<Rightarrow> message res" where
  "releaseAdditionalRR msg =
     bindE (foldE (\<lambda>_ j. bindE (rr_at msg ADDITIONAL j) (\<lambda>_. Inr ())) ()
              [0..<unat (msg_RR_count msg ! ADDITIONAL)])
       (\<lambda>_. Inr (msg\<lparr>msg_RR_count := (msg_RR_count msg)[ADDITIONAL := 0]\<rparr>))"

text \<open>
  \<open>destroyMsg\<close> frees what the counts reach, a question pointer without reading through it; what
  remains of it in a model with values is that every slot it visits must exist.
\<close>

definition destroyMsg :: "message \<Rightarrow> unit res" where
  "destroyMsg msg =
     bindE (foldE (\<lambda>_ i. if length (msg_ques msg) \<le> i then Inl Out_Of_Bounds else Inr ()) ()
              [0..<unat (msg_q_count msg)]) (\<lambda>_.
     foldE (\<lambda>_ s. foldE (\<lambda>_ j. bindE (rr_at msg s j) (\<lambda>_. Inr ())) ()
              [0..<unat (msg_RR_count msg ! s)]) () [0..<3])"

definition setRRName :: "RR \<Rightarrow> carr \<Rightarrow> RR res" where
  "setRRName rr s = bindE (strncpy_arr (rr_name rr) s MAX_LEN) (\<lambda>a. Inr (rr\<lparr>rr_name := a\<rparr>))"

definition setRRNameData :: "RR \<Rightarrow> carr \<Rightarrow> RR res" where
  "setRRNameData rr name =
     bindE (strncpy_arr (rr_string_data rr) name MAX_LEN)
       (\<lambda>a. Inr (rr\<lparr>rr_data := None, rr_data_type := STRING_TYPE, rr_string_data := a\<rparr>))"

definition setRRData :: "RR \<Rightarrow> carr \<Rightarrow> nat \<Rightarrow> RR res" where
  "setRRData rr data sz =
     bindE (rd_block data 0 sz)
       (\<lambda>d. Inr (rr\<lparr>rr_data_length := of_nat sz, rr_data := Some d, rr_data_type := BINARY_TYPE\<rparr>))"

definition setQNAME :: "question \<Rightarrow> carr \<Rightarrow> question res" where
  "setQNAME q name = bindE (strncpy_arr (q_name q) name MAX_LEN) (\<lambda>a. Inr (q\<lparr>q_name := a\<rparr>))"

section \<open>Encoding\<close>

text \<open>
  Every encoder takes the buffer and the offset to write at, and returns the buffer and the
  number of bytes it used, as the code does.
\<close>

definition encodeHeader :: "message \<Rightarrow> carr \<Rightarrow> nat \<Rightarrow> (carr \<times> nat) res" where
  "encodeHeader msg buf p =
     bindE (wr16 buf p (msg_ID msg)) (\<lambda>buf.
     bindE (wr8 buf (p + 2) (reverse8 (ucast (and (msg_flag msg) 0xff)))) (\<lambda>buf.
     bindE (wr8 buf (p + 3) (reverse8 (ucast (and (drop_bit 8 (msg_flag msg)) 0xff)))) (\<lambda>buf.
     bindE (wr16 buf (p + 4) (msg_q_count msg)) (\<lambda>buf.
     bindE (foldE (\<lambda>b i. wr16 b (p + 6 + 2 * i) (msg_RR_count msg ! i)) buf [0..<3]) (\<lambda>buf.
     Inr (buf, 12))))))"

type_synonym names = "16 word HashTab"

definition getPos :: "cstring \<Rightarrow> names \<Rightarrow> 16 word res" where
  "getPos name ht =
     bindE (search ht name)
       (\<lambda>r. Inr (case r of Some pos \<Rightarrow> or 0xc000 pos | None \<Rightarrow> 0))"

text \<open>
  The loop of \<open>encodeName\<close>: \<open>num\<close> is the offset of the pending length byte, \<open>p\<close> the next
  offset to write, \<open>cnt\<close> the 8-bit count of the label so far and \<open>last_name\<close> the suffix of the name
  that starts with that label. The result holds the offset behind the name.
\<close>

fun encodeName_loop ::
  "cstring \<Rightarrow> carr \<Rightarrow> nat \<Rightarrow> nat \<Rightarrow> byte \<Rightarrow> cstring \<Rightarrow> names \<Rightarrow> (carr \<times> nat \<times> names) res" where
  "encodeName_loop [] buf num p cnt last_name ht =
     bindE (insert_ht ht last_name (of_nat num)) (\<lambda>ht.
     bindE (wr8 buf num cnt) (\<lambda>buf.
     bindE (wr8 buf p 0) (\<lambda>buf. Inr (buf, p + 1, ht))))"
| "encodeName_loop (c # name) buf num p cnt last_name ht =
     (if c = of_char (CHR ''.'') then
        bindE (insert_ht ht last_name (of_nat num)) (\<lambda>ht.
        bindE (wr8 buf num cnt) (\<lambda>buf.
        bindE (getPos name ht) (\<lambda>pos.
          if pos \<noteq> 0 then bindE (wr16 buf p pos) (\<lambda>buf. Inr (buf, p + 2, ht))
          else encodeName_loop name buf p (p + 1) 0 name ht)))
      else
        bindE (wr8 buf p c) (\<lambda>buf. encodeName_loop name buf num (p + 1) (cnt + 1) last_name ht))"

definition encodeName :: "carr \<Rightarrow> carr \<Rightarrow> nat \<Rightarrow> names \<Rightarrow> (carr \<times> nat \<times> names) res" where
  "encodeName arr buf start ht =
     bindE (cstr arr) (\<lambda>name.
     bindE (getPos name ht) (\<lambda>pos.
       if pos \<noteq> 0 then bindE (wr16 buf start pos) (\<lambda>buf. Inr (buf, 2, ht))
       else bindE (encodeName_loop name buf start (start + 1) 0 name ht)
              (\<lambda>(buf, p, ht). Inr (buf, p - start, ht))))"

definition encodeQues :: "question \<Rightarrow> carr \<Rightarrow> nat \<Rightarrow> names \<Rightarrow> (carr \<times> nat \<times> names) res" where
  "encodeQues ques buf start ht =
     bindE (encodeName (q_name ques) buf start ht) (\<lambda>(buf, n, ht).
     bindE (wr16 buf (start + n) (q_type ques)) (\<lambda>buf.
     bindE (wr16 buf (start + n + 2) (q_class ques)) (\<lambda>buf. Inr (buf, n + 4, ht))))"

text \<open>
  \<open>encodeRR\<close> also stores the length of an encoded string into the record. \<open>memcpy\<close> reads
  \<open>data_length\<close> bytes of the data block.
\<close>

definition encodeRR :: "RR \<Rightarrow> carr \<Rightarrow> nat \<Rightarrow> names \<Rightarrow> (RR \<times> carr \<times> nat \<times> names) res" where
  "encodeRR rr buf start ht =
     bindE (encodeName (rr_name rr) buf start ht) (\<lambda>(buf, n, ht).
     bindE (wr16 buf (start + n) (rr_type rr)) (\<lambda>buf.
     bindE (wr16 buf (start + n + 2) (rr_class rr)) (\<lambda>buf.
     bindE (wr32 buf (start + n + 4) (rr_TTL rr)) (\<lambda>buf.
     let t = start + n + 8 in
     case rr_data_type rr of
       BINARY_TYPE \<Rightarrow>
         bindE (wr16 buf t (rr_data_length rr)) (\<lambda>buf.
         case rr_data rr of
           None \<Rightarrow> Inl Bad_Pointer
         | Some d \<Rightarrow>
             bindE (rd_block d 0 (unat (rr_data_length rr))) (\<lambda>d.
             bindE (wr_block buf (t + 2) d) (\<lambda>buf.
             Inr (rr, buf, n + 10 + unat (rr_data_length rr), ht))))
     | STRING_TYPE \<Rightarrow>
         bindE (encodeName (rr_string_data rr) buf (t + 2) ht) (\<lambda>(buf, m, ht).
         bindE (wr16 buf t (of_nat m)) (\<lambda>buf.
         let rr = rr\<lparr>rr_data_length := of_nat m\<rparr> in
         Inr (rr, buf, n + 10 + unat (rr_data_length rr), ht)))))))"

definition encode_ques_step ::
  "message \<Rightarrow> carr \<times> nat \<times> names \<Rightarrow> nat \<Rightarrow> (carr \<times> nat \<times> names) res" where
  "encode_ques_step msg = (\<lambda>(buf, p, ht) i.
     bindE (ques_at msg i) (\<lambda>q.
     bindE (encodeQues q buf p ht) (\<lambda>(buf, n, ht). Inr (buf, p + n, ht))))"

definition encode_rr_step ::
  "nat \<Rightarrow> message \<times> carr \<times> nat \<times> names \<Rightarrow> nat \<Rightarrow> (message \<times> carr \<times> nat \<times> names) res" where
  "encode_rr_step s = (\<lambda>(msg, buf, p, ht) j.
     bindE (rr_at msg s j) (\<lambda>rr.
     bindE (encodeRR rr buf p ht) (\<lambda>(rr, buf, n, ht).
     Inr (msg\<lparr>msg_resourse_record := (msg_resourse_record msg)
                [s := (msg_resourse_record msg ! s)[j := Some rr]]\<rparr>, buf, p + n, ht))))"

definition encode_section ::
  "message \<times> carr \<times> nat \<times> names \<Rightarrow> nat \<Rightarrow> (message \<times> carr \<times> nat \<times> names) res" where
  "encode_section st s = foldE (encode_rr_step s) st [0..<unat (msg_RR_count (fst st) ! s)]"

definition encode :: "message \<Rightarrow> carr \<Rightarrow> (message \<times> carr \<times> nat) res" where
  "encode msg buf =
     bindE (encodeHeader msg buf 0) (\<lambda>(buf, n).
     bindE (foldE (encode_ques_step msg) (buf, n, NewHashTab) [0..<unat (msg_q_count msg)])
       (\<lambda>(buf, p, ht).
     bindE (foldE encode_section (msg, buf, p, ht) [0..<3])
       (\<lambda>(msg, buf, p, ht). Inr (msg, buf, p))))"

section \<open>Decoding\<close>

text \<open>
  The loop of \<open>decodeName\<close>: \<open>num\<close> is the offset of the current length byte, \<open>p\<close> the next
  offset to read, \<open>w\<close> the index in the caller's array that the next character goes to. It ends
  at a zero length byte, or at a pointer, with the offset it points to, the offset behind it,
  and where the name is to be continued.
\<close>

datatype label_end = Name_End nat carr | Name_Jump nat nat carr nat

function decode_labels :: "carr \<Rightarrow> nat \<Rightarrow> nat \<Rightarrow> carr \<Rightarrow> nat \<Rightarrow> label_end res" where
  "decode_labels buf num p name w =
     bindE (rd8 buf num) (\<lambda>n.
       if n = 0 then bindE (wr8 name (w - 1) 0) (\<lambda>name. Inr (Name_End p name))
       else if n < of_nat (p - num) then
         bindE (wr8 name w (of_char (CHR ''.''))) (\<lambda>name. decode_labels buf p (p + 1) name (w + 1))
       else if 0xc0 \<le> n then
         bindE (rd8 buf (num + 1)) (\<lambda>l.
           Inr (Name_Jump (unat (be16 (and n 0x3f) l)) (num + 2) name w))
       else
         bindE (rd8 buf p) (\<lambda>c. bindE (wr8 name w c) (\<lambda>name.
           decode_labels buf num (p + 1) name (w + 1))))"
  by pat_completeness auto

lemma rd8_in_bounds: "rd8 buf i = Inr b \<Longrightarrow> i < length buf"
  by (simp add: rd8_def split: if_splits)

text \<open>
  Every round of the loop moves \<open>p\<close> or \<open>num\<close> forward within the buffer: a length byte is
  passed only when \<open>p\<close> is behind it.
\<close>

lemma passed_label: "(n :: byte) < of_nat (p - num) \<Longrightarrow> num < p"
  by (cases "num < p") auto

termination decode_labels
proof (relation "measure (\<lambda>(buf, num, p, name, w). (length buf - num) + (length buf - p))",
    goal_cases)
  case (2 buf num p name w n)
  from rd8_in_bounds [OF 2(1)] passed_label [OF 2(3)] show ?case by simp
next
  case (3 buf num p name w n)
  then show ?case using rd8_in_bounds [of buf p] by auto
qed simp

declare decode_labels.simps [simp del]

partial_function (option) decodeName :: "carr \<Rightarrow> nat \<Rightarrow> carr \<Rightarrow> nat \<Rightarrow> (nat \<times> carr) run" where
  "decodeName buf off name w =
     bindR (Some (rd8 buf off)) (\<lambda>n.
       if n = 0 then bindR (Some (wr8 name w 0)) (\<lambda>name. Some (Inr (off + 1, name)))
       else bindR (Some (decode_labels buf off (off + 1) name w)) (\<lambda>r.
         case r of
           Name_End p name \<Rightarrow> Some (Inr (p, name))
         | Name_Jump t next name w \<Rightarrow>
             bindR (decodeName buf t name w) (\<lambda>r. Some (Inr (next, snd r)))))"

text \<open>
  The loops of \<open>decode\<close>. The counts come from the packet; the pointer tables of a message
  have 32 entries. A record of string type leaves \<open>data\<close> unset, and one of binary type
  \<open>string_data\<close>; nothing reads them then.
\<close>

definition decode_ques_step ::
  "carr \<Rightarrow> message \<times> nat \<Rightarrow> nat \<Rightarrow> (message \<times> nat) run" where
  "decode_ques_step buf = (\<lambda>(msg, p) i.
     if length (msg_ques msg) \<le> i then Some (Inl Out_Of_Bounds)
     else
       bindR (decodeName buf p (uninit MAX_LEN) 0) (\<lambda>(p, name).
       bindR (Some (rd16 buf p)) (\<lambda>ty.
       bindR (Some (rd16 buf (p + 2))) (\<lambda>cl.
       Some (Inr (msg\<lparr>msg_ques := (msg_ques msg)
                        [i := Some \<lparr>q_name = name, q_type = ty, q_class = cl\<rparr>]\<rparr>, p + 4))))))"

definition decode_rr :: "carr \<Rightarrow> nat \<Rightarrow> (RR \<times> nat) run" where
  "decode_rr buf p =
     bindR (decodeName buf p (uninit MAX_LEN) 0) (\<lambda>(p, name).
     bindR (Some (rd16 buf p)) (\<lambda>ty.
     bindR (Some (rd16 buf (p + 2))) (\<lambda>cl.
     bindR (Some (rd32 buf (p + 4))) (\<lambda>ttl.
     bindR (Some (rd16 buf (p + 8))) (\<lambda>len.
     let rr = \<lparr>rr_name = name, rr_type = ty, rr_class = cl, rr_TTL = ttl, rr_data_length = len,
               rr_data = None, rr_data_type = STRING_TYPE, rr_string_data = uninit MAX_LEN\<rparr>;
         offset = unat len
     in if ty = TYPE_CNAME \<or> ty = TYPE_NS then
          bindR (decodeName buf (p + 10) (rr_string_data rr) 0) (\<lambda>(_, s).
          Some (Inr (rr\<lparr>rr_string_data := s, rr_data_type := STRING_TYPE\<rparr>, p + 10 + offset)))
        else
          bindR (Some (rd_block buf (p + 10) (unat len))) (\<lambda>d.
          Some (Inr (rr\<lparr>rr_data_type := BINARY_TYPE, rr_data := Some (d @ uninit 2)\<rparr>,
                     p + 10 + offset))))))))"

definition decode_rr_step ::
  "carr \<Rightarrow> nat \<Rightarrow> message \<times> nat \<Rightarrow> nat \<Rightarrow> (message \<times> nat) run" where
  "decode_rr_step buf s = (\<lambda>(msg, p) j.
     if length (msg_resourse_record msg ! s) \<le> j then Some (Inl Out_Of_Bounds)
     else bindR (decode_rr buf p) (\<lambda>(rr, p).
       Some (Inr (msg\<lparr>msg_resourse_record := (msg_resourse_record msg)
                        [s := (msg_resourse_record msg ! s)[j := Some rr]]\<rparr>, p))))"

definition decode_section :: "carr \<Rightarrow> message \<times> nat \<Rightarrow> nat \<Rightarrow> (message \<times> nat) run" where
  "decode_section buf st s = foldR (decode_rr_step buf s) st [0..<unat (msg_RR_count (fst st) ! s)]"

definition decode_header :: "carr \<Rightarrow> message res" where
  "decode_header buf =
     bindE (rd16 buf 0) (\<lambda>ident.
     bindE (rd8 buf 2) (\<lambda>f0.
     bindE (rd8 buf 3) (\<lambda>f1.
     bindE (rd16 buf 4) (\<lambda>qc.
     bindE (foldE (\<lambda>cs i. bindE (rd16 buf (6 + 2 * i)) (\<lambda>c. Inr (cs[i := c])))
              (msg_RR_count newMsg) [0..<3]) (\<lambda>cs.
     Inr (newMsg\<lparr>msg_ID := ident,
       msg_flag := or (ucast (reverse8 f0)) (push_bit 8 (ucast (reverse8 f1))),
       msg_q_count := qc, msg_RR_count := cs\<rparr>))))))"

definition decode :: "carr \<Rightarrow> message run" where
  "decode buf =
     bindR (Some (decode_header buf)) (\<lambda>msg.
     bindR (foldR (decode_ques_step buf) (msg, 12) [0..<unat (msg_q_count msg)]) (\<lambda>st.
     bindR (foldR (decode_section buf) st [0..<3]) (\<lambda>(msg, p). Some (Inr msg))))"

end
