(* ===== verification/Message_Names.thy ===== *)
theory Message_Names
  imports Message
begin

text \<open>
  Names on the wire: what it means for an encoded name to start at an offset of a packet, that
  \<open>decodeName\<close> returns exactly that name, and that \<open>encodeName\<close>, compression included, leaves
  such a name behind. The offsets the hash table remembers are names in this sense, which is
  the invariant of the encoder.
\<close>

section \<open>Encoded names\<close>

text \<open>
  A name is a sequence of labels that ends with a zero byte or with a pointer to a name that
  lies entirely before it; \<open>name_at buf pos s e\<close> says that the dotted name \<open>s\<close> is encoded
  from \<open>pos\<close> up to \<open>e\<close>.
\<close>

definition label_ok :: "cstring \<Rightarrow> bool" where
  "label_ok l \<longleftrightarrow> l \<noteq> [] \<and> length l < 192"

definition label_at :: "carr \<Rightarrow> nat \<Rightarrow> cstring \<Rightarrow> bool" where
  "label_at buf pos l \<longleftrightarrow>
     label_ok l \<and> rd8 buf pos = Inr (of_nat (length l)) \<and>
     (\<forall>i < length l. rd8 buf (pos + 1 + i) = Inr (l ! i))"

inductive name_at :: "carr \<Rightarrow> nat \<Rightarrow> cstring \<Rightarrow> nat \<Rightarrow> bool" for buf where
  last_label: "label_at buf pos l \<Longrightarrow> rd8 buf (pos + 1 + length l) = Inr 0 \<Longrightarrow>
     name_at buf pos l (pos + length l + 2)"
| label: "label_at buf pos l \<Longrightarrow> name_at buf (pos + 1 + length l) s e \<Longrightarrow>
     name_at buf pos (l @ of_char (CHR ''.'') # s) e"
| pointer: "rd8 buf pos = Inr h \<Longrightarrow> 0xc0 \<le> h \<Longrightarrow> rd8 buf (pos + 1) = Inr lo \<Longrightarrow>
     name_at buf (unat (be16 (and h 0x3f) lo)) s e \<Longrightarrow> e \<le> pos \<Longrightarrow> name_at buf pos s (pos + 2)"

lemma name_at_less: "name_at buf pos s e \<Longrightarrow> pos + 2 \<le> e"
  by (induction rule: name_at.induct) (auto simp: label_at_def label_ok_def Suc_le_eq)

lemma label_at_same:
  "label_at buf pos l \<Longrightarrow> same_below n buf buf' \<Longrightarrow> pos + length l < n \<Longrightarrow> label_at buf' pos l"
  by (auto simp: label_at_def same_below_rd8)

lemma name_at_same:
  "name_at buf pos s e \<Longrightarrow> same_below e buf buf' \<Longrightarrow> name_at buf' pos s e"
proof (induction rule: name_at.induct)
  case (last_label pos l)
  then show ?case
    by (intro name_at.last_label label_at_same [OF last_label(1,3)]) (auto simp: same_below_rd8)
next
  case (label pos l s e)
  then show ?case
    using name_at_less [OF label(2)]
    by (intro name_at.label label_at_same [OF label(1,4)]) auto
next
  case (pointer pos h lo s e)
  have "same_below e buf buf'" using pointer(5,7) by (auto intro: same_below_mono)
  with pointer show ?case
    by (intro name_at.pointer [of _ pos h lo s e]) (auto simp: same_below_rd8)
qed

lemma label_at_first: "label_at buf pos l \<Longrightarrow> \<exists>n. rd8 buf pos = Inr n \<and> n \<noteq> 0"
  by (auto simp: label_at_def label_ok_def byte_of_nat_0)

lemma name_at_first: "name_at buf pos s e \<Longrightarrow> \<exists>n. rd8 buf pos = Inr n \<and> n \<noteq> 0"
  by (induction rule: name_at.induct) (auto dest: label_at_first)

text \<open>The loop of \<open>decodeName\<close> over the rest of a label, up to the dot behind it.\<close>

lemma decode_label_bytes:
  assumes "label_at buf pos l" and "k \<le> length l" and "w + length l - k < length nm"
  shows "decode_labels buf pos (pos + 1 + k) nm w =
     decode_labels buf (pos + 1 + length l) (pos + length l + 2)
       (blit nm w (map Some (drop k l @ [of_char (CHR ''.'')]))) (w + length l - k + 1)"
  using assms(2,3)
proof (induction "length l - k" arbitrary: k nm w)
  case 0
  have l: "length l < 192" "l \<noteq> []" "rd8 buf pos = Inr (of_nat (length l))"
    using assms(1) by (auto simp: label_at_def label_ok_def)
  have k: "k = length l" using 0 by simp
  have "of_nat (length l) \<noteq> (0 :: byte)" "(of_nat (length l) :: byte) < of_nat (Suc (length l))"
    using l by (simp_all add: byte_of_nat_0 byte_of_nat_less del: of_nat_Suc)
  then show ?case
    using l 0 k by (subst decode_labels.simps) (simp add: wr8_ok blit_one del: of_nat_Suc)
next
  case (Suc n)
  have l: "length l < 192" "l \<noteq> []" "rd8 buf pos = Inr (of_nat (length l))" "k < length l"
    using assms(1) Suc by (auto simp: label_at_def label_ok_def)
  have b: "rd8 buf (pos + 1 + k) = Inr (l ! k)"
    using assms(1) l(4) by (auto simp: label_at_def)
  have c: "of_nat (length l) \<noteq> (0 :: byte)" "\<not> (of_nat (length l) :: byte) < of_nat (Suc k)"
     "\<not> (0xc0 \<le> (of_nat (length l) :: byte))"
    using l byte_of_nat_le [of 192 "length l"]
    by (simp_all add: byte_of_nat_0 byte_of_nat_less del: of_nat_Suc)
  have "decode_labels buf pos (pos + 1 + k) nm w =
      decode_labels buf pos (pos + 1 + Suc k) (blit nm w [Some (l ! k)]) (w + 1)"
    using l b c Suc.prems by (subst decode_labels.simps) (simp add: wr8_ok blit_one del: of_nat_Suc)
  also have "\<dots> = decode_labels buf (pos + 1 + length l) (pos + length l + 2)
       (blit (blit nm w [Some (l ! k)]) (w + 1) (map Some (drop (Suc k) l @ [of_char (CHR ''.'')])))
       (w + 1 + length l - Suc k + 1)"
    using Suc l(4) by (intro Suc.hyps(1)) auto
  finally show ?case
    using l(4) Suc.prems by (simp add: blit_blit Cons_nth_drop_Suc [symmetric] del: of_char_of)
qed
text \<open>At a first byte that is not zero, \<open>decodeName\<close> is its loop.\<close>

definition after_labels :: "carr \<Rightarrow> label_end \<Rightarrow> (nat \<times> carr) run" where
  "after_labels buf r =
     (case r of
        Name_End p name \<Rightarrow> Some (Inr (p, name))
      | Name_Jump t next name w \<Rightarrow>
          bindR (decodeName buf t name w) (\<lambda>r. Some (Inr (next, snd r))))"

lemma decodeName_loop:
  assumes "rd8 buf off = Inr n" and "n \<noteq> 0"
  shows "decodeName buf off nm w =
     bindR (Some (decode_labels buf off (off + 1) nm w)) (after_labels buf)"
  unfolding after_labels_def [abs_def] using assms by (subst decodeName.simps) simp

text \<open>\<open>decodeName\<close> reads an encoded name: it returns its end and appends it to the caller's array.\<close>

lemma decodeName_name_at:
  "name_at buf pos s e \<Longrightarrow> w + length s < length nm \<Longrightarrow>
     decodeName buf pos nm w = Some (Inr (e, blit nm w (map Some (s @ [0]))))"
proof (induction arbitrary: nm w rule: name_at.induct)
  case (last_label pos l)
  obtain n where n: "rd8 buf pos = Inr n" "n \<noteq> 0"
    using label_at_first [OF last_label(1)] by blast
  show ?case
    using decode_label_bytes [OF last_label(1), of 0 w nm] last_label(2,3) decodeName_loop [OF n]
    by (simp add: decode_labels.simps [of _ "Suc (pos + length l)"] wr8_ok blit_over after_labels_def)
next
  case (label pos l s e)
  obtain n where n: "rd8 buf pos = Inr n" "n \<noteq> 0"
    using label_at_first [OF label(1)] by blast
  obtain m where m: "rd8 buf (pos + 1 + length l) = Inr m" "m \<noteq> 0"
    using name_at_first [OF label(2)] by blast
  let ?nm = "blit nm w (map Some (l @ [of_char (CHR ''.'')]))"
  have len: "w + length l + 1 + length s < length nm" using label(4) by simp
  have "decodeName buf pos nm w = decodeName buf (pos + 1 + length l) ?nm (w + length l + 1)"
    using decode_label_bytes [OF label(1), of 0 w nm] len decodeName_loop [OF n] decodeName_loop [OF m]
    by simp
  also have "\<dots> = Some (Inr (e, blit ?nm (w + length l + 1) (map Some (s @ [0]))))"
    using len by (intro label(3)) simp
  finally show ?case using len by (simp add: blit_blit)
next
  case (pointer pos h lo s e)
  have h: "h \<noteq> 0" "\<not> h < of_nat (pos + 1 - pos)"
    using pointer(2) by (auto simp: word_le_nat_alt word_less_nat_alt)
  show ?case
    using pointer h decodeName_loop [OF pointer(1) h(1), of nm w]
    by (simp add: decode_labels.simps [of _ pos] after_labels_def)
qed

section \<open>The encoder\<close>

text \<open>
  The names the encoder is meant for: fewer than 50 bytes, the limit of a key of the hash
  table, and no empty label, which excludes the root name.
\<close>

fun dotted :: "nat \<Rightarrow> cstring \<Rightarrow> bool" where
  "dotted n [] \<longleftrightarrow> 0 < n"
| "dotted n (c # cs) \<longleftrightarrow> (if c = of_char (CHR ''.'') then 0 < n \<and> dotted 0 cs else dotted (Suc n) cs)"

definition good_name :: "cstring \<Rightarrow> bool" where
  "good_name s \<longleftrightarrow> good_key s \<and> dotted 0 s"

text \<open>An entry of the table: a name that ends before \<open>lim\<close>, at an offset of 14 bits.\<close>

definition known_name :: "carr \<Rightarrow> nat \<Rightarrow> cstring \<Rightarrow> 16 word \<Rightarrow> bool" where
  "known_name buf lim s pos \<longleftrightarrow> unat pos < 2 ^ 14 \<and> (\<exists>e \<le> lim. name_at buf (unat pos) s e)"

lemma known_name_same:
  "known_name buf lim s pos \<Longrightarrow> same_below lim buf buf' \<Longrightarrow> lim \<le> lim' \<Longrightarrow> known_name buf' lim' s pos"
  unfolding known_name_def by (meson name_at_same same_below_mono order_trans)

lemma pointer_word:
  assumes "unat (pos :: 16 word) < 2 ^ 14"
  shows "or 0xc000 pos \<noteq> 0" and "0xc0 \<le> hi8 (or 0xc000 pos)"
    and "be16 (and (hi8 (or 0xc000 pos)) 0x3f) (lo8 (or 0xc000 pos)) = pos"
proof -
  have small: "\<not> bit pos n" if "14 \<le> n" for n
  proof -
    have "pos = take_bit 14 pos"
      using assms by (simp add: word_unat_eq_iff unsigned_take_bit_eq take_bit_nat_eq_self)
    then show ?thesis using that by (metis bit_take_bit_iff not_less)
  qed
  have m: "(0x3f :: byte) = mask 6" by (simp add: mask_eq_exp_minus_1)
  have bits: "bit (0xc000 :: 16 word) n \<longleftrightarrow> n = 14 \<or> n = 15" for n
  proof -
    have "bit (0xc000 :: 16 word) n \<longleftrightarrow> bit (or (push_bit 14 1) (push_bit 15 1) :: 16 word) n" by simp
    also have "\<dots> \<longleftrightarrow> n = 14 \<or> n = 15"
      by (simp only: bit_or_iff bit_push_bit_iff bit_1_iff) auto
    finally show ?thesis .
  qed
  show "or 0xc000 pos \<noteq> 0"
    by (metis bits bit_0_eq bit_or_iff bot_apply bot_bool_def)
  define w where "w = or 0xc000 pos"
  have w: "bit w n \<longleftrightarrow> n = 14 \<or> n = 15 \<or> bit pos n" for n
    by (simp only: w_def bit_or_iff bits) simp
  have "be16 (and (hi8 w) (mask 6)) (lo8 w) = pos"
  proof (rule bit_word_eqI)
    fix n assume "n < LENGTH(16)"
    then show "bit (be16 (and (hi8 w) (mask 6)) (lo8 w)) n = bit pos n"
      using small [of n] by (cases "n < 8"; cases "n < 14") (auto simp: be16_def hi8_def lo8_def bit_simps w)
  qed
  then show "be16 (and (hi8 (or 0xc000 pos)) 0x3f) (lo8 (or 0xc000 pos)) = pos"
    by (simp add: m w_def)
  have "or 0xc0 (hi8 w) = hi8 w"
  proof (rule bit_word_eqI)
    fix n assume n: "n < LENGTH(8)"
    have "bit (0xc0 :: byte) n \<longleftrightarrow> bit (or (push_bit 6 1) (push_bit 7 1) :: byte) n" by simp
    also have "\<dots> \<longleftrightarrow> n = 6 \<or> n = 7"
      by (simp only: bit_or_iff bit_push_bit_iff bit_1_iff) auto
    finally show "bit (or 0xc0 (hi8 w)) n = bit (hi8 w) n"
      by (auto simp: hi8_def bit_simps w)
  qed
  moreover have "0xc0 \<le> or 0xc0 (hi8 w)" by (rule le_word_or2)
  ultimately show "0xc0 \<le> hi8 (or 0xc000 pos)" by (metis w_def)
qed

text \<open>What \<open>getPos\<close> finds is a pointer to a known name, and writing it makes that name.\<close>

lemma getPos_ok:
  "ht_inv ht \<Longrightarrow> is_cstring s \<Longrightarrow>
     getPos s ht = Inr (case ht_map ht s of Some pos \<Rightarrow> or 0xc000 pos | None \<Rightarrow> 0)"
  by (simp add: getPos_def ht.get_ok)

lemma pointer_at:
  assumes "wr16 buf p (or 0xc000 pos) = Inr buf'" and "known_name buf p s pos"
  shows "name_at buf' p s (p + 2)" and "same_below p buf buf'"
proof -
  from assms(2) obtain e where e: "unat pos < 2 ^ 14" "e \<le> p" "name_at buf (unat pos) s e"
    by (auto simp: known_name_def)
  have "p + 2 \<le> length buf"
    using assms(1) by (auto simp: wr16_def wr8_def bindE_Inr_iff split: if_splits)
  then have b: "same_below p buf buf'" "rd8 buf' p = Inr (hi8 (or 0xc000 pos))"
      "rd8 buf' (p + 1) = Inr (lo8 (or 0xc000 pos))"
    using wr16_ok [of p buf "or 0xc000 pos"] assms(1) by (metis Inr_inject)+
  show "same_below p buf buf'" by (rule b(1))
  have "name_at buf' (unat pos) s e"
    using name_at_same [OF e(3) same_below_mono [OF b(1) e(2)]] .
  then show "name_at buf' p s (p + 2)"
    using name_at.pointer [OF b(2) pointer_word(2) [OF e(1)] b(3), of s e] e
    unfolding pointer_word(3) [OF e(1)] by simp
qed

section \<open>The loop of the encoder\<close>

lemma insert_name:
  assumes "ht_inv ht" and "card (dom (ht_map ht)) \<le> num" and "num < 2 ^ 14" and "good_key s"
  obtains ht' where "insert_ht ht s (of_nat num) = Inr ht'" and "ht_inv ht'"
    and "ht_map ht' = (ht_map ht)(s \<mapsto> of_nat num)" and "card (dom (ht_map ht')) \<le> num + 1"
proof -
  have "card (dom (ht_map ht)) < 2 ^ 29" using assms(2,3) by simp
  then obtain ht' where "insert_ht ht s (of_nat num) = Inr ht'" "ht_inv ht'"
      "ht_map ht' = (ht_map ht)(s \<mapsto> of_nat num)"
    using ht.put_ok [OF assms(1) _ assms(4)] by blast
  then show ?thesis
    using assms(2) ht.finite_alpha [OF assms(1)] by (intro that) (auto simp: card_insert_if)
qed

lemma label_written:
  assumes "\<forall>i < length l. rd8 buf (num + 1 + i) = Inr (l ! i)" and "wr8 buf num (of_nat (length l)) = Inr buf'"
    and "l \<noteq> []" and "length l < 192"
  shows "label_at buf' num l"
  using assms wr8_cases(1,4) [OF assms(2)] by (simp add: label_at_def label_ok_def)

text \<open>
  The loop at the label \<open>l\<close>, which is in the buffer but for its length byte, with \<open>name\<close> still to
  come: a name that the table holds may be looked up once it is shorter than what is being encoded.
\<close>

definition loop_state :: "carr \<Rightarrow> nat \<Rightarrow> cstring \<Rightarrow> cstring \<Rightarrow> names \<Rightarrow> bool" where
  "loop_state buf num l name ht \<longleftrightarrow> ht_inv ht \<and> card (dom (ht_map ht)) \<le> num \<and>
     good_key (l @ name) \<and> dotted (length l) name \<and> (\<forall>i < length l. rd8 buf (num + 1 + i) = Inr (l ! i)) \<and>
     num + length l + length name + 2 \<le> length buf \<and> length buf \<le> 2 ^ 14 \<and>
     (\<forall>s pos. ht_map ht s = Some pos \<longrightarrow> length s < length (l @ name) \<longrightarrow> known_name buf num s pos)"

text \<open>What the loop leaves: the name at \<open>num\<close>, and its new entries are names of the packet.\<close>

definition name_put :: "carr \<Rightarrow> nat \<Rightarrow> cstring \<Rightarrow> names \<Rightarrow> carr \<times> nat \<times> names \<Rightarrow> bool" where
  "name_put buf num s ht = (\<lambda>(buf', p', ht'). ht_inv ht' \<and> card (dom (ht_map ht')) \<le> p' \<and>
     same_below num buf buf' \<and> name_at buf' num s p' \<and> p' \<le> num + length s + 2 \<and>
     (\<forall>s pos. ht_map ht' s = Some pos \<longrightarrow> ht_map ht s = Some pos \<or> known_name buf' p' s pos))"

text \<open>Closing a label: its name goes into the table and its length in front of it.\<close>

lemma close_label:
  assumes "loop_state buf num l name ht" and l: "l \<noteq> []" "length l < 192"
  obtains ht' buf' where "insert_ht ht (l @ name) (of_nat num) = Inr ht'" and "ht_inv ht'"
    and "ht_map ht' = (ht_map ht)(l @ name \<mapsto> of_nat num)" and "card (dom (ht_map ht')) \<le> num + 1"
    and "wr8 buf num (of_nat (length l)) = Inr buf'" and "length buf' = length buf"
    and "same_below num buf buf'" and "label_at buf' num l"
proof -
  note st = assms(1) [unfolded loop_state_def]
  obtain ht' where "insert_ht ht (l @ name) (of_nat num) = Inr ht'" "ht_inv ht'"
      "ht_map ht' = (ht_map ht)(l @ name \<mapsto> of_nat num)" "card (dom (ht_map ht')) \<le> num + 1"
    using insert_name [of ht num "l @ name"] st by auto
  moreover obtain buf' where b: "wr8 buf num (of_nat (length l)) = Inr buf'"
    using st by (auto simp: wr8_def)
  moreover have "length buf' = length buf" "same_below num buf buf'" "label_at buf' num l"
    using wr8_cases(2) [OF b] label_written [OF _ b l] st by (auto simp: same_below_length)
  ultimately show ?thesis by (rule that)
qed

lemma label_room:
  assumes "loop_state buf num l name ht"
  shows "num < 2 ^ 14" and "length l < 192" and "name = [] \<Longrightarrow> l \<noteq> []"
  using assms by (auto simp: loop_state_def good_key_def HASH_KEY_MAX_LEN_def)

text \<open>The name that was added is one that the packet now holds at \<open>num\<close>.\<close>

lemma name_putI:
  assumes "name_at b num s p'" and "num < 2 ^ 14" and "same_below num buf b" and "p' \<le> num + length s + 2"
    and "ht_inv h" and "card (dom (ht_map h)) \<le> p'" and "ht_map ht' = (ht_map ht)(s \<mapsto> of_nat num)"
    and "\<And>s pos. ht_map h s = Some pos \<Longrightarrow> ht_map ht' s = Some pos \<or> known_name b p' s pos"
  shows "name_put buf num s ht (b, p', h)"
proof -
  have "known_name b p' s (of_nat num)" using assms(1,2) by (auto simp: known_name_def unat_of_nat)
  moreover have "ht_map ht s' = Some pos \<or> s' = s \<and> pos = of_nat num \<or> known_name b p' s' pos"
    if "ht_map h s' = Some pos" for s' pos
    using assms(8) [OF that] assms(7) by (auto split: if_splits)
  ultimately show ?thesis using assms(1,3-6) by (auto simp: name_put_def)
qed

lemma loop_end:
  assumes "loop_state buf num l [] ht"
  shows "\<exists>r. encodeName_loop [] buf num (num + 1 + length l) (of_nat (length l)) l ht = Inr r \<and> name_put buf num l ht r"
proof -
  note st = assms [unfolded loop_state_def] and l = label_room [OF assms]
  obtain ht' b1 where c: "insert_ht ht (l @ []) (of_nat num) = Inr ht'" "ht_inv ht'"
      "ht_map ht' = (ht_map ht)(l @ [] \<mapsto> of_nat num)" "card (dom (ht_map ht')) \<le> num + 1"
      "wr8 buf num (of_nat (length l)) = Inr b1" "length b1 = length buf" "same_below num buf b1" "label_at b1 num l"
    by (rule close_label [OF assms l(3) [OF refl] l(2)])
  obtain b2 where b2: "wr8 b1 (num + 1 + length l) 0 = Inr b2" using st c(6) by (auto simp: wr8_def)
  have "name_at b2 num l (num + length l + 2)"
    using label_at_same [OF c(8) wr8_cases(2) [OF b2]] wr8_cases(1) [OF b2] by (intro name_at.last_label) auto
  moreover have "same_below num buf b2" using same_below_trans [OF c(7) wr8_cases(2) [OF b2]] by simp
  ultimately have "name_put buf num l ht (b2, num + length l + 2, ht')"
    using c(2-4) l(1) by (intro name_putI) auto
  then show ?thesis using c(1,5) b2 by simp
qed

lemma loop_char:
  assumes "loop_state buf num l (c # name) ht" and "c \<noteq> of_char (CHR ''.'')"
  obtains b where "wr8 buf (num + 1 + length l) c = Inr b" and "same_below num buf b"
    and "loop_state b num (l @ [c]) name ht"
proof -
  note st = assms(1) [unfolded loop_state_def]
  obtain b where b: "wr8 buf (num + 1 + length l) c = Inr b" using st by (auto simp: wr8_def)
  have s: "same_below (num + 1 + length l) buf b" and len: "length b = length buf"
    using wr8_cases(2) [OF b] by (auto simp: same_below_length)
  have sn: "same_below num buf b" using same_below_mono [OF s] by simp
  have "rd8 b (num + 1 + i) = Inr ((l @ [c]) ! i)" if "i < length (l @ [c])" for i
    using that st same_below_rd8 [OF s, of "num + 1 + i"] wr8_cases(1) [OF b]
    by (cases "i < length l"; cases "i = length l") (simp_all add: nth_append)
  moreover have "known_name b num s pos"
    if "ht_map ht s = Some pos" "length s < length ((l @ [c]) @ name)" for s pos
    using that st known_name_same [OF _ sn order_refl] by simp
  ultimately have "loop_state b num (l @ [c]) name ht"
    using st assms(2) len by (auto simp: loop_state_def)
  with b sn show ?thesis by (rule that)
qed

lemma loop_pointer:
  assumes "label_at b num l" and "known_name b p name pos" and "p = num + 1 + length l"
    and "p + 2 \<le> length b" and "c = of_char (CHR ''.'')"
  obtains b' where "wr16 b p (or 0xc000 pos) = Inr b'" and "same_below num b b'"
    and "name_at b' num (l @ c # name) (p + 2)"
proof -
  obtain b' where b': "wr16 b p (or 0xc000 pos) = Inr b'" using wr16_ok [of p b] assms(4) by metis
  note at = pointer_at [OF b' assms(2)]
  have "name_at b' num (l @ c # name) (p + 2)"
    using name_at.label [of b' num l name "p + 2"] label_at_same [OF assms(1) at(2)] at(1) assms(3,5) by simp
  with b' same_below_mono [OF at(2)] assms(3) show ?thesis by (intro that) auto
qed

text \<open>After a dot the rest of the name is looked up, or put as a name of its own.\<close>

lemma loop_dot:
  assumes st: "loop_state buf num l (c # name) ht" and c: "c = of_char (CHR ''.'')" and p: "p = num + 1 + length l"
    and IH: "\<And>b h. loop_state b p [] name h \<Longrightarrow>
      \<exists>r. encodeName_loop name b p (p + 1) 0 name h = Inr r \<and> name_put b p name h r"
  shows "\<exists>r. encodeName_loop (c # name) buf num p (of_nat (length l)) (l @ c # name) ht = Inr r \<and>
    name_put buf num (l @ c # name) ht r"
proof -
  note s = st [unfolded loop_state_def] and room = label_room [OF st]
  have l: "l \<noteq> []" and n: "good_key name" "dotted 0 name" "name \<noteq> []" "is_cstring name"
    using s c by (auto simp: good_key_def)
  obtain h1 b1 where w: "insert_ht ht (l @ c # name) (of_nat num) = Inr h1" "ht_inv h1"
      "ht_map h1 = (ht_map ht)(l @ c # name \<mapsto> of_nat num)" "card (dom (ht_map h1)) \<le> num + 1"
      "wr8 buf num (of_nat (length l)) = Inr b1" "length b1 = length buf" "same_below num buf b1" "label_at b1 num l"
    by (rule close_label [OF st l room(2)])
  have other: "known_name b1 p s' pos" if "ht_map h1 s' = Some pos" "length s' < length (l @ c # name)" for s' pos
    using that s p w(3) known_name_same [OF _ w(7), of s' pos p] by (auto split: if_splits)
  show ?thesis
  proof (cases "ht_map h1 name")
    case (Some pos)
    then have k: "known_name b1 p name pos" using other by simp
    then have nz: "or 0xc000 pos \<noteq> 0" using pointer_word(1) by (simp add: known_name_def)
    have "p + 2 \<le> length b1" using s p n(3) w(6) by (cases name) auto
    then obtain b2 where b2: "wr16 b1 p (or 0xc000 pos) = Inr b2" "same_below num b1 b2"
        "name_at b2 num (l @ c # name) (p + 2)"
      using loop_pointer [OF w(8) k p _ c] by blast
    have "name_put buf num (l @ c # name) ht (b2, p + 2, h1)"
      using b2(3) same_below_trans [OF w(7) b2(2)] room(1) w(2-4) p by (intro name_putI) auto
    then show ?thesis using w(1,2,5) b2(1) nz c Some n by (simp add: getPos_ok)
  next
    case None
    have "loop_state b1 p [] name h1" using w(2,4,6) n s p other by (auto simp: loop_state_def)
    then obtain b2 p' h2 where r: "encodeName_loop name b1 p (p + 1) 0 name h1 = Inr (b2, p', h2)"
        "name_put b1 p name h1 (b2, p', h2)" using IH by (metis prod_cases3)
    then have at: "name_at b2 num (l @ c # name) p'"
      using name_at.label [of b2 num l name p'] label_at_same [OF w(8), of p b2] p c by (simp add: name_put_def)
    have "name_put buf num (l @ c # name) ht (b2, p', h2)"
      by (rule name_putI [OF at room(1) _ _ _ _ w(3)])
        (use r(2) same_below_trans [OF w(7), of p b2] p in \<open>auto simp: name_put_def\<close>)
    then show ?thesis using w(1,2,5) r(1) c None n by (simp add: getPos_ok)
  qed
qed

lemma encodeName_loop_ok:
  assumes "loop_state buf num l name ht" and "p = num + 1 + length l"
  shows "\<exists>r. encodeName_loop name buf num p (of_nat (length l)) (l @ name) ht = Inr r \<and>
    name_put buf num (l @ name) ht r"
  using assms
proof (induction name arbitrary: l buf num p ht)
  case Nil
  then show ?case using loop_end by simp
next
  case (Cons c name)
  show ?case
  proof (cases "c = of_char (CHR ''.'')")
    case True
    show ?thesis using Cons.IH [of _ _ "[]"] Cons.prems True by (intro loop_dot) auto
  next
    case False
    obtain b where b: "wr8 buf p c = Inr b" "same_below num buf b" "loop_state b num (l @ [c]) name ht"
      using loop_char [OF Cons.prems(1) False] Cons.prems(2) by blast
    obtain r where "encodeName_loop name b num (p + 1) (of_nat (length (l @ [c]))) ((l @ [c]) @ name) ht = Inr r"
        "name_put b num ((l @ [c]) @ name) ht r"
      using Cons.IH [OF b(3)] Cons.prems(2) by auto
    then show ?thesis
      using False b(1) same_below_trans [OF b(2), of num] by (auto simp: name_put_def add.commute split: prod.splits)
  qed
qed

section \<open>The encoder's invariant\<close>

text \<open>All that is in the table can be decoded from what lies before the offset \<open>p\<close>.\<close>

definition enc_state :: "carr \<Rightarrow> nat \<Rightarrow> names \<Rightarrow> bool" where
  "enc_state buf p ht \<longleftrightarrow> ht_inv ht \<and> card (dom (ht_map ht)) \<le> p \<and>
     (\<forall>s pos. ht_map ht s = Some pos \<longrightarrow> known_name buf p s pos)"

lemma enc_state_NewHashTab: "enc_state buf p NewHashTab"
  by (simp add: enc_state_def NewHashTab_ok)

lemma enc_state_same:
  "enc_state buf p ht \<Longrightarrow> same_below p buf buf' \<Longrightarrow> p \<le> p' \<Longrightarrow> enc_state buf' p' ht"
  unfolding enc_state_def using known_name_same by (meson order_trans)

lemma encodeName_ok:
  assumes st: "enc_state buf p ht" and arr: "cstr arr = Inr s" and good: "good_name s"
    and room: "p + length s + 2 \<le> length buf" "length buf \<le> 2 ^ 14"
  obtains buf' n ht' where "encodeName arr buf p ht = Inr (buf', n, ht')"
    and "enc_state buf' (p + n) ht'" and "same_below p buf buf'" and "name_at buf' p s (p + n)"
    and "n \<le> length s + 2"
proof -
  have inv: "ht_inv ht" "card (dom (ht_map ht)) \<le> p" and k: "good_key s" "dotted 0 s" "is_cstring s"
    and known: "ht_map ht s' = Some pos \<Longrightarrow> known_name buf p s' pos" for s' pos
    using st good by (auto simp: enc_state_def good_name_def good_key_def)
  show ?thesis
  proof (cases "ht_map ht s")
    case (Some pos)
    note at = known [OF Some]
    have nz: "or 0xc000 pos \<noteq> 0" using at pointer_word(1) by (simp add: known_name_def)
    obtain b where b: "wr16 buf p (or 0xc000 pos) = Inr b"
      using wr16_ok [of p buf] room(1) by (metis add.assoc add.commute add_leD1)
    show ?thesis
      using that [of b 2 ht] pointer_at [OF b at] enc_state_same [OF st pointer_at(2) [OF b at]] nz b Some
      by (simp add: encodeName_def arr getPos_ok [OF inv(1) k(3)])
  next
    case None
    have "loop_state buf p [] s ht" using inv k room known by (auto simp: loop_state_def)
    then obtain b p' h where r: "encodeName_loop s buf p (p + 1) 0 s ht = Inr (b, p', h)"
       "ht_inv h" "same_below p buf b" "p' \<le> p + length s + 2"
       "name_at b p s p'" "card (dom (ht_map h)) \<le> p'"
       "\<forall>s pos. ht_map h s = Some pos \<longrightarrow> ht_map ht s = Some pos \<or> known_name b p' s pos"
      using encodeName_loop_ok by (fastforce simp: name_put_def)
    have p': "p \<le> p'" using name_at_less [OF r(5)] by simp
    then have "enc_state b p' h"
      using r(2,6,7) known known_name_same [OF _ r(3) p'] unfolding enc_state_def by blast
    with r p' None show ?thesis
      by (intro that [of b "p' - p" h])
        (simp_all add: encodeName_def arr getPos_ok [OF inv(1) k(3)])
  qed
qed

text \<open>A name that is in the table costs two bytes and leaves the table alone.\<close>

lemma encodeName_known:
  assumes "enc_state buf p ht" and "cstr arr = Inr s" and "good_name s" and "ht_map ht s = Some pos"
    and "p + 2 \<le> length buf"
  obtains buf' where "encodeName arr buf p ht = Inr (buf', 2, ht)" and "name_at buf' p s (p + 2)"
    and "same_below p buf buf'"
proof -
  have at: "known_name buf p s pos" and k: "ht_inv ht" "is_cstring s"
    using assms by (auto simp: enc_state_def good_name_def good_key_def)
  have nz: "or 0xc000 pos \<noteq> 0" using at pointer_word(1) by (simp add: known_name_def)
  obtain b where b: "wr16 buf p (or 0xc000 pos) = Inr b"
    using wr16_ok [OF assms(5)] by metis
  show ?thesis
    using that [of b] pointer_at [OF b at] nz b assms(4)
    by (simp add: encodeName_def assms(2) getPos_ok [OF k])
qed

text \<open>The encoder never looks at the buffer: bytes below the name may be written before or after.\<close>

lemma wr8_frame: "i \<noteq> t \<Longrightarrow> wr8 (buf[t := x]) i b = bindE (wr8 buf i b) (\<lambda>b. Inr (b[t := x]))"
  by (simp add: wr8_def list_update_swap)

lemma wr16_frame: "t < i \<Longrightarrow> wr16 (buf[t := x]) i w = bindE (wr16 buf i w) (\<lambda>b. Inr (b[t := x]))"
  by (simp add: wr16_def wr8_frame bindE_assoc)

lemma encodeName_loop_frame:
  "t < num \<Longrightarrow> t < p \<Longrightarrow>
     encodeName_loop name (buf[t := x]) num p cnt last_name ht =
     bindE (encodeName_loop name buf num p cnt last_name ht) (\<lambda>(b, q, h). Inr (b[t := x], q, h))"
proof (induction name arbitrary: buf num p cnt last_name ht)
  case Nil
  then show ?case by (simp add: wr8_frame bindE_assoc)
next
  case (Cons c name)
  then show ?case
    by (simp add: wr8_frame wr16_frame bindE_assoc bindE_if cong: if_cong)
qed

lemma encodeName_frame:
  "t < p \<Longrightarrow> encodeName arr (buf[t := x]) p ht =
     bindE (encodeName arr buf p ht) (\<lambda>(b, n, h). Inr (b[t := x], n, h))"
  by (simp add: encodeName_def wr16_frame encodeName_loop_frame bindE_assoc bindE_if split_def
      cong: if_cong)

end
