(* ===== verification/Message_Codec.thy ===== *)
theory Message_Codec
  imports Message_Names
begin

text \<open>
  Whole packets: what a \<open>message\<close> struct stands for, what it means for a packet to be in a
  buffer, and that \<open>encode\<close> followed by \<open>decode\<close> is the identity on what the struct stands for.
\<close>

section \<open>What a message stands for\<close>

text \<open>
  The fields of the structs without the memory they live in: names as byte strings, the data of
  a record as a name or as raw bytes, the sections as lists.
\<close>

datatype rdata = Rd_Name cstring | Rd_Bytes "byte list"

record ques_val =
  qv_name :: cstring
  qv_type :: "16 word"
  qv_class :: "16 word"

record rr_val =
  rv_name :: cstring
  rv_type :: "16 word"
  rv_class :: "16 word"
  rv_TTL :: "32 word"
  rv_data :: rdata

record packet =
  pk_ID :: "16 word"
  pk_flag :: "16 word"
  pk_ques :: "ques_val list"
  pk_rrs :: "rr_val list list"

definition ques_view :: "question \<Rightarrow> ques_val res" where
  "ques_view q = bindE (cstr (q_name q)) (\<lambda>s.
     Inr \<lparr>qv_name = s, qv_type = q_type q, qv_class = q_class q\<rparr>)"

definition data_view :: "RR \<Rightarrow> rdata res" where
  "data_view r =
     (case rr_data_type r of
        STRING_TYPE \<Rightarrow> bindE (cstr (rr_string_data r)) (\<lambda>s. Inr (Rd_Name s))
      | BINARY_TYPE \<Rightarrow>
          (case rr_data r of
             None \<Rightarrow> Inl Bad_Pointer
           | Some d \<Rightarrow>
               bindE (rd_block d 0 (unat (rr_data_length r))) (\<lambda>d.
               bindE (mapE (\<lambda>b. case b of None \<Rightarrow> Inl Uninit_Read | Some b \<Rightarrow> Inr b) d)
                 (\<lambda>bs. Inr (Rd_Bytes bs)))))"

definition rr_view :: "RR \<Rightarrow> rr_val res" where
  "rr_view r = bindE (cstr (rr_name r)) (\<lambda>s. bindE (data_view r) (\<lambda>d.
     Inr \<lparr>rv_name = s, rv_type = rr_type r, rv_class = rr_class r, rv_TTL = rr_TTL r, rv_data = d\<rparr>))"

definition message_view :: "message \<Rightarrow> packet res" where
  "message_view msg =
     bindE (mapE (\<lambda>i. bindE (ques_at msg i) ques_view) [0..<unat (msg_q_count msg)]) (\<lambda>qs.
     bindE (mapE (\<lambda>s. mapE (\<lambda>j. bindE (rr_at msg s j) rr_view)
                        [0..<unat (msg_RR_count msg ! s)]) [0..<3]) (\<lambda>rrs.
     Inr \<lparr>pk_ID = msg_ID msg, pk_flag = msg_flag msg, pk_ques = qs, pk_rrs = rrs\<rparr>))"

text \<open>The sizes of the tables of the struct, which every operation keeps.\<close>

definition msg_shape :: "message \<Rightarrow> bool" where
  "msg_shape msg \<longleftrightarrow>
     length (msg_ques msg) = MAX_SIZE \<and> length (msg_RR_count msg) = 3 \<and>
     length (msg_resourse_record msg) = 3 \<and>
     (\<forall>s < 3. length (msg_resourse_record msg ! s) = MAX_SIZE)"

text \<open>
  Records the codec is made for: names within the limits of the encoder, and a name as data
  exactly for the two types that \<open>decode\<close> reads as names.
\<close>

definition rr_ok :: "rr_val \<Rightarrow> bool" where
  "rr_ok r \<longleftrightarrow> good_name (rv_name r) \<and>
     (case rv_data r of
        Rd_Name s \<Rightarrow> good_name s \<and> (rv_type r = TYPE_CNAME \<or> rv_type r = TYPE_NS)
      | Rd_Bytes bs \<Rightarrow> \<not> (rv_type r = TYPE_CNAME \<or> rv_type r = TYPE_NS))"

definition packet_ok :: "packet \<Rightarrow> bool" where
  "packet_ok pk \<longleftrightarrow>
     (\<forall>q \<in> set (pk_ques pk). good_name (qv_name q)) \<and> (\<forall>rs \<in> set (pk_rrs pk). \<forall>r \<in> set rs. rr_ok r)"

text \<open>The size of a packet without compression, which bounds the encoded one.\<close>

definition ques_size :: "ques_val \<Rightarrow> nat" where
  "ques_size q = length (qv_name q) + 6"

definition rr_size :: "rr_val \<Rightarrow> nat" where
  "rr_size r = length (rv_name r) + 12 +
     (case rv_data r of Rd_Name s \<Rightarrow> length s + 2 | Rd_Bytes bs \<Rightarrow> length bs)"

definition packet_size :: "packet \<Rightarrow> nat" where
  "packet_size pk =
     12 + sum_list (map ques_size (pk_ques pk)) + sum_list (map rr_size (concat (pk_rrs pk)))"

section \<open>What is on the wire\<close>

definition ques_wire :: "carr \<Rightarrow> nat \<Rightarrow> ques_val \<Rightarrow> nat \<Rightarrow> bool" where
  "ques_wire buf p q e \<longleftrightarrow>
     (\<exists>m. name_at buf p (qv_name q) m \<and> rd16 buf m = Inr (qv_type q) \<and>
        rd16 buf (m + 2) = Inr (qv_class q) \<and> e = m + 4)"

definition rr_wire :: "carr \<Rightarrow> nat \<Rightarrow> rr_val \<Rightarrow> nat \<Rightarrow> bool" where
  "rr_wire buf p r e \<longleftrightarrow>
     (\<exists>m len. name_at buf p (rv_name r) m \<and> rd16 buf m = Inr (rv_type r) \<and>
        rd16 buf (m + 2) = Inr (rv_class r) \<and> rd32 buf (m + 4) = Inr (rv_TTL r) \<and>
        rd16 buf (m + 8) = Inr len \<and> e = m + 10 + unat len \<and>
        (case rv_data r of
           Rd_Name s \<Rightarrow> name_at buf (m + 10) s e
         | Rd_Bytes bs \<Rightarrow> unat len = length bs \<and> rd_block buf (m + 10) (length bs) = Inr (map Some bs)))"

text \<open>One item after the other.\<close>

fun seq_wire :: "(carr \<Rightarrow> nat \<Rightarrow> 'a \<Rightarrow> nat \<Rightarrow> bool) \<Rightarrow> carr \<Rightarrow> nat \<Rightarrow> 'a list \<Rightarrow> nat \<Rightarrow> bool" where
  "seq_wire W buf p [] e \<longleftrightarrow> e = p"
| "seq_wire W buf p (x # xs) e \<longleftrightarrow> (\<exists>m. W buf p x m \<and> seq_wire W buf m xs e)"

text \<open>
  The contract of a wire format: an item ends where or behind where it starts, and depends on
  the bytes before its end only. Sequences of items of such a format are such a format again.
\<close>

locale wire_format =
  fixes W :: "carr \<Rightarrow> nat \<Rightarrow> 'a \<Rightarrow> nat \<Rightarrow> bool"
  assumes wire_le: "W buf p x e \<Longrightarrow> p \<le> e"
    and wire_same: "W buf p x e \<Longrightarrow> same_below e buf buf' \<Longrightarrow> W buf' p x e"
begin

lemma seq_le: "seq_wire W buf p xs e \<Longrightarrow> p \<le> e"
  by (induction xs arbitrary: p) (auto dest!: wire_le intro: order_trans)

lemma seq_same: "seq_wire W buf p xs e \<Longrightarrow> same_below e buf buf' \<Longrightarrow> seq_wire W buf' p xs e"
proof (induction xs arbitrary: p)
  case (Cons x xs)
  then obtain m where m: "W buf p x m" "seq_wire W buf m xs e" by auto
  have "same_below m buf buf'" using seq_le [OF m(2)] Cons.prems(2) by (rule same_below_mono [rotated])
  with m Cons show ?case by (auto intro: wire_same)
qed simp

lemma seq_snoc:
  "seq_wire W buf p xs m \<Longrightarrow> same_below m buf buf' \<Longrightarrow> W buf' m x e \<Longrightarrow> seq_wire W buf' p (xs @ [x]) e"
proof (induction xs arbitrary: p)
  case (Cons y ys)
  then obtain k where k: "W buf p y k" "seq_wire W buf k ys m" by auto
  have "same_below k buf buf'" using seq_le [OF k(2)] Cons.prems(2) by (rule same_below_mono [rotated])
  with k Cons show ?case by (auto intro: wire_same)
qed simp

lemma seq_format: "wire_format (seq_wire W)"
  by (rule wire_format.intro) (auto intro: seq_le seq_same)

end

interpretation q: wire_format ques_wire
proof
  show "p \<le> e" if "ques_wire buf p x e" for buf p x e
    using that by (auto simp: ques_wire_def dest: name_at_less)
  show "ques_wire buf' p x e" if "ques_wire buf p x e" "same_below e buf buf'" for buf p x e buf'
  proof -
    from that(1) obtain m where m: "name_at buf p (qv_name x) m" "rd16 buf m = Inr (qv_type x)"
        "rd16 buf (m + 2) = Inr (qv_class x)" "e = m + 4"
      by (auto simp: ques_wire_def)
    with that(2) show ?thesis
      using name_at_same [OF m(1) same_below_mono [OF that(2)]] same_below_rd16 [OF that(2)]
      by (auto simp: ques_wire_def)
  qed
qed

interpretation r: wire_format rr_wire
proof
  show "p \<le> e" if "rr_wire buf p x e" for buf p x e
    using that by (auto simp: rr_wire_def dest: name_at_less)
  show "rr_wire buf' p x e" if "rr_wire buf p x e" "same_below e buf buf'" for buf p x e buf'
  proof -
    from that(1) obtain m len where m: "name_at buf p (rv_name x) m" "rd16 buf m = Inr (rv_type x)"
        "rd16 buf (m + 2) = Inr (rv_class x)" "rd32 buf (m + 4) = Inr (rv_TTL x)"
        "rd16 buf (m + 8) = Inr len" "e = m + 10 + unat len"
        "case rv_data x of
           Rd_Name s \<Rightarrow> name_at buf (m + 10) s e
         | Rd_Bytes bs \<Rightarrow> unat len = length bs \<and> rd_block buf (m + 10) (length bs) = Inr (map Some bs)"
      by (auto simp: rr_wire_def)
    have d: "case rv_data x of
           Rd_Name s \<Rightarrow> name_at buf' (m + 10) s e
         | Rd_Bytes bs \<Rightarrow> unat len = length bs \<and> rd_block buf' (m + 10) (length bs) = Inr (map Some bs)"
      using m(6,7) name_at_same [OF _ that(2)] same_below_rd_block [OF that(2)]
      by (auto split: rdata.splits)
    have h: "rd16 buf' m = rd16 buf m" "rd16 buf' (m + 2) = rd16 buf (m + 2)"
        "rd32 buf' (m + 4) = rd32 buf (m + 4)" "rd16 buf' (m + 8) = rd16 buf (m + 8)"
      using m(6) by (auto intro: same_below_rd16 [OF that(2)] same_below_rd32 [OF that(2)])
    have n: "name_at buf' p (rv_name x) m"
      using name_at_same [OF m(1) same_below_mono [OF that(2)]] m(6) by simp
    show ?thesis
      unfolding rr_wire_def using d h m(2-6) n by (intro exI [of _ m] exI [of _ len]) simp
  qed
qed

interpretation rs: wire_format "seq_wire rr_wire"
  by (rule r.seq_format)


section \<open>Encoding\<close>

lemma encodeQues_ok:
  assumes st: "enc_state buf p ht" and q: "ques_view q = Inr x" and good: "good_name (qv_name x)"
    and room: "p + ques_size x \<le> length buf" "length buf \<le> 2 ^ 14"
  obtains buf' n ht' where "encodeQues q buf p ht = Inr (buf', n, ht')"
    and "enc_state buf' (p + n) ht'" and "same_below p buf buf'" and "ques_wire buf' p x (p + n)"
    and "n \<le> ques_size x"
proof -
  have qv: "cstr (q_name q) = Inr (qv_name x)" "qv_type x = q_type q" "qv_class x = q_class q"
    using q by (auto simp: ques_view_def bindE_Inr_iff)
  have rn: "p + length (qv_name x) + 2 \<le> length buf"
    using room(1) by (simp add: ques_size_def)
  obtain b1 n ht' where b1: "encodeName (q_name q) buf p ht = Inr (b1, n, ht')"
      "enc_state b1 (p + n) ht'" "same_below p buf b1" "name_at b1 p (qv_name x) (p + n)"
      "n \<le> length (qv_name x) + 2"
    by (rule encodeName_ok [OF st qv(1) good rn room(2)])
  have l1: "length b1 = length buf" using same_below_length [OF b1(3)] .
  have "p + n + 2 \<le> length b1" using room(1) b1(5) l1 by (simp add: ques_size_def)
  then obtain b2 where b2: "wr16 b1 (p + n) (q_type q) = Inr b2" "same_below (p + n) b1 b2"
      "rd16 b2 (p + n) = Inr (q_type q)"
    by (rule wr16_ok [of "p + n" b1 "q_type q"]) auto
  have l2: "length b2 = length buf" using same_below_length [OF b2(2)] l1 by simp
  have "p + n + 2 + 2 \<le> length b2" using room(1) b1(5) l2 by (simp add: ques_size_def)
  then obtain b3 where b3: "wr16 b2 (p + n + 2) (q_class q) = Inr b3" "same_below (p + n + 2) b2 b3"
      "rd16 b3 (p + n + 2) = Inr (q_class q)"
    by (rule wr16_ok [of "p + n + 2" b2 "q_class q"]) auto
  have s13: "same_below (p + n) b1 b3" using same_below_trans [OF b2(2) b3(2)] by simp
  have "rd16 b3 (p + n) = Inr (q_type q)" using same_below_rd16 [OF b3(2)] b2(3) by simp
  then have "ques_wire b3 p x (p + (n + 4))"
    unfolding ques_wire_def using b3(3) name_at_same [OF b1(4) s13] qv
    by (intro exI [of _ "p + n"]) (simp add: add.assoc)
  moreover have "enc_state b3 (p + (n + 4)) ht'" using enc_state_same [OF b1(2) s13] by simp
  moreover have "same_below p buf b3" using same_below_trans [OF b1(3) s13] by simp
  moreover have "encodeQues q buf p ht = Inr (b3, n + 4, ht')"
    using b1(1) b2(1) b3(1) by (simp add: encodeQues_def)
  ultimately show ?thesis using b1(5) by (intro that [of b3 "n + 4" ht']) (auto simp: ques_size_def)
qed

text \<open>The three fixed fields of a record, behind its name.\<close>

lemma rr_fields:
  assumes "t + 8 \<le> length buf"
  obtains b1 b2 b3 where "wr16 buf t ty = Inr b1" and "wr16 b1 (t + 2) cl = Inr b2"
    and "wr32 b2 (t + 4) ttl = Inr b3" and "same_below t buf b3"
    and "rd16 b3 t = Inr ty" and "rd16 b3 (t + 2) = Inr cl" and "rd32 b3 (t + 4) = Inr ttl"
proof -
  obtain b1 where b1: "wr16 buf t ty = Inr b1" "same_below t buf b1" "rd16 b1 t = Inr ty"
    by (rule wr16_ok [of t buf ty]) (use assms in auto)
  obtain b2 where b2: "wr16 b1 (t + 2) cl = Inr b2" "same_below (t + 2) b1 b2" "rd16 b2 (t + 2) = Inr cl"
    by (rule wr16_ok [of "t + 2" b1 cl]) (use assms same_below_length [OF b1(2)] in auto)
  obtain b3 where b3: "wr32 b2 (t + 4) ttl = Inr b3" "same_below (t + 4) b2 b3" "rd32 b3 (t + 4) = Inr ttl"
    by (rule wr32_ok [of "t + 4" b2 ttl])
      (use assms same_below_length [OF b1(2)] same_below_length [OF b2(2)] in auto)
  have "same_below t buf b3"
    using same_below_trans [OF same_below_trans [OF b1(2) b2(2)] b3(2), of t t] by simp
  moreover have "rd16 b3 t = Inr ty"
    using same_below_rd16 [OF b2(2), of t] same_below_rd16 [OF b3(2), of t] b1(3) by simp
  moreover have "rd16 b3 (t + 2) = Inr cl"
    using same_below_rd16 [OF b3(2), of "t + 2"] b2(3) by simp
  ultimately show ?thesis using that b1(1) b2(1) b3(1,3) by blast
qed

text \<open>
  A name as data: its length goes in front of it, when it is known. As the encoder does not
  look at the buffer, this is the same as encoding it behind the length.
\<close>

lemma name_data:
  assumes st: "enc_state buf t ht" and arr: "cstr arr = Inr s" and good: "good_name s"
    and room: "t + 2 + length s + 2 \<le> length buf" "length buf \<le> 2 ^ 14"
  obtains b1 b2 m ht' where "encodeName arr buf (t + 2) ht = Inr (b1, m, ht')"
    and "wr16 b1 t (of_nat m) = Inr b2" and "unat (of_nat m :: 16 word) = m"
    and "enc_state b2 (t + 2 + m) ht'" and "same_below t buf b2"
    and "rd16 b2 t = Inr (of_nat m)" and "name_at b2 (t + 2) s (t + 2 + m)" and "m \<le> length s + 2"
proof -
  have st2: "enc_state buf (t + 2) ht" using enc_state_same [OF st same_below_refl] by simp
  obtain b1 m ht' where b1: "encodeName arr buf (t + 2) ht = Inr (b1, m, ht')" "m \<le> length s + 2"
      "same_below (t + 2) buf b1"
    using encodeName_ok [OF st2 arr good room] by metis
  define x y where "x = Some (hi8 (of_nat m))" and "y = Some (lo8 (of_nat m))"
  let ?buf = "buf[t := x, t + 1 := y]"
  have enc: "encodeName arr ?buf (t + 2) ht = Inr (b1[t := x, t + 1 := y], m, ht')"
    using b1(1) by (simp add: encodeName_frame)
  have s: "same_below t buf ?buf" by (simp add: same_below_def)
  have st3: "enc_state ?buf (t + 2) ht" using enc_state_same [OF st s] by simp
  have r: "t + 2 + length s + 2 \<le> length ?buf" "length ?buf \<le> 2 ^ 14" using room by simp_all
  obtain b2 where b2: "b2 = b1[t := x, t + 1 := y]" "enc_state b2 (t + 2 + m) ht'"
      "same_below (t + 2) ?buf b2" "name_at b2 (t + 2) s (t + 2 + m)"
    using encodeName_ok [OF st3 arr good r] enc by (metis Inr_inject Pair_inject)
  have len: "t + 2 \<le> length b1" using room(1) same_below_length [OF b1(3)] by simp
  then have w: "wr16 b1 t (of_nat m) = Inr b2"
    by (simp add: wr16_def wr8_def b2(1) x_def y_def)
  moreover have "rd16 b2 t = Inr (of_nat m)"
    using wr16_ok [OF len, of "of_nat m"] w by (metis Inr_inject)
  moreover have "unat (of_nat m :: 16 word) = m"
    using b1(2) good by (simp add: good_name_def good_key_def HASH_KEY_MAX_LEN_def unat_of_nat)
  moreover have "same_below t buf b2" using same_below_trans [OF s b2(3)] by simp
  ultimately show ?thesis using that b1(1,2) b2(2,4) by blast
qed

lemma init_bytes: "mapE (\<lambda>b. case b of None \<Rightarrow> Inl Uninit_Read | Some b \<Rightarrow> Inr b) d = Inr bs \<longleftrightarrow> d = map Some bs"
proof (induction d arbitrary: bs)
  case (Cons b d)
  then show ?case by (cases b; cases bs) (auto simp: bindE_Inr_iff)
qed auto

text \<open>What a record has in front of its data, up to the offset \<open>q + 8\<close> of their length.\<close>

definition rr_front :: "carr \<Rightarrow> nat \<Rightarrow> rr_val \<Rightarrow> nat \<Rightarrow> bool" where
  "rr_front b p x q \<longleftrightarrow> name_at b p (rv_name x) q \<and> rd16 b q = Inr (rv_type x) \<and>
     rd16 b (q + 2) = Inr (rv_class x) \<and> rd32 b (q + 4) = Inr (rv_TTL x)"

lemma rr_wire_head:
  assumes "rr_front b p x q" and "same_below (q + 8) b b'" and "rd16 b' (q + 8) = Inr len"
    and "case rv_data x of
       Rd_Name s \<Rightarrow> name_at b' (q + 10) s (q + 10 + unat len)
     | Rd_Bytes bs \<Rightarrow> unat len = length bs \<and> rd_block b' (q + 10) (length bs) = Inr (map Some bs)"
  shows "rr_wire b' p x (q + 10 + unat len)"
  unfolding rr_wire_def
proof (intro exI [of _ q] exI [of _ len] conjI)
  show "name_at b' p (rv_name x) q"
    using name_at_same [OF _ same_below_mono [OF assms(2)]] assms(1) by (simp add: rr_front_def)
qed (use assms same_below_rd16 [OF assms(2)] same_below_rd32 [OF assms(2)] in
    \<open>simp_all add: rr_front_def add.assoc\<close>)

lemma encodeRR_head:
  assumes st: "enc_state buf p ht" and v: "rr_view rr = Inr x" and good: "good_name (rv_name x)"
    and room: "p + length (rv_name x) + 10 \<le> length buf" "length buf \<le> 2 ^ 14"
  obtains b0 n h b1 b2 b3 where "encodeName (rr_name rr) buf p ht = Inr (b0, n, h)"
    and "wr16 b0 (p + n) (rr_type rr) = Inr b1" and "wr16 b1 (p + n + 2) (rr_class rr) = Inr b2"
    and "wr32 b2 (p + n + 4) (rr_TTL rr) = Inr b3" and "n \<le> length (rv_name x) + 2"
    and "enc_state b3 (p + n + 8) h" and "same_below p buf b3" and "rr_front b3 p x (p + n)"
proof -
  have xv: "cstr (rr_name rr) = Inr (rv_name x)" "rv_type x = rr_type rr" "rv_class x = rr_class rr"
      "rv_TTL x = rr_TTL rr"
    using v by (auto simp: rr_view_def bindE_Inr_iff)
  obtain b0 n h where b0: "encodeName (rr_name rr) buf p ht = Inr (b0, n, h)"
      "enc_state b0 (p + n) h" "same_below p buf b0" "name_at b0 p (rv_name x) (p + n)"
      "n \<le> length (rv_name x) + 2"
    by (rule encodeName_ok [OF st xv(1) good _ room(2)]) (use room(1) in auto)
  have "p + n + 8 \<le> length b0" using room(1) b0(5) same_below_length [OF b0(3)] by simp
  then obtain b1 b2 b3 where b3: "wr16 b0 (p + n) (rr_type rr) = Inr b1"
      "wr16 b1 (p + n + 2) (rr_class rr) = Inr b2" "wr32 b2 (p + n + 4) (rr_TTL rr) = Inr b3"
      "same_below (p + n) b0 b3" "rd16 b3 (p + n) = Inr (rr_type rr)"
      "rd16 b3 (p + n + 2) = Inr (rr_class rr)" "rd32 b3 (p + n + 4) = Inr (rr_TTL rr)"
    by (rule rr_fields [of "p + n" b0 "rr_type rr" "rr_class rr" "rr_TTL rr"]) auto
  have "enc_state b3 (p + n + 8) h" using enc_state_same [OF b0(2) b3(4)] by simp
  moreover have "same_below p buf b3" using same_below_trans [OF b0(3) b3(4)] by simp
  moreover have "rr_front b3 p x (p + n)"
    using b3(5-7) xv(2-4) name_at_same [OF b0(4) b3(4)] by (simp add: rr_front_def)
  ultimately show ?thesis using that b0(1,5) b3(1-3) by blast
qed

text \<open>Both kinds of data, behind the head of the record.\<close>

lemma encodeRR_string:
  assumes hd: "rr_front b p x q" and st: "enc_state b (q + 8) h" and s: "cstr arr = Inr s" "rv_data x = Rd_Name s"
    and good: "good_name s" and room: "q + 10 + length s + 2 \<le> length b" "length b \<le> 2 ^ 14"
  obtains b1 b2 m h' where "encodeName arr b (q + 10) h = Inr (b1, m, h')"
    and "wr16 b1 (q + 8) (of_nat m) = Inr b2" and "unat (of_nat m :: 16 word) = m" and "m \<le> length s + 2"
    and "enc_state b2 (q + 10 + m) h'" and "same_below (q + 8) b b2" and "rr_wire b2 p x (q + 10 + m)"
proof -
  have q: "q + 8 + 2 = q + 10" by simp
  obtain b1 b2 m h' where d: "encodeName arr b (q + 10) h = Inr (b1, m, h')"
      "wr16 b1 (q + 8) (of_nat m) = Inr b2" "unat (of_nat m :: 16 word) = m" "enc_state b2 (q + 10 + m) h'"
      "same_below (q + 8) b b2" "rd16 b2 (q + 8) = Inr (of_nat m)" "name_at b2 (q + 10) s (q + 10 + m)"
      "m \<le> length s + 2"
    by (rule name_data [OF st s(1) good, unfolded q]) (use room in auto)
  have "rr_wire b2 p x (q + 10 + m)" using rr_wire_head [OF hd d(5,6)] d(3,7) s(2) by simp
  with d show ?thesis by (intro that)
qed

lemma encodeRR_bytes:
  assumes hd: "rr_front b p x q" and st: "enc_state b (q + 8) h" and bs: "rv_data x = Rd_Bytes bs"
    and len: "unat len = length bs" and room: "q + 10 + length bs \<le> length b"
  obtains b1 b2 where "wr16 b (q + 8) len = Inr b1" and "wr_block b1 (q + 10) (map Some bs) = Inr b2"
    and "enc_state b2 (q + 10 + length bs) h" and "same_below (q + 8) b b2"
    and "rr_wire b2 p x (q + 10 + length bs)"
proof -
  obtain b1 where b1: "wr16 b (q + 8) len = Inr b1" "same_below (q + 8) b b1" "rd16 b1 (q + 8) = Inr len"
    by (rule wr16_ok [of "q + 8" b len]) (use room in auto)
  obtain b2 where b2: "wr_block b1 (q + 10) (map Some bs) = Inr b2" "same_below (q + 10) b1 b2"
      "rd_block b2 (q + 10) (length bs) = Inr (map Some bs)"
    using wr_block_ok [of "q + 10" "map Some bs" b1] room same_below_length [OF b1(2)] by auto
  have s: "same_below (q + 8) b b2" using same_below_trans [OF b1(2) b2(2)] by simp
  have "rr_wire b2 p x (q + 10 + length bs)"
    using rr_wire_head [OF hd s, of len] same_below_rd16 [OF b2(2), of "q + 8"] b1(3) b2(3) bs len by simp
  with b1(1) b2(1) enc_state_same [OF st s] s show ?thesis by (intro that) auto
qed

lemma data_view_cases:
  assumes "data_view rr = Inr d"
  obtains s where "rr_data_type rr = STRING_TYPE" and "d = Rd_Name s" and "cstr (rr_string_data rr) = Inr s"
  | a bs where "rr_data_type rr = BINARY_TYPE" and "d = Rd_Bytes bs" and "rr_data rr = Some a"
      and "rd_block a 0 (unat (rr_data_length rr)) = Inr (map Some bs)" and "unat (rr_data_length rr) = length bs"
proof (cases "rr_data_type rr")
  case STRING_TYPE
  then show ?thesis using assms that(1) by (auto simp: data_view_def bindE_Inr_iff)
next
  case BINARY_TYPE
  then obtain a bs where a: "d = Rd_Bytes bs" "rr_data rr = Some a"
      "rd_block a 0 (unat (rr_data_length rr)) = Inr (map Some bs)"
    using assms by (auto simp: data_view_def bindE_Inr_iff init_bytes split: option.splits)
  moreover have "unat (rr_data_length rr) = length bs"
    using a(3) by (auto simp: rd_block_def split: if_splits dest: arg_cong [where f = length])
  ultimately show ?thesis using that(2) BINARY_TYPE by blast
qed

lemma encodeRR_ok:
  assumes st: "enc_state buf p ht" and v: "rr_view rr = Inr x" and ok: "rr_ok x"
    and room: "p + rr_size x \<le> length buf" "length buf \<le> 2 ^ 14"
  obtains rr' buf' n ht' where "encodeRR rr buf p ht = Inr (rr', buf', n, ht')"
    and "enc_state buf' (p + n) ht'" and "same_below p buf buf'" and "rr_wire buf' p x (p + n)"
    and "n \<le> rr_size x" and "rr_view rr' = Inr x"
proof -
  have gn: "good_name (rv_name x)" using ok by (simp add: rr_ok_def)
  have rn: "p + length (rv_name x) + 10 \<le> length buf" using room(1) by (simp add: rr_size_def)
  obtain b0 n h b1 b2 b3 where b: "encodeName (rr_name rr) buf p ht = Inr (b0, n, h)"
      "wr16 b0 (p + n) (rr_type rr) = Inr b1" "wr16 b1 (p + n + 2) (rr_class rr) = Inr b2"
      "wr32 b2 (p + n + 4) (rr_TTL rr) = Inr b3" "n \<le> length (rv_name x) + 2"
      "enc_state b3 (p + n + 8) h" "same_below p buf b3" "rr_front b3 p x (p + n)"
    by (rule encodeRR_head [OF st v gn rn room(2)])
  have len: "length b3 = length buf" using same_below_length [OF b(7)] by simp
  have d: "data_view rr = Inr (rv_data x)" using v by (auto simp: rr_view_def bindE_Inr_iff)
  from d show ?thesis
  proof (cases rule: data_view_cases)
    case (1 s)
    have gs: "good_name s" and rs: "p + n + 10 + length s + 2 \<le> length b3" "length b3 \<le> 2 ^ 14"
      using ok 1(2) room b(5) len by (auto simp: rr_ok_def rr_size_def)
    obtain c1 c2 m h1 where c: "encodeName (rr_string_data rr) b3 (p + n + 10) h = Inr (c1, m, h1)"
        "wr16 c1 (p + n + 8) (of_nat m) = Inr c2" "unat (of_nat m :: 16 word) = m" "m \<le> length s + 2"
        "enc_state c2 (p + n + 10 + m) h1" "same_below (p + n + 8) b3 c2" "rr_wire c2 p x (p + n + 10 + m)"
      by (rule encodeRR_string [OF b(8,6) 1(3,2) gs rs])
    have "encodeRR rr buf p ht = Inr (rr\<lparr>rr_data_length := of_nat m\<rparr>, c2, n + 10 + m, h1)"
      using b(1-4) c(1-3) 1(1) by (simp add: encodeRR_def Let_def ac_simps)
    moreover have "rr_view (rr\<lparr>rr_data_length := of_nat m\<rparr>) = Inr x"
      using v 1(1) by (simp add: rr_view_def data_view_def)
    moreover have "n + 10 + m \<le> rr_size x" using c(4) b(5) 1(2) by (simp add: rr_size_def)
    ultimately show ?thesis
      using c(5,7) same_below_trans [OF b(7) c(6)] by (intro that) (simp_all add: add.assoc)
  next
    case (2 a bs)
    have rb: "p + n + 10 + length bs \<le> length b3" using room(1) b(5) len 2(2) by (simp add: rr_size_def)
    obtain c1 c2 where c: "wr16 b3 (p + n + 8) (rr_data_length rr) = Inr c1"
        "wr_block c1 (p + n + 10) (map Some bs) = Inr c2" "enc_state c2 (p + n + 10 + length bs) h"
        "same_below (p + n + 8) b3 c2" "rr_wire c2 p x (p + n + 10 + length bs)"
      by (rule encodeRR_bytes [OF b(8,6) 2(2,5) rb])
    have "encodeRR rr buf p ht = Inr (rr, c2, n + 10 + length bs, h)"
      using b(1-4) c(1,2) 2 by (simp add: encodeRR_def Let_def ac_simps)
    moreover have "n + 10 + length bs \<le> rr_size x" using b(5) 2(2) by (simp add: rr_size_def)
    ultimately show ?thesis
      using c(3,5) v same_below_trans [OF b(7) c(4)] by (intro that) (simp_all add: add.assoc)
  qed
qed

section \<open>The header\<close>

lemma less_8_cases:
  "n < (8 :: nat) \<Longrightarrow> n = 0 \<or> n = 1 \<or> n = 2 \<or> n = 3 \<or> n = 4 \<or> n = 5 \<or> n = 6 \<or> n = 7"
  by linarith

lemma bit_double: "bit (b * 2 :: byte) n \<longleftrightarrow> 0 < n \<and> n < 8 \<and> bit b (n - 1)"
  using bit_push_bit_iff [of 1 b n] by (auto simp: push_bit_eq_mult dest: bit_imp_le_length)

lemma bit_reverse8: "n < 8 \<Longrightarrow> bit (reverse8 b) n = bit b (7 - n)"
  by (drule less_8_cases, elim disjE)
    (simp_all add: reverse8_def Let_def bit_simps bit_numeral_rec bit_double)

lemma reverse8_reverse8 [simp]: "reverse8 (reverse8 b) = b"
  by (rule bit_word_eqI) (simp add: bit_reverse8)

lemma byte_mask: "(0xff :: 16 word) = mask 8"
  by (simp add: mask_eq_exp_minus_1)

lemma flag_bytes:
  "or (ucast (ucast (and f 0xff) :: byte))
     (push_bit 8 (ucast (ucast (and (drop_bit 8 f) 0xff) :: byte))) = (f :: 16 word)"
  unfolding byte_mask by (rule bit_word_eqI) (auto simp: bit_simps)

lemma upt_3: "[0..<3] = [0, 1, 2 :: nat]"
  by (simp add: upt_rec)

lemma decode_header_same:
  assumes "same_below 12 buf buf'"
  shows "decode_header buf' = decode_header buf"
  using same_below_rd16 [OF assms] same_below_rd8 [OF assms]
  by (simp add: decode_header_def upt_3)

text \<open>The two flag bytes of the wire as one 16-bit word, and the order of their bits.\<close>

definition wire_flags :: "16 word \<Rightarrow> 16 word" where
  "wire_flags f =
     be16 (reverse8 (ucast (and f 0xff))) (reverse8 (ucast (and (drop_bit 8 f) 0xff)))"

lemma bit_wire_flags: "bit (wire_flags f) n \<longleftrightarrow> n < 16 \<and> bit f (15 - n)"
proof (cases "n < 8")
  case True
  then show ?thesis
    unfolding wire_flags_def byte_mask be16_def by (auto simp: bit_simps bit_reverse8)
next
  case False
  then show ?thesis
    unfolding wire_flags_def byte_mask be16_def
    by (cases "n < 16") (auto simp: bit_simps bit_reverse8 dest: bit_imp_le_length)
qed

text \<open>The three counts of the sections.\<close>

lemma counts_put:
  assumes "12 \<le> length b"
  obtains b1 b2 b3 where "wr16 b 6 x = Inr b1" and "wr16 b1 8 y = Inr b2" and "wr16 b2 10 z = Inr b3"
    and "same_below 6 b b3" and "rd16 b3 6 = Inr x" and "rd16 b3 8 = Inr y" and "rd16 b3 10 = Inr z"
proof -
  obtain b1 where b1: "wr16 b 6 x = Inr b1" "same_below 6 b b1" "rd16 b1 6 = Inr x"
    by (rule wr16_ok [of 6 b x]) (use assms in auto)
  obtain b2 where b2: "wr16 b1 8 y = Inr b2" "same_below 8 b1 b2" "rd16 b2 8 = Inr y"
    by (rule wr16_ok [of 8 b1 y]) (use assms same_below_length [OF b1(2)] in auto)
  obtain b3 where b3: "wr16 b2 10 z = Inr b3" "same_below 10 b2 b3" "rd16 b3 10 = Inr z"
    by (rule wr16_ok [of 10 b2 z]) (use assms same_below_length [OF b1(2)] same_below_length [OF b2(2)] in auto)
  have "same_below 6 b b3"
    using same_below_trans [OF same_below_trans [OF b1(2) b2(2)] b3(2), of 6 6] by simp
  moreover have "rd16 b3 6 = Inr x" "rd16 b3 8 = Inr y"
    using same_below_rd16 [OF b2(2), of 6] same_below_rd16 [OF b3(2), of 6] same_below_rd16 [OF b3(2), of 8]
      b1(3) b2(3) by simp_all
  ultimately show ?thesis using that b1(1) b2(1) b3(1,3) by blast
qed

text \<open>The identifier, the two bytes of the flags and the number of questions.\<close>

lemma words_put:
  assumes "6 \<le> length b"
  obtains b1 b2 b3 b4 where "wr16 b 0 x = Inr b1" and "wr8 b1 2 f = Inr b2" and "wr8 b2 3 g = Inr b3"
    and "wr16 b3 4 y = Inr b4" and "same_below 0 b b4" and "rd16 b4 0 = Inr x"
    and "rd8 b4 2 = Inr f" and "rd8 b4 3 = Inr g" and "rd16 b4 4 = Inr y"
proof -
  obtain b1 where b1: "wr16 b 0 x = Inr b1" "same_below 0 b b1" "rd16 b1 0 = Inr x"
    by (rule wr16_ok [of 0 b x]) (use assms in auto)
  obtain b2 where b2: "wr8 b1 2 f = Inr b2" using assms same_below_length [OF b1(2)] by (simp add: wr8_def)
  note c2 = wr8_cases(1,2) [OF b2]
  obtain b3 where b3: "wr8 b2 3 g = Inr b3"
    using assms same_below_length [OF b1(2)] same_below_length [OF c2(2)] by (simp add: wr8_def)
  note c3 = wr8_cases(1,2) [OF b3]
  obtain b4 where b4: "wr16 b3 4 y = Inr b4" "same_below 4 b3 b4" "rd16 b4 4 = Inr y"
    by (rule wr16_ok [of 4 b3 y])
      (use assms same_below_length [OF b1(2)] same_below_length [OF c2(2)] same_below_length [OF c3(2)] in auto)
  have "same_below 0 b b4"
    using same_below_trans [OF same_below_trans [OF same_below_trans [OF b1(2) c2(2)] c3(2)] b4(2), of 0 0 0]
    by simp
  moreover have "rd16 b4 0 = Inr x"
    using same_below_rd16 [OF c2(2), of 0] same_below_rd16 [OF c3(2), of 0] same_below_rd16 [OF b4(2), of 0] b1(3)
    by simp
  moreover have "rd8 b4 2 = Inr f" "rd8 b4 3 = Inr g"
    using same_below_rd8 [OF c3(2), of 2] same_below_rd8 [OF b4(2)] c2(1) c3(1) by simp_all
  ultimately show ?thesis using that b1(1) b2 b3 b4(1,3) by blast
qed

lemma encodeHeader_ok:
  assumes "12 \<le> length buf" and "length (msg_RR_count msg) = 3"
  obtains buf' where "encodeHeader msg buf 0 = Inr (buf', 12)" and "length buf' = length buf"
    and "rd16 buf' 2 = Inr (wire_flags (msg_flag msg))"
    and "decode_header buf' = Inr (newMsg\<lparr>msg_ID := msg_ID msg, msg_flag := msg_flag msg,
           msg_q_count := msg_q_count msg, msg_RR_count := msg_RR_count msg\<rparr>)"
proof -
  let ?f0 = "reverse8 (ucast (and (msg_flag msg) 0xff))"
    and ?f1 = "reverse8 (ucast (and (drop_bit 8 (msg_flag msg)) 0xff))"
  obtain x y z where c: "msg_RR_count msg = [x, y, z]"
    using assms(2) by (auto simp: length_Suc_conv numeral_3_eq_3)
  obtain b1 b2 b3 b4 where b: "wr16 buf 0 (msg_ID msg) = Inr b1" "wr8 b1 2 ?f0 = Inr b2" "wr8 b2 3 ?f1 = Inr b3"
      "wr16 b3 4 (msg_q_count msg) = Inr b4" "same_below 0 buf b4" "rd16 b4 0 = Inr (msg_ID msg)"
      "rd8 b4 2 = Inr ?f0" "rd8 b4 3 = Inr ?f1" "rd16 b4 4 = Inr (msg_q_count msg)"
    by (rule words_put [of buf "msg_ID msg" ?f0 ?f1 "msg_q_count msg"]) (use assms(1) in auto)
  have l4: "length b4 = length buf" using same_below_length [OF b(5)] by simp
  obtain b5 b6 b7 where d: "wr16 b4 6 x = Inr b5" "wr16 b5 8 y = Inr b6" "wr16 b6 10 z = Inr b7"
      "same_below 6 b4 b7" "rd16 b7 6 = Inr x" "rd16 b7 8 = Inr y" "rd16 b7 10 = Inr z"
    by (rule counts_put [of b4 x y z]) (use assms(1) l4 in auto)
  have r: "rd16 b7 0 = Inr (msg_ID msg)" "rd8 b7 2 = Inr ?f0" "rd8 b7 3 = Inr ?f1" "rd16 b7 4 = Inr (msg_q_count msg)"
    using same_below_rd16 [OF d(4), of 0] same_below_rd8 [OF d(4), of 2] same_below_rd8 [OF d(4), of 3]
      same_below_rd16 [OF d(4), of 4] b(6-9) by simp_all
  show ?thesis
  proof (rule that)
    show "encodeHeader msg buf 0 = Inr (b7, 12)"
      using b(1-4) d(1-3) c by (simp add: encodeHeader_def upt_3 del: add_2_eq_Suc add_2_eq_Suc')
    show "length b7 = length buf" using same_below_length [OF d(4)] l4 by simp
    show "rd16 b7 2 = Inr (wire_flags (msg_flag msg))" using r(2,3) by (simp add: rd16_def wire_flags_def)
    show "decode_header b7 = Inr (newMsg\<lparr>msg_ID := msg_ID msg, msg_flag := msg_flag msg,
        msg_q_count := msg_q_count msg, msg_RR_count := msg_RR_count msg\<rparr>)"
      using r d(5-7) c flag_bytes [of "msg_flag msg"]
      by (simp add: decode_header_def upt_3 newMsg_def numeral_3_eq_3)
  qed
qed

section \<open>The loops of the encoder\<close>

lemma sum_list_take_Suc:
  "i < length xs \<Longrightarrow> sum_list (map f (take (Suc i) xs)) = sum_list (map f (take i xs)) + (f (xs ! i) :: nat)"
  by (simp add: take_Suc_conv_app_nth)

lemma sum_list_take_le: "sum_list (map f (take i xs)) \<le> sum_list (map (f :: 'a \<Rightarrow> nat) xs)"
  by (metis append_take_drop_id le_add1 map_append sum_list_append)

lemma encode_ques_ok:
  assumes st: "enc_state buf p ht"
    and v: "\<forall>i < length qs. bindE (ques_at msg i) ques_view = Inr (qs ! i)"
    and good: "\<forall>q \<in> set qs. good_name (qv_name q)"
    and room: "p + sum_list (map ques_size qs) \<le> length buf" "length buf \<le> 2 ^ 14"
  obtains buf' p' ht' where "foldE (encode_ques_step msg) (buf, p, ht) [0..<length qs] = Inr (buf', p', ht')"
    and "enc_state buf' p' ht'" and "same_below p buf buf'" and "seq_wire ques_wire buf' p qs p'"
    and "p' \<le> p + sum_list (map ques_size qs)"
proof -
  let ?P = "\<lambda>i (b, q, h). enc_state b q h \<and> same_below p buf b \<and> p \<le> q \<and>
      seq_wire ques_wire b p (take i qs) q \<and> q \<le> p + sum_list (map ques_size (take i qs))"
  have step: "\<exists>st'. encode_ques_step msg st i = Inr st' \<and> ?P (Suc i) st'"
    if i: "i < length qs" and P: "?P i st" for i st
  proof -
    obtain b q h where s: "st = (b, q, h)" by (cases st) auto
    obtain qu where qu: "ques_at msg i = Inr qu" "ques_view qu = Inr (qs ! i)"
      using v i by (auto simp: bindE_Inr_iff)
    have "q + ques_size (qs ! i) \<le> p + sum_list (map ques_size (take (Suc i) qs))"
      using P s sum_list_take_Suc [OF i, of ques_size] by simp
    also have "\<dots> \<le> length buf"
      using room(1) sum_list_take_le [of ques_size "Suc i" qs] by simp
    finally have r: "q + ques_size (qs ! i) \<le> length b" "length b \<le> 2 ^ 14"
      using P s room(2) by (auto simp: same_below_length)
    have e: "enc_state b q h" and sb: "same_below p buf b" and le: "p \<le> q"
      and w: "seq_wire ques_wire b p (take i qs) q" using P s by auto
    obtain b' n h' where b': "encodeQues qu b q h = Inr (b', n, h')" "enc_state b' (q + n) h'"
        "same_below q b b'" "ques_wire b' q (qs ! i) (q + n)" "n \<le> ques_size (qs ! i)"
      using encodeQues_ok [OF e qu(2) _ r] good i nth_mem by metis
    have "seq_wire ques_wire b' p (take (Suc i) qs) (q + n)"
      using q.seq_snoc [OF w b'(3,4)] i by (simp add: take_Suc_conv_app_nth)
    moreover have "same_below p buf b'" using same_below_trans [OF sb b'(3)] le by simp
    ultimately show ?thesis
      using b' s qu(1) P sum_list_take_Suc [OF i, of ques_size] by (simp add: encode_ques_step_def)
  qed
  have base: "?P 0 (buf, p, ht)" using st by simp
  obtain st' where "foldE (encode_ques_step msg) (buf, p, ht) [0..<length qs] = Inr st'"
      "?P (length qs) st'"
    using step by (rule foldE_upt_inv [of ?P, OF base])
  then show ?thesis by (cases st') (auto intro: that)
qed

text \<open>
  \<open>encodeRR\<close> changes the stored length of a record, which no view of it shows.
\<close>

definition same_views :: "message \<Rightarrow> message \<Rightarrow> bool" where
  "same_views m m' \<longleftrightarrow>
     m' = m\<lparr>msg_resourse_record := msg_resourse_record m'\<rparr> \<and>
     length (msg_resourse_record m') = length (msg_resourse_record m) \<and>
     (\<forall>s < length (msg_resourse_record m).
        length (msg_resourse_record m' ! s) = length (msg_resourse_record m ! s)) \<and>
     (\<forall>s j. bindE (rr_at m' s j) rr_view = bindE (rr_at m s j) rr_view)"

lemma same_views_refl [simp]: "same_views m m"
  by (simp add: same_views_def)

lemma same_views_fields:
  assumes "same_views m m'"
  shows "msg_ID m' = msg_ID m" and "msg_flag m' = msg_flag m" and "msg_q_count m' = msg_q_count m"
    and "msg_RR_count m' = msg_RR_count m" and "msg_ques m' = msg_ques m"
    and "msg_shape m \<Longrightarrow> msg_shape m'"
proof -
  obtain rs where m': "m' = m\<lparr>msg_resourse_record := rs\<rparr>" "length rs = length (msg_resourse_record m)"
      "\<forall>s < length (msg_resourse_record m). length (rs ! s) = length (msg_resourse_record m ! s)"
    using assms by (auto simp: same_views_def)
  then show "msg_ID m' = msg_ID m" "msg_flag m' = msg_flag m" "msg_q_count m' = msg_q_count m"
    "msg_RR_count m' = msg_RR_count m" "msg_ques m' = msg_ques m" "msg_shape m \<Longrightarrow> msg_shape m'"
    by (auto simp: msg_shape_def)
qed

lemma same_views_view:
  assumes "same_views m m'"
  shows "message_view m' = message_view m"
proof -
  have "ques_at m' = ques_at m"
    using same_views_fields(5) [OF assms] by (simp add: ques_at_def fun_eq_iff)
  then show ?thesis
    using same_views_fields(1-4) [OF assms] assms by (simp add: message_view_def same_views_def)
qed

lemma rr_at_bounds:
  "rr_at m s j = Inr r \<Longrightarrow> s < length (msg_resourse_record m) \<and> j < length (msg_resourse_record m ! s)"
  by (auto simp: rr_at_def split: if_splits)

lemma rr_at_store:
  assumes "s < length (msg_resourse_record m)" and "j < length (msg_resourse_record m ! s)"
  shows "rr_at (m\<lparr>msg_resourse_record := (msg_resourse_record m)
      [s := (msg_resourse_record m ! s)[j := Some r]]\<rparr>) s' j' =
    (if s' = s \<and> j' = j then Inr r else rr_at m s' j')"
  using assms by (auto simp: rr_at_def nth_list_update)

lemma same_views_store:
  assumes "same_views m0 m" and "rr_at m s j = Inr r" and "rr_view r' = rr_view r"
  shows "same_views m0 (m\<lparr>msg_resourse_record := (msg_resourse_record m)
      [s := (msg_resourse_record m ! s)[j := Some r']]\<rparr>)"
proof -
  note b = rr_at_bounds [OF assms(2)]
  let ?m = "m\<lparr>msg_resourse_record := (msg_resourse_record m)
      [s := (msg_resourse_record m ! s)[j := Some r']]\<rparr>"
  have "bindE (rr_at ?m t k) rr_view = bindE (rr_at m0 t k) rr_view" for t k
  proof -
    have "bindE (rr_at ?m t k) rr_view = bindE (rr_at m t k) rr_view"
      using rr_at_store [of s m j r' t k] b assms(2,3) by auto
    then show ?thesis using assms(1) by (simp add: same_views_def)
  qed
  moreover have "?m = m0\<lparr>msg_resourse_record := msg_resourse_record ?m\<rparr>"
    using same_views_fields(1-5) [OF assms(1)] by simp
  ultimately show ?thesis
    using assms(1) b unfolding same_views_def by (simp add: nth_list_update)
qed

lemma encode_section_ok:
  assumes st: "enc_state buf p ht" and sv: "same_views msg0 msg"
    and v: "\<forall>j < length rs. bindE (rr_at msg0 s j) rr_view = Inr (rs ! j)"
    and n: "unat (msg_RR_count msg0 ! s) = length rs"
    and ok: "\<forall>r \<in> set rs. rr_ok r"
    and room: "p + sum_list (map rr_size rs) \<le> length buf" "length buf \<le> 2 ^ 14"
  obtains msg' buf' p' ht' where "encode_section (msg, buf, p, ht) s = Inr (msg', buf', p', ht')"
    and "same_views msg0 msg'"
    and "enc_state buf' p' ht'" and "same_below p buf buf'" and "seq_wire rr_wire buf' p rs p'"
    and "p' \<le> p + sum_list (map rr_size rs)"
proof -
  let ?P = "\<lambda>i (m, b, q, h). same_views msg0 m \<and> enc_state b q h \<and> same_below p buf b \<and> p \<le> q \<and>
      seq_wire rr_wire b p (take i rs) q \<and> q \<le> p + sum_list (map rr_size (take i rs))"
  have step: "\<exists>st'. encode_rr_step s st i = Inr st' \<and> ?P (Suc i) st'"
    if i: "i < length rs" and P: "?P i st" for i st
  proof -
    obtain m b q h where s: "st = (m, b, q, h)" by (cases st) auto
    have "bindE (rr_at m s i) rr_view = Inr (rs ! i)"
      using v i P s by (auto simp: same_views_def)
    then obtain r where r: "rr_at m s i = Inr r" "rr_view r = Inr (rs ! i)"
      by (auto simp: bindE_Inr_iff)
    have "q + rr_size (rs ! i) \<le> p + sum_list (map rr_size (take (Suc i) rs))"
      using P s sum_list_take_Suc [OF i, of rr_size] by simp
    also have "\<dots> \<le> length buf"
      using room(1) sum_list_take_le [of rr_size "Suc i" rs] by simp
    finally have rm: "q + rr_size (rs ! i) \<le> length b" "length b \<le> 2 ^ 14"
      using P s room(2) by (auto simp: same_below_length)
    have e: "enc_state b q h" and sb: "same_below p buf b" and le: "p \<le> q" and sm: "same_views msg0 m"
      and w: "seq_wire rr_wire b p (take i rs) q" using P s by auto
    obtain r' b' n h' where b': "encodeRR r b q h = Inr (r', b', n, h')" "enc_state b' (q + n) h'"
        "same_below q b b'" "rr_wire b' q (rs ! i) (q + n)" "n \<le> rr_size (rs ! i)" "rr_view r' = Inr (rs ! i)"
      using encodeRR_ok [OF e r(2) _ rm] ok i nth_mem by metis
    have "seq_wire rr_wire b' p (take (Suc i) rs) (q + n)"
      using r.seq_snoc [OF w b'(3,4)] i by (simp add: take_Suc_conv_app_nth)
    moreover have "same_below p buf b'" using same_below_trans [OF sb b'(3)] le by simp
    moreover note same_views_store [OF sm r(1), of r']
    ultimately show ?thesis
      using b' s r P sum_list_take_Suc [OF i, of rr_size] by (simp add: encode_rr_step_def)
  qed
  have base: "?P 0 (msg, buf, p, ht)" using st sv by simp
  obtain st' where "foldE (encode_rr_step s) (msg, buf, p, ht) [0..<length rs] = Inr st'"
      "?P (length rs) st'"
    using step by (rule foldE_upt_inv [of ?P, OF base])
  then show ?thesis
    using n same_views_fields(4) [OF sv] by (cases st') (auto simp: encode_section_def intro: that)
qed


section \<open>The whole packet\<close>

text \<open>A packet in a buffer: the header with the counts, then the questions and the sections.\<close>

definition packet_at :: "carr \<Rightarrow> message \<Rightarrow> packet \<Rightarrow> nat \<Rightarrow> bool" where
  "packet_at buf msg pk n \<longleftrightarrow>
     decode_header buf = Inr (newMsg\<lparr>msg_ID := msg_ID msg, msg_flag := msg_flag msg,
       msg_q_count := msg_q_count msg, msg_RR_count := msg_RR_count msg\<rparr>) \<and>
     (\<exists>m. seq_wire ques_wire buf 12 (pk_ques pk) m \<and>
        seq_wire (seq_wire rr_wire) buf m (pk_rrs pk) n)"

lemma message_view_iff:
  "message_view msg = Inr pk \<longleftrightarrow>
     pk_ID pk = msg_ID msg \<and> pk_flag pk = msg_flag msg \<and>
     length (pk_ques pk) = unat (msg_q_count msg) \<and> length (pk_rrs pk) = 3 \<and>
     (\<forall>i < length (pk_ques pk). bindE (ques_at msg i) ques_view = Inr (pk_ques pk ! i)) \<and>
     (\<forall>s < 3. length (pk_rrs pk ! s) = unat (msg_RR_count msg ! s) \<and>
        (\<forall>j < length (pk_rrs pk ! s). bindE (rr_at msg s j) rr_view = Inr (pk_rrs pk ! s ! j)))"
  by (cases pk) (auto simp: message_view_def bindE_Inr_iff mapE_upt_iff)

text \<open>What the loop over the sections has done when it has written \<open>i\<close> of them.\<close>

definition sections_put ::
  "message \<Rightarrow> packet \<Rightarrow> carr \<Rightarrow> nat \<Rightarrow> nat \<Rightarrow> message \<times> carr \<times> nat \<times> names \<Rightarrow> bool" where
  "sections_put msg pk b0 p i = (\<lambda>(m, b, q, h). same_views msg m \<and> enc_state b q h \<and> same_below p b0 b \<and>
     p \<le> q \<and> seq_wire (seq_wire rr_wire) b p (take i (pk_rrs pk)) q \<and>
     q \<le> p + sum_list (map rr_size (concat (take i (pk_rrs pk)))))"

lemma sections_step:
  assumes pv: "message_view msg = Inr pk" and ok: "packet_ok pk" and i: "i < 3"
    and room: "p + sum_list (map rr_size (concat (pk_rrs pk))) \<le> length b0" "length b0 \<le> 2 ^ 14"
    and P: "sections_put msg pk b0 p i (m, b, q, h)"
  shows "\<exists>st'. encode_section (m, b, q, h) i = Inr st' \<and> sections_put msg pk b0 p (Suc i) st'"
proof -
  let ?rs = "\<lambda>i. concat (take i (pk_rrs pk))" and ?rr = "pk_rrs pk ! i"
  have P: "same_views msg m" "enc_state b q h" "same_below p b0 b" "p \<le> q"
      "seq_wire (seq_wire rr_wire) b p (take i (pk_rrs pk)) q" "q \<le> p + sum_list (map rr_size (?rs i))"
    using P by (simp_all add: sections_put_def)
  have v: "\<forall>j < length ?rr. bindE (rr_at msg i j) rr_view = Inr (?rr ! j)" "unat (msg_RR_count msg ! i) = length ?rr"
      "?rr \<in> set (pk_rrs pk)" and take: "take (Suc i) (pk_rrs pk) = take i (pk_rrs pk) @ [?rr]"
    using pv i by (simp_all add: message_view_iff take_Suc_conv_app_nth)
  have "concat (pk_rrs pk) = ?rs (Suc i) @ concat (drop (Suc i) (pk_rrs pk))"
    by (metis append_take_drop_id concat_append)
  then have rm: "q + sum_list (map rr_size ?rr) \<le> length b" "length b \<le> 2 ^ 14"
    using P(6) room same_below_length [OF P(3)] by (simp_all add: take)
  have okr: "\<forall>r \<in> set ?rr. rr_ok r" using v(3) ok by (auto simp: packet_ok_def)
  obtain m' b' q' h' where b': "encode_section (m, b, q, h) i = Inr (m', b', q', h')"
      "same_views msg m'" "enc_state b' q' h'" "same_below q b b'"
      "seq_wire rr_wire b' q ?rr q'" "q' \<le> q + sum_list (map rr_size ?rr)"
    by (rule encode_section_ok [OF P(2,1) v(1,2) okr rm])
  have "sections_put msg pk b0 p (Suc i) (m', b', q', h')"
    using b'(2,3,6) P(4,6) rs.seq_snoc [OF P(5) b'(4,5)] same_below_trans [OF P(3) b'(4)] r.seq_le [OF b'(5)]
    by (simp add: sections_put_def take)
  with b'(1) show ?thesis by blast
qed

lemma encode_sections_ok:
  assumes "message_view msg = Inr pk" and "packet_ok pk" and "enc_state b0 p h"
    and "p + sum_list (map rr_size (concat (pk_rrs pk))) \<le> length b0" and "length b0 \<le> 2 ^ 14"
  obtains m b q h' where "foldE encode_section (msg, b0, p, h) [0..<3] = Inr (m, b, q, h')"
    and "same_views msg m" and "same_below p b0 b" and "seq_wire (seq_wire rr_wire) b p (pk_rrs pk) q"
    and "q \<le> p + sum_list (map rr_size (concat (pk_rrs pk)))"
proof -
  have base: "sections_put msg pk b0 p 0 (msg, b0, p, h)" using assms(3) by (simp add: sections_put_def)
  have step: "\<exists>st'. encode_section st i = Inr st' \<and> sections_put msg pk b0 p (Suc i) st'"
    if "i < 3" and "sections_put msg pk b0 p i st" for i st
    using sections_step [OF assms(1,2) that(1) assms(4,5)] that(2) by (cases st) auto
  obtain st' where st': "foldE encode_section (msg, b0, p, h) [0..<3] = Inr st'" "sections_put msg pk b0 p 3 st'"
    using step by (rule foldE_upt_inv [of "sections_put msg pk b0 p", OF base])
  have "length (pk_rrs pk) = 3" using assms(1) by (simp add: message_view_iff)
  then show ?thesis using st' that by (cases st') (auto simp: sections_put_def)
qed

lemma encode_ok:
  assumes sh: "msg_shape msg" and v: "message_view msg = Inr pk" and ok: "packet_ok pk"
    and room: "packet_size pk \<le> length buf" "length buf \<le> 2 ^ 14"
  obtains msg' buf' n where "encode msg buf = Inr (msg', buf', n)" and "same_views msg msg'"
    and "packet_at buf' msg pk n" and "n \<le> packet_size pk" and "length buf' = length buf"
proof -
  note pv = v [unfolded message_view_iff]
  have r12: "12 \<le> length buf" using room(1) by (simp add: packet_size_def)
  have cnt: "length (msg_RR_count msg) = 3" using sh by (simp add: msg_shape_def)
  obtain b0 where b0: "encodeHeader msg buf 0 = Inr (b0, 12)" "length b0 = length buf"
      "decode_header b0 = Inr (newMsg\<lparr>msg_ID := msg_ID msg, msg_flag := msg_flag msg,
           msg_q_count := msg_q_count msg, msg_RR_count := msg_RR_count msg\<rparr>)"
    by (rule encodeHeader_ok [OF r12 cnt])
  have rq: "12 + sum_list (map ques_size (pk_ques pk)) \<le> length b0" "length b0 \<le> 2 ^ 14"
    using room b0(2) by (simp_all add: packet_size_def)
  have vq: "\<forall>i < length (pk_ques pk). bindE (ques_at msg i) ques_view = Inr (pk_ques pk ! i)"
    and gq: "\<forall>q \<in> set (pk_ques pk). good_name (qv_name q)"
    using pv ok by (auto simp: packet_ok_def)
  obtain b1 p1 h1 where b1: "foldE (encode_ques_step msg) (b0, 12, NewHashTab) [0..<length (pk_ques pk)]
        = Inr (b1, p1, h1)"
      "enc_state b1 p1 h1" "same_below 12 b0 b1" "seq_wire ques_wire b1 12 (pk_ques pk) p1"
      "p1 \<le> 12 + sum_list (map ques_size (pk_ques pk))"
    by (rule encode_ques_ok [OF enc_state_NewHashTab vq gq rq])
  have rr: "p1 + sum_list (map rr_size (concat (pk_rrs pk))) \<le> length b1" "length b1 \<le> 2 ^ 14"
    using room b0(2) b1(5) same_below_length [OF b1(3)] by (simp_all add: packet_size_def)
  obtain m b q h where e: "foldE encode_section (msg, b1, p1, h1) [0..<3] = Inr (m, b, q, h)" "same_views msg m"
      "same_below p1 b1 b" "seq_wire (seq_wire rr_wire) b p1 (pk_rrs pk) q"
      "q \<le> p1 + sum_list (map rr_size (concat (pk_rrs pk)))"
    by (rule encode_sections_ok [OF v ok b1(2) rr])
  have s12: "same_below 12 b0 b" using same_below_trans [OF b1(3) e(3)] q.seq_le [OF b1(4)] by simp
  show ?thesis
  proof (rule that)
    show "encode msg buf = Inr (m, b, q)" using b0(1) b1(1) e(1) pv by (simp add: encode_def)
    show "packet_at b msg pk q"
      unfolding packet_at_def using decode_header_same [OF s12] b0(3) q.seq_same [OF b1(4) e(3)] e(4) by metis
    show "q \<le> packet_size pk" using e(5) b1(5) by (simp add: packet_size_def)
    show "length b = length buf" using same_below_length [OF s12] b0(2) by simp
  qed (rule e(2))
qed

section \<open>Decoding\<close>

lemma decodeName_fresh:
  assumes "name_at buf p s e" and "good_name s"
  obtains a where "decodeName buf p (uninit MAX_LEN) 0 = Some (Inr (e, a))" and "cstr a = Inr s"
proof
  have "length s < MAX_LEN" "is_cstring s"
    using assms(2) by (auto simp: good_name_def good_key_def HASH_KEY_MAX_LEN_def MAX_LEN_def)
  then show "decodeName buf p (uninit MAX_LEN) 0 =
        Some (Inr (e, blit (uninit MAX_LEN) 0 (map Some (s @ [0]))))"
    and "cstr (blit (uninit MAX_LEN) 0 (map Some (s @ [0]))) = Inr s"
    by (simp_all add: decodeName_name_at [OF assms(1)] uninit_def blit_cstr del: map_append)
qed

lemma decode_rr_ok:
  assumes "rr_wire buf p x e" and "rr_ok x"
  obtains r where "decode_rr buf p = Some (Inr (r, e))" and "rr_view r = Inr x"
proof -
  obtain m len where m: "name_at buf p (rv_name x) m" "rd16 buf m = Inr (rv_type x)"
      "rd16 buf (m + 2) = Inr (rv_class x)" "rd32 buf (m + 4) = Inr (rv_TTL x)"
      "rd16 buf (m + 8) = Inr len" "e = m + 10 + unat len"
      "case rv_data x of
         Rd_Name s \<Rightarrow> name_at buf (m + 10) s e
       | Rd_Bytes bs \<Rightarrow> unat len = length bs \<and> rd_block buf (m + 10) (length bs) = Inr (map Some bs)"
    using assms(1) by (auto simp: rr_wire_def)
  have g: "good_name (rv_name x)" using assms(2) by (simp add: rr_ok_def)
  obtain a where a: "decodeName buf p (uninit MAX_LEN) 0 = Some (Inr (m, a))" "cstr a = Inr (rv_name x)"
    by (rule decodeName_fresh [OF m(1) g])
  show ?thesis
  proof (cases "rv_data x")
    case (Rd_Name s)
    then have s: "name_at buf (m + 10) s e" "good_name s" "rv_type x = TYPE_CNAME \<or> rv_type x = TYPE_NS"
      using m(7) assms(2) by (auto simp: rr_ok_def)
    obtain b where b: "decodeName buf (m + 10) (uninit MAX_LEN) 0 = Some (Inr (e, b))" "cstr b = Inr s"
      by (rule decodeName_fresh [OF s(1,2)])
    let ?r = "\<lparr>rr_name = a, rr_type = rv_type x, rr_class = rv_class x, rr_TTL = rv_TTL x,
        rr_data_length = len, rr_data = None, rr_data_type = STRING_TYPE, rr_string_data = b\<rparr>"
    have "decode_rr buf p = Some (Inr (?r, e))"
      using a(1) m(2-6) b(1) s(3) by (auto simp: decode_rr_def)
    moreover have "rr_view ?r = Inr x" using a(2) b(2) Rd_Name by (simp add: rr_view_def data_view_def)
    ultimately show ?thesis by (rule that)
  next
    case (Rd_Bytes bs)
    then have s: "unat len = length bs" "rd_block buf (m + 10) (length bs) = Inr (map Some bs)"
        "\<not> (rv_type x = TYPE_CNAME \<or> rv_type x = TYPE_NS)"
      using m(7) assms(2) by (auto simp: rr_ok_def)
    let ?r = "\<lparr>rr_name = a, rr_type = rv_type x, rr_class = rv_class x, rr_TTL = rv_TTL x,
        rr_data_length = len, rr_data = Some (map Some bs @ uninit 2), rr_data_type = BINARY_TYPE,
        rr_string_data = uninit MAX_LEN\<rparr>"
    have "decode_rr buf p = Some (Inr (?r, e))"
      using a(1) m(2-6) s by (simp add: decode_rr_def)
    moreover have "rd_block (map Some bs @ uninit 2) 0 (unat len) = Inr (map Some bs)"
      using s(1) by (simp add: rd_block_def)
    then have "rr_view ?r = Inr x"
      using a(2) Rd_Bytes by (simp add: rr_view_def data_view_def init_bytes bindE_Inr_iff)
    ultimately show ?thesis by (rule that)
  qed
qed


lemma seq_wire_drop:
  assumes "seq_wire W buf p (drop i xs) e" and "i < length xs"
  obtains m where "W buf p (xs ! i) m" and "seq_wire W buf m (drop (Suc i) xs) e"
  using assms by (auto simp: Cons_nth_drop_Suc [symmetric])

lemma ques_at_store:
  "i < length (msg_ques m) \<Longrightarrow>
     ques_at (m\<lparr>msg_ques := (msg_ques m)[i := Some q]\<rparr>) k = (if k = i then Inr q else ques_at m k)"
  by (auto simp: ques_at_def)

text \<open>What the loops of \<open>decode\<close> leave alone.\<close>

lemma decode_ques_ok:
  assumes w: "seq_wire ques_wire buf p qs e" and good: "\<forall>q \<in> set qs. good_name (qv_name q)"
    and len: "length (msg_ques m0) = MAX_SIZE" "length qs \<le> MAX_SIZE"
  obtains m where "foldR (decode_ques_step buf) (m0, p) [0..<length qs] = Some (Inr (m, e))"
    and "m = m0\<lparr>msg_ques := msg_ques m\<rparr>" and "length (msg_ques m) = MAX_SIZE"
    and "\<forall>k < length qs. bindE (ques_at m k) ques_view = Inr (qs ! k)"
proof -
  let ?P = "\<lambda>i (m, p). m = m0\<lparr>msg_ques := msg_ques m\<rparr> \<and> length (msg_ques m) = MAX_SIZE \<and>
      seq_wire ques_wire buf p (drop i qs) e \<and>
      (\<forall>k < i. bindE (ques_at m k) ques_view = Inr (qs ! k))"
  have step: "\<exists>st'. decode_ques_step buf st i = Some (Inr st') \<and> ?P (Suc i) st'"
    if i: "i < length qs" and P: "?P i st" for i st
  proof -
    obtain m p where s: "st = (m, p)" by (cases st)
    obtain e' where e': "ques_wire buf p (qs ! i) e'" "seq_wire ques_wire buf e' (drop (Suc i) qs) e"
      using P s i by (auto elim: seq_wire_drop)
    obtain k where k: "name_at buf p (qv_name (qs ! i)) k" "rd16 buf k = Inr (qv_type (qs ! i))"
        "rd16 buf (k + 2) = Inr (qv_class (qs ! i))" "e' = k + 4"
      using e'(1) by (auto simp: ques_wire_def)
    have g: "good_name (qv_name (qs ! i))" using good i by simp
    obtain a where a: "decodeName buf p (uninit MAX_LEN) 0 = Some (Inr (k, a))"
        "cstr a = Inr (qv_name (qs ! i))"
      by (rule decodeName_fresh [OF k(1) g])
    let ?q = "\<lparr>q_name = a, q_type = qv_type (qs ! i), q_class = qv_class (qs ! i)\<rparr>"
    let ?m = "m\<lparr>msg_ques := (msg_ques m)[i := Some ?q]\<rparr>"
    have il: "i < length (msg_ques m)" using i len P s by simp
    have step: "decode_ques_step buf (m, p) i = Some (Inr (?m, e'))"
      using il a(1) k by (simp add: decode_ques_step_def)
    have "ques_view ?q = Inr (qs ! i)" using a(2) by (simp add: ques_view_def)
    then have "\<forall>k < Suc i. bindE (ques_at ?m k) ques_view = Inr (qs ! k)"
      using P s ques_at_store [OF il, of ?q] by (auto simp: less_Suc_eq)
    moreover have "?m = m0\<lparr>msg_ques := msg_ques ?m\<rparr>"
    proof -
      have "m = m0\<lparr>msg_ques := msg_ques m\<rparr>" using P s by simp
      then show ?thesis by (metis (no_types, lifting) message.surjective message.update_convs(5))
    qed
    ultimately show ?thesis using step s e'(2) P by simp
  qed
  have base: "?P 0 (m0, p)" using w len by simp
  obtain st' where "foldR (decode_ques_step buf) (m0, p) [0..<length qs] = Some (Inr st')"
      "?P (length qs) st'"
    using step by (rule foldR_upt_inv [of ?P, OF base])
  then show ?thesis by (cases st') (auto intro: that)
qed

definition rr_shape :: "message \<Rightarrow> bool" where
  "rr_shape m \<longleftrightarrow> length (msg_resourse_record m) = 3 \<and>
     (\<forall>s < 3. length (msg_resourse_record m ! s) = MAX_SIZE)"

lemma rr_shape_store:
  "rr_shape m \<Longrightarrow> j < MAX_SIZE \<Longrightarrow> s < 3 \<Longrightarrow>
     rr_shape (m\<lparr>msg_resourse_record := (msg_resourse_record m)
       [s := (msg_resourse_record m ! s)[j := Some r]]\<rparr>)"
  by (auto simp: rr_shape_def nth_list_update)

lemma decode_section_ok:
  assumes w: "seq_wire rr_wire buf p rs e" and ok: "\<forall>r \<in> set rs. rr_ok r"
    and sh: "rr_shape m0" and s: "s < 3" and len: "length rs \<le> MAX_SIZE"
    and cnt: "unat (msg_RR_count m0 ! s) = length rs"
  obtains m where "decode_section buf (m0, p) s = Some (Inr (m, e))"
    and "m = m0\<lparr>msg_resourse_record := msg_resourse_record m\<rparr>" and "rr_shape m"
    and "\<forall>j < length rs. bindE (rr_at m s j) rr_view = Inr (rs ! j)"
    and "\<forall>t j. t \<noteq> s \<longrightarrow> rr_at m t j = rr_at m0 t j"
proof -
  let ?P = "\<lambda>i (m, p). m = m0\<lparr>msg_resourse_record := msg_resourse_record m\<rparr> \<and> rr_shape m \<and>
      seq_wire rr_wire buf p (drop i rs) e \<and>
      (\<forall>j < i. bindE (rr_at m s j) rr_view = Inr (rs ! j)) \<and>
      (\<forall>t j. t \<noteq> s \<longrightarrow> rr_at m t j = rr_at m0 t j)"
  have step: "\<exists>st'. decode_rr_step buf s st i = Some (Inr st') \<and> ?P (Suc i) st'"
    if i: "i < length rs" and P: "?P i st" for i st
  proof -
    obtain m p where st: "st = (m, p)" by (cases st)
    obtain e' where e': "rr_wire buf p (rs ! i) e'" "seq_wire rr_wire buf e' (drop (Suc i) rs) e"
      using P st i by (auto elim: seq_wire_drop)
    have g: "rr_ok (rs ! i)" using ok i by simp
    obtain r where r: "decode_rr buf p = Some (Inr (r, e'))" "rr_view r = Inr (rs ! i)"
      by (rule decode_rr_ok [OF e'(1) g])
    let ?m = "m\<lparr>msg_resourse_record := (msg_resourse_record m)
       [s := (msg_resourse_record m ! s)[i := Some r]]\<rparr>"
    have m: "rr_shape m" using P st by simp
    have b: "s < length (msg_resourse_record m)" "i < length (msg_resourse_record m ! s)" "i < MAX_SIZE"
      using m s i len by (auto simp: rr_shape_def)
    have step: "decode_rr_step buf s (m, p) i = Some (Inr (?m, e'))"
      using b r(1) by (simp add: decode_rr_step_def)
    note at = rr_at_store [OF b(1,2), of r]
    have "\<forall>j < Suc i. bindE (rr_at ?m s j) rr_view = Inr (rs ! j)"
      using P st at r(2) by (auto simp: less_Suc_eq)
    moreover have "\<forall>t j. t \<noteq> s \<longrightarrow> rr_at ?m t j = rr_at m0 t j"
      using P st at by auto
    moreover have "?m = m0\<lparr>msg_resourse_record := msg_resourse_record ?m\<rparr>"
    proof -
      have "m = m0\<lparr>msg_resourse_record := msg_resourse_record m\<rparr>" using P st by simp
      then show ?thesis by (metis (no_types, lifting) message.surjective message.update_convs(6))
    qed
    moreover note rr_shape_store [OF m b(3) s, of r]
    ultimately show ?thesis using step st e'(2) by simp
  qed
  have base: "?P 0 (m0, p)" using w sh by simp
  obtain st' where "foldR (decode_rr_step buf s) (m0, p) [0..<length rs] = Some (Inr st')"
      "?P (length rs) st'"
    using step by (rule foldR_upt_inv [of ?P, OF base])
  then show ?thesis using cnt by (cases st') (auto simp: decode_section_def intro: that)
qed


lemma newMsg_shape: "msg_shape newMsg" "rr_shape newMsg" "length (msg_ques newMsg) = MAX_SIZE"
  by (auto simp: msg_shape_def rr_shape_def newMsg_def)

text \<open>A message that can be viewed uses at most the 32 slots of each table.\<close>

lemma message_view_bounds:
  assumes "msg_shape msg" and "message_view msg = Inr pk"
  shows "length (pk_ques pk) \<le> MAX_SIZE" and "s < 3 \<Longrightarrow> length (pk_rrs pk ! s) \<le> MAX_SIZE"
proof -
  note pv = assms(2) [unfolded message_view_iff]
  show "length (pk_ques pk) \<le> MAX_SIZE"
  proof (rule ccontr)
    assume "\<not> ?thesis"
    then have "bindE (ques_at msg MAX_SIZE) ques_view = Inr (pk_ques pk ! MAX_SIZE)" using pv by simp
    then show False using assms(1) by (auto simp: ques_at_def msg_shape_def)
  qed
  assume s: "s < 3"
  show "length (pk_rrs pk ! s) \<le> MAX_SIZE"
  proof (rule ccontr)
    assume "\<not> ?thesis"
    then have "bindE (rr_at msg s MAX_SIZE) rr_view = Inr (pk_rrs pk ! s ! MAX_SIZE)" using pv s by simp
    then show False using assms(1) s by (auto simp: rr_at_def msg_shape_def)
  qed
qed

text \<open>What the loop over the sections has read when it has read \<open>i\<close> of them.\<close>

definition sections_read :: "message \<Rightarrow> packet \<Rightarrow> carr \<Rightarrow> nat \<Rightarrow> nat \<Rightarrow> message \<times> nat \<Rightarrow> bool" where
  "sections_read m1 pk buf n i = (\<lambda>(m, p). m = m1\<lparr>msg_resourse_record := msg_resourse_record m\<rparr> \<and> rr_shape m \<and>
     seq_wire (seq_wire rr_wire) buf p (drop i (pk_rrs pk)) n \<and>
     (\<forall>s < i. \<forall>j < length (pk_rrs pk ! s). bindE (rr_at m s j) rr_view = Inr (pk_rrs pk ! s ! j)))"

lemma decode_sections_step:
  assumes counts: "\<forall>s < 3. unat (msg_RR_count m1 ! s) = length (pk_rrs pk ! s) \<and> length (pk_rrs pk ! s) \<le> MAX_SIZE"
    and l3: "length (pk_rrs pk) = 3" and ok: "packet_ok pk" and i: "i < 3"
    and P: "sections_read m1 pk buf n i (m, p)"
  shows "\<exists>st'. decode_section buf (m, p) i = Some (Inr st') \<and> sections_read m1 pk buf n (Suc i) st'"
proof -
  have P: "m = m1\<lparr>msg_resourse_record := msg_resourse_record m\<rparr>" "rr_shape m"
      "seq_wire (seq_wire rr_wire) buf p (drop i (pk_rrs pk)) n"
      "\<forall>s < i. \<forall>j < length (pk_rrs pk ! s). bindE (rr_at m s j) rr_view = Inr (pk_rrs pk ! s ! j)"
    using P by (simp_all add: sections_read_def)
  obtain e where e: "seq_wire rr_wire buf p (pk_rrs pk ! i) e"
      "seq_wire (seq_wire rr_wire) buf e (drop (Suc i) (pk_rrs pk)) n"
    using P(3) i l3 by (auto elim: seq_wire_drop)
  have okr: "\<forall>r \<in> set (pk_rrs pk ! i). rr_ok r" using ok i l3 by (auto simp: packet_ok_def)
  have "msg_RR_count m = msg_RR_count m1" by (subst P(1)) simp
  then have cnt: "unat (msg_RR_count m ! i) = length (pk_rrs pk ! i)" "length (pk_rrs pk ! i) \<le> MAX_SIZE"
    using counts i by simp_all
  obtain m' where m': "decode_section buf (m, p) i = Some (Inr (m', e))"
      "m' = m\<lparr>msg_resourse_record := msg_resourse_record m'\<rparr>" "rr_shape m'"
      "\<forall>j < length (pk_rrs pk ! i). bindE (rr_at m' i j) rr_view = Inr (pk_rrs pk ! i ! j)"
      "\<forall>t j. t \<noteq> i \<longrightarrow> rr_at m' t j = rr_at m t j"
    by (rule decode_section_ok [OF e(1) okr P(2) i cnt(2,1)])
  have "m' = m1\<lparr>msg_resourse_record := msg_resourse_record m'\<rparr>"
    using m'(2) P(1) by (metis (no_types, lifting) message.surjective message.update_convs(6))
  then show ?thesis using m' e(2) P(4) by (auto simp: sections_read_def less_Suc_eq)
qed

lemma decode_sections_ok:
  assumes "\<forall>s < 3. unat (msg_RR_count m1 ! s) = length (pk_rrs pk ! s) \<and> length (pk_rrs pk ! s) \<le> MAX_SIZE"
    and "length (pk_rrs pk) = 3" and "packet_ok pk" and "rr_shape m1"
    and "seq_wire (seq_wire rr_wire) buf e (pk_rrs pk) n"
  obtains m q where "foldR (decode_section buf) (m1, e) [0..<3] = Some (Inr (m, q))"
    and "m = m1\<lparr>msg_resourse_record := msg_resourse_record m\<rparr>" and "rr_shape m"
    and "\<forall>s < 3. \<forall>j < length (pk_rrs pk ! s). bindE (rr_at m s j) rr_view = Inr (pk_rrs pk ! s ! j)"
proof -
  have base: "sections_read m1 pk buf n 0 (m1, e)" using assms(4,5) by (simp add: sections_read_def)
  have step: "\<exists>st'. decode_section buf st i = Some (Inr st') \<and> sections_read m1 pk buf n (Suc i) st'"
    if "i < 3" and "sections_read m1 pk buf n i st" for i st
    using decode_sections_step [OF assms(1-3) that(1)] that(2) by (cases st) auto
  obtain st' where "foldR (decode_section buf) (m1, e) [0..<3] = Some (Inr st')" "sections_read m1 pk buf n 3 st'"
    using step by (rule foldR_upt_inv [of "sections_read m1 pk buf n", OF base])
  then show ?thesis using that by (cases st') (auto simp: sections_read_def)
qed

lemma decode_ok:
  assumes at: "packet_at buf msg pk n" and v: "message_view msg = Inr pk" and sh: "msg_shape msg"
    and ok: "packet_ok pk"
  obtains m where "decode buf = Some (Inr m)" and "message_view m = Inr pk" and "msg_shape m"
proof -
  note pv = v [unfolded message_view_iff]
  let ?h = "newMsg\<lparr>msg_ID := msg_ID msg, msg_flag := msg_flag msg,
       msg_q_count := msg_q_count msg, msg_RR_count := msg_RR_count msg\<rparr>"
  obtain e where hd: "decode_header buf = Inr ?h" and wq: "seq_wire ques_wire buf 12 (pk_ques pk) e"
    and wr: "seq_wire (seq_wire rr_wire) buf e (pk_rrs pk) n"
    using at by (auto simp: packet_at_def)
  have gq: "\<forall>q \<in> set (pk_ques pk). good_name (qv_name q)" using ok by (simp add: packet_ok_def)
  have lh: "length (msg_ques ?h) = MAX_SIZE" "length (pk_ques pk) \<le> MAX_SIZE"
    using message_view_bounds(1) [OF sh v] newMsg_shape(3) by simp_all
  obtain m1 where m1: "foldR (decode_ques_step buf) (?h, 12) [0..<length (pk_ques pk)] = Some (Inr (m1, e))"
      "m1 = ?h\<lparr>msg_ques := msg_ques m1\<rparr>" "length (msg_ques m1) = MAX_SIZE"
      "\<forall>k < length (pk_ques pk). bindE (ques_at m1 k) ques_view = Inr (pk_ques pk ! k)"
    by (rule decode_ques_ok [OF wq gq lh])
  have f1: "msg_resourse_record m1 = msg_resourse_record newMsg" "msg_RR_count m1 = msg_RR_count msg"
      "msg_ID m1 = msg_ID msg" "msg_flag m1 = msg_flag msg" "msg_q_count m1 = msg_q_count msg"
    by (subst m1(2), simp)+
  have c: "\<forall>s < 3. unat (msg_RR_count m1 ! s) = length (pk_rrs pk ! s) \<and> length (pk_rrs pk ! s) \<le> MAX_SIZE"
      "length (pk_rrs pk) = 3"
    using pv f1(2) message_view_bounds(2) [OF sh v] by simp_all
  have sh1: "rr_shape m1" using f1(1) newMsg_shape(2) by (simp add: rr_shape_def)
  obtain m q where m: "foldR (decode_section buf) (m1, e) [0..<3] = Some (Inr (m, q))"
      "m = m1\<lparr>msg_resourse_record := msg_resourse_record m\<rparr>" "rr_shape m"
      "\<forall>s < 3. \<forall>j < length (pk_rrs pk ! s). bindE (rr_at m s j) rr_view = Inr (pk_rrs pk ! s ! j)"
    by (rule decode_sections_ok [OF c ok sh1 wr])
  have f: "msg_RR_count m = msg_RR_count msg" "msg_ID m = msg_ID msg" "msg_flag m = msg_flag msg"
      "msg_q_count m = msg_q_count msg" "msg_ques m = msg_ques m1"
    by (subst m(2), simp add: f1)+
  have "decode buf = Some (Inr m)" using hd m1(1) m(1) pv by (simp add: decode_def)
  moreover have "ques_at m = ques_at m1" using f(5) by (simp add: ques_at_def fun_eq_iff)
  then have "message_view m = Inr pk" using pv m1(4) f m(4) by (simp add: message_view_iff)
  moreover have "msg_shape m" using m(3) f(1,5) m1(3) sh by (simp add: msg_shape_def rr_shape_def)
  ultimately show ?thesis by (rule that)
qed

section \<open>Properties\<close>

text \<open>
  C32. Encoding a message and decoding the packet gives the message back: for every message of
  at most 32 questions and 32 records per section whose names have non-empty labels and fewer
  than 50 bytes, whose CNAME and NS records carry a name and whose other records carry bytes,
  and for every buffer that holds the packet without compression, \<open>encode\<close> succeeds within
  that size, and \<open>decode\<close> terminates on its result with a message that stands for the same
  header, questions and records, compressed names included.
\<close>
theorem encode_decode_roundtrip:
  assumes "msg_shape msg" and "message_view msg = Inr pk" and "packet_ok pk"
    and "packet_size pk \<le> length buf" and "length buf \<le> 2 ^ 14"
  shows "\<exists>msg' buf' n msg''. encode msg buf = Inr (msg', buf', n) \<and> n \<le> packet_size pk \<and>
     message_view msg' = Inr pk \<and> decode buf' = Some (Inr msg'') \<and> message_view msg'' = Inr pk"
proof -
  obtain msg' buf' n where e: "encode msg buf = Inr (msg', buf', n)" "same_views msg msg'"
      "packet_at buf' msg pk n" "n \<le> packet_size pk"
    by (rule encode_ok [OF assms])
  obtain m where "decode buf' = Some (Inr m)" "message_view m = Inr pk"
    by (rule decode_ok [OF e(3) assms(2,1,3)])
  then show ?thesis using e(1,2,4) same_views_view [OF e(2)] assms(2) by auto
qed

definition query_example :: message where
  "query_example = newMsg\<lparr>msg_ID := 0x1234, msg_flag := 0x80, msg_q_count := 1,
     msg_ques := (msg_ques newMsg)[0 := Some \<lparr>q_name = map Some (bytes ''a.cn'' @ 0 # replicate 251 0),
       q_type = TYPE_A, q_class = CLASS_IN\<rparr>]\<rparr>"

definition query_packet :: packet where
  "query_packet = \<lparr>pk_ID = 0x1234, pk_flag = 0x80,
     pk_ques = [\<lparr>qv_name = bytes ''a.cn'', qv_type = TYPE_A, qv_class = CLASS_IN\<rparr>], pk_rrs = [[], [], []]\<rparr>"

lemma query_example_view: "message_view query_example = Inr query_packet"
  by (simp add: message_view_def query_example_def query_packet_def newMsg_def upt_rec ques_at_def MAX_SIZE_def
      ques_view_def bytes_def)

theorem encode_decode_roundtrip_witness:
  "\<exists>msg' buf' n msg''. encode query_example (uninit 1024) = Inr (msg', buf', n) \<and>
     decode buf' = Some (Inr msg'') \<and> message_view msg'' = message_view query_example"
proof -
  have "msg_shape query_example"
    by (simp add: msg_shape_def query_example_def newMsg_def)
  moreover have "packet_ok query_packet"
    by (simp add: packet_ok_def query_packet_def good_name_def good_key_def HASH_KEY_MAX_LEN_def bytes_def is_cstring_def)
  moreover have "packet_size query_packet \<le> length (uninit 1024)" "length (uninit 1024) \<le> 2 ^ 14"
    by (simp_all add: packet_size_def query_packet_def ques_size_def bytes_def uninit_def)
  ultimately show ?thesis
    using encode_decode_roundtrip [OF _ query_example_view] query_example_view by metis
qed

text \<open>
  Header flags on the wire (RFC 1035, bit 15 first): the reversed order of \<open>flag\<close> and the two
  calls of \<open>reverse8\<close> cancel, so a response with \<open>setResp\<close>, \<open>setFlag RA\<close> and \<open>setRCODE r\<close> has
  QR at bit 15, RA at bit 7 and \<open>r\<close> in the low bits, and all other bits as before.
\<close>
theorem header_flags_on_wire:
  assumes "12 \<le> length buf" and "length (msg_RR_count msg) = 3"
  shows "\<exists>b1 b2 w. encodeHeader msg buf 0 = Inr (b1, 12) \<and> rd16 b1 2 = Inr w \<and>
     encodeHeader (setRCODE (setFlag (setResp msg) FLAG_RA) r) buf 0 = Inr (b2, 12) \<and>
     rd16 b2 2 = Inr (or (or (or w 0x8000) 0x80) (and r 0xff))"
proof -
  let ?m = "setRCODE (setFlag (setResp msg) FLAG_RA) r"
  have f: "msg_flag ?m = or (or (or (msg_flag msg) 1) (push_bit 8 1)) (push_bit 8 (ucast (reverse8 (ucast r))))"
    by (simp add: setRCODE_def setFlag_def setResp_def FLAG_RA_def Let_def)
  have c: "msg_RR_count ?m = msg_RR_count msg"
    by (simp add: setRCODE_def setFlag_def setResp_def Let_def)
  have c1: "bit (0x8000 :: 16 word) n \<longleftrightarrow> n = 15" for n
    using bit_push_bit_iff [of 15 "1 :: 16 word" n] by (auto simp: bit_1_iff)
  have c2: "bit (0x80 :: 16 word) n \<longleftrightarrow> n = 7" for n
    using bit_push_bit_iff [of 7 "1 :: 16 word" n] by (auto simp: bit_1_iff)
  have "wire_flags (msg_flag ?m) = or (or (or (wire_flags (msg_flag msg)) 0x8000) 0x80) (and r 0xff)"
  proof (rule bit_word_eqI)
    fix n assume n: "n < LENGTH(16)"
    have "bit (wire_flags (msg_flag ?m)) n \<longleftrightarrow>
        bit (msg_flag msg) (15 - n) \<or> n = 15 \<or> n = 7 \<or> (n < 8 \<and> bit r n)"
      using n unfolding bit_wire_flags f
      by (simp only: bit_or_iff bit_push_bit_iff bit_unsigned_iff bit_1_iff)
        (cases "n < 8", auto simp: bit_simps bit_reverse8)
    also have "\<dots> \<longleftrightarrow> bit (or (or (or (wire_flags (msg_flag msg)) 0x8000) 0x80) (and r (mask 8))) n"
      using n by (simp only: bit_or_iff bit_and_iff c1 c2 bit_wire_flags bit_mask_iff) auto
    finally show "bit (wire_flags (msg_flag ?m)) n =
        bit (or (or (or (wire_flags (msg_flag msg)) 0x8000) 0x80) (and r 0xff)) n"
      by (simp only: byte_mask)
  qed
  moreover obtain b1 where "encodeHeader msg buf 0 = Inr (b1, 12)" "rd16 b1 2 = Inr (wire_flags (msg_flag msg))"
    by (rule encodeHeader_ok [OF assms])
  moreover have c': "length (msg_RR_count ?m) = 3" using assms(2) c by simp
  then obtain b2 where "encodeHeader ?m buf 0 = Inr (b2, 12)" "rd16 b2 2 = Inr (wire_flags (msg_flag ?m))"
    using encodeHeader_ok [OF assms(1)] by metis
  ultimately show ?thesis by metis
qed

theorem header_flags_on_wire_witness:
  "\<exists>b w. encodeHeader (setRCODE (setFlag (setResp newMsg) FLAG_RA) RCODE_NAME_ERR) (uninit 1024) 0 = Inr (b, 12) \<and>
     rd16 b 2 = Inr w \<and> bit w 0 \<and> bit w 1 \<and> bit w 7 \<and> bit w 15"
proof -
  obtain b w where "encodeHeader (setRCODE (setFlag (setResp newMsg) FLAG_RA) RCODE_NAME_ERR) (uninit 1024) 0 = Inr (b, 12)"
      "rd16 b 2 = Inr (or (or (or w 0x8000) 0x80) (and RCODE_NAME_ERR 0xff))"
    using header_flags_on_wire [of "uninit 1024" newMsg RCODE_NAME_ERR] by (auto simp: newMsg_def)
  then show ?thesis by (auto simp: RCODE_NAME_ERR_def bit_or_iff)
qed

text \<open>
  The opcode of \<open>setOpcode\<close> is sent with its four bits reversed: QUERY (0) is right, but
  IQUERY (1) is sent as opcode 8 and STATUS (2) as opcode 4.
\<close>
theorem opcode_reversed_on_wire:
  assumes "12 \<le> length buf" and "length (msg_RR_count msg) = 3" and "op < 16" and "k < 4"
  shows "\<exists>b w. encodeHeader (setOpcode msg op) buf 0 = Inr (b, 12) \<and> rd16 b 2 = Inr w \<and>
     bit (and (drop_bit 11 w) 0xf) k = bit op (3 - k)"
proof -
  let ?m = "setOpcode msg op"
  have f: "msg_flag ?m = or (and (msg_flag msg) (not (push_bit 1 0xf))) (push_bit 1 op)"
    by (simp add: setOpcode_def Let_def)
  have m: "(0xf :: 16 word) = mask 4" by (simp add: mask_eq_exp_minus_1)
  have "length (msg_RR_count ?m) = 3" using assms(2) by (simp add: setOpcode_def Let_def)
  then obtain b where b: "encodeHeader ?m buf 0 = Inr (b, 12)" "rd16 b 2 = Inr (wire_flags (msg_flag ?m))"
    using encodeHeader_ok [OF assms(1)] by metis
  have "bit (and (drop_bit 11 (wire_flags (msg_flag ?m))) (mask 4)) k \<longleftrightarrow> bit (msg_flag ?m) (4 - k)"
    using assms(4) by (simp add: bit_and_iff bit_drop_bit_eq bit_wire_flags bit_mask_iff)
  also have "\<dots> \<longleftrightarrow> bit op (3 - k)"
    unfolding f m using assms(4)
    by (simp only: bit_or_iff bit_and_iff bit_not_iff bit_push_bit_iff bit_mask_iff) auto
  finally show ?thesis using b m by auto
qed

theorem opcode_reversed_on_wire_witness:
  "\<exists>b w. encodeHeader (setOpcode newMsg 1) (uninit 1024) 0 = Inr (b, 12) \<and> rd16 b 2 = Inr w \<and>
     bit (and (drop_bit 11 w) 0xf) 3"
  using opcode_reversed_on_wire [of "uninit 1024" newMsg 1 3] by (simp add: newMsg_def)

end
