(* ===== verification/Message_Hostile.thy ===== *)
theory Message_Hostile
  imports Message_Codec
begin

text \<open>
  What \<open>decode\<close> does with packets nobody encoded with \<open>encode\<close>: the packets on
  which \<open>decodeName\<close> never returns or leaves the array of its caller, and what a successful
  \<open>decode\<close> guarantees. The relay decodes every datagram it receives from anyone.
\<close>

section \<open>Runs of the name decoder\<close>

lemma bindR_not_None: "m \<noteq> None \<Longrightarrow> (\<And>x. f x \<noteq> None) \<Longrightarrow> bindR m f \<noteq> None"
  by (auto simp: bindR_def split: sum.splits)

lemma foldR_not_None: "(\<And>s x. f s x \<noteq> None) \<Longrightarrow> foldR f s xs \<noteq> None"
proof (induction xs arbitrary: s)
  case (Cons x xs)
  have "foldR f s xs \<noteq> None" for s using Cons by blast
  then show ?case unfolding foldR.simps by (rule bindR_not_None [OF Cons.prems])
qed simp

lemma bindR_map_Some:
  "bindR m (\<lambda>x. Some (Inr (g x))) = Some r \<Longrightarrow> \<exists>r'. m = Some r' \<and> r = bindE r' (\<lambda>x. Inr (g x))"
  by (cases m) (auto simp: bindR_def split: sum.splits)

text \<open>Induction over the pointers that a run of \<open>decodeName\<close> follows.\<close>

lemma decodeName_induct [consumes 1, case_names no_byte root labels_fault labels_end labels_jump]:
  assumes run: "decodeName buf off nm w = Some r"
    and no_byte: "\<And>off nm w e. rd8 buf off = Inl e \<Longrightarrow> P off nm w (Inl e)"
    and root: "\<And>off nm w. rd8 buf off = Inr 0 \<Longrightarrow>
      P off nm w (bindE (wr8 nm w 0) (\<lambda>a. Inr (off + 1, a)))"
    and labels_fault: "\<And>off nm w n e. rd8 buf off = Inr n \<Longrightarrow> n \<noteq> 0 \<Longrightarrow>
      decode_labels buf off (off + 1) nm w = Inl e \<Longrightarrow> P off nm w (Inl e)"
    and labels_end: "\<And>off nm w n q a. rd8 buf off = Inr n \<Longrightarrow> n \<noteq> 0 \<Longrightarrow>
      decode_labels buf off (off + 1) nm w = Inr (Name_End q a) \<Longrightarrow> P off nm w (Inr (q, a))"
    and labels_jump: "\<And>off nm w n t nx a w' r. rd8 buf off = Inr n \<Longrightarrow> n \<noteq> 0 \<Longrightarrow>
      decode_labels buf off (off + 1) nm w = Inr (Name_Jump t nx a w') \<Longrightarrow>
      P t a w' r \<Longrightarrow> P off nm w (bindE r (\<lambda>x. Inr (nx, snd x)))"
  shows "P off nm w r"
proof -
  have "b = buf \<longrightarrow> P off nm w r" if "decodeName b off nm w = Some r" for b off nm w r
  proof (rule decodeName.raw_induct [where P = "\<lambda>b off nm w r. b = buf \<longrightarrow> P off nm w r", OF _ that],
      goal_cases)
    case (1 dn b off nm w r)
    show ?case
    proof
      assume b: "b = buf"
      show "P off nm w r"
      proof (cases "rd8 buf off")
        case (Inl e)
        with 1(2) b no_byte show ?thesis by auto
      next
        case n: (Inr n)
        show ?thesis
        proof (cases "n = 0")
          case True
          with 1(2) b n root [of off nm w] show ?thesis by (cases "wr8 nm w 0") auto
        next
          case False
          show ?thesis
          proof (cases "decode_labels buf off (off + 1) nm w")
            case (Inl e)
            with 1(2) b n False labels_fault show ?thesis by auto
          next
            case x: (Inr x)
            show ?thesis
            proof (cases x)
              case (Name_End q a)
              with 1(2) b n False x labels_end show ?thesis by auto
            next
              case (Name_Jump t nx a w')
              with 1(2) b n False x
              have "bindR (dn buf t a w') (\<lambda>x. Some (Inr (nx, snd x))) = Some r" by simp
              then obtain r' where r': "dn buf t a w' = Some r'"
                  "r = bindE r' (\<lambda>x. Inr (nx, snd x))"
                using bindR_map_Some [where g = "\<lambda>x. (nx, snd x)"] by blast
              then have "P t a w' r'" using 1(1) by blast
              with labels_jump [OF n False x [unfolded Name_Jump]] r'(2) show ?thesis by simp
            qed
          qed
        qed
      qed
    qed
  qed
  with run show ?thesis by blast
qed

text \<open>A name that is a pointer to itself is followed for ever.\<close>

lemma decodeName_self_pointer:
  assumes "rd8 buf off = Inr h" and "0xc0 \<le> h" and "rd8 buf (off + 1) = Inr l"
    and "unat (be16 (and h 0x3f) l) = off"
  shows "decodeName buf off nm w = None"
proof -
  have h: "h \<noteq> 0" "\<not> h < of_nat (off + 1 - off)"
    using assms(2) by (auto simp: word_le_nat_alt word_less_nat_alt)
  have jump: "decode_labels buf off (off + 1) nm w = Inr (Name_Jump off (off + 2) nm w)" for nm w
    using assms h by (subst decode_labels.simps) simp
  have "off' \<noteq> off" if "decodeName buf off' nm w = Some r" for off' nm w r
    using that
    by (induction rule: decodeName_induct) (use assms(1) h(1) jump in auto)
  then show ?thesis by (metis not_None_eq)
qed

text \<open>
  A label followed by a pointer to it is written again and again, until it leaves the array.
\<close>

lemma decodeName_label_loop:
  assumes "rd8 buf off = Inr 1" and "rd8 buf (off + 1) = Inr c"
    and "rd8 buf (off + 2) = Inr h" and "0xc0 \<le> h" and "rd8 buf (off + 3) = Inr l"
    and "unat (be16 (and h 0x3f) l) = off"
  shows "decodeName buf off nm w = Some (Inl Out_Of_Bounds)"
proof (induction "length nm - w" arbitrary: nm w rule: less_induct)
  case less
  have small: "\<not> (0xc0 \<le> (1 :: byte))" by (simp add: word_le_nat_alt)
  have at: "label_at buf off [c]" using assms(1,2) by (simp add: label_at_def label_ok_def)
  have h: "h \<noteq> 0" "\<not> h < of_nat (off + 3 - (off + 2))"
    using assms(4) by (auto simp: word_le_nat_alt word_less_nat_alt)
  show ?case
  proof (cases "w + 1 < length nm")
    case True
    let ?nm = "blit nm w (map Some ([c] @ [of_char (CHR ''.'')]))"
    have "decode_labels buf off (off + 1) nm w = decode_labels buf (off + 2) (off + 3) ?nm (w + 2)"
      using decode_label_bytes [OF at, of 0 w nm] True by (simp add: numeral_eq_Suc)
    also have "\<dots> = Inr (Name_Jump off (off + 4) ?nm (w + 2))"
      using assms(3-6) h by (subst decode_labels.simps) (simp add: numeral_eq_Suc)
    finally have "decodeName buf off nm w =
        bindR (decodeName buf off ?nm (w + 2)) (\<lambda>r. Some (Inr (off + 4, snd r)))"
      using decodeName_loop [OF assms(1), of nm w] by (simp add: after_labels_def)
    also have "decodeName buf off ?nm (w + 2) = Some (Inl Out_Of_Bounds)"
      using True by (intro less) simp
    finally show ?thesis by simp
  next
    case False
    have "decode_labels buf off (off + 1) nm w = Inl Out_Of_Bounds"
    proof (cases "w < length nm")
      case True
      then have "decode_labels buf off (off + 1) nm w =
          decode_labels buf off (off + 2) (nm[w := Some c]) (w + 1)"
        using assms(1,2) small by (subst decode_labels.simps) (simp add: wr8_def)
      also have "\<dots> = Inl Out_Of_Bounds"
        using assms(1) False by (subst decode_labels.simps) (simp add: wr8_def)
      finally show ?thesis .
    next
      case False
      then show ?thesis using assms(1,2) small by (subst decode_labels.simps) (simp add: wr8_def)
    qed
    then show ?thesis using decodeName_loop [OF assms(1), of nm w] by simp
  qed
qed

section \<open>What a decoded name is\<close>

definition written :: "nat \<Rightarrow> carr \<Rightarrow> bool" where
  "written n a \<longleftrightarrow> n \<le> length a \<and> (\<forall>i < n. a ! i \<noteq> None)"

definition terminated :: "carr \<Rightarrow> bool" where
  "terminated a \<longleftrightarrow> (\<exists>i < length a. a ! i = Some 0 \<and> (\<forall>j < i. a ! j \<noteq> None))"

lemma cstr_Cons_Some: "cstr (Some b # a) = (if b = 0 then Inr [] else bindE (cstr a) (\<lambda>s. Inr (b # s)))"
  by simp

lemma terminated_cstr: "terminated a \<Longrightarrow> \<exists>s. cstr a = Inr s"
proof (induction a)
  case (Cons x a)
  then obtain i where i: "i < Suc (length a)" "(x # a) ! i = Some 0" "\<forall>j < i. (x # a) ! j \<noteq> None"
    by (auto simp: terminated_def)
  show ?case
  proof (cases i)
    case 0
    with i show ?thesis by simp
  next
    case (Suc k)
    with i obtain b where b: "x = Some b" by (metis Suc_length_conv nth_Cons_0 not_None_eq zero_less_Suc)
    have "\<forall>j < k. a ! j \<noteq> None" using i(3) Suc by (metis Suc_less_eq nth_Cons_Suc)
    then have "terminated a" using i Suc by (auto simp: terminated_def)
    with Cons.IH b show ?thesis by (auto simp: bindE_Inr_iff)
  qed
qed (simp add: terminated_def)

lemma written_step: "wr8 a w c = Inr a' \<Longrightarrow> written w a \<Longrightarrow> written (w + 1) a'"
  by (auto simp: wr8_def written_def nth_list_update less_Suc_eq split: if_splits)

lemma written_end: "wr8 a i 0 = Inr a' \<Longrightarrow> written w a \<Longrightarrow> i \<le> w \<Longrightarrow> terminated a'"
  by (auto simp: wr8_def written_def terminated_def nth_list_update split: if_splits)

lemma decode_labels_written:
  "decode_labels buf num p nm w = Inr r \<Longrightarrow> written w nm \<Longrightarrow>
     (case r of
        Name_End q nm' \<Rightarrow> length nm' = length nm \<and> terminated nm'
      | Name_Jump t nx nm' w' \<Rightarrow> length nm' = length nm \<and> written w' nm')"
proof (induction buf num p nm w rule: decode_labels.induct)
  case (1 buf num p nm w)
  from "1.prems"(1) obtain n where n: "rd8 buf num = Inr n"
    by (subst (asm) decode_labels.simps) (auto simp: bindE_Inr_iff)
  consider "n = 0" | "n \<noteq> 0" "n < of_nat (p - num)" | "n \<noteq> 0" "\<not> n < of_nat (p - num)" "0xc0 \<le> n"
    | "n \<noteq> 0" "\<not> n < of_nat (p - num)" "\<not> 0xc0 \<le> n" by blast
  then show ?case
  proof cases
    case 1
    with "1.prems"(1) n obtain a where a: "wr8 nm (w - 1) 0 = Inr a" "r = Name_End p a"
      by (subst (asm) decode_labels.simps) (auto simp: bindE_Inr_iff)
    then show ?thesis
      using written_end [OF a(1) "1.prems"(2)] same_below_length [OF wr8_cases(2) [OF a(1)]] by simp
  next
    case 2
    with "1.prems"(1) n obtain nm1 where w1: "wr8 nm w (of_char (CHR ''.'')) = Inr nm1"
        "decode_labels buf p (p + 1) nm1 (w + 1) = Inr r"
      by (subst (asm) decode_labels.simps) (auto simp: bindE_Inr_iff)
    show ?thesis
      using "1.IH"(1) [OF n 2 w1 written_step [OF w1(1) "1.prems"(2)]]
        same_below_length [OF wr8_cases(2) [OF w1(1)]] by (cases r) auto
  next
    case 3
    with "1.prems" n show ?thesis
      by (subst (asm) decode_labels.simps) (auto simp: bindE_Inr_iff)
  next
    case 4
    with "1.prems"(1) n obtain c nm1 where w1: "rd8 buf p = Inr c" "wr8 nm w c = Inr nm1"
        "decode_labels buf num (p + 1) nm1 (w + 1) = Inr r"
      by (subst (asm) decode_labels.simps) (auto simp: bindE_Inr_iff)
    show ?thesis
      using "1.IH"(2) [OF n 4 w1 written_step [OF w1(2) "1.prems"(2)]]
        same_below_length [OF wr8_cases(2) [OF w1(2)]] by (cases r) auto
  qed
qed

lemma decodeName_terminated:
  assumes "decodeName buf off nm w = Some (Inr (e, nm'))" and "written w nm"
  shows "length nm' = length nm \<and> terminated nm'"
proof -
  have "\<forall>e nm'. r = Inr (e, nm') \<longrightarrow> written w nm \<longrightarrow> length nm' = length nm \<and> terminated nm'"
    if "decodeName buf off nm w = Some r" for off nm w r
    using that
  proof (induction rule: decodeName_induct)
    case (root off nm w)
    then show ?case
      by (auto simp: bindE_Inr_iff dest: written_end [where w = w] same_below_length [OF wr8_cases(2)])
  next
    case (labels_end off nm w n q a)
    then show ?case using decode_labels_written [OF labels_end(3)] by simp
  next
    case (labels_jump off nm w n t nx a w' r)
    then show ?case using decode_labels_written [OF labels_jump(3)] by (auto simp: bindE_Inr_iff)
  qed simp_all
  with assms show ?thesis by blast
qed

section \<open>What a successful decode guarantees\<close>

definition name_ok :: "carr \<Rightarrow> bool" where
  "name_ok a \<longleftrightarrow> length a = MAX_LEN \<and> terminated a"

definition rr_decoded :: "RR \<Rightarrow> bool" where
  "rr_decoded r \<longleftrightarrow> name_ok (rr_name r) \<and>
     (if rr_type r = TYPE_CNAME \<or> rr_type r = TYPE_NS
      then rr_data_type r = STRING_TYPE \<and> name_ok (rr_string_data r)
      else rr_data_type r = BINARY_TYPE \<and>
        (\<exists>d. rr_data r = Some d \<and> length d = unat (rr_data_length r) + 2))"

definition decoded :: "message \<Rightarrow> bool" where
  "decoded m \<longleftrightarrow> msg_shape m \<and>
     (\<forall>i < unat (msg_q_count m). \<exists>q. ques_at m i = Inr q \<and> name_ok (q_name q)) \<and>
     (\<forall>s < 3. \<forall>j < unat (msg_RR_count m ! s). \<exists>r. rr_at m s j = Inr r \<and> rr_decoded r)"

lemma decodeName_name_ok:
  "decodeName buf p (uninit MAX_LEN) 0 = Some (Inr (e, a)) \<Longrightarrow> name_ok a"
  using decodeName_terminated [of buf p "uninit MAX_LEN" 0 e a]
  by (simp add: name_ok_def written_def uninit_def)

lemma rd_block_length: "rd_block buf i n = Inr d \<Longrightarrow> length d = n"
  by (auto simp: rd_block_def split: if_splits)

lemma decode_rr_decoded:
  assumes "decode_rr buf p = Some (Inr (r, e))"
  shows "rr_decoded r"
  using assms
  by (auto simp: decode_rr_def bindR_Inr_iff Let_def rr_decoded_def
      dest: decodeName_name_ok rd_block_length split: if_splits)

text \<open>Messages that differ in one of the two pointer tables only.\<close>

definition ques_only :: "message \<Rightarrow> message \<Rightarrow> bool" where
  "ques_only m0 m \<longleftrightarrow> m = m0\<lparr>msg_ques := msg_ques m\<rparr>"

definition rr_only :: "message \<Rightarrow> message \<Rightarrow> bool" where
  "rr_only m0 m \<longleftrightarrow> m = m0\<lparr>msg_resourse_record := msg_resourse_record m\<rparr>"

lemma only_refl [simp]: "ques_only m m" "rr_only m m"
  by (simp_all add: ques_only_def rr_only_def)

lemma ques_only_step: "ques_only m0 m \<Longrightarrow> ques_only m0 (m\<lparr>msg_ques := x\<rparr>)"
  unfolding ques_only_def by (metis (no_types, lifting) message.surjective message.update_convs(5))

lemma rr_only_step: "rr_only m0 m \<Longrightarrow> rr_only m0 (m\<lparr>msg_resourse_record := x\<rparr>)"
  unfolding rr_only_def by (metis (no_types, lifting) message.surjective message.update_convs(6))

lemma ques_only_fields:
  assumes "ques_only m0 m"
  shows "msg_resourse_record m = msg_resourse_record m0" and "msg_RR_count m = msg_RR_count m0"
    and "msg_q_count m = msg_q_count m0" and "msg_ID m = msg_ID m0" and "msg_flag m = msg_flag m0"
  using assms [unfolded ques_only_def] by (metis message.select_convs message.surjective message.update_convs(5))+

lemma rr_only_fields:
  assumes "rr_only m0 m"
  shows "msg_ques m = msg_ques m0" and "msg_RR_count m = msg_RR_count m0"
    and "msg_q_count m = msg_q_count m0" and "msg_ID m = msg_ID m0" and "msg_flag m = msg_flag m0"
  using assms [unfolded rr_only_def] by (metis message.select_convs message.surjective message.update_convs(6))+

lemma rr_only_trans: "rr_only a b \<Longrightarrow> rr_only b c \<Longrightarrow> rr_only a c"
  unfolding rr_only_def by (metis (no_types, lifting) message.surjective message.update_convs(6))

text \<open>One step of each loop, when it succeeds.\<close>

lemma decode_ques_step_Inr:
  assumes "decode_ques_step buf (m, p) i = Some (Inr (m', p'))"
  obtains q where "i < length (msg_ques m)" and "m' = m\<lparr>msg_ques := (msg_ques m)[i := Some q]\<rparr>"
    and "name_ok (q_name q)"
  using assms decodeName_name_ok
  by (auto simp: decode_ques_step_def bindR_Inr_iff split: if_splits)

lemma decode_rr_step_Inr:
  assumes "decode_rr_step buf s (m, p) j = Some (Inr (m', p'))"
  obtains r where "j < length (msg_resourse_record m ! s)"
    and "m' = m\<lparr>msg_resourse_record := (msg_resourse_record m)
           [s := (msg_resourse_record m ! s)[j := Some r]]\<rparr>"
    and "rr_decoded r"
  using assms decode_rr_decoded
  by (auto simp: decode_rr_step_def bindR_Inr_iff split: if_splits)

lemma decode_ques_Inr:
  assumes "foldR (decode_ques_step buf) (m0, p) [0..<n] = Some (Inr (m, p'))"
    and "length (msg_ques m0) = MAX_SIZE"
  shows "ques_only m0 m \<and> length (msg_ques m) = MAX_SIZE \<and>
     (\<forall>i < n. \<exists>q. ques_at m i = Inr q \<and> name_ok (q_name q))"
proof -
  let ?P = "\<lambda>n (m, p). ques_only m0 m \<and> length (msg_ques m) = MAX_SIZE \<and>
     (\<forall>i < n. \<exists>q. ques_at m i = Inr q \<and> name_ok (q_name q))"
  have "?P n (m, p')"
  proof (rule foldR_upt_Inr [where P = ?P, OF assms(1)])
    fix i st st' assume P: "?P i st" and step: "decode_ques_step buf st i = Some (Inr st')"
    obtain m p where st: "st = (m, p)" by (cases st)
    obtain m' p' where st': "st' = (m', p')" by (cases st')
    obtain q where q: "i < length (msg_ques m)" "m' = m\<lparr>msg_ques := (msg_ques m)[i := Some q]\<rparr>"
        "name_ok (q_name q)"
      using step st st' by (auto elim: decode_ques_step_Inr)
    have "ques_only m0 m'" using P st q(2) ques_only_step by auto
    then show "?P (Suc i) st'"
      using P st st' q ques_at_store [OF q(1), of q] by (auto simp: less_Suc_eq)
  qed (use assms(2) in simp)
  then show ?thesis by simp
qed

lemma decode_section_Inr:
  assumes "decode_section buf (m0, p) s = Some (Inr (m, p'))" and sh: "rr_shape m0" and s: "s < 3"
  shows "rr_only m0 m \<and> rr_shape m \<and>
     (\<forall>j < unat (msg_RR_count m0 ! s). \<exists>r. rr_at m s j = Inr r \<and> rr_decoded r) \<and>
     (\<forall>t j. t \<noteq> s \<longrightarrow> rr_at m t j = rr_at m0 t j)"
proof -
  let ?P = "\<lambda>n (m, p). rr_only m0 m \<and> rr_shape m \<and>
     (\<forall>j < n. \<exists>r. rr_at m s j = Inr r \<and> rr_decoded r) \<and> (\<forall>t j. t \<noteq> s \<longrightarrow> rr_at m t j = rr_at m0 t j)"
  have run: "foldR (decode_rr_step buf s) (m0, p) [0..<unat (msg_RR_count m0 ! s)] = Some (Inr (m, p'))"
    using assms(1) by (simp add: decode_section_def)
  have "?P (unat (msg_RR_count m0 ! s)) (m, p')"
  proof (rule foldR_upt_Inr [where P = ?P, OF run])
    fix i st st' assume P: "?P i st" and step: "decode_rr_step buf s st i = Some (Inr st')"
    obtain m p where st: "st = (m, p)" by (cases st)
    obtain m' p' where st': "st' = (m', p')" by (cases st')
    obtain r where r: "i < length (msg_resourse_record m ! s)"
        "m' = m\<lparr>msg_resourse_record := (msg_resourse_record m)
           [s := (msg_resourse_record m ! s)[i := Some r]]\<rparr>" "rr_decoded r"
      using step st st' by (auto elim: decode_rr_step_Inr)
    have msh: "rr_shape m" using P st by simp
    then have b: "s < length (msg_resourse_record m)" "i < MAX_SIZE"
      using s r(1) by (auto simp: rr_shape_def)
    have "rr_only m0 m'" using P st r(2) rr_only_step by auto
    then show "?P (Suc i) st'"
      using P st st' r rr_at_store [OF b(1) r(1), of r] rr_shape_store [OF msh b(2) s, of r]
      by (auto simp: less_Suc_eq)
  qed (use sh in simp)
  then show ?thesis by simp
qed

lemma decode_header_Inr:
  assumes "decode_header buf = Inr msg"
  shows "msg_shape msg \<and> rr_shape msg"
proof -
  from assms obtain cs where "msg_ques msg = msg_ques newMsg"
      "msg_resourse_record msg = msg_resourse_record newMsg" "msg_RR_count msg = cs"
      "length cs = 3"
    by (auto simp: decode_header_def bindE_Inr_iff upt_3 newMsg_def)
  then show ?thesis using newMsg_shape by (simp add: msg_shape_def rr_shape_def)
qed

lemma decode_decoded:
  assumes "decode buf = Some (Inr m)"
  shows "decoded m"
proof -
  from assms obtain h m1 p1 p where h: "decode_header buf = Inr h"
      "foldR (decode_ques_step buf) (h, 12) [0..<unat (msg_q_count h)] = Some (Inr (m1, p1))"
      "foldR (decode_section buf) (m1, p1) [0..<3] = Some (Inr (m, p))"
    by (auto simp: decode_def bindR_Inr_iff)
  have hs: "msg_shape h" "rr_shape h" using decode_header_Inr [OF h(1)] by auto
  have q1: "ques_only h m1" "length (msg_ques m1) = MAX_SIZE"
      "\<forall>i < unat (msg_q_count h). \<exists>q. ques_at m1 i = Inr q \<and> name_ok (q_name q)"
    using decode_ques_Inr [OF h(2)] hs(1) by (auto simp: msg_shape_def)
  note f1 = ques_only_fields [OF q1(1)]
  let ?P = "\<lambda>n (m, p). rr_only m1 m \<and> rr_shape m \<and>
     (\<forall>s < n. \<forall>j < unat (msg_RR_count m1 ! s). \<exists>r. rr_at m s j = Inr r \<and> rr_decoded r)"
  have "?P 3 (m, p)"
  proof (rule foldR_upt_Inr [where P = ?P, OF h(3)])
    fix i st st' assume i: "i < 3" and P: "?P i st" and step: "decode_section buf st i = Some (Inr st')"
    obtain m p where st: "st = (m, p)" by (cases st)
    obtain m' p' where st': "st' = (m', p')" by (cases st')
    have mm: "rr_only m1 m" and msh: "rr_shape m" using P st by simp_all
    note cnt = rr_only_fields(2) [OF mm]
    note s = decode_section_Inr [OF step [unfolded st st'] msh i]
    have "rr_only m1 m'" using mm s rr_only_trans by blast
    then show "?P (Suc i) st'" using s P st st' cnt by (auto simp: less_Suc_eq)
  qed (use hs(2) f1(1) in \<open>simp add: rr_shape_def\<close>)
  then have m: "rr_only m1 m" "rr_shape m"
      "\<forall>s < 3. \<forall>j < unat (msg_RR_count m1 ! s). \<exists>r. rr_at m s j = Inr r \<and> rr_decoded r"
    by auto
  note f = rr_only_fields [OF m(1)]
  have "ques_at m = ques_at m1" using f(1) by (simp add: ques_at_def fun_eq_iff)
  then show ?thesis
    using m(2,3) f f1 q1(2,3) hs(1) by (simp add: decoded_def msg_shape_def rr_shape_def)
qed


section \<open>Properties\<close>

text \<open>
  C33. A decoded message is sound: whatever the packet, when \<open>decode\<close> returns a message its counts
  are at most 32, every question and every record within the counts is there, every name is a
  terminated string of its 256-byte array, records of type CNAME and NS carry a name and all
  others as many bytes as their length field says.
\<close>
theorem decode_result_sound:
  assumes "decode buf = Some (Inr m)"
  shows "unat (msg_q_count m) \<le> 32 \<and>
     (\<forall>i < unat (msg_q_count m). \<exists>q s. ques_at m i = Inr q \<and> cstr (q_name q) = Inr s) \<and>
     (\<forall>s < 3. unat (msg_RR_count m ! s) \<le> 32 \<and>
        (\<forall>j < unat (msg_RR_count m ! s). \<exists>r n. rr_at m s j = Inr r \<and> cstr (rr_name r) = Inr n \<and>
           (if rr_type r = TYPE_CNAME \<or> rr_type r = TYPE_NS
            then rr_data_type r = STRING_TYPE \<and> (\<exists>d. cstr (rr_string_data r) = Inr d)
            else rr_data_type r = BINARY_TYPE \<and>
              (\<exists>d. rr_data r = Some d \<and> unat (rr_data_length r) \<le> length d))))"
proof -
  have d: "decoded m" by (rule decode_decoded [OF assms])
  then have sh: "msg_shape m" by (simp add: decoded_def)
  have "unat (msg_q_count m) \<le> 32"
  proof (rule ccontr)
    assume "\<not> ?thesis"
    then have "32 < unat (msg_q_count m)" by simp
    then obtain q where "ques_at m 32 = Inr q" using d by (auto simp: decoded_def)
    then show False using sh by (simp add: ques_at_def msg_shape_def MAX_SIZE_def)
  qed
  moreover have "unat (msg_RR_count m ! s) \<le> 32" if s: "s < 3" for s
  proof (rule ccontr)
    assume "\<not> ?thesis"
    then have "32 < unat (msg_RR_count m ! s)" by simp
    then obtain r where "rr_at m s 32 = Inr r" using d s unfolding decoded_def by blast
    then show False using sh s by (simp add: rr_at_def msg_shape_def MAX_SIZE_def)
  qed
  moreover have "\<exists>q s. ques_at m i = Inr q \<and> cstr (q_name q) = Inr s" if "i < unat (msg_q_count m)" for i
  proof -
    from d that obtain q where "ques_at m i = Inr q" "name_ok (q_name q)"
      unfolding decoded_def by blast
    then show ?thesis using terminated_cstr unfolding name_ok_def by blast
  qed
  moreover have "\<exists>r n. rr_at m s j = Inr r \<and> cstr (rr_name r) = Inr n \<and>
           (if rr_type r = TYPE_CNAME \<or> rr_type r = TYPE_NS
            then rr_data_type r = STRING_TYPE \<and> (\<exists>d. cstr (rr_string_data r) = Inr d)
            else rr_data_type r = BINARY_TYPE \<and>
              (\<exists>d. rr_data r = Some d \<and> unat (rr_data_length r) \<le> length d))"
    if sj: "s < 3" "j < unat (msg_RR_count m ! s)" for s j
  proof -
    from d sj obtain r where r: "rr_at m s j = Inr r" "rr_decoded r"
      unfolding decoded_def by blast
    then have "terminated (rr_name r)" by (simp add: rr_decoded_def name_ok_def)
    then obtain n where "cstr (rr_name r) = Inr n" using terminated_cstr by blast
    with r show ?thesis
      by (auto simp: rr_decoded_def name_ok_def intro: terminated_cstr)
  qed
  ultimately show ?thesis by blast
qed

definition root_query :: carr where
  "root_query = map Some [0x12, 0x34, 1, 0, 0, 1, 0, 0, 0, 0, 0, 0, 0, 0, 1, 0, 1]"

lemma root_name: "(uninit MAX_LEN)[0 := Some 0] = Some 0 # uninit 255"
  using replicate_Suc [of 255 "None :: byte option"] by (simp add: uninit_def MAX_LEN_def)

theorem decode_result_sound_witness:
  "\<exists>m q. decode root_query = Some (Inr m) \<and> unat (msg_q_count m) = 1 \<and> ques_at m 0 = Inr q \<and>
     cstr (q_name q) = Inr []"
proof -
  have name: "decodeName root_query 12 (uninit MAX_LEN) 0 = Some (Inr (13, Some 0 # uninit 255))"
    by (subst decodeName.simps)
      (simp add: root_query_def rd8_def wr8_def root_name, simp add: uninit_def MAX_LEN_def)
  let ?m = "newMsg\<lparr>msg_ID := 0x1234, msg_flag := 0x80, msg_q_count := 1, msg_RR_count := [0, 0, 0],
     msg_ques := (msg_ques newMsg)[0 := Some \<lparr>q_name = Some 0 # uninit 255, q_type = 1, q_class = 1\<rparr>]\<rparr>"
  have "decode_header root_query = Inr (newMsg\<lparr>msg_ID := 0x1234, msg_flag := 0x80, msg_q_count := 1,
      msg_RR_count := [0, 0, 0]\<rparr>)"
    by (simp add: decode_header_def root_query_def rd16_def rd8_def be16_def upt_3 newMsg_def
        numeral_3_eq_3 reverse8_def)
  then have "decode root_query = Some (Inr ?m)"
    using name
    by (simp add: decode_def upt_rec decode_ques_step_def newMsg_def MAX_SIZE_def rd16_def rd8_def
        root_query_def be16_def decode_section_def)
  from this decode_result_sound [OF this] show ?thesis
    by (auto simp: ques_at_def newMsg_def MAX_SIZE_def)
qed


lemma rd8_map_Some: "rd8 (map Some p) i = Inr h \<longleftrightarrow> i < length p \<and> p ! i = h"
  by (simp add: rd8_def)

text \<open>
  A datagram of 18 bytes stops a worker for ever: when the first question's name is a
  compression pointer to itself, \<open>decode\<close> does not return (the C program recurses until its
  stack is exhausted).
\<close>
theorem decode_hangs_on_self_pointer:
  assumes "decode_header buf = Inr h" and "0 < unat (msg_q_count h)"
    and "rd16 buf 12 = Inr 0xc00c"
  shows "decode buf = None"
proof -
  obtain a b where ab: "rd8 buf 12 = Inr a" "rd8 buf 13 = Inr b" "be16 a b = 0xc00c"
    using assms(3) by (auto simp: rd16_def bindE_Inr_iff)
  have "a = hi8 0xc00c" "b = lo8 0xc00c" using ab(3) be16_parts [of a b] by simp_all
  then have v: "a = 0xc0" "b = 0x0c" by (simp_all add: hi8_def lo8_def)
  have "decodeName buf 12 nm w = None" for nm w
    using decodeName_self_pointer [of buf 12 a b nm w] ab(1,2) v by (simp add: be16_def)
  then have "decode_ques_step buf (h, 12) 0 = None"
    using decode_header_Inr [OF assms(1)] by (auto simp: decode_ques_step_def msg_shape_def MAX_SIZE_def)
  moreover have "[0..<unat (msg_q_count h)] = 0 # [1..<unat (msg_q_count h)]"
    using assms(2) by (simp add: upt_conv_Cons)
  ultimately show ?thesis using assms(1) by (simp add: decode_def)
qed

definition self_pointer_query :: carr where
  "self_pointer_query = map Some [0x12, 0x34, 1, 0, 0, 1, 0, 0, 0, 0, 0, 0, 0xc0, 12, 0, 1, 0, 1]"

lemma query_header:
  assumes "rd16 buf 0 = Inr i" and "rd8 buf 2 = Inr f" and "rd8 buf 3 = Inr g" and "rd16 buf 4 = Inr q"
    and "rd16 buf 6 = Inr a" and "rd16 buf 8 = Inr b" and "rd16 buf 10 = Inr c"
  obtains h where "decode_header buf = Inr h" and "msg_q_count h = q" and "msg_RR_count h = [a, b, c]"
  using assms by (auto simp: decode_header_def upt_3 newMsg_def numeral_3_eq_3)

theorem decode_hangs_on_self_pointer_witness: "decode self_pointer_query = None"
proof -
  obtain h where "decode_header self_pointer_query = Inr h" "msg_q_count h = 1"
    by (rule query_header [of self_pointer_query])
      (simp_all add: self_pointer_query_def rd16_def rd8_def be16_def)
  then show ?thesis
    by (intro decode_hangs_on_self_pointer [of _ h])
      (simp_all add: self_pointer_query_def rd16_def rd8_def be16_def)
qed

text \<open>
  A datagram of 20 bytes makes the decoder write outside the 256 bytes of the name: a
  one-byte label followed by a pointer back to it is copied again and again until the array
  is left.
\<close>
theorem decode_overflows_on_label_loop:
  assumes "decode_header buf = Inr h" and "0 < unat (msg_q_count h)"
    and "rd8 buf 12 = Inr 1" and "rd8 buf 13 = Inr c" and "rd16 buf 14 = Inr 0xc00c"
  shows "decode buf = Some (Inl Out_Of_Bounds)"
proof -
  obtain a b where ab: "rd8 buf 14 = Inr a" "rd8 buf 15 = Inr b" "be16 a b = 0xc00c"
    using assms(5) by (auto simp: rd16_def bindE_Inr_iff)
  have "a = hi8 0xc00c" "b = lo8 0xc00c" using ab(3) be16_parts [of a b] by simp_all
  then have v: "a = 0xc0" "b = 0x0c" by (simp_all add: hi8_def lo8_def)
  have "decodeName buf 12 nm w = Some (Inl Out_Of_Bounds)" for nm w
    using decodeName_label_loop [of buf 12 c a b nm w] assms(3,4) ab(1,2) v by (simp add: be16_def)
  then have "decode_ques_step buf (h, 12) 0 = Some (Inl Out_Of_Bounds)"
    using decode_header_Inr [OF assms(1)] by (auto simp: decode_ques_step_def msg_shape_def MAX_SIZE_def)
  moreover have "[0..<unat (msg_q_count h)] = 0 # [1..<unat (msg_q_count h)]"
    using assms(2) by (simp add: upt_conv_Cons)
  ultimately show ?thesis using assms(1) by (simp add: decode_def)
qed

definition label_loop_query :: carr where
  "label_loop_query =
     map Some [0x12, 0x34, 1, 0, 0, 1, 0, 0, 0, 0, 0, 0, 1, 0x61, 0xc0, 12, 0, 1, 0, 1]"

theorem decode_overflows_on_label_loop_witness: "decode label_loop_query = Some (Inl Out_Of_Bounds)"
proof -
  obtain h where "decode_header label_loop_query = Inr h" "msg_q_count h = 1"
    by (rule query_header [of label_loop_query])
      (simp_all add: label_loop_query_def rd16_def rd8_def be16_def)
  then show ?thesis
    by (intro decode_overflows_on_label_loop [of _ h])
      (simp_all add: label_loop_query_def rd16_def rd8_def be16_def)
qed


text \<open>
  The number of questions in the header is not checked against the 32 slots of the message:
  when it is larger and the first 32 questions are well-formed, \<open>decode\<close> writes behind the table.
\<close>
theorem decode_overflows_on_33_questions:
  assumes "decode_header buf = Inr h" and "32 < unat (msg_q_count h)"
    and "foldR (decode_ques_step buf) (h, 12) [0..<32] = Some (Inr st)"
  shows "decode buf = Some (Inl Out_Of_Bounds)"
proof -
  obtain m p where st: "st = (m, p)" by (cases st)
  have "length (msg_ques m) = MAX_SIZE"
    using decode_ques_Inr [OF assms(3) [unfolded st]] decode_header_Inr [OF assms(1)]
    by (simp add: msg_shape_def)
  then have "decode_ques_step buf st 32 = Some (Inl Out_Of_Bounds)"
    by (simp add: st decode_ques_step_def MAX_SIZE_def)
  moreover have "[0..<unat (msg_q_count h)] = [0..<32] @ 32 # [33..<unat (msg_q_count h)]"
  proof -
    have "[0..<unat (msg_q_count h)] = [0..<32] @ [32..<unat (msg_q_count h)]"
      using assms(2) upt_add_eq_append [of 0 32 "unat (msg_q_count h) - 32"] by simp
    then show ?thesis using assms(2) by (simp add: upt_conv_Cons)
  qed
  ultimately show ?thesis using assms(1,3) by (simp add: decode_def foldR_append)
qed

text \<open>A packet of questions for the root, five bytes each.\<close>

definition root_questions :: carr where
  "root_questions = map Some ([0x12, 0x34, 1, 0, 0, 33, 0, 0, 0, 0, 0, 0] @ replicate 165 0)"

lemma root_questions_zero: "12 \<le> i \<Longrightarrow> i < 177 \<Longrightarrow> rd8 root_questions i = Inr 0"
  unfolding root_questions_def rd8_map_Some
  by (subst nth_append) simp

theorem decode_overflows_on_33_questions_witness:
  "decode root_questions = Some (Inl Out_Of_Bounds)"
proof -
  obtain h where h: "decode_header root_questions = Inr h" "msg_q_count h = 33"
    by (rule query_header [of root_questions])
      (simp_all add: root_questions_def rd16_def rd8_def be16_def nth_append)
  let ?P = "\<lambda>i (m, p :: nat). p = 12 + 5 * i \<and> length (msg_ques m) = MAX_SIZE"
  have step: "\<exists>st'. decode_ques_step root_questions st i = Some (Inr st') \<and> ?P (Suc i) st'"
    if i: "i < 32" and P: "?P i st" for i st
  proof -
    obtain m where st: "st = (m, 12 + 5 * i)" and m: "length (msg_ques m) = MAX_SIZE"
      using P by (cases st) auto
    have z: "rd8 root_questions (12 + 5 * i + k) = Inr 0" if "k < 5" for k
      using root_questions_zero i that by simp
    have "decodeName root_questions (12 + 5 * i) (uninit MAX_LEN) 0
        = Some (Inr (12 + 5 * i + 1, (uninit MAX_LEN)[0 := Some 0]))"
      using z [of 0] by (subst decodeName.simps) (simp add: wr8_def MAX_LEN_def)
    moreover have "rd16 root_questions (12 + 5 * i + 1) = Inr 0"
        "rd16 root_questions (12 + 5 * i + 3) = Inr 0"
      using z [of 1] z [of 2] z [of 3] z [of 4] by (simp_all add: rd16_def be16_def numeral_eq_Suc)
    ultimately show ?thesis
      using st m i by (simp add: decode_ques_step_def MAX_SIZE_def numeral_eq_Suc)
  qed
  have base: "?P 0 (h, 12)" using decode_header_Inr [OF h(1)] by (simp add: msg_shape_def)
  obtain st where "foldR (decode_ques_step root_questions) (h, 12) [0..<32] = Some (Inr st)"
    using step by (rule foldR_upt_inv [of ?P, OF base])
  then show ?thesis
    using decode_overflows_on_33_questions [OF h(1)] h(2) by simp
qed

text \<open>
  The root name does not survive the codec: \<open>encodeName\<close> writes two zero bytes for the empty
  name when it is new in the packet, \<open>decodeName\<close> reads one, so that everything behind it is
  decoded one byte too early.
\<close>
theorem root_name_desynchronises:
  assumes "cstr arr = Inr []" and "p + 2 \<le> length buf" and "p < 2 ^ 14"
  shows "\<exists>buf' ht'. encodeName arr buf p NewHashTab = Inr (buf', 2, ht') \<and>
     decodeName buf' p (uninit MAX_LEN) 0 = Some (Inr (p + 1, (uninit MAX_LEN)[0 := Some 0]))"
proof -
  have k: "good_key ([] :: cstring)" by (simp add: good_key_def HASH_KEY_MAX_LEN_def)
  have pos: "getPos [] NewHashTab = Inr 0"
    using getPos_ok [OF NewHashTab_ok(1), of "[]"] by (simp add: NewHashTab_ok(2))
  obtain ht' where ht': "insert_ht NewHashTab [] (of_nat p :: 16 word) = Inr ht'"
    by (rule insert_name [OF NewHashTab_ok(1) _ assms(3) k]) (simp_all add: NewHashTab_ok(2))
  let ?b = "buf[p := Some 0, p + 1 := Some 0]"
  have "encodeName arr buf p NewHashTab = Inr (?b, 2, ht')"
    using assms(1,2) pos ht' by (simp add: encodeName_def wr8_def)
  moreover have "decodeName ?b p (uninit MAX_LEN) 0 = Some (Inr (p + 1, (uninit MAX_LEN)[0 := Some 0]))"
    using assms(2) by (subst decodeName.simps) (simp add: rd8_def wr8_def MAX_LEN_def)
  ultimately show ?thesis by blast
qed

theorem root_name_desynchronises_witness:
  "\<exists>buf' ht'. encodeName (map Some [0]) (uninit 1024) 12 NewHashTab = Inr (buf', 2, ht') \<and>
     decodeName buf' 12 (uninit MAX_LEN) 0 = Some (Inr (13, (uninit MAX_LEN)[0 := Some 0]))"
  using root_name_desynchronises [of "map Some [0]" 12 "uninit 1024"] by simp

end
