(* ===== verification/FileReader.thy ===== *)
theory FileReader
  imports Hash
begin

text \<open>
  The local host file, \<open>tool/file_reader.c\<close>: an index from a domain to the offset of its line,
  built once, and lookups that seek in the shared stream and scan the address at its position.
  A stream is the bytes of the file and a position; \<open>fscanf\<close> with \<open>%s\<close> skips white space and
  stores the next word with a NUL, with no regard to the size of the array.
\<close>

section \<open>Scanning\<close>

definition isspace :: "byte \<Rightarrow> bool" where
  "isspace c \<longleftrightarrow> c = 32 \<or> 9 \<le> c \<and> c \<le> 13"

record stream =
  st_bytes :: cstring
  st_pos :: nat

text \<open>The position behind the white space, the word at a position and the position behind it.\<close>

definition skip_space :: "cstring \<Rightarrow> nat \<Rightarrow> nat" where
  "skip_space bs p = p + length (takeWhile isspace (drop p bs))"

definition word_at :: "cstring \<Rightarrow> nat \<Rightarrow> cstring" where
  "word_at bs p = takeWhile (\<lambda>c. \<not> isspace c) (drop p bs)"

text \<open>A \<open>%s\<close> conversion: \<open>None\<close> at the end of the input, else the array with the word in it.\<close>

definition store_word :: "carr \<Rightarrow> cstring \<Rightarrow> carr res" where
  "store_word a w =
     (if length w < length a then Inr (map Some (w @ [0]) @ drop (length w + 1) a)
      else Inl Out_Of_Bounds)"

definition scan_word :: "stream \<Rightarrow> carr \<Rightarrow> (stream \<times> carr) option res" where
  "scan_word st a =
     (let p = skip_space (st_bytes st) (st_pos st) in
      if length (st_bytes st) \<le> p then Inr None
      else let w = word_at (st_bytes st) p in
        bindE (store_word a w) (\<lambda>a.
        Inr (Some (st\<lparr>st_pos := p + length w\<rparr>, a))))"

text \<open>
  \<open>fscanf(fd, "%s %s\n", ip, domain)\<close>: the number of conversions, or \<open>-1\<close> (\<open>EOF\<close>) when
  the input ends before the first; an input that ends before the second leaves \<open>domain\<close> as it was.
\<close>

definition scan_line :: "stream \<Rightarrow> carr \<Rightarrow> carr \<Rightarrow> (int \<times> stream \<times> carr \<times> carr) res" where
  "scan_line st ip domain =
     bindE (scan_word st ip) (\<lambda>r. case r of
       None \<Rightarrow> Inr (-1, st\<lparr>st_pos := length (st_bytes st)\<rparr>, ip, domain)
     | Some (st, ip) \<Rightarrow>
         bindE (scan_word st domain) (\<lambda>r. case r of
           None \<Rightarrow> Inr (1, st\<lparr>st_pos := length (st_bytes st)\<rparr>, ip, domain)
         | Some (st, domain) \<Rightarrow>
             Inr (2, st\<lparr>st_pos := skip_space (st_bytes st) (st_pos st)\<rparr>, ip, domain)))"

section \<open>The reader\<close>

record file_reader =
  fr_fd :: stream
  fr_item_index :: "nat HashTab"

text \<open>
  \<open>file_reader_index\<close>: every round moves the stream forward, because it ends only where
  nothing but white space is left.
\<close>

lemma skip_space_le: "p \<le> skip_space bs p"
  by (simp add: skip_space_def)

lemma skip_space_stops: "skip_space bs p < length bs \<Longrightarrow> \<not> isspace (bs ! skip_space bs p)"
proof -
  assume less: "skip_space bs p < length bs"
  let ?w = "takeWhile isspace (drop p bs)"
  have "length ?w < length (drop p bs)" using less by (simp add: skip_space_def)
  from nth_length_takeWhile [OF this] show ?thesis
    using less by (simp add: skip_space_def)
qed

lemma word_at_nonempty:
  "p < length bs \<Longrightarrow> \<not> isspace (bs ! p) \<Longrightarrow> 0 < length (word_at bs p)"
  by (simp add: word_at_def Cons_nth_drop_Suc [symmetric])

lemma scan_word_forward:
  assumes "scan_word st a = Inr (Some (st', a'))"
  shows "st_pos st < st_pos st' \<and> st_bytes st' = st_bytes st \<and> st_pos st < length (st_bytes st)"
proof -
  let ?p = "skip_space (st_bytes st) (st_pos st)"
  have p: "?p < length (st_bytes st)" "st' = st\<lparr>st_pos := ?p + length (word_at (st_bytes st) ?p)\<rparr>"
    using assms by (auto simp: scan_word_def Let_def bindE_Inr_iff split: if_splits)
  have "0 < length (word_at (st_bytes st) ?p)"
    by (rule word_at_nonempty [OF p(1) skip_space_stops [OF p(1)]])
  then show ?thesis using p skip_space_le [of "st_pos st" "st_bytes st"]
    by (simp del: length_greater_0_conv)
qed

lemma scan_line_forward:
  assumes "scan_line st ip domain = Inr (n, st', ip', domain')" and "n \<noteq> -1"
  shows "st_pos st < st_pos st' \<and> st_bytes st' = st_bytes st \<and> st_pos st < length (st_bytes st)"
proof -
  from assms obtain st1 ip1 r where 1: "scan_word st ip = Inr (Some (st1, ip1))"
      "scan_word st1 domain = Inr r"
      "st' = (case r of None \<Rightarrow> st1\<lparr>st_pos := length (st_bytes st1)\<rparr>
        | Some (st2, d) \<Rightarrow> st2\<lparr>st_pos := skip_space (st_bytes st2) (st_pos st2)\<rparr>)"
    by (auto simp: scan_line_def bindE_Inr_iff split: option.splits)
  note f = scan_word_forward [OF 1(1)]
  show ?thesis
  proof (cases r)
    case None
    with 1(3) f show ?thesis by simp
  next
    case (Some x)
    then obtain st2 d where r: "r = Some (st2, d)" by (cases x) auto
    with scan_word_forward [of st1 domain st2 d] 1(2,3) f skip_space_le [of "st_pos st2" "st_bytes st2"]
    show ?thesis by simp
  qed
qed

function index_loop :: "stream \<Rightarrow> carr \<Rightarrow> carr \<Rightarrow> nat HashTab \<Rightarrow> (stream \<times> nat HashTab) res" where
  "index_loop fd ip domain ht =
     (let cur = st_pos fd in
      bindE (scan_line fd ip domain) (\<lambda>(n, fd', ip', domain').
        if n = -1 then Inr (fd', ht)
        else
          bindE (cstr domain') (\<lambda>name.
          bindE (insert_ht ht name cur) (\<lambda>ht'. index_loop fd' ip' domain' ht'))))"
  by pat_completeness auto

termination
proof (relation "measure (\<lambda>(fd, ip, domain, ht). length (st_bytes fd) - st_pos fd)", goal_cases)
  case (2 fd ip domain ht cur x n y fd' z ip' domain' name ht')
  then have "scan_line fd ip domain = Inr (n, fd', ip', domain')" "n \<noteq> -1" by auto
  from scan_line_forward [OF this] show ?case by auto
qed simp

declare index_loop.simps [simp del]

definition file_reader_index :: "file_reader \<Rightarrow> file_reader res" where
  "file_reader_index fr =
     bindE (index_loop (fr_fd fr) (uninit 16) (uninit 512) (fr_item_index fr))
       (\<lambda>(fd, ht). Inr (fr\<lparr>fr_fd := fd, fr_item_index := ht\<rparr>))"

text \<open>\<open>file_reader_alloc\<close> on the contents of the file; a file that cannot be opened ends the program.\<close>

definition file_reader_alloc :: "cstring \<Rightarrow> file_reader res" where
  "file_reader_alloc contents =
     file_reader_index \<lparr>fr_fd = \<lparr>st_bytes = contents, st_pos = 0\<rparr>, fr_item_index = NewHashTab\<rparr>"

text \<open>
  A lookup: search, seek and scan. The two accesses to the stream are apart, because another
  thread can come in between. At the end of the input \<open>fscanf\<close> leaves \<open>ip\<close> alone.
\<close>

definition get_a_record_seek :: "file_reader \<Rightarrow> carr \<Rightarrow> file_reader option res" where
  "get_a_record_seek fr domain =
     bindE (cstr domain) (\<lambda>name.
     bindE (search (fr_item_index fr) name) (\<lambda>r.
       Inr (map_option (\<lambda>cur. fr\<lparr>fr_fd := (fr_fd fr)\<lparr>st_pos := cur\<rparr>\<rparr>) r)))"

definition get_a_record_scan :: "file_reader \<Rightarrow> carr \<Rightarrow> (file_reader \<times> carr) res" where
  "get_a_record_scan fr ip =
     bindE (scan_word (fr_fd fr) ip) (\<lambda>r. case r of
       None \<Rightarrow> Inr (fr\<lparr>fr_fd := (fr_fd fr)\<lparr>st_pos := length (st_bytes (fr_fd fr))\<rparr>\<rparr>, ip)
     | Some (fd, ip) \<Rightarrow> Inr (fr\<lparr>fr_fd := fd\<rparr>, ip))"

definition file_reader_get_a_record ::
  "file_reader \<Rightarrow> carr \<Rightarrow> carr \<Rightarrow> (file_reader \<times> carr) option res" where
  "file_reader_get_a_record fr domain ip =
     bindE (get_a_record_seek fr domain) (\<lambda>r. case r of
       None \<Rightarrow> Inr None
     | Some fr \<Rightarrow> bindE (get_a_record_scan fr ip) (\<lambda>x. Inr (Some x)))"

section \<open>Well-formed host files\<close>

text \<open>A line is an address, a space, a domain and a newline.\<close>

definition is_word :: "cstring \<Rightarrow> bool" where
  "is_word w \<longleftrightarrow> w \<noteq> [] \<and> is_cstring w \<and> (\<forall>c \<in> set w. \<not> isspace c)"

definition line_ok :: "cstring \<times> cstring \<Rightarrow> bool" where
  "line_ok l \<longleftrightarrow> is_word (fst l) \<and> length (fst l) < 16 \<and> is_word (snd l) \<and> good_key (snd l)"

definition line_bytes :: "cstring \<times> cstring \<Rightarrow> cstring" where
  "line_bytes l = fst l @ [32] @ snd l @ [10]"

definition file_bytes :: "(cstring \<times> cstring) list \<Rightarrow> cstring" where
  "file_bytes ls = concat (map line_bytes ls)"

text \<open>The offsets of the lines, with their domains.\<close>

fun offsets :: "nat \<Rightarrow> (cstring \<times> cstring) list \<Rightarrow> (cstring \<times> nat) list" where
  "offsets p [] = []"
| "offsets p (l # ls) = (snd l, p) # offsets (p + length (line_bytes l)) ls"

lemma drop_behind: "drop p bs = xs @ ys \<Longrightarrow> drop (p + length xs) bs = ys"
  by (metis add.commute append_eq_conv_conj drop_drop)

lemma isspace_simps [simp]: "isspace 32" "isspace 10" "\<not> isspace 0"
  by (simp_all add: isspace_def)

lemma word_first: "is_word w \<Longrightarrow> takeWhile isspace (w @ xs) = []"
  by (cases w) (auto simp: is_word_def)

lemma word_whole: "is_word w \<Longrightarrow> isspace c \<Longrightarrow> takeWhile (\<lambda>c. \<not> isspace c) (w @ c # xs) = w"
  by (simp add: is_word_def takeWhile_append)

lemma store_word_ok:
  assumes "is_word w" and "length w < length a"
  obtains a' where "store_word a w = Inr a'" and "cstr a' = Inr w" and "length a' = length a"
proof
  let ?a = "map Some (w @ [0]) @ drop (length w + 1) a"
  show "store_word a w = Inr ?a" using assms(2) by (simp add: store_word_def)
  show "cstr ?a = Inr w" using assms(1) cstr_map_Some [of w "[]"] by (simp add: is_word_def)
  show "length ?a = length a" using assms(2) by simp
qed

lemma scan_word_ok:
  assumes "drop p bs = w @ c # rest" and "is_word w" and "isspace c" and "length w < length a"
  obtains a' where "scan_word \<lparr>st_bytes = bs, st_pos = p\<rparr> a =
      Inr (Some (\<lparr>st_bytes = bs, st_pos = p + length w\<rparr>, a'))"
    and "cstr a' = Inr w" and "length a' = length a"
proof -
  obtain a' where a': "store_word a w = Inr a'" "cstr a' = Inr w" "length a' = length a"
    by (rule store_word_ok [OF assms(2,4)])
  have "p < length bs"
    using assms(1,2) by (metis drop_all is_word_def Nil_is_append_conv not_le)
  moreover have "skip_space bs p = p"
    by (simp add: skip_space_def assms(1) word_first [OF assms(2)])
  moreover have "word_at bs p = w"
    by (simp add: word_at_def assms(1) word_whole [OF assms(2,3)])
  ultimately show ?thesis
    using a' by (intro that [of a']) (simp_all add: scan_word_def)
qed

lemma scan_word_skips:
  assumes "drop p bs = c # xs" and "isspace c" and "drop (p + 1) bs = w @ c' # rest" and "is_word w"
    and "isspace c'" and "length w < length a"
  obtains a' where "scan_word \<lparr>st_bytes = bs, st_pos = p\<rparr> a =
      Inr (Some (\<lparr>st_bytes = bs, st_pos = p + 1 + length w\<rparr>, a'))"
    and "cstr a' = Inr w" and "length a' = length a"
proof -
  obtain a' where a': "store_word a w = Inr a'" "cstr a' = Inr w" "length a' = length a"
    by (rule store_word_ok [OF assms(4,6)])
  have xs: "xs = w @ c' # rest" using assms(1,3) by (metis drop_Suc drop_Suc_Cons drop_drop drop0 One_nat_def add.commute tl_drop list.sel(3))
  have "p + 1 < length bs"
    using assms(3,4) by (metis drop_all is_word_def Nil_is_append_conv not_le)
  moreover have "skip_space bs p = p + 1"
    using assms(2) by (simp add: skip_space_def assms(1) xs word_first [OF assms(4)])
  moreover have "word_at bs (p + 1) = w"
    by (simp add: word_at_def assms(3)[simplified] word_whole [OF assms(4,5)])
  ultimately show ?thesis
    using a' by (intro that [of a']) (simp_all add: scan_word_def)
qed

text \<open>One line of the file, and what follows it is the start of a line or the end.\<close>

lemma scan_line_ok:
  assumes d: "drop p bs = line_bytes l @ rest" and ok: "line_ok l"
    and rest: "rest = [] \<or> \<not> isspace (hd rest)"
    and room: "length ip = 16" "length domain = 512"
  obtains ip' domain' where "scan_line \<lparr>st_bytes = bs, st_pos = p\<rparr> ip domain =
      Inr (2, \<lparr>st_bytes = bs, st_pos = p + length (line_bytes l)\<rparr>, ip', domain')"
    and "cstr domain' = Inr (snd l)" and "length ip' = 16" and "length domain' = 512"
proof -
  obtain i n where l: "l = (i, n)" by (cases l)
  have w: "is_word i" "length i < 16" "is_word n" "length n < 50"
    using ok l by (auto simp: line_ok_def good_key_def HASH_KEY_MAX_LEN_def)
  have d1: "drop p bs = i @ 32 # n @ 10 # rest" using d l by (simp add: line_bytes_def)
  obtain ip' where ip': "scan_word \<lparr>st_bytes = bs, st_pos = p\<rparr> ip =
      Inr (Some (\<lparr>st_bytes = bs, st_pos = p + length i\<rparr>, ip'))" "length ip' = length ip"
    by (rule scan_word_ok [OF d1 w(1), of ip]) (use w(2) room in auto)
  have d2: "drop (p + length i) bs = 32 # n @ 10 # rest"
    using arg_cong [OF d1, of "drop (length i)"] by (simp add: add.commute)
  have d3: "drop (p + length i + 1) bs = n @ 10 # rest"
    using arg_cong [OF d2, of "drop 1"] by (simp add: add.commute)
  obtain dom' where dom': "scan_word \<lparr>st_bytes = bs, st_pos = p + length i\<rparr> domain =
      Inr (Some (\<lparr>st_bytes = bs, st_pos = p + length i + 1 + length n\<rparr>, dom'))"
      "cstr dom' = Inr n" "length dom' = length domain"
    by (rule scan_word_skips [OF d2 _ d3 w(3), of domain]) (use w(4) room in auto)
  have d4: "drop (p + length i + 1 + length n) bs = 10 # rest"
    using arg_cong [OF d3, of "drop (length n)"] by (simp add: add.commute add.left_commute)
  have "takeWhile isspace rest = []" using rest by (cases rest) auto
  then have "skip_space bs (p + length i + 1 + length n) = p + length (line_bytes l)"
    using d4 l by (simp add: skip_space_def line_bytes_def)
  then show ?thesis
    using ip' dom' room l by (intro that [of ip' dom']) (simp_all add: scan_line_def)
qed

lemma file_bytes_start: "\<forall>l \<in> set ls. line_ok l \<Longrightarrow> file_bytes ls = [] \<or> \<not> isspace (hd (file_bytes ls))"
proof (cases ls)
  case (Cons l ls')
  assume "\<forall>l \<in> set ls. line_ok l"
  then have "is_word (fst l)" using Cons by (simp add: line_ok_def)
  then show ?thesis using Cons by (cases "fst l") (auto simp: file_bytes_def line_bytes_def is_word_def)
qed (simp add: file_bytes_def)

lemma index_loop_ok:
  assumes "drop p bs = file_bytes ls" and "p \<le> length bs" and "\<forall>l \<in> set ls. line_ok l"
    and "length ip = 16" and "length domain = 512"
    and "foldE (\<lambda>t kv. insert_ht t (fst kv) (snd kv)) ht (offsets p ls) = Inr ht'"
  shows "index_loop \<lparr>st_bytes = bs, st_pos = p\<rparr> ip domain ht =
     Inr (\<lparr>st_bytes = bs, st_pos = length bs\<rparr>, ht')"
  using assms
proof (induction ls arbitrary: p ip domain ht)
  case Nil
  then have "p = length bs" by (simp add: file_bytes_def)
  then have "scan_word \<lparr>st_bytes = bs, st_pos = p\<rparr> ip = Inr None"
    using skip_space_le [of "length bs" bs] by (simp add: scan_word_def Let_def)
  with Nil show ?case by (subst index_loop.simps) (simp add: scan_line_def)
next
  case (Cons l ls)
  have d: "drop p bs = line_bytes l @ file_bytes ls"
    using Cons.prems(1) by (simp add: file_bytes_def)
  have ok: "line_ok l" "\<forall>l \<in> set ls. line_ok l" using Cons.prems(3) by auto
  obtain ip' dom' where s: "scan_line \<lparr>st_bytes = bs, st_pos = p\<rparr> ip domain =
      Inr (2, \<lparr>st_bytes = bs, st_pos = p + length (line_bytes l)\<rparr>, ip', dom')"
      "cstr dom' = Inr (snd l)" "length ip' = 16" "length dom' = 512"
    by (rule scan_line_ok [OF d ok(1) file_bytes_start [OF ok(2)] Cons.prems(4,5)])
  obtain t where t: "insert_ht ht (snd l) p = Inr t"
      "foldE (\<lambda>t kv. insert_ht t (fst kv) (snd kv)) t (offsets (p + length (line_bytes l)) ls) = Inr ht'"
    using Cons.prems(6) by (auto simp: bindE_Inr_iff)
  have d': "drop (p + length (line_bytes l)) bs = file_bytes ls"
    by (rule drop_behind [OF d])
  have "p + length (line_bytes l) \<le> length bs"
    using arg_cong [OF d, of length] Cons.prems(2) by simp
  from Cons.IH [OF d' this ok(2) s(3,4) t(2)] s(1,2) t(1)
  show ?case by (subst index_loop.simps) simp
qed

text \<open>The offset of a domain is where its last line starts.\<close>

lemma map_of_related:
  "list_all2 (\<lambda>x y. fst x = fst y \<and> R (snd x) (snd y)) xs ys \<Longrightarrow>
     rel_option R (map_of xs k) (map_of ys k)"
  by (induction rule: list_all2_induct) auto

definition hosts :: "(cstring \<times> cstring) list \<Rightarrow> (cstring \<times> cstring) list" where
  "hosts ls = map (\<lambda>l. (snd l, fst l)) ls"

definition address_at :: "cstring \<Rightarrow> nat \<Rightarrow> cstring \<Rightarrow> bool" where
  "address_at bs p i \<longleftrightarrow> (\<exists>rest. drop p bs = i @ 32 # rest) \<and> is_word i \<and> length i < 16"

lemma offsets_lines:
  "drop p bs = file_bytes ls \<Longrightarrow> \<forall>l \<in> set ls. line_ok l \<Longrightarrow>
     list_all2 (\<lambda>x y. fst x = fst y \<and> address_at bs (snd x) (snd y)) (offsets p ls) (hosts ls)"
proof (induction ls arbitrary: p)
  case (Cons l ls)
  have d: "drop p bs = line_bytes l @ file_bytes ls"
    using Cons.prems(1) by (simp add: file_bytes_def)
  have "list_all2 (\<lambda>x y. fst x = fst y \<and> address_at bs (snd x) (snd y))
       (offsets (p + length (line_bytes l)) ls) (hosts ls)"
    using Cons.prems(2) by (intro Cons.IH drop_behind [OF d]) simp
  moreover have "address_at bs p (fst l)"
    using Cons.prems(2) d by (simp add: line_bytes_def line_ok_def address_at_def)
  ultimately show ?case by (simp add: hosts_def)
qed (simp add: hosts_def)

lemma offsets_keys: "map fst (offsets p ls) = map snd ls"
  by (induction ls arbitrary: p) auto

text \<open>
  The reader of a file: its index leads every domain of the file to an address that the stream
  has at that offset.
\<close>

definition reader_of :: "(cstring \<times> cstring) list \<Rightarrow> file_reader \<Rightarrow> bool" where
  "reader_of ls fr \<longleftrightarrow> st_bytes (fr_fd fr) = file_bytes ls \<and> ht_inv (fr_item_index fr) \<and>
     (\<forall>l \<in> set ls. line_ok l) \<and> ht_map (fr_item_index fr) = map_of (rev (offsets 0 ls))"

lemma file_reader_alloc_ok:
  assumes "\<forall>l \<in> set ls. line_ok l" and "length ls \<le> 2 ^ 29"
  obtains fr where "file_reader_alloc (file_bytes ls) = Inr fr" and "reader_of ls fr"
proof -
  have "length (offsets 0 ls) = length ls"
    using offsets_keys [of 0 ls] by (metis length_map)
  then have "card (dom (ht_map (NewHashTab :: nat HashTab))) + length (offsets 0 ls) \<le> 2 ^ 29"
    using assms(2) by (simp add: NewHashTab_ok(2))
  moreover have "\<forall>kv \<in> set (offsets 0 ls). good_key (fst kv)"
  proof
    fix kv assume "kv \<in> set (offsets 0 ls)"
    then have "fst kv \<in> set (map snd ls)" using offsets_keys [of 0 ls] by (metis image_eqI list.set_map)
    then show "good_key (fst kv)" using assms(1) by (auto simp: line_ok_def)
  qed
  ultimately obtain t where t: "foldE (\<lambda>t kv. insert_ht t (fst kv) (snd kv)) NewHashTab (offsets 0 ls) = Inr t"
      "ht_inv t" "ht_map t = ht_map NewHashTab ++ map_of (rev (offsets 0 ls))"
    by (rule ht.put_list_ok [OF NewHashTab_ok(1)])
  have "index_loop \<lparr>st_bytes = file_bytes ls, st_pos = 0\<rparr> (uninit 16) (uninit 512) NewHashTab =
      Inr (\<lparr>st_bytes = file_bytes ls, st_pos = length (file_bytes ls)\<rparr>, t)"
    using assms(1) t(1) by (intro index_loop_ok) auto
  then show ?thesis
    using t(2,3) assms(1)
    by (intro that [of "\<lparr>fr_fd = \<lparr>st_bytes = file_bytes ls, st_pos = length (file_bytes ls)\<rparr>,
          fr_item_index = t\<rparr>"])
      (simp_all add: file_reader_alloc_def file_reader_index_def reader_of_def NewHashTab_ok(2))
qed

lemma get_a_record_parts:
  assumes "reader_of ls fr" and "cstr darr = Inr d"
  shows "map_of (rev (hosts ls)) d = None \<Longrightarrow> get_a_record_seek fr darr = Inr None"
    and "map_of (rev (hosts ls)) d = Some ip \<Longrightarrow>
      \<exists>fr'. get_a_record_seek fr darr = Inr (Some fr') \<and> reader_of ls fr' \<and>
        (\<forall>iparr. 16 \<le> length iparr \<longrightarrow>
          (\<exists>fr'' iparr'. get_a_record_scan fr' iparr = Inr (fr'', iparr') \<and> cstr iparr' = Inr ip \<and>
             length iparr' = length iparr \<and> reader_of ls fr''))"
proof -
  have r: "st_bytes (fr_fd fr) = file_bytes ls" "ht_inv (fr_item_index fr)" "\<forall>l \<in> set ls. line_ok l"
      "ht_map (fr_item_index fr) = map_of (rev (offsets 0 ls))"
    using assms(1) by (simp_all add: reader_of_def)
  have s: "search (fr_item_index fr) d = Inr (map_of (rev (offsets 0 ls)) d)"
    using ht.get_ok [OF r(2) cstr_is_cstring [OF assms(2)]] r(4) by simp
  have rel: "rel_option (address_at (file_bytes ls))
      (map_of (rev (offsets 0 ls)) d) (map_of (rev (hosts ls)) d)"
    using offsets_lines [of 0 "file_bytes ls" ls] r(3)
    by (intro map_of_related) (simp add: list_all2_rev)
  show "get_a_record_seek fr darr = Inr None" if "map_of (rev (hosts ls)) d = None"
    using that rel s assms(2) by (simp add: get_a_record_seek_def option_rel_Some2)
  assume some: "map_of (rev (hosts ls)) d = Some ip"
  then obtain p rest where p: "map_of (rev (offsets 0 ls)) d = Some p"
      "drop p (file_bytes ls) = ip @ 32 # rest" "is_word ip" "length ip < 16"
    using rel by (auto simp: option_rel_Some2 address_at_def)
  let ?fr = "fr\<lparr>fr_fd := \<lparr>st_bytes = file_bytes ls, st_pos = p\<rparr>\<rparr>"
  have seek: "get_a_record_seek fr darr = Inr (Some ?fr)"
    using s p(1) assms(2) r(1) by (simp add: get_a_record_seek_def)
  have "\<exists>fr'' iparr'. get_a_record_scan ?fr iparr = Inr (fr'', iparr') \<and> cstr iparr' = Inr ip \<and>
      length iparr' = length iparr \<and> reader_of ls fr''" if len: "16 \<le> length iparr" for iparr
  proof -
    obtain a' where "scan_word \<lparr>st_bytes = file_bytes ls, st_pos = p\<rparr> iparr =
        Inr (Some (\<lparr>st_bytes = file_bytes ls, st_pos = p + length ip\<rparr>, a'))"
        "cstr a' = Inr ip" "length a' = length iparr"
      by (rule scan_word_ok [OF p(2,3), of iparr]) (use p(4) len in auto)
    then show ?thesis using r by (simp add: get_a_record_scan_def reader_of_def)
  qed
  moreover have "reader_of ls ?fr" using r by (simp add: reader_of_def)
  ultimately show "\<exists>fr'. get_a_record_seek fr darr = Inr (Some fr') \<and> reader_of ls fr' \<and>
        (\<forall>iparr. 16 \<le> length iparr \<longrightarrow>
          (\<exists>fr'' iparr'. get_a_record_scan fr' iparr = Inr (fr'', iparr') \<and> cstr iparr' = Inr ip \<and>
             length iparr' = length iparr \<and> reader_of ls fr''))"
    using seek by blast
qed

section \<open>Properties\<close>

text \<open>
  C38. The host file is looked up correctly: for a file of lines of an address of fewer than 16
  and a domain of fewer than 50 bytes, the reader is built, and a lookup returns the address on
  the last line of the domain, in an array of at least 16 bytes, or \<open>NULL\<close> when no line has the
  domain.
\<close>
theorem file_lookup_correct:
  assumes "\<forall>l \<in> set ls. line_ok l" and "length ls \<le> 2 ^ 29" and "cstr domain = Inr d" and "16 \<le> length ip"
  shows "\<exists>fr. file_reader_alloc (file_bytes ls) = Inr fr \<and>
      (case map_of (rev (hosts ls)) d of
         None \<Rightarrow> file_reader_get_a_record fr domain ip = Inr None
       | Some a \<Rightarrow> \<exists>fr' ip'. file_reader_get_a_record fr domain ip = Inr (Some (fr', ip')) \<and>
           cstr ip' = Inr a)"
proof -
  obtain fr where fr: "file_reader_alloc (file_bytes ls) = Inr fr" "reader_of ls fr"
    by (rule file_reader_alloc_ok [OF assms(1,2)])
  show ?thesis
  proof (cases "map_of (rev (hosts ls)) d")
    case None
    with fr get_a_record_parts(1) [OF fr(2) assms(3)] show ?thesis
      by (simp add: file_reader_get_a_record_def)
  next
    case (Some a)
    from get_a_record_parts(2) [OF fr(2) assms(3) this] assms(4) obtain fr' fr'' ip' where
        "get_a_record_seek fr domain = Inr (Some fr')" "get_a_record_scan fr' ip = Inr (fr'', ip')"
        "cstr ip' = Inr a" by blast
    with fr(1) Some show ?thesis by (auto simp: file_reader_get_a_record_def)
  qed
qed

definition two_hosts :: "(cstring \<times> cstring) list" where
  "two_hosts = [(bytes ''1.2.3.4'', bytes ''a.cn''), (bytes ''0.0.0.0'', bytes ''b.cn'')]"

lemma two_hosts_ok: "\<forall>l \<in> set two_hosts. line_ok l" "length two_hosts \<le> 2 ^ 29"
  by (simp_all add: two_hosts_def line_ok_def is_word_def bytes_def is_cstring_def isspace_def good_key_def
      HASH_KEY_MAX_LEN_def word_le_nat_alt)

theorem file_lookup_correct_witness:
  "\<exists>fr fr' ip'. file_reader_alloc (file_bytes two_hosts) = Inr fr \<and>
     file_reader_get_a_record fr (map Some (bytes ''b.cn'' @ [0])) (uninit 17) = Inr (Some (fr', ip')) \<and>
     cstr ip' = Inr (bytes ''0.0.0.0'')"
proof -
  have "cstr (map Some (bytes ''b.cn'' @ [0])) = Inr (bytes ''b.cn'')" by (simp add: bytes_def)
  moreover have "map_of (rev (hosts two_hosts)) (bytes ''b.cn'') = Some (bytes ''0.0.0.0'')"
    by (simp add: two_hosts_def hosts_def bytes_def)
  ultimately show ?thesis
    using file_lookup_correct [OF two_hosts_ok, of "map Some (bytes ''b.cn'' @ [0])" "bytes ''b.cn''" "uninit 17"]
    by (simp del: map_append)
qed

text \<open>
  C39. Concurrent lookups mix up their answers: the seek and the scan of a lookup are not
  protected, and when the seek of a second thread for another domain of the file falls between
  them, the first thread reads the second domain's address.
\<close>
theorem file_lookup_race:
  assumes "reader_of ls fr" and "cstr darr1 = Inr d1" and "map_of (rev (hosts ls)) d1 = Some a1"
    and "cstr darr2 = Inr d2" and "map_of (rev (hosts ls)) d2 = Some a2" and "16 \<le> length ip"
  shows "\<exists>fr1 fr2 fr3 ip'. get_a_record_seek fr darr1 = Inr (Some fr1) \<and>
     get_a_record_seek fr1 darr2 = Inr (Some fr2) \<and>
     get_a_record_scan fr2 ip = Inr (fr3, ip') \<and> cstr ip' = Inr a2"
proof -
  obtain fr1 where 1: "get_a_record_seek fr darr1 = Inr (Some fr1)" "reader_of ls fr1"
    using get_a_record_parts(2) [OF assms(1,2,3)] by blast
  obtain fr2 fr3 ip' where "get_a_record_seek fr1 darr2 = Inr (Some fr2)"
      "get_a_record_scan fr2 ip = Inr (fr3, ip')" "cstr ip' = Inr a2"
    using get_a_record_parts(2) [OF 1(2) assms(4,5)] assms(6) by blast
  with 1(1) show ?thesis by blast
qed

theorem file_lookup_race_witness:
  "\<exists>fr fr1 fr2 fr3 ip'. file_reader_alloc (file_bytes two_hosts) = Inr fr \<and>
     get_a_record_seek fr (map Some (bytes ''a.cn'' @ [0])) = Inr (Some fr1) \<and>
     get_a_record_seek fr1 (map Some (bytes ''b.cn'' @ [0])) = Inr (Some fr2) \<and>
     get_a_record_scan fr2 (uninit 17) = Inr (fr3, ip') \<and> cstr ip' = Inr (bytes ''0.0.0.0'')"
proof -
  obtain fr where fr: "file_reader_alloc (file_bytes two_hosts) = Inr fr" "reader_of two_hosts fr"
    by (rule file_reader_alloc_ok [OF two_hosts_ok])
  have "cstr (map Some (bytes ''a.cn'' @ [0])) = Inr (bytes ''a.cn'')"
      "cstr (map Some (bytes ''b.cn'' @ [0])) = Inr (bytes ''b.cn'')"
      "map_of (rev (hosts two_hosts)) (bytes ''a.cn'') = Some (bytes ''1.2.3.4'')"
      "map_of (rev (hosts two_hosts)) (bytes ''b.cn'') = Some (bytes ''0.0.0.0'')"
    by (simp_all add: two_hosts_def hosts_def bytes_def)
  from file_lookup_race [OF fr(2) this(1,3,2,4), of "uninit 17"] fr(1)
  show ?thesis by (simp del: map_append)
qed

text \<open>
  An address of 16 or more bytes in the host file, such as a written-out IPv6 address,
  overflows the array of the indexer when the server starts.
\<close>
theorem file_long_address_overflows:
  assumes "is_word w" and "16 \<le> length w" and "isspace c"
  shows "file_reader_alloc (w @ c # rest) = Inl Out_Of_Bounds"
proof -
  have "skip_space (w @ c # rest) 0 = 0" by (simp add: skip_space_def word_first [OF assms(1)])
  moreover have "word_at (w @ c # rest) 0 = w" by (simp add: word_at_def word_whole [OF assms(1,3)])
  ultimately have "scan_word \<lparr>st_bytes = w @ c # rest, st_pos = 0\<rparr> (uninit 16) = Inl Out_Of_Bounds"
    using assms(2) by (simp add: scan_word_def store_word_def)
  then show ?thesis
    by (simp add: file_reader_alloc_def file_reader_index_def scan_line_def index_loop.simps)
qed

theorem file_long_address_overflows_witness:
  "file_reader_alloc (bytes ''2001:db8::ff00:42 a.cn'') = Inl Out_Of_Bounds"
  using file_long_address_overflows [of "bytes ''2001:db8::ff00:42''" 32 "bytes ''a.cn''"]
  by (simp add: is_word_def bytes_def is_cstring_def isspace_def word_le_nat_alt)

end
