(* ===== verification/Clog.thy ===== *)
theory Clog
  imports Main
begin

text \<open>
  The logger, \<open>tool/clog.c\<close>: a level and a quiet flag decide whether a message is written. The
  model returns what \<open>clog_log\<close> writes to \<open>stderr\<close>; the message is given with its arguments
  already formatted, which is the work of \<open>vfprintf\<close>.
\<close>

datatype clog_level =
    CLOG_LEVEL_TRACE | CLOG_LEVEL_DEBUG | CLOG_LEVEL_INFO | CLOG_LEVEL_WARN | CLOG_LEVEL_ERROR
  | CLOG_LEVEL_FATAL

text \<open>The numeric value of the enumeration, which the comparisons of the code use.\<close>

fun level_num :: "clog_level \<Rightarrow> nat" where
  "level_num CLOG_LEVEL_TRACE = 0"
| "level_num CLOG_LEVEL_DEBUG = 1"
| "level_num CLOG_LEVEL_INFO = 2"
| "level_num CLOG_LEVEL_WARN = 3"
| "level_num CLOG_LEVEL_ERROR = 4"
| "level_num CLOG_LEVEL_FATAL = 5"

lemma level_num_inject [simp]: "level_num a = level_num b \<longleftrightarrow> a = b"
  by (cases a; cases b) simp_all

instantiation clog_level :: linorder
begin

definition less_eq_clog_level :: "clog_level \<Rightarrow> clog_level \<Rightarrow> bool" where
  "less_eq_clog_level a b \<longleftrightarrow> level_num a \<le> level_num b"

definition less_clog_level :: "clog_level \<Rightarrow> clog_level \<Rightarrow> bool" where
  "less_clog_level a b \<longleftrightarrow> level_num a < level_num b"

instance
  by standard (auto simp: less_eq_clog_level_def less_clog_level_def dest: antisym)

end

record log_state =
  lg_quiet :: bool
  lg_level :: clog_level

definition log_state0 :: log_state where
  "log_state0 = \<lparr>lg_quiet = False, lg_level = CLOG_LEVEL_INFO\<rparr>"

fun log_level_str :: "clog_level \<Rightarrow> string" where
  "log_level_str CLOG_LEVEL_TRACE = ''TRACE''"
| "log_level_str CLOG_LEVEL_DEBUG = ''DEBUG''"
| "log_level_str CLOG_LEVEL_INFO = ''INFO''"
| "log_level_str CLOG_LEVEL_WARN = ''WARN''"
| "log_level_str CLOG_LEVEL_ERROR = ''ERROR''"
| "log_level_str CLOG_LEVEL_FATAL = ''FATAL''"

text \<open>The colour of a level is the terminal sequence with this number, and 0 resets it.\<close>

definition colour :: "string \<Rightarrow> string" where
  "colour n = CHR 0x1B # ''['' @ n @ ''m''"

fun level_colors :: "clog_level \<Rightarrow> string" where
  "level_colors CLOG_LEVEL_TRACE = colour ''94''"
| "level_colors CLOG_LEVEL_DEBUG = colour ''36''"
| "level_colors CLOG_LEVEL_INFO = colour ''32''"
| "level_colors CLOG_LEVEL_WARN = colour ''33''"
| "level_colors CLOG_LEVEL_ERROR = colour ''31''"
| "level_colors CLOG_LEVEL_FATAL = colour ''35''"

definition color_reset :: string where
  "color_reset = colour ''0''"

text \<open>The conversion \<open>%-5s\<close>.\<close>

definition pad5 :: "string \<Rightarrow> string" where
  "pad5 s = s @ replicate (5 - length s) (CHR '' '')"

definition clog_log :: "log_state \<Rightarrow> clog_level \<Rightarrow> string \<Rightarrow> string" where
  "clog_log st level text =
     (if \<not> lg_quiet st \<and> lg_level st \<le> level
      then level_colors level @ pad5 (log_level_str level) @ color_reset @ '' '' @ text @ [CHR 0x0A]
      else [])"

definition clog_set_level :: "log_state \<Rightarrow> clog_level \<Rightarrow> log_state" where
  "clog_set_level st level = st\<lparr>lg_level := level\<rparr>"

definition clog_set_quiet :: "log_state \<Rightarrow> bool \<Rightarrow> log_state" where
  "clog_set_quiet st quiet = st\<lparr>lg_quiet := quiet\<rparr>"

lemma clog_log_silent_iff: "clog_log st level text = [] \<longleftrightarrow> lg_quiet st \<or> level < lg_level st"
  by (auto simp: clog_log_def not_le colour_def level_colors.simps pad5_def)

text \<open>Raising the level never adds output.\<close>

lemma clog_set_level_mono:
  "l \<le> l' \<Longrightarrow> clog_log (clog_set_level st l) level text = [] \<Longrightarrow>
     clog_log (clog_set_level st l') level text = []"
  by (auto simp: clog_log_silent_iff clog_set_level_def)

end
