(* ===== verification/Arg.thy ===== *)
theory Arg
  imports Hash
begin

text \<open>
  Command-line options, \<open>tool/arg.c\<close>: every argument \<open>key=value\<close> is an entry of a hash table,
  an argument without a value stands for \<open>key=true\<close>. The key and the value go through arrays of
  50 bytes that \<open>strncpy\<close> need not terminate.
\<close>

section \<open>Library functions on strings\<close>

text \<open>
  \<open>strtok\<close> with the delimiter \<open>=\<close>: the next token and the rest of the string behind the
  delimiter that ended it, or \<open>None\<close> (\<open>NULL\<close>) when only delimiters are left.
\<close>

definition delim :: byte where
  "delim = of_char (CHR ''='')"

definition strtok :: "cstring \<Rightarrow> (cstring \<times> cstring) option" where
  "strtok s =
     (let t = dropWhile (\<lambda>c. c = delim) s in
      if t = [] then None
      else let w = takeWhile (\<lambda>c. c \<noteq> delim) t in Some (w, drop (length w + 1) t))"

text \<open>\<open>atoi\<close>: white space, a sign, decimal digits; a value outside \<open>int\<close> is undefined in C.\<close>

definition is_digit :: "byte \<Rightarrow> bool" where
  "is_digit c \<longleftrightarrow> 48 \<le> c \<and> c \<le> 57"

definition digits_value :: "cstring \<Rightarrow> int" where
  "digits_value ds = foldl (\<lambda>n c. 10 * n + (uint c - 48)) 0 ds"

definition atoi :: "cstring \<Rightarrow> int" where
  "atoi s =
     (case dropWhile (\<lambda>c. c = 32 \<or> 9 \<le> c \<and> c \<le> 13) s of
        [] \<Rightarrow> 0
      | c # cs \<Rightarrow>
          if c = of_char (CHR ''-'') then - digits_value (takeWhile is_digit cs)
          else if c = of_char (CHR ''+'') then digits_value (takeWhile is_digit cs)
          else digits_value (takeWhile is_digit (c # cs)))"

text \<open>\<open>strncmp(p, value, strlen(value)) == 0\<close> for two strings.\<close>

definition strncmp_eq :: "cstring \<Rightarrow> cstring \<Rightarrow> bool" where
  "strncmp_eq p value \<longleftrightarrow> take (length value) p = value"

section \<open>Operations\<close>

record Arg =
  arg_ht :: "cstring HashTab"

definition arg_step :: "cstring HashTab \<Rightarrow> cstring \<Rightarrow> cstring HashTab res" where
  "arg_step ht argv_i =
     (case strtok argv_i of
        None \<Rightarrow> Inl Bad_Pointer
      | Some (k, rest) \<Rightarrow>
          bindE (strncpy (uninit 50) k 50) (\<lambda>key.
          bindE (strncpy (uninit 50)
                   (case strtok rest of None \<Rightarrow> bytes ''true'' | Some (p, _) \<Rightarrow> p) 50) (\<lambda>value.
          bindE (cstr value) (\<lambda>v.
          bindE (cstr key) (\<lambda>k. insert_ht ht k v)))))"

definition NewArg :: "cstring list \<Rightarrow> Arg res" where
  "NewArg argv = bindE (foldE arg_step NewHashTab (drop 1 argv)) (\<lambda>ht. Inr \<lparr>arg_ht = ht\<rparr>)"

definition getStr :: "Arg \<Rightarrow> cstring \<Rightarrow> cstring option res" where
  "getStr arg key = search (arg_ht arg) key"

definition getInt :: "Arg \<Rightarrow> cstring \<Rightarrow> int res" where
  "getInt arg key =
     bindE (search (arg_ht arg) key) (\<lambda>p. Inr (case p of None \<Rightarrow> 0 | Some s \<Rightarrow> atoi s))"

definition matchArg :: "Arg \<Rightarrow> cstring \<Rightarrow> cstring \<Rightarrow> bool res" where
  "matchArg arg key value =
     bindE (search (arg_ht arg) key)
       (\<lambda>p. Inr (case p of None \<Rightarrow> False | Some s \<Rightarrow> strncmp_eq s value))"

section \<open>Options as pairs\<close>

text \<open>An option of the command line, with or without a value, and the text of it.\<close>

definition option_ok :: "cstring \<times> cstring option \<Rightarrow> bool" where
  "option_ok kv \<longleftrightarrow> good_key (fst kv) \<and> fst kv \<noteq> [] \<and> delim \<notin> set (fst kv) \<and>
     (case snd kv of None \<Rightarrow> True
      | Some v \<Rightarrow> good_key v \<and> v \<noteq> [] \<and> delim \<notin> set v)"

definition option_text :: "cstring \<times> cstring option \<Rightarrow> cstring" where
  "option_text kv = fst kv @ (case snd kv of None \<Rightarrow> [] | Some v \<Rightarrow> delim # v)"

definition option_value :: "cstring \<times> cstring option \<Rightarrow> cstring" where
  "option_value kv = (case snd kv of None \<Rightarrow> bytes ''true'' | Some v \<Rightarrow> v)"

lemma strtok_word:
  assumes "w \<noteq> []" and "delim \<notin> set w"
  shows "strtok w = Some (w, [])" and "strtok (w @ delim # rest) = Some (w, rest)"
proof -
  have d: "dropWhile (\<lambda>c. c = delim) (w @ xs) = w @ xs" for xs
    using assms by (cases w) auto
  have t: "takeWhile (\<lambda>c. c \<noteq> delim) w = w" "takeWhile (\<lambda>c. c \<noteq> delim) (w @ delim # rest) = w"
    using assms(2) by (auto simp: takeWhile_eq_all_conv takeWhile_append)
  show "strtok w = Some (w, [])"
    using d [of "[]"] assms(1) unfolding strtok_def Let_def append_Nil2 by (simp only: t) simp
  show "strtok (w @ delim # rest) = Some (w, rest)"
    using d assms(1) unfolding strtok_def Let_def by (simp only: t d) simp
qed

lemma strtok_Nil [simp]: "strtok [] = None"
  by (simp add: strtok_def)

lemma arg_step_ok:
  assumes "option_ok kv"
  shows "arg_step ht (option_text kv) = insert_ht ht (fst kv) (option_value kv)"
proof -
  obtain k v where kv: "kv = (k, v)" by (cases kv)
  have k: "k \<noteq> []" "delim \<notin> set k" "length k < 50" "is_cstring k"
    using assms kv by (auto simp: option_ok_def good_key_def HASH_KEY_MAX_LEN_def)
  have val: "length (option_value kv) < 50" "is_cstring (option_value kv)"
    using assms kv
    by (auto simp: option_ok_def option_value_def good_key_def HASH_KEY_MAX_LEN_def bytes_def
        is_cstring_def split: option.splits)
  have "\<exists>rest. strtok (option_text kv) = Some (k, rest) \<and>
      (case strtok rest of None \<Rightarrow> bytes ''true'' | Some (p, _) \<Rightarrow> p) = option_value kv"
  proof (cases v)
    case None
    then show ?thesis using kv k strtok_word(1) [of k] by (simp add: option_text_def option_value_def)
  next
    case (Some w)
    then have "w \<noteq> []" "delim \<notin> set w" using assms kv by (auto simp: option_ok_def)
    with Some show ?thesis
      using kv k strtok_word [of k] strtok_word(1) [of w] by (simp add: option_text_def option_value_def)
  qed
  then obtain rest where r: "strtok (option_text kv) = Some (k, rest)"
      "(case strtok rest of None \<Rightarrow> bytes ''true'' | Some (p, _) \<Rightarrow> p) = option_value kv" by blast
  obtain a where a: "strncpy (uninit 50) k 50 = Inr a" "cstr a = Inr k"
    using strncpy_short [of k 50 "uninit 50"] k by auto
  obtain b where b: "strncpy (uninit 50) (option_value kv) 50 = Inr b" "cstr b = Inr (option_value kv)"
    using strncpy_short [of "option_value kv" 50 "uninit 50"] val by auto
  show ?thesis using r a b kv by (simp add: arg_step_def)
qed

lemma arg_fold_ok:
  "\<forall>kv \<in> set kvs. option_ok kv \<Longrightarrow>
     foldE arg_step ht (map option_text kvs) =
     foldE (\<lambda>t kv. insert_ht t (fst kv) (snd kv)) ht (map (\<lambda>kv. (fst kv, option_value kv)) kvs)"
  by (induction kvs arbitrary: ht) (auto simp: arg_step_ok intro!: bindE_cong)

definition options_of :: "(cstring \<times> cstring option) list \<Rightarrow> cstring \<Rightarrow> cstring option" where
  "options_of kvs = map_of (rev (map (\<lambda>kv. (fst kv, option_value kv)) kvs))"

lemma NewArg_ok:
  assumes "\<forall>kv \<in> set kvs. option_ok kv" and "length kvs \<le> 2 ^ 29"
  obtains arg where "NewArg (prog # map option_text kvs) = Inr arg"
    and "\<And>key. is_cstring key \<Longrightarrow> search (arg_ht arg) key = Inr (options_of kvs key)"
proof -
  let ?kvs = "map (\<lambda>kv. (fst kv, option_value kv)) kvs"
  have "card (dom (ht_map (NewHashTab :: cstring HashTab))) + length ?kvs \<le> 2 ^ 29"
    using assms(2) by (simp add: NewHashTab_ok(2))
  moreover have "\<forall>kv \<in> set ?kvs. good_key (fst kv)" using assms(1) by (auto simp: option_ok_def)
  ultimately obtain t where t: "foldE (\<lambda>t kv. insert_ht t (fst kv) (snd kv)) NewHashTab ?kvs = Inr t"
      "ht_inv t" "ht_map t = ht_map NewHashTab ++ map_of (rev ?kvs)"
    by (rule ht.put_list_ok [OF NewHashTab_ok(1)])
  have "NewArg (prog # map option_text kvs) = Inr \<lparr>arg_ht = t\<rparr>"
    using t(1) arg_fold_ok [OF assms(1)] by (simp add: NewArg_def)
  then show ?thesis
    using that t(3) ht.get_ok [OF t(2)] by (simp add: options_of_def NewHashTab_ok(2) rev_map)
qed

section \<open>Properties\<close>

text \<open>
  The options are found again: for arguments with keys and values of fewer than 50 bytes
  and no further \<open>=\<close>, \<open>NewArg\<close> succeeds, and \<open>getStr\<close> returns the value given last for a
  key, \<open>true\<close> for a key without a value, and \<open>NULL\<close> for a key that was not given.
\<close>
theorem options_found:
  assumes "\<forall>kv \<in> set kvs. option_ok kv" and "length kvs \<le> 2 ^ 29" and "is_cstring key"
  shows "\<exists>arg. NewArg (prog # map option_text kvs) = Inr arg \<and> getStr arg key = Inr (options_of kvs key)"
  by (rule NewArg_ok [OF assms(1,2), of prog]) (simp add: getStr_def assms(3))

theorem options_found_witness:
  "\<exists>arg. NewArg [bytes ''relay'', bytes ''port=53'', bytes ''--help''] = Inr arg \<and>
     getStr arg (bytes ''--help'') = Inr (Some (bytes ''true''))"
proof -
  have "\<exists>arg. NewArg (bytes ''relay'' # map option_text [(bytes ''port'', Some (bytes ''53'')), (bytes ''--help'', None)]) = Inr arg \<and>
     getStr arg (bytes ''--help'') = Inr (options_of [(bytes ''port'', Some (bytes ''53'')), (bytes ''--help'', None)] (bytes ''--help''))"
    by (rule options_found)
      (simp_all add: option_ok_def good_key_def HASH_KEY_MAX_LEN_def bytes_def is_cstring_def delim_def)
  then show ?thesis by (simp add: option_text_def options_of_def bytes_def delim_def option_value_def)
qed

text \<open>
  \<open>matchArg\<close> tests for a prefix, not for equality as its comment says: it is true of every
  option whose value starts with the text asked for.
\<close>
theorem matchArg_is_prefix_test:
  assumes "getStr arg key = Inr (Some (value @ suffix))"
  shows "matchArg arg key value = Inr True"
  using assms by (simp add: matchArg_def getStr_def strncmp_eq_def)

theorem matchArg_is_prefix_test_witness:
  "\<exists>arg. NewArg [bytes ''relay'', bytes ''debug=infomercial''] = Inr arg \<and>
     matchArg arg (bytes ''debug'') (bytes ''info'') = Inr True"
proof -
  let ?kvs = "[(bytes ''debug'', Some (bytes ''infomercial''))]"
  have "\<forall>kv \<in> set ?kvs. option_ok kv"
    by (simp add: option_ok_def good_key_def HASH_KEY_MAX_LEN_def bytes_def is_cstring_def delim_def)
  then obtain arg where "NewArg (bytes ''relay'' # map option_text ?kvs) = Inr arg"
      "\<And>key. is_cstring key \<Longrightarrow> search (arg_ht arg) key = Inr (options_of ?kvs key)"
    by (rule NewArg_ok [where prog = "bytes ''relay''"]) simp_all
  then have "NewArg [bytes ''relay'', bytes ''debug=infomercial''] = Inr arg"
      "getStr arg (bytes ''debug'') = Inr (Some (bytes ''info'' @ bytes ''mercial''))"
    by (simp_all add: getStr_def option_text_def options_of_def bytes_def delim_def option_value_def is_cstring_def)
  with matchArg_is_prefix_test [OF this(2)] show ?thesis by blast
qed

text \<open>
  An argument without a key (the empty string, or nothing but \<open>=\<close>) makes \<open>NewArg\<close> copy from
  the null pointer that \<open>strtok\<close> returns.
\<close>
theorem empty_option_null_pointer:
  assumes "set a \<subseteq> {of_char (CHR ''='')}"
  shows "NewArg (prog # a # rest) = Inl Bad_Pointer"
proof -
  have "dropWhile (\<lambda>c. c = delim) a = []" using assms by (auto simp: delim_def dropWhile_eq_Nil_conv)
  then show ?thesis by (simp add: NewArg_def arg_step_def strtok_def)
qed

theorem empty_option_null_pointer_witness: "NewArg [bytes ''relay'', bytes ''=''] = Inl Bad_Pointer"
  using empty_option_null_pointer [of "bytes ''=''" "bytes ''relay''" "[]"] by (simp add: bytes_def)

end
