(* ===== verification/Server.thy ===== *)
theory Server
  imports Cache Message_Hostile FileReader Clog Arg
begin

text \<open>
  The relay, \<open>server.c\<close>: the cached items, the handler of one request and the start-up. What the
  handler does to the outside is a list of events, the datagrams sent and the sockets opened and
  closed; what the DNS server behind the relay answers is a parameter. Every call of
  \<open>time(NULL)\<close> has its own reading, the value of a function \<open>clk\<close> at the number of the call; and
  one handler runs alone, between the calls of others. The lines the handler logs are left out,
  except for what \<open>showRequest\<close> reads to print them.
\<close>

section \<open>Data\<close>

definition STR_LEN :: nat where
  "STR_LEN = 128"

definition MAX_NUM :: nat where
  "MAX_NUM = 10"

definition BUFF_LEN :: nat where
  "BUFF_LEN = 1024"

record sockaddr_in =
  sin_port :: "16 word"
  sin_addr :: "32 word"

record arg =
  a_buff :: carr
  a_n :: nat
  a_cliAddr :: sockaddr_in

text \<open>
  An \<open>item\<close>: the addresses are kept in network byte order, as the four bytes they have in
  memory. \<open>sizeof(item)\<close> is that of a machine with 64-bit times.
\<close>

record item =
  it_name :: carr
  it_type :: byte
  it_num :: byte
  it_ipv4 :: "carr list"
  it_strVal :: "carr list"
  it_ddl :: int

definition item0 :: item where
  "item0 = \<lparr>it_name = zeroed STR_LEN, it_type = 0, it_num = 0, it_ipv4 = replicate MAX_NUM (zeroed 4),
     it_strVal = replicate MAX_NUM (zeroed (STR_LEN + 1)), it_ddl = 0\<rparr>"

definition RR0 :: RR where
  "RR0 = \<lparr>rr_name = zeroed MAX_LEN, rr_type = 0, rr_class = 0, rr_TTL = 0, rr_data_length = 0,
     rr_data = None, rr_data_type = STRING_TYPE, rr_string_data = zeroed MAX_LEN\<rparr>"

definition SIZEOF_ITEM :: nat where
  "SIZEOF_ITEM = 1472"

record server =
  sv_cache :: "item Cache"
  sv_reader :: file_reader
  sv_log :: log_state

section \<open>Items and records\<close>

definition key_type_name :: "int \<Rightarrow> cstring option" where
  "key_type_name type =
     (if type = 1 then Some (bytes ''A'')
      else if type = 28 then Some (bytes ''AAAA'')
      else if type = 5 then Some (bytes ''CNAME'')
      else if type = 2 then Some (bytes ''NS'')
      else None)"

definition calcKey :: "carr \<Rightarrow> int \<Rightarrow> carr \<Rightarrow> (carr \<times> bool) res" where
  "calcKey name type res =
     (if type \<le> 0 \<or> 30 \<le> type then Inr (res, False)
      else case key_type_name type of
        None \<Rightarrow> Inr (res, False)
      | Some t \<Rightarrow>
          bindE (cstr name) (\<lambda>s.
          bindE (store_word res (s @ bytes '':'' @ t)) (\<lambda>res. Inr (res, True))))"

definition Item2Msg_ipv4 :: "item \<Rightarrow> message \<times> RR \<Rightarrow> nat \<Rightarrow> (message \<times> RR) res" where
  "Item2Msg_ipv4 it = (\<lambda>(msg, rr) i.
     if length (it_ipv4 it) \<le> i then Inl Out_Of_Bounds
     else bindE (setRRData rr (it_ipv4 it ! i) 4) (\<lambda>rr.
          bindE (addRR msg rr ANSWER) (\<lambda>(msg, _). Inr (msg, rr))))"

definition Item2Msg_str :: "item \<Rightarrow> message \<times> RR \<Rightarrow> nat \<Rightarrow> (message \<times> RR) res" where
  "Item2Msg_str it = (\<lambda>(msg, rr) i.
     if length (it_strVal it) \<le> i then Inl Out_Of_Bounds
     else bindE (setRRNameData rr (it_strVal it ! i)) (\<lambda>rr.
          bindE (addRR msg rr ANSWER) (\<lambda>(msg, _). Inr (msg, rr))))"

definition Item2Msg :: "message \<Rightarrow> item \<Rightarrow> carr \<Rightarrow> int \<Rightarrow> message res" where
  "Item2Msg msg it name now =
     bindE (setRRName RR0 name) (\<lambda>rr.
     let rr = rr\<lparr>rr_type := ucast (it_type it), rr_class := CLASS_IN,
                 rr_TTL := word_of_int (it_ddl it - now)\<rparr>
     in if it_type it = 1 then
          bindE (rd32 (it_ipv4 it ! 0) 0) (\<lambda>addr.
          if addr = 0 then Inr (setRCODE msg RCODE_NAME_ERR)
          else bindE (foldE (Item2Msg_ipv4 it) (msg, rr) [0..<unat (it_num it)]) (\<lambda>(msg, _). Inr msg))
        else
          bindE (foldE (Item2Msg_str it) (msg, rr) [0..<unat (it_num it)]) (\<lambda>(msg, _). Inr msg))"

definition addRR2Item :: "item \<Rightarrow> RR \<Rightarrow> int \<Rightarrow> item res" where
  "addRR2Item it rr now =
     bindE (strncpy_arr (it_name it) (rr_name rr) STR_LEN) (\<lambda>name.
     let it = it\<lparr>it_type := ucast (rr_type rr), it_name := name,
                 it_ddl := uint (rr_TTL rr) + now\<rparr>;
         i = unat (it_num it);
         it' = it\<lparr>it_num := it_num it + 1\<rparr>
     in if it_type it = 1 then
          (case rr_data rr of
             None \<Rightarrow> Inl Bad_Pointer
           | Some data \<Rightarrow>
               bindE (rd_block data 0 4) (\<lambda>d.
               if length (it_ipv4 it) \<le> i then Inl Out_Of_Bounds
               else Inr (it'\<lparr>it_ipv4 := (it_ipv4 it)[i := d]\<rparr>)))
        else if length (it_strVal it) \<le> i then Inl Out_Of_Bounds
        else bindE (strncpy_arr (it_strVal it ! i) (rr_string_data rr) STR_LEN) (\<lambda>d.
             Inr (it'\<lparr>it_strVal := (it_strVal it)[i := d]\<rparr>)))"

text \<open>A key that \<open>calcKey\<close> rejects stays uninitialised, and the cache reads it all the same.\<close>

definition getItem :: "item Cache \<Rightarrow> carr \<Rightarrow> int \<Rightarrow> int \<Rightarrow> (item Cache \<times> item option) res" where
  "getItem c name type now =
     bindE (calcKey name type (uninit 501)) (\<lambda>(key, _).
     bindE (cstr key) (\<lambda>k. CacheGet c k now))"

text \<open>\<open>putItem\<close> reads the clock twice, itself and in \<open>CachePut\<close>.\<close>

definition putItem :: "item Cache \<Rightarrow> carr \<Rightarrow> int \<Rightarrow> item \<Rightarrow> int \<Rightarrow> int \<Rightarrow> item Cache res" where
  "putItem c name type it now now' =
     (if it_type it = 0 then Inr c
      else
        bindE (calcKey name type (uninit 501)) (\<lambda>(key, _).
        bindE (cstr key) (\<lambda>k. CachePut c k it SIZEOF_ITEM (it_ddl it - now) now')))"

definition show_type_name :: "16 word \<Rightarrow> string" where
  "show_type_name t =
     (if t = TYPE_A then ''A'' else if t = TYPE_CNAME then ''CNAME'' else if t = TYPE_NS then ''NS''
      else if t = TYPE_AAAA then ''AAAA'' else if t = TYPE_PTR then ''PTR'' else ''???'')"

definition showRequest :: "log_state \<Rightarrow> message \<Rightarrow> clog_level \<Rightarrow> string res" where
  "showRequest lg msg level =
     bindE (ques_at msg 0) (\<lambda>q.
     if 50 \<le> q_type q then Inl Out_Of_Bounds
     else if clog_log lg level [] = [] then Inr []
     else bindE (cstr (q_name q)) (\<lambda>s.
       Inr (clog_log lg level (''request for:'' @ chars s @ '' type:'' @ show_type_name (q_type q)))))"

section \<open>Addresses in text\<close>

text \<open>
  \<open>inet_pton\<close> for \<open>AF_INET\<close>: four decimal numbers up to 255 without leading zeros, apart by
  dots; anything else is refused and the destination stays as it was.
\<close>

fun split_dots :: "cstring \<Rightarrow> cstring list" where
  "split_dots [] = [[]]"
| "split_dots (c # s) =
     (if c = of_char (CHR ''.'') then [] # split_dots s
      else case split_dots s of [] \<Rightarrow> [[c]] | p # ps \<Rightarrow> (c # p) # ps)"

definition octet :: "cstring \<Rightarrow> byte option" where
  "octet s =
     (if s \<noteq> [] \<and> list_all is_digit s \<and> (hd s = 48 \<longrightarrow> s = [48]) \<and> digits_value s \<le> 255
      then Some (word_of_int (digits_value s)) else None)"

fun all_some :: "'a option list \<Rightarrow> 'a list option" where
  "all_some [] = Some []"
| "all_some (None # xs) = None"
| "all_some (Some x # xs) = map_option ((#) x) (all_some xs)"

definition inet_pton :: "cstring \<Rightarrow> byte list option" where
  "inet_pton s =
     (let ps = split_dots s in if length ps = 4 then all_some (map octet ps) else None)"

section \<open>The handler\<close>

datatype event = To_Client carr sockaddr_in | To_Server carr | Socket_Open | Socket_Close

text \<open>What becomes of a query sent on: it is not sent, nothing comes back in four seconds, or a datagram does.\<close>

datatype net_result = Send_Failed | No_Answer | Answer cstring

text \<open>\<open>encode\<close>, \<open>sendto\<close> and \<open>destroyMsg\<close> at the end of every branch that answers by itself.\<close>

definition send_reply :: "message \<Rightarrow> sockaddr_in \<Rightarrow> event res" where
  "send_reply msg cli =
     bindE (encode msg (uninit BUFF_LEN)) (\<lambda>(msg, buf, n).
     bindE (rd_block buf 0 n) (\<lambda>d.
     bindE (destroyMsg msg) (\<lambda>_. Inr (To_Client d cli))))"

text \<open>The first part, the cache: the items of the name and type, or a \<open>CNAME\<close> and the address of its target.\<close>

definition answer_from_cache ::
  "(nat \<Rightarrow> int) \<Rightarrow> item Cache \<Rightarrow> message \<Rightarrow> carr \<Rightarrow> 16 word \<Rightarrow> (item Cache \<times> message option) res" where
  "answer_from_cache clk c msg name qtype =
     (if qtype = TYPE_A \<or> qtype = TYPE_NS \<or> qtype = TYPE_CNAME then
        bindE (getItem c name (uint qtype) (clk 0)) (\<lambda>(c, r). case r of
          Some it \<Rightarrow> bindE (Item2Msg msg it (it_name it) (clk 1)) (\<lambda>msg. Inr (c, Some msg))
        | None \<Rightarrow>
            if qtype = TYPE_A then
              bindE (getItem c name (uint TYPE_CNAME) (clk 1)) (\<lambda>(c, r). case r of
                None \<Rightarrow> Inr (c, None)
              | Some it \<Rightarrow>
                  bindE (getItem c (it_strVal it ! 0) (uint TYPE_A) (clk 2)) (\<lambda>(c, r). case r of
                    None \<Rightarrow> Inr (c, None)
                  | Some tit \<Rightarrow>
                      bindE (Item2Msg msg it (it_name it) (clk 3)) (\<lambda>msg.
                      bindE (Item2Msg msg tit (it_name tit) (clk 4)) (\<lambda>msg. Inr (c, Some msg)))))
            else Inr (c, None))
      else Inr (c, None))"

text \<open>The second part, the host file. An address that \<open>inet_pton\<close> refuses leaves \<open>tmpAddr\<close> uninitialised.\<close>

definition local_RR :: "carr \<Rightarrow> carr \<Rightarrow> RR res" where
  "local_RR name ip =
     bindE (cstr ip) (\<lambda>s.
     let addr = (case inet_pton s of None \<Rightarrow> uninit 4 | Some bs \<Rightarrow> map Some bs);
         r = RR0\<lparr>rr_type := TYPE_A, rr_class := CLASS_IN, rr_TTL := 600000\<rparr>
     in bindE (setRRName r name) (\<lambda>r. setRRData r addr 4))"

definition answer_from_file ::
  "(nat \<Rightarrow> int) \<Rightarrow> server \<Rightarrow> message \<Rightarrow> carr \<Rightarrow> 16 word \<Rightarrow> (server \<times> message option) res" where
  "answer_from_file clk sv msg name qtype =
     (if qtype = TYPE_A then
        bindE (file_reader_get_a_record (sv_reader sv) name (uninit 17)) (\<lambda>x. case x of
          None \<Rightarrow> Inr (sv, None)
        | Some (fr, ip) \<Rightarrow>
            bindE (local_RR name ip) (\<lambda>r.
            bindE (addRR2Item item0 r (clk 5)) (\<lambda>tmp.
            bindE (putItem (sv_cache sv) (it_name tmp) (uint TYPE_A) tmp (clk 6) (clk 7)) (\<lambda>c.
            bindE (Item2Msg msg tmp (it_name tmp) (clk 8)) (\<lambda>msg.
            Inr (sv\<lparr>sv_cache := c, sv_reader := fr\<rparr>, Some msg))))))
      else Inr (sv, None))"

text \<open>What is cached of an answer: its answer section, by type.\<close>

definition sort_answer ::
  "(nat \<Rightarrow> int) \<Rightarrow> message \<Rightarrow> item \<times> item \<times> item \<Rightarrow> nat \<Rightarrow> (item \<times> item \<times> item) res" where
  "sort_answer clk msg = (\<lambda>(Ait, Nit, Cit) i.
     bindE (rr_at msg ANSWER i) (\<lambda>rr.
     if rr_type rr = TYPE_A then bindE (addRR2Item Ait rr (clk i)) (\<lambda>Ait. Inr (Ait, Nit, Cit))
     else if rr_type rr = TYPE_NS then bindE (addRR2Item Nit rr (clk i)) (\<lambda>Nit. Inr (Ait, Nit, Cit))
     else if rr_type rr = TYPE_CNAME then bindE (addRR2Item Cit rr (clk i)) (\<lambda>Cit. Inr (Ait, Nit, Cit))
     else Inr (Ait, Nit, Cit)))"

definition cache_answer :: "(nat \<Rightarrow> int) \<Rightarrow> item Cache \<Rightarrow> message \<Rightarrow> item Cache res" where
  "cache_answer clk c msg =
     bindE (foldE (sort_answer (\<lambda>i. clk (15 + i)) msg) (item0, item0, item0)
              [0..<unat (msg_RR_count msg ! ANSWER)]) (\<lambda>(Ait, Nit, Cit).
     bindE (destroyMsg msg) (\<lambda>_.
     bindE (putItem c (it_name Ait) (uint (it_type Ait)) Ait (clk 9) (clk 10)) (\<lambda>c.
     bindE (putItem c (it_name Nit) (uint (it_type Nit)) Nit (clk 11) (clk 12)) (\<lambda>c.
     putItem c (it_name Cit) (uint (it_type Cit)) Cit (clk 13) (clk 14)))))"

text \<open>The third part, the relay. The two error paths answer with \<open>SERVER_FAILURE\<close> and return.\<close>

definition fail_reply :: "message \<Rightarrow> sockaddr_in \<Rightarrow> event res" where
  "fail_reply msg cli = send_reply (setRCODE (setResp msg) RCODE_SERVER_FAILURE) cli"

definition relay ::
  "(carr \<Rightarrow> net_result) \<Rightarrow> (nat \<Rightarrow> int) \<Rightarrow> server \<Rightarrow> arg \<Rightarrow> message \<Rightarrow> (server \<times> event list) run" where
  "relay net clk sv parg msg =
     bindR (Some (rd_block (a_buff parg) 0 (a_n parg))) (\<lambda>req.
     case net req of
       Send_Failed \<Rightarrow>
         bindR (Some (showRequest (sv_log sv) msg CLOG_LEVEL_INFO)) (\<lambda>_.
         bindR (Some (fail_reply msg (a_cliAddr parg))) (\<lambda>e. Some (Inr (sv, [Socket_Open, e]))))
     | No_Answer \<Rightarrow>
         bindR (Some (fail_reply msg (a_cliAddr parg))) (\<lambda>e.
         Some (Inr (sv, [Socket_Open, To_Server req, e])))
     | Answer ans \<Rightarrow>
         let n = min BUFF_LEN (length ans);
             buff = map Some (take n ans) @ uninit (BUFF_LEN - n)
         in bindR (Some (rd_block buff 0 n)) (\<lambda>d.
            bindR (Some (destroyMsg msg)) (\<lambda>_.
            bindR (decode buff) (\<lambda>reply.
            bindR (Some (cache_answer clk (sv_cache sv) reply)) (\<lambda>c.
            Some (Inr (sv\<lparr>sv_cache := c\<rparr>,
              [Socket_Open, To_Server req, Socket_Close, To_Client d (a_cliAddr parg)])))))))"

text \<open>The reply before any answer: the request, marked as a response, without its additional section.\<close>

definition start_reply :: "log_state \<Rightarrow> carr \<Rightarrow> message run" where
  "start_reply lg buff =
     bindR (decode buff) (\<lambda>msg.
     bindR (Some (releaseAdditionalRR msg)) (\<lambda>msg.
     let msg = setFlag (setResp msg) FLAG_RA
     in bindR (Some (showRequest lg msg CLOG_LEVEL_INFO)) (\<lambda>_. Some (Inr msg))))"

text \<open>The rest of the handler, with the name and the type that the first question asks for.\<close>

definition handle_query ::
  "(carr \<Rightarrow> net_result) \<Rightarrow> (nat \<Rightarrow> int) \<Rightarrow> server \<Rightarrow> arg \<Rightarrow> message \<Rightarrow> carr \<Rightarrow> 16 word \<Rightarrow>
     (server \<times> event list) run" where
  "handle_query net clk sv parg msg name qtype =
     bindR (Some (answer_from_cache clk (sv_cache sv) msg name qtype)) (\<lambda>(c, r).
     let sv = sv\<lparr>sv_cache := c\<rparr> in
     case r of
       Some msg \<Rightarrow> bindR (Some (send_reply msg (a_cliAddr parg))) (\<lambda>e. Some (Inr (sv, [e])))
     | None \<Rightarrow>
         bindR (Some (answer_from_file clk sv msg name qtype)) (\<lambda>(sv, r). case r of
           Some msg \<Rightarrow> bindR (Some (send_reply msg (a_cliAddr parg))) (\<lambda>e. Some (Inr (sv, [e])))
         | None \<Rightarrow> relay net clk sv parg msg))"

definition handler ::
  "(carr \<Rightarrow> net_result) \<Rightarrow> (nat \<Rightarrow> int) \<Rightarrow> server \<Rightarrow> arg \<Rightarrow> (server \<times> event list) run" where
  "handler net clk sv parg =
     bindR (start_reply (sv_log sv) (a_buff parg)) (\<lambda>msg.
     bindR (Some (ques_at msg 0)) (\<lambda>q.
     bindR (Some (strncpy_arr (uninit STR_LEN) (q_name q) STR_LEN)) (\<lambda>name.
     handle_query net clk sv parg msg name (q_type q))))"

section \<open>Start-up\<close>

record config =
  cf_poolsize :: int
  cf_debug :: clog_level
  cf_port :: "16 word"
  cf_cachesize :: int
  cf_reader :: file_reader
  cf_dns :: "byte list"

text \<open>The program prints the manual, or ends for want of an option or a file, or serves.\<close>

datatype startup = Show_Help | Exit_Early | Serve config

definition pool_size :: "int \<Rightarrow> int" where
  "pool_size n =
     (let poolsize = (if n = 0 then 10 else n) in if 150 < poolsize then 150 else poolsize)"

definition debug_level :: "Arg \<Rightarrow> clog_level res" where
  "debug_level ar =
     bindE (matchArg ar (bytes ''debug'') (bytes ''trace'')) (\<lambda>m.
     if m then Inr CLOG_LEVEL_TRACE else
     bindE (matchArg ar (bytes ''debug'') (bytes ''debug'')) (\<lambda>m.
     if m then Inr CLOG_LEVEL_DEBUG else
     bindE (matchArg ar (bytes ''debug'') (bytes ''info'')) (\<lambda>m.
     if m then Inr CLOG_LEVEL_INFO else
     bindE (matchArg ar (bytes ''debug'') (bytes ''warn'')) (\<lambda>m.
     if m then Inr CLOG_LEVEL_WARN else
     bindE (matchArg ar (bytes ''debug'') (bytes ''error'')) (\<lambda>m.
     if m then Inr CLOG_LEVEL_ERROR else
     bindE (matchArg ar (bytes ''debug'') (bytes ''fatal'')) (\<lambda>m.
     if m then Inr CLOG_LEVEL_FATAL else Inr CLOG_LEVEL_INFO))))))"

definition listen_port :: "int \<Rightarrow> 16 word" where
  "listen_port n = (let PORT = word_of_int n in if PORT = 0 then 53 else PORT)"

definition cache_size :: "int \<Rightarrow> int" where
  "cache_size n = (if n \<le> 0 then 1024 else n)"

text \<open>
  \<open>main\<close> up to its loop, on the files of the file system. The sockets it opens are taken to be
  there; \<open>Socket\<close> and \<open>Bind\<close> end the program otherwise.
\<close>

definition main_start :: "(cstring \<Rightarrow> cstring option) \<Rightarrow> cstring list \<Rightarrow> startup res" where
  "main_start files argv =
     bindE (NewArg argv) (\<lambda>ar.
     bindE (matchArg ar (bytes ''--help'') (bytes ''true'')) (\<lambda>help.
     if help then Inr Show_Help else
     bindE (getInt ar (bytes ''poolsize'')) (\<lambda>poolsize.
     bindE (debug_level ar) (\<lambda>debugLev.
     bindE (getInt ar (bytes ''port'')) (\<lambda>port.
     bindE (getInt ar (bytes ''cachesize'')) (\<lambda>cachesize.
     bindE (getStr ar (bytes ''localfile'')) (\<lambda>p. case p of
       None \<Rightarrow> Inr Exit_Early
     | Some p \<Rightarrow>
         (case files p of
            None \<Rightarrow> Inr Exit_Early
          | Some contents \<Rightarrow>
              bindE (file_reader_alloc contents) (\<lambda>reader.
              bindE (getStr ar (bytes ''dns'')) (\<lambda>p. case p of
                None \<Rightarrow> Inr Exit_Early
              | Some p \<Rightarrow>
                  (case inet_pton p of
                     None \<Rightarrow> Inr Exit_Early
                   | Some ip \<Rightarrow>
                       Inr (Serve \<lparr>cf_poolsize = pool_size poolsize, cf_debug = debugLev,
                              cf_port = listen_port port, cf_cachesize = cache_size cachesize,
                              cf_reader = reader, cf_dns = ip\<rparr>))))))))))))"

definition start_state :: "config \<Rightarrow> server" where
  "start_state cf =
     \<lparr>sv_cache = CreateCache (cf_cachesize cf) None, sv_reader = cf_reader cf,
      sv_log = clog_set_level log_state0 (cf_debug cf)\<rparr>"

text \<open>One round of the loop: what a received datagram becomes for the handler.\<close>

definition receive :: "cstring \<Rightarrow> sockaddr_in \<Rightarrow> arg" where
  "receive dgram cli =
     (let n = min BUFF_LEN (length dgram)
      in \<lparr>a_buff = map Some (take n dgram) @ uninit (BUFF_LEN - n), a_n = n, a_cliAddr = cli\<rparr>)"

end
