(* ===== verification/Server_Items.thy ===== *)
theory Server_Items
  imports Server
begin

text \<open>
  What the cached items of the server stand for, and that \<open>Item2Msg\<close> and \<open>addRR2Item\<close> carry
  records from items into messages and from messages into items as they should.
\<close>

section \<open>The answer section of a message grows\<close>

lemma three_lists: "length xs = 3 \<Longrightarrow> \<exists>a b c. xs = [a, b, c]"
  by (auto simp: numeral_eq_Suc length_Suc_conv)

lemma less_3_cases: "(\<forall>s < (3::nat). P s) \<longleftrightarrow> P 0 \<and> P 1 \<and> P 2"
  by (auto simp: numeral_eq_Suc less_Suc_eq)

definition with_answers :: "packet \<Rightarrow> rr_val list \<Rightarrow> packet" where
  "with_answers pk rs = pk\<lparr>pk_rrs := (pk_rrs pk)[0 := pk_rrs pk ! 0 @ rs]\<rparr>"

lemma addRR_answer:
  assumes sh: "msg_shape msg" and v: "message_view msg = Inr pk" and room: "length (pk_rrs pk ! 0) < MAX_SIZE"
    and rv: "rr_view rr = Inr w"
  obtains msg' where "addRR msg rr ANSWER = Inr (msg', 1)" and "msg_shape msg'"
    and "message_view msg' = Inr (with_answers pk [w])" and "msg_flag msg' = msg_flag msg"
proof -
  note pv = v [unfolded message_view_iff]
  let ?n = "msg_RR_count msg ! 0"
  have n: "unat ?n = length (pk_rrs pk ! 0)" using pv by auto
  then have n32: "unat ?n < 32" using room by (simp add: MAX_SIZE_def)
  let ?m = "msg\<lparr>msg_resourse_record := (msg_resourse_record msg)
      [0 := (msg_resourse_record msg ! 0)[unat ?n := Some rr]], msg_RR_count := (msg_RR_count msg)[0 := ?n + 1]\<rparr>"
  let ?m' = "msg\<lparr>msg_resourse_record := (msg_resourse_record msg)
      [0 := (msg_resourse_record msg ! 0)[unat ?n := Some rr]]\<rparr>"
  have sh': "length (msg_RR_count msg) = 3" "length (msg_resourse_record msg) = 3"
      "\<forall>s < 3. length (msg_resourse_record msg ! s) = MAX_SIZE" "length (msg_ques msg) = MAX_SIZE"
    using sh by (simp_all add: msg_shape_def)
  have "\<not> (32 :: 16 word) \<le> ?n" using n32 by (simp add: word_le_nat_alt)
  then have add: "addRR msg rr ANSWER = Inr (?m, 1)"
    using sh'(1) by (simp add: addRR_def ANSWER_def Let_def MAX_SIZE_def)
  have suc: "unat (?n + 1) = Suc (unat ?n)" using n32 by (simp add: unat_word_ariths)
  have at: "rr_at ?m s j = (if s = 0 \<and> j = unat ?n then Inr rr else rr_at msg s j)" for s j
  proof -
    have "rr_at ?m s j = rr_at ?m' s j" by (simp add: rr_at_def)
    then show ?thesis using rr_at_store [of 0 msg "unat ?n" rr s j] sh' n32 by (simp add: MAX_SIZE_def)
  qed
  have q: "ques_at ?m = ques_at msg" by (simp add: ques_at_def fun_eq_iff)
  have l: "length (pk_rrs pk) = 3" using pv by auto
  have "message_view ?m = Inr (with_answers pk [w])"
    unfolding message_view_iff q at using pv rv n suc l sh'(1)
    by (auto simp: with_answers_def less_3_cases nth_append less_Suc_eq)
  moreover have "msg_shape ?m"
    using sh' by (auto simp: msg_shape_def nth_list_update)
  ultimately show ?thesis using that [OF add] by simp
qed

section \<open>What an item stands for\<close>

text \<open>The name, the type and the data of its records, and when they expire.\<close>

record item_val =
  iv_name :: cstring
  iv_type :: byte
  iv_data :: "rdata list"
  iv_ddl :: int

definition slot_is :: "item \<Rightarrow> nat \<Rightarrow> rdata \<Rightarrow> bool" where
  "slot_is it i d \<longleftrightarrow>
     (case d of
        Rd_Bytes bs \<Rightarrow> it_type it = 1 \<and> length bs = 4 \<and> it_ipv4 it ! i = map Some bs
      | Rd_Name s \<Rightarrow> it_type it \<noteq> 1 \<and> cstr (it_strVal it ! i) = Inr s)"

definition item_is :: "item \<Rightarrow> item_val \<Rightarrow> bool" where
  "item_is it iv \<longleftrightarrow> cstr (it_name it) = Inr (iv_name iv) \<and> it_type it = iv_type iv \<and>
     it_ddl it = iv_ddl iv \<and> unat (it_num it) = length (iv_data iv) \<and> length (iv_data iv) \<le> MAX_NUM \<and>
     length (it_name it) = STR_LEN \<and> length (it_ipv4 it) = MAX_NUM \<and> length (it_strVal it) = MAX_NUM \<and>
     (\<forall>i < MAX_NUM. length (it_strVal it ! i) = STR_LEN + 1) \<and>
     (\<forall>i < length (iv_data iv). slot_is it i (iv_data iv ! i))"

definition item_rr :: "item_val \<Rightarrow> int \<Rightarrow> rdata \<Rightarrow> rr_val" where
  "item_rr iv now d = \<lparr>rv_name = iv_name iv, rv_type = ucast (iv_type iv), rv_class = CLASS_IN,
     rv_TTL = word_of_int (iv_ddl iv - now), rv_data = d\<rparr>"

definition blocked :: "item_val \<Rightarrow> bool" where
  "blocked iv \<longleftrightarrow> iv_type iv = 1 \<and> iv_data iv \<noteq> [] \<and> hd (iv_data iv) = Rd_Bytes [0, 0, 0, 0]"

lemma strncpy_arr_ok:
  assumes "cstr src = Inr s" and "length s < n" and "n \<le> length dst"
  obtains a where "strncpy_arr dst src n = Inr a" and "length a = length dst" and "cstr a = Inr s"
proof -
  obtain a where "strncpy dst s n = Inr a" "length a = length dst" "cstr a = Inr s"
    by (rule strncpy_short [OF assms(2,3) cstr_is_cstring [OF assms(1)]])
  then show ?thesis
    using that cstrn_cstr [OF assms(1), of n] assms(2) by (simp add: strncpy_arr_def)
qed

definition rr_head :: "RR \<Rightarrow> item_val \<Rightarrow> int \<Rightarrow> bool" where
  "rr_head rr iv now \<longleftrightarrow> cstr (rr_name rr) = Inr (iv_name iv) \<and> rr_type rr = ucast (iv_type iv) \<and>
     rr_class rr = CLASS_IN \<and> rr_TTL rr = word_of_int (iv_ddl iv - now) \<and>
     length (rr_string_data rr) = MAX_LEN"

lemma rd_block_all [simp]: "rd_block d 0 (length d) = Inr d"
  by (simp add: rd_block_def)

lemma all_init [simp]:
  "mapE (\<lambda>b. case b of None \<Rightarrow> Inl Uninit_Read | Some b \<Rightarrow> Inr b) (map Some bs) = Inr bs"
  using init_bytes by metis

text \<open>One round of the two loops of \<open>Item2Msg\<close>: the record it builds, and that it is added.\<close>

lemma Item2Msg_ipv4_round:
  assumes it: "item_is it iv" and slot: "slot_is it n (Rd_Bytes bs)" "n < MAX_NUM" and hd: "rr_head r iv now"
  shows "\<exists>r'. Item2Msg_ipv4 it (m, r) n = bindE (addRR m r' ANSWER) (\<lambda>(msg, _). Inr (msg, r')) \<and>
    rr_view r' = Inr (item_rr iv now (Rd_Bytes bs)) \<and> rr_head r' iv now"
proof -
  have s: "length bs = 4" "it_ipv4 it ! n = map Some bs" and len: "length (it_ipv4 it) = MAX_NUM"
    using slot(1) it by (simp_all add: slot_is_def item_is_def)
  let ?r = "r\<lparr>rr_data_length := 4, rr_data := Some (map Some bs), rr_data_type := BINARY_TYPE\<rparr>"
  have "rd_block (map Some bs) 0 4 = Inr (map Some bs)" using s(1) rd_block_all [of "map Some bs"] by simp
  then have "setRRData r (it_ipv4 it ! n) 4 = Inr ?r" "data_view ?r = Inr (Rd_Bytes bs)"
    using s by (simp_all add: setRRData_def data_view_def)
  then show ?thesis
    using len slot(2) hd by (intro exI [of _ ?r]) (simp add: Item2Msg_ipv4_def rr_view_def rr_head_def item_rr_def)
qed

lemma Item2Msg_str_round:
  assumes it: "item_is it iv" and slot: "slot_is it n (Rd_Name s)" "n < MAX_NUM" and hd: "rr_head r iv now"
  shows "\<exists>r'. Item2Msg_str it (m, r) n = bindE (addRR m r' ANSWER) (\<lambda>(msg, _). Inr (msg, r')) \<and>
    rr_view r' = Inr (item_rr iv now (Rd_Name s)) \<and> rr_head r' iv now"
proof -
  have s: "cstr (it_strVal it ! n) = Inr s" and len: "length (it_strVal it) = MAX_NUM"
      "length (it_strVal it ! n) = STR_LEN + 1"
    using slot it by (simp_all add: slot_is_def item_is_def)
  have "length s < MAX_LEN" "MAX_LEN \<le> length (rr_string_data r)"
    using cstr_length [OF s] len(2) hd by (simp_all add: STR_LEN_def MAX_LEN_def rr_head_def)
  then obtain a where a: "strncpy_arr (rr_string_data r) (it_strVal it ! n) MAX_LEN = Inr a"
      "length a = length (rr_string_data r)" "cstr a = Inr s"
    by (rule strncpy_arr_ok [OF s])
  let ?r = "r\<lparr>rr_data := None, rr_data_type := STRING_TYPE, rr_string_data := a\<rparr>"
  have "setRRNameData r (it_strVal it ! n) = Inr ?r" "data_view ?r = Inr (Rd_Name s)"
    using a by (simp_all add: setRRNameData_def data_view_def)
  then show ?thesis
    using len slot(2) hd a(2) by (intro exI [of _ ?r]) (simp add: Item2Msg_str_def rr_view_def rr_head_def item_rr_def)
qed

lemma Item2Msg_round:
  assumes it: "item_is it iv" and n: "n < length (iv_data iv)" and hd: "rr_head r iv now"
    and sh: "msg_shape m" and v: "message_view m = Inr pk" and room: "length (pk_rrs pk ! 0) < MAX_SIZE"
  shows "\<exists>m' r'. (if it_type it = 1 then Item2Msg_ipv4 it else Item2Msg_str it) (m, r) n = Inr (m', r') \<and>
    rr_head r' iv now \<and> msg_shape m' \<and> msg_flag m' = msg_flag m \<and>
    message_view m' = Inr (with_answers pk [item_rr iv now (iv_data iv ! n)])"
proof -
  have slot: "slot_is it n (iv_data iv ! n)" "n < MAX_NUM" using it n by (auto simp: item_is_def)
  have "\<exists>r'. (if it_type it = 1 then Item2Msg_ipv4 it else Item2Msg_str it) (m, r) n =
      bindE (addRR m r' ANSWER) (\<lambda>(msg, _). Inr (msg, r')) \<and>
      rr_view r' = Inr (item_rr iv now (iv_data iv ! n)) \<and> rr_head r' iv now"
  proof (cases "iv_data iv ! n")
    case (Rd_Name s)
    then have "it_type it \<noteq> 1" using slot(1) by (simp add: slot_is_def)
    then show ?thesis using Item2Msg_str_round [OF it slot(1) [unfolded Rd_Name] slot(2) hd] Rd_Name by simp
  next
    case (Rd_Bytes bs)
    then have "it_type it = 1" using slot(1) by (simp add: slot_is_def)
    then show ?thesis using Item2Msg_ipv4_round [OF it slot(1) [unfolded Rd_Bytes] slot(2) hd] Rd_Bytes by simp
  qed
  then obtain r' where r': "(if it_type it = 1 then Item2Msg_ipv4 it else Item2Msg_str it) (m, r) n =
      bindE (addRR m r' ANSWER) (\<lambda>(msg, _). Inr (msg, r'))"
      "rr_view r' = Inr (item_rr iv now (iv_data iv ! n))" "rr_head r' iv now" by blast
  obtain m' where "addRR m r' ANSWER = Inr (m', 1)" "msg_shape m'"
      "message_view m' = Inr (with_answers pk [item_rr iv now (iv_data iv ! n)])" "msg_flag m' = msg_flag m"
    by (rule addRR_answer [OF sh v room r'(2)])
  with r' show ?thesis by simp
qed

lemma Item2Msg_loop:
  assumes it: "item_is it iv" and sh: "msg_shape msg" and v: "message_view msg = Inr pk"
    and room: "length (pk_rrs pk ! 0) + length (iv_data iv) \<le> MAX_SIZE" and hd: "rr_head rr iv now"
    and n: "n \<le> length (iv_data iv)"
  shows "\<exists>msg' rr'. foldE (if it_type it = 1 then Item2Msg_ipv4 it else Item2Msg_str it) (msg, rr) [0..<n] =
      Inr (msg', rr') \<and> rr_head rr' iv now \<and> msg_shape msg' \<and> msg_flag msg' = msg_flag msg \<and>
      message_view msg' = Inr (with_answers pk (map (item_rr iv now) (take n (iv_data iv))))"
  using n
proof (induction n)
  case 0
  have "with_answers pk [] = pk" by (simp add: with_answers_def)
  then show ?case using sh v hd by simp
next
  case (Suc n)
  let ?pk = "with_answers pk (map (item_rr iv now) (take n (iv_data iv)))"
  let ?step = "if it_type it = 1 then Item2Msg_ipv4 it else Item2Msg_str it"
  obtain m r where IH: "foldE ?step (msg, rr) [0..<n] = Inr (m, r)" "rr_head r iv now" "msg_shape m"
      "msg_flag m = msg_flag msg" "message_view m = Inr ?pk"
    using Suc by auto
  have l3: "length (pk_rrs pk) = 3" using v by (simp add: message_view_iff)
  have rm: "length (pk_rrs ?pk ! 0) < MAX_SIZE" using room Suc.prems l3 by (simp add: with_answers_def)
  have n: "n < length (iv_data iv)" using Suc.prems by simp
  obtain m' r' where "?step (m, r) n = Inr (m', r')" "rr_head r' iv now" "msg_shape m'" "msg_flag m' = msg_flag m"
      "message_view m' = Inr (with_answers ?pk [item_rr iv now (iv_data iv ! n)])"
    using Item2Msg_round [OF it n IH(2,3,5) rm] by blast
  moreover have "with_answers ?pk [item_rr iv now (iv_data iv ! n)] =
      with_answers pk (map (item_rr iv now) (take (Suc n) (iv_data iv)))"
    using l3 n by (simp add: with_answers_def take_Suc_conv_app_nth)
  ultimately show ?case using IH(1,4) by (simp add: foldE_append)
qed

lemma rd32_zero:
  assumes "length bs = 4"
  shows "\<exists>a. rd32 (map Some bs) 0 = Inr a \<and> (a = 0 \<longleftrightarrow> bs = [0, 0, 0, 0])"
proof -
  obtain a b c d where bs: "bs = [a, b, c, d]"
    using assms by (auto simp: numeral_eq_Suc length_Suc_conv)
  have r: "rd32 (map Some bs) 0 = Inr (be32 (be16 a b) (be16 c d))"
    by (simp add: bs rd32_def rd16_def rd8_def)
  have "a = 0 \<and> b = 0 \<and> c = 0 \<and> d = 0" if z: "be32 (be16 a b) (be16 c d) = 0"
  proof -
    have "be16 a b = hi16 0" "be16 c d = lo16 0" using be32_parts z by metis+
    then show ?thesis using be16_parts [of a b] be16_parts [of c d]
      by (simp add: hi16_def lo16_def hi8_def lo8_def)
  qed
  moreover have "be32 (be16 0 0) (be16 0 0) = 0" by (simp add: be32_def be16_def)
  ultimately show ?thesis using r bs by auto
qed

lemma flag_view:
  assumes "msg_shape msg" and "message_view msg = Inr pk"
  shows "msg_shape (msg\<lparr>msg_flag := f\<rparr>)" and "message_view (msg\<lparr>msg_flag := f\<rparr>) = Inr (pk\<lparr>pk_flag := f\<rparr>)"
proof -
  have "ques_at (msg\<lparr>msg_flag := f\<rparr>) = ques_at msg" "rr_at (msg\<lparr>msg_flag := f\<rparr>) = rr_at msg"
    by (simp_all add: ques_at_def rr_at_def fun_eq_iff)
  then show "message_view (msg\<lparr>msg_flag := f\<rparr>) = Inr (pk\<lparr>pk_flag := f\<rparr>)"
    using assms(2) unfolding message_view_iff by simp
  show "msg_shape (msg\<lparr>msg_flag := f\<rparr>)" using assms(1) by (simp add: msg_shape_def)
qed

definition name_error :: "packet \<Rightarrow> packet" where
  "name_error pk = pk\<lparr>pk_flag := or (pk_flag pk) (push_bit 8 (ucast (reverse8 3)))\<rparr>"

lemma setRCODE_view:
  assumes "msg_shape msg" and "message_view msg = Inr pk"
  shows "msg_shape (setRCODE msg RCODE_NAME_ERR)"
    and "message_view (setRCODE msg RCODE_NAME_ERR) = Inr (name_error pk)"
proof -
  have "msg_flag msg = pk_flag pk" using assms(2) by (simp add: message_view_iff)
  then show "msg_shape (setRCODE msg RCODE_NAME_ERR)"
      "message_view (setRCODE msg RCODE_NAME_ERR) = Inr (name_error pk)"
    using flag_view [OF assms] by (simp_all add: setRCODE_def Let_def RCODE_NAME_ERR_def name_error_def)
qed

text \<open>What \<open>Item2Msg\<close> makes of a reply.\<close>

definition answered :: "packet \<Rightarrow> item_val \<Rightarrow> int \<Rightarrow> packet" where
  "answered pk iv now =
     (if blocked iv then name_error pk else with_answers pk (map (item_rr iv now) (iv_data iv)))"

lemma Item2Msg_ok:
  assumes it: "item_is it iv" and ne: "iv_data iv \<noteq> []" and sh: "msg_shape msg" and v: "message_view msg = Inr pk"
    and room: "length (pk_rrs pk ! 0) + length (iv_data iv) \<le> MAX_SIZE"
  obtains msg' where "Item2Msg msg it (it_name it) now = Inr msg'" and "msg_shape msg'"
    and "message_view msg' = Inr (answered pk iv now)"
proof -
  have name: "cstr (it_name it) = Inr (iv_name iv)" "length (it_name it) = STR_LEN"
    and num: "unat (it_num it) = length (iv_data iv)" and ty: "it_type it = iv_type iv"
    using it by (simp_all add: item_is_def)
  have "length (iv_name iv) < MAX_LEN" "MAX_LEN \<le> length (rr_name RR0)"
    using cstr_length [OF name(1)] name(2) by (simp_all add: STR_LEN_def MAX_LEN_def RR0_def zeroed_def)
  then obtain a where a: "strncpy_arr (rr_name RR0) (it_name it) MAX_LEN = Inr a" "cstr a = Inr (iv_name iv)"
    using strncpy_arr_ok [OF name(1)] by metis
  define rr where "rr = RR0\<lparr>rr_name := a, rr_type := ucast (it_type it), rr_class := CLASS_IN,
      rr_TTL := word_of_int (it_ddl it - now)\<rparr>"
  have hd: "rr_head rr iv now"
    using it a(2) by (simp add: rr_head_def rr_def item_is_def RR0_def zeroed_def)
  obtain m r where m: "foldE (if it_type it = 1 then Item2Msg_ipv4 it else Item2Msg_str it) (msg, rr)
        [0..<length (iv_data iv)] = Inr (m, r)" "msg_shape m"
      "message_view m = Inr (with_answers pk (map (item_rr iv now) (iv_data iv)))"
    using Item2Msg_loop [OF it sh v room hd le_refl] by auto
  have run: "Item2Msg msg it (it_name it) now =
      (if it_type it = 1 then
         bindE (rd32 (it_ipv4 it ! 0) 0) (\<lambda>addr.
           if addr = 0 then Inr (setRCODE msg RCODE_NAME_ERR) else Inr m)
       else Inr m)"
    using a(1) num m(1)
    by (cases "it_type it = 1") (simp_all add: Item2Msg_def setRRName_def Let_def rr_def cong: if_cong)
  have slot: "slot_is it 0 (iv_data iv ! 0)" using it ne by (simp add: item_is_def)
  show ?thesis
  proof (cases "it_type it = 1")
    case True
    then obtain bs where bs: "iv_data iv ! 0 = Rd_Bytes bs" "length bs = 4" "it_ipv4 it ! 0 = map Some bs"
      using slot by (auto simp: slot_is_def split: rdata.splits)
    obtain addr where addr: "rd32 (map Some bs) 0 = Inr addr" "addr = 0 \<longleftrightarrow> bs = [0, 0, 0, 0]"
      using rd32_zero [OF bs(2)] by blast
    have "blocked iv \<longleftrightarrow> addr = 0"
      using True ty bs(1) ne addr(2) by (simp add: blocked_def hd_conv_nth)
    then show ?thesis
      using that run True bs(3) addr(1) m setRCODE_view [OF sh v] by (simp add: answered_def split: if_splits)
  next
    case False
    then have "\<not> blocked iv" using ty by (simp add: blocked_def)
    with False run m that show ?thesis by (simp add: answered_def)
  qed
qed

section \<open>Records into items\<close>

definition add_rv :: "item_val \<Rightarrow> rr_val \<Rightarrow> int \<Rightarrow> item_val" where
  "add_rv iv w now = \<lparr>iv_name = rv_name w, iv_type = ucast (rv_type w), iv_data = iv_data iv @ [rv_data w],
     iv_ddl = uint (rv_TTL w) + now\<rparr>"

text \<open>Records an item can hold: an address of four bytes, or a name that fits a slot.\<close>

definition storable :: "rr_val \<Rightarrow> bool" where
  "storable w \<longleftrightarrow> length (rv_name w) < STR_LEN \<and>
     (case rv_data w of
        Rd_Bytes bs \<Rightarrow> rv_type w = TYPE_A \<and> length bs = 4
      | Rd_Name s \<Rightarrow> (rv_type w = TYPE_NS \<or> rv_type w = TYPE_CNAME) \<and> length s < STR_LEN)"

lemma rr_view_type: "rr_view r = Inr w \<Longrightarrow> rv_type w = rr_type r"
  by (auto simp: rr_view_def bindE_Inr_iff)

lemma address_data:
  assumes "rr_view rr = Inr w" and "rv_data w = Rd_Bytes bs" and "length bs = 4"
  obtains d where "rr_data rr = Some d" and "rd_block d 0 4 = Inr (map Some bs)"
proof -
  have "data_view rr = Inr (Rd_Bytes bs)" using assms(1,2) by (auto simp: rr_view_def bindE_Inr_iff)
  then obtain d where d: "rr_data rr = Some d" "rd_block d 0 (unat (rr_data_length rr)) = Inr (map Some bs)"
    by (auto simp: data_view_def bindE_Inr_iff init_bytes split: data_type.splits option.splits)
  have "unat (rr_data_length rr) = 4" using rd_block_length [OF d(2)] assms(3) by simp
  then show ?thesis using that d by simp
qed

text \<open>An item with one more record: its fields are new, and of the slots only the last.\<close>

lemma item_is_added:
  assumes it: "item_is it iv" and w: "rr_view rr = Inr w"
    and ty: "iv_data iv = [] \<or> iv_type iv = ucast (rv_type w)" and room: "length (iv_data iv) < MAX_NUM"
    and f: "cstr (it_name it') = Inr (rv_name w)" "length (it_name it') = STR_LEN" "it_type it' = ucast (rr_type rr)"
      "it_num it' = it_num it + 1" "it_ddl it' = uint (rr_TTL rr) + now" "length (it_ipv4 it') = MAX_NUM"
      "length (it_strVal it') = MAX_NUM" "\<forall>i < MAX_NUM. length (it_strVal it' ! i) = STR_LEN + 1"
    and old: "\<forall>i < length (iv_data iv). it_ipv4 it' ! i = it_ipv4 it ! i \<and> it_strVal it' ! i = it_strVal it ! i"
    and new: "slot_is it' (length (iv_data iv)) (rv_data w)"
  shows "item_is it' (add_rv iv w now)"
proof -
  have g: "rv_type w = rr_type rr" "rv_TTL w = rr_TTL rr" using w by (auto simp: rr_view_def bindE_Inr_iff)
  note i = it [unfolded item_is_def]
  have "unat (it_num it) < 10" using i room by (simp add: MAX_NUM_def)
  then have "unat (it_num it + 1) = Suc (length (iv_data iv))" using i by (simp add: unat_word_ariths)
  moreover have "slot_is it' j ((iv_data iv @ [rv_data w]) ! j)" if "j < Suc (length (iv_data iv))" for j
  proof (cases "j = length (iv_data iv)")
    case False
    then have "slot_is it j (iv_data iv ! j)" "it_type it = ucast (rr_type rr)"
      using that i ty g(1) by auto
    then show ?thesis using False that f(3) old by (auto simp: slot_is_def nth_append split: rdata.splits)
  qed (use new in simp)
  ultimately show ?thesis using f i room g by (simp add: item_is_def add_rv_def)
qed

lemma addRR2Item_ok:
  assumes it: "item_is it iv" and w: "rr_view rr = Inr w" "storable w"
    and ty: "iv_data iv = [] \<or> iv_type iv = ucast (rv_type w)" and room: "length (iv_data iv) < MAX_NUM"
  obtains it' where "addRR2Item it rr now = Inr it'" and "item_is it' (add_rv iv w now)"
proof -
  have name: "cstr (rr_name rr) = Inr (rv_name w)" using w(1) by (auto simp: rr_view_def bindE_Inr_iff)
  have "length (rv_name w) < STR_LEN" "STR_LEN \<le> length (it_name it)" "length (it_name it) = STR_LEN"
    using w(2) it by (simp_all add: storable_def item_is_def)
  then obtain a where a: "strncpy_arr (it_name it) (rr_name rr) STR_LEN = Inr a" "length a = STR_LEN" "cstr a = Inr (rv_name w)"
    using strncpy_arr_ok [OF name] by metis
  have d: "data_view rr = Inr (rv_data w)" and f: "rv_type w = rr_type rr"
    using w(1) by (auto simp: rr_view_def bindE_Inr_iff)
  have i: "unat (it_num it) = length (iv_data iv)" "length (it_ipv4 it) = MAX_NUM" "length (it_strVal it) = MAX_NUM"
      "\<forall>i < MAX_NUM. length (it_strVal it ! i) = STR_LEN + 1"
    using it by (simp_all add: item_is_def)
  let ?it = "it\<lparr>it_type := ucast (rr_type rr), it_name := a, it_ddl := uint (rr_TTL rr) + now, it_num := it_num it + 1\<rparr>"
  show ?thesis
  proof (cases "rv_data w")
    case (Rd_Bytes bs)
    then have s: "rr_type rr = TYPE_A" "length bs = 4" using w(2) f by (simp_all add: storable_def)
    obtain dd where dd: "rr_data rr = Some dd" "rd_block dd 0 4 = Inr (map Some bs)"
      by (rule address_data [OF w(1) Rd_Bytes s(2)])
    have "addRR2Item it rr now = Inr (?it\<lparr>it_ipv4 := (it_ipv4 it)[length (iv_data iv) := map Some bs]\<rparr>)"
      using a(1) dd s(1) i room by (simp add: addRR2Item_def Let_def TYPE_A_def)
    moreover have "item_is (?it\<lparr>it_ipv4 := (it_ipv4 it)[length (iv_data iv) := map Some bs]\<rparr>) (add_rv iv w now)"
      by (rule item_is_added [OF it w(1) ty room]) (use Rd_Bytes a s i room in \<open>simp_all add: slot_is_def TYPE_A_def\<close>)
    ultimately show ?thesis by (rule that)
  next
    case (Rd_Name s)
    then have s: "rr_type rr = TYPE_NS \<or> rr_type rr = TYPE_CNAME" "length s < STR_LEN"
      using w(2) f by (simp_all add: storable_def)
    have cs: "cstr (rr_string_data rr) = Inr s"
      using d Rd_Name by (auto simp: data_view_def bindE_Inr_iff split: data_type.splits option.splits)
    have "STR_LEN \<le> length (it_strVal it ! length (iv_data iv))" using i(4) room by simp
    then obtain b where b: "strncpy_arr (it_strVal it ! length (iv_data iv)) (rr_string_data rr) STR_LEN = Inr b"
        "length b = length (it_strVal it ! length (iv_data iv))" "cstr b = Inr s"
      by (rule strncpy_arr_ok [OF cs s(2)])
    have ne: "(ucast (rr_type rr) :: byte) \<noteq> 1" using s(1) by (auto simp: TYPE_NS_def TYPE_CNAME_def)
    have "addRR2Item it rr now = Inr (?it\<lparr>it_strVal := (it_strVal it)[length (iv_data iv) := b]\<rparr>)"
      using a(1) b(1) ne i room by (simp add: addRR2Item_def Let_def)
    moreover have "item_is (?it\<lparr>it_strVal := (it_strVal it)[length (iv_data iv) := b]\<rparr>) (add_rv iv w now)"
      by (rule item_is_added [OF it w(1) ty room])
        (use Rd_Name a b ne i room in \<open>auto simp: slot_is_def nth_list_update\<close>)
    ultimately show ?thesis by (rule that)
  qed
qed

text \<open>An item that is full has no place for a further address.\<close>

lemma addRR2Item_full:
  assumes "rr_view rr = Inr w" and "storable w" and "rv_type w = TYPE_A"
    and "length (it_name it) = STR_LEN" and "length (it_ipv4 it) \<le> unat (it_num it)"
  shows "addRR2Item it rr now = Inl Out_Of_Bounds"
proof -
  obtain bs where bs: "rv_data w = Rd_Bytes bs" "length bs = 4"
    using assms(2,3) by (auto simp: storable_def TYPE_A_def TYPE_NS_def TYPE_CNAME_def split: rdata.splits)
  obtain d where d: "rr_data rr = Some d" "rd_block d 0 4 = Inr (map Some bs)"
    by (rule address_data [OF assms(1) bs])
  have name: "cstr (rr_name rr) = Inr (rv_name w)" using assms(1) by (auto simp: rr_view_def bindE_Inr_iff)
  have "length (rv_name w) < STR_LEN" "STR_LEN \<le> length (it_name it)"
    using assms(2,4) by (simp_all add: storable_def)
  then obtain a where "strncpy_arr (it_name it) (rr_name rr) STR_LEN = Inr a"
    by (rule strncpy_arr_ok [OF name])
  then show ?thesis
    using d assms(3,5) rr_view_type [OF assms(1)] by (simp add: addRR2Item_def Let_def TYPE_A_def)
qed

end
