(* ===== verification/Server_Reply.thy ===== *)
theory Server_Reply
  imports Server_Items
begin

text \<open>
  The handler up to a reply of its own: the keys of the cache, the reply that a request starts,
  what a client reads from the datagram sent, and the answers from the cache and the host file.
\<close>

section \<open>Keys\<close>

definition item_key :: "cstring \<Rightarrow> 16 word \<Rightarrow> cstring" where
  "item_key s t = s @ bytes '':'' @
     (if t = TYPE_A then bytes ''A'' else if t = TYPE_NS then bytes ''NS'' else bytes ''CNAME'')"

abbreviation cached_type :: "16 word \<Rightarrow> bool" where
  "cached_type t \<equiv> t = TYPE_A \<or> t = TYPE_NS \<or> t = TYPE_CNAME"

lemma bytes_simps [simp]: "length (bytes s) = length s" "bytes [] = []"
  by (simp_all add: bytes_def)

lemma is_cstring_key: "is_cstring s \<Longrightarrow> is_cstring (item_key s t)"
  by (simp add: item_key_def bytes_def)

lemma calcKey_ok:
  assumes "cstr name = Inr s" and "length name \<le> 256" and "cached_type t"
  obtains key where "calcKey name (uint t) (uninit 501) = Inr (key, True)" and "cstr key = Inr (item_key s t)"
proof -
  have len: "length (item_key s t) < 501"
    using cstr_length [OF assms(1)] assms(2) by (simp add: item_key_def bytes_def)
  let ?k = "map Some (item_key s t @ [0]) @ drop (length (item_key s t) + 1) (uninit 501)"
  have "store_word (uninit 501) (item_key s t) = Inr ?k" using len by (simp add: store_word_def)
  moreover have "cstr ?k = Inr (item_key s t)"
    using cstr_map_Some [OF is_cstring_key [OF cstr_is_cstring [OF assms(1)]], of t "[]"] by simp
  moreover have "calcKey name (uint t) (uninit 501) =
      bindE (store_word (uninit 501) (item_key s t)) (\<lambda>res. Inr (res, True))"
    using assms(1,3)
    by (auto simp: calcKey_def key_type_name_def TYPE_A_def TYPE_NS_def TYPE_CNAME_def item_key_def)
  ultimately show ?thesis using that by simp
qed

lemma getItem_eq:
  assumes "cstr name = Inr s" and "length name \<le> 256" and "cached_type t"
  shows "getItem c name (uint t) now = CacheGet c (item_key s t) now"
  by (rule calcKey_ok [OF assms]) (simp add: getItem_def)

lemma putItem_eq:
  assumes "cstr name = Inr s" and "length name \<le> 256" and "cached_type t" and "it_type it \<noteq> 0"
  shows "putItem c name (uint t) it now now' =
     CachePut c (item_key s t) it SIZEOF_ITEM (it_ddl it - now) now'"
  by (rule calcKey_ok [OF assms(1-3)]) (simp add: putItem_def assms(4))

lemma item_key_inject [simp]:
  "cached_type t \<Longrightarrow> cached_type t' \<Longrightarrow> item_key s t = item_key s' t' \<longleftrightarrow> s = s' \<and> t = t'"
  by (auto simp: item_key_def bytes_def TYPE_A_def TYPE_NS_def TYPE_CNAME_def)

section \<open>The reply\<close>

definition query_of :: "arg \<Rightarrow> packet \<Rightarrow> ques_val \<Rightarrow> bool" where
  "query_of parg pk q \<longleftrightarrow> (\<exists>m. decode (a_buff parg) = Some (Inr m) \<and> message_view m = Inr pk) \<and>
     pk_ques pk \<noteq> [] \<and> q = hd (pk_ques pk)"

definition reply_to :: "packet \<Rightarrow> packet" where
  "reply_to pk = pk\<lparr>pk_flag := or (or (pk_flag pk) 1) 0x100, pk_rrs := (pk_rrs pk)[2 := []]\<rparr>"

text \<open>What the handler makes of a decoded request before it looks at the question.\<close>

definition marked :: "message \<Rightarrow> message" where
  "marked m = m\<lparr>msg_RR_count := (msg_RR_count m)[2 := 0], msg_flag := or (or (msg_flag m) 1) 0x100\<rparr>"

lemma ques_at_marked [simp]: "ques_at (marked m) = ques_at m"
  by (simp add: ques_at_def fun_eq_iff marked_def)

lemma start_reply_marked:
  assumes "decode buff = Some (Inr m)"
  shows "start_reply lg buff =
     bindR (Some (showRequest lg (marked m) CLOG_LEVEL_INFO)) (\<lambda>_. Some (Inr (marked m)))"
proof -
  have "bindE (rr_at m ADDITIONAL j) (\<lambda>_. Inr ()) = Inr ()" if "j < unat (msg_RR_count m ! 2)" for j
    using decode_decoded [OF assms] that by (auto simp: decoded_def less_3_cases ADDITIONAL_def)
  then have "foldE (\<lambda>_ j. bindE (rr_at m ADDITIONAL j) (\<lambda>_. Inr ())) () [0..<unat (msg_RR_count m ! 2)] = Inr ()"
    by (rule foldE_unit)
  then have "releaseAdditionalRR m = Inr (m\<lparr>msg_RR_count := (msg_RR_count m)[2 := 0]\<rparr>)"
    by (simp add: releaseAdditionalRR_def ADDITIONAL_def)
  then show ?thesis
    using assms by (simp add: start_reply_def marked_def setFlag_def setResp_def FLAG_RA_def Let_def)
qed

lemma marked_view:
  assumes "msg_shape m" and "message_view m = Inr pk"
  shows "msg_shape (marked m)" and "message_view (marked m) = Inr (reply_to pk)"
proof -
  let ?r = "m\<lparr>msg_RR_count := (msg_RR_count m)[2 := 0]\<rparr>"
  note pv = assms(2) [unfolded message_view_iff]
  have at: "ques_at ?r = ques_at m" "rr_at ?r = rr_at m" by (simp_all add: ques_at_def rr_at_def fun_eq_iff)
  have "length (msg_RR_count m) = 3" using assms(1) by (simp add: msg_shape_def)
  then have v: "message_view ?r = Inr (pk\<lparr>pk_rrs := (pk_rrs pk)[2 := []]\<rparr>)"
    unfolding message_view_iff at using pv by (auto simp: nth_list_update)
  have "msg_shape ?r" using assms(1) by (simp add: msg_shape_def)
  from flag_view [OF this v, of "or (or (msg_flag m) 1) 0x100"] pv
  show "msg_shape (marked m)" "message_view (marked m) = Inr (reply_to pk)"
    by (simp_all add: marked_def reply_to_def)
qed

lemma ques_view_fields: "ques_view q = Inr v \<Longrightarrow> cstr (q_name q) = Inr (qv_name v) \<and> q_type q = qv_type v"
  by (auto simp: ques_view_def bindE_Inr_iff)

lemma view_question:
  assumes "message_view m = Inr pk" and "pk_ques pk \<noteq> []"
  obtains q0 where "ques_at m 0 = Inr q0" and "cstr (q_name q0) = Inr (qv_name (hd (pk_ques pk)))"
    and "q_type q0 = qv_type (hd (pk_ques pk))"
proof -
  have "0 < length (pk_ques pk)" using assms(2) by simp
  then have "bindE (ques_at m 0) ques_view = Inr (pk_ques pk ! 0)"
    using assms(1) unfolding message_view_iff by blast
  then obtain q0 where "ques_at m 0 = Inr q0" "ques_view q0 = Inr (hd (pk_ques pk))"
    using assms(2) by (auto simp: bindE_Inr_iff hd_conv_nth)
  then show ?thesis using that ques_view_fields by blast
qed

lemma showRequest_runs:
  assumes "message_view m = Inr pk" and "pk_ques pk \<noteq> []" and "qv_type (hd (pk_ques pk)) < 50"
  shows "\<exists>s. showRequest lg m CLOG_LEVEL_INFO = Inr s"
proof -
  obtain q0 where "ques_at m 0 = Inr q0" "cstr (q_name q0) = Inr (qv_name (hd (pk_ques pk)))"
      "q_type q0 = qv_type (hd (pk_ques pk))"
    by (rule view_question [OF assms(1,2)])
  then show ?thesis using assms(3) by (simp add: showRequest_def word_less_nat_alt word_le_nat_alt)
qed

lemma query_question:
  assumes "query_of parg pk q"
  obtains m q0 where "decode (a_buff parg) = Some (Inr m)" and "message_view m = Inr pk" and "msg_shape m"
    and "ques_at m 0 = Inr q0" and "cstr (q_name q0) = Inr (qv_name q)" and "q_type q0 = qv_type q"
proof -
  obtain m where m: "decode (a_buff parg) = Some (Inr m)" "message_view m = Inr pk" "pk_ques pk \<noteq> []" "q = hd (pk_ques pk)"
    using assms by (auto simp: query_of_def)
  have "msg_shape m" using decode_decoded [OF m(1)] by (simp add: decoded_def)
  with view_question [OF m(2,3)] m that show ?thesis by metis
qed

lemma start_reply_ok:
  assumes "query_of parg pk q" and "qv_type q < 50"
  obtains msg q0 where "start_reply lg (a_buff parg) = Some (Inr msg)" and "msg_shape msg"
    and "message_view msg = Inr (reply_to pk)" and "ques_at msg 0 = Inr q0"
    and "cstr (q_name q0) = Inr (qv_name q)" and "q_type q0 = qv_type q"
proof -
  obtain m q0 where m: "decode (a_buff parg) = Some (Inr m)" "message_view m = Inr pk" "msg_shape m"
      "ques_at m 0 = Inr q0" "cstr (q_name q0) = Inr (qv_name q)" "q_type q0 = qv_type q"
    by (rule query_question [OF assms(1)])
  have "\<exists>s. showRequest lg (marked m) CLOG_LEVEL_INFO = Inr s"
    using m assms(2) by (simp add: showRequest_def word_less_nat_alt word_le_nat_alt)
  then have "start_reply lg (a_buff parg) = Some (Inr (marked m))"
    using start_reply_marked [OF m(1), of lg] by auto
  then show ?thesis using that marked_view [OF m(3,2)] m(4-) by simp
qed

text \<open>What a client finds in a datagram it receives into a buffer of the same size.\<close>

definition client_sees :: "carr \<Rightarrow> packet \<Rightarrow> bool" where
  "client_sees d pk \<longleftrightarrow>
     (\<exists>m. decode (d @ uninit (BUFF_LEN - length d)) = Some (Inr m) \<and> message_view m = Inr pk)"

lemma destroyMsg_ok:
  assumes "msg_shape msg" and "message_view msg = Inr pk"
  shows "destroyMsg msg = Inr ()"
proof -
  note pv = assms(2) [unfolded message_view_iff]
  have "unat (msg_q_count msg) \<le> length (msg_ques msg)"
    using message_view_bounds(1) [OF assms] assms(1) pv by (simp add: msg_shape_def)
  then have q: "foldE (\<lambda>_ i. if length (msg_ques msg) \<le> i then Inl Out_Of_Bounds else Inr ()) ()
      [0..<unat (msg_q_count msg)] = Inr ()"
    by (intro foldE_unit) simp
  have r: "foldE (\<lambda>_ j. bindE (rr_at msg s j) (\<lambda>_. Inr ())) () [0..<unat (msg_RR_count msg ! s)] = Inr ()"
    if "s < 3" for s
  proof (rule foldE_unit)
    fix j assume "j < unat (msg_RR_count msg ! s)"
    then have "bindE (rr_at msg s j) rr_view = Inr (pk_rrs pk ! s ! j)" using pv that by simp
    then show "bindE (rr_at msg s j) (\<lambda>_. Inr ()) = Inr ()" by (auto simp: bindE_Inr_iff)
  qed
  show ?thesis using q r by (simp add: destroyMsg_def upt_3)
qed

text \<open>Bytes that are read as a packet, whatever the rest of the buffer of 1024 bytes holds.\<close>

definition datagram_of :: "carr \<Rightarrow> packet \<Rightarrow> bool" where
  "datagram_of d pk \<longleftrightarrow>
     length d \<le> BUFF_LEN \<and> (\<forall>rest. length d + length rest = BUFF_LEN \<longrightarrow>
        (\<exists>m. decode (d @ rest) = Some (Inr m) \<and> message_view m = Inr pk \<and> msg_shape m))"

lemma datagram_seen: "datagram_of d pk \<Longrightarrow> client_sees d pk"
  by (auto simp: datagram_of_def client_sees_def dest: spec [of _ "uninit (BUFF_LEN - length d)"])

lemma packet_at_same:
  assumes "packet_at buf msg pk n" and "same_below n buf buf'"
  shows "packet_at buf' msg pk n"
proof -
  obtain k where k: "seq_wire ques_wire buf 12 (pk_ques pk) k" "seq_wire (seq_wire rr_wire) buf k (pk_rrs pk) n"
    using assms(1) by (auto simp: packet_at_def)
  have le: "12 \<le> k" "k \<le> n" using q.seq_le [OF k(1)] rs.seq_le [OF k(2)] by auto
  have "same_below 12 buf buf'" "same_below k buf buf'" using assms(2) le by (auto intro: same_below_mono)
  then show ?thesis
    using assms(1) decode_header_same [of buf buf'] q.seq_same [OF k(1)] rs.seq_same [OF k(2) assms(2)]
    by (auto simp: packet_at_def)
qed

lemma encode_seen:
  assumes sh: "msg_shape msg" and v: "message_view msg = Inr pk" and ok: "packet_ok pk"
    and size: "packet_size pk \<le> BUFF_LEN"
  obtains m b n where "encode msg (uninit BUFF_LEN) = Inr (m, b, n)" and "rd_block b 0 n = Inr (take n b)"
    and "datagram_of (take n b) pk" and "n \<le> packet_size pk" and "length b = BUFF_LEN"
    and "destroyMsg m = Inr ()"
proof -
  have room: "packet_size pk \<le> length (uninit BUFF_LEN)" "length (uninit BUFF_LEN) \<le> 2 ^ 14"
    using size by (simp_all add: BUFF_LEN_def)
  obtain m b n where e: "encode msg (uninit BUFF_LEN) = Inr (m, b, n)" "same_views msg m"
      "packet_at b msg pk n" "n \<le> packet_size pk" "length b = length (uninit BUFF_LEN)"
    by (rule encode_ok [OF sh v ok room])
  have len: "length b = BUFF_LEN" "n \<le> BUFF_LEN" using e(4,5) size by simp_all
  have "datagram_of (take n b) pk"
    unfolding datagram_of_def
  proof (intro conjI allI impI)
    show "length (take n b) \<le> BUFF_LEN" using len by simp
    fix rest :: carr
    assume "length (take n b) + length rest = BUFF_LEN"
    then have l: "n + length rest = BUFF_LEN" using len by simp
    have "same_below n b (take n b @ rest)" using len l by (simp add: same_below_def nth_append)
    then show "\<exists>m'. decode (take n b @ rest) = Some (Inr m') \<and> message_view m' = Inr pk \<and> msg_shape m'"
      by (metis decode_ok [OF packet_at_same [OF e(3)] v sh ok])
  qed
  moreover have "destroyMsg m = Inr ()"
    using same_views_fields(6) [OF e(2) sh] same_views_view [OF e(2)] v by (intro destroyMsg_ok) auto
  moreover have "rd_block b 0 n = Inr (take n b)" using len by (simp add: rd_block_def)
  ultimately show ?thesis using that e(1,4) len by blast
qed

lemma send_reply_ok:
  assumes "msg_shape msg" and "message_view msg = Inr pk" and "packet_ok pk" and "packet_size pk \<le> BUFF_LEN"
  obtains d where "send_reply msg cli = Inr (To_Client d cli)" and "client_sees d pk"
    and "length d \<le> packet_size pk"
proof -
  obtain m b n where e: "encode msg (uninit BUFF_LEN) = Inr (m, b, n)" "rd_block b 0 n = Inr (take n b)"
      "datagram_of (take n b) pk" "n \<le> packet_size pk" "length b = BUFF_LEN" "destroyMsg m = Inr ()"
    by (rule encode_seen [OF assms])
  then have "send_reply msg cli = Inr (To_Client (take n b) cli)" by (simp add: send_reply_def)
  then show ?thesis using that datagram_seen [OF e(3)] e(4) by simp
qed

text \<open>What the handler looks up: the name and the type of the question.\<close>

lemma handler_start:
  assumes "query_of parg pk q" and "qv_type q < 50" and "length (qv_name q) < STR_LEN"
  obtains msg q0 name where "start_reply lg (a_buff parg) = Some (Inr msg)" and "ques_at msg 0 = Inr q0"
    and "strncpy_arr (uninit STR_LEN) (q_name q0) STR_LEN = Inr name" and "q_type q0 = qv_type q"
    and "msg_shape msg" and "message_view msg = Inr (reply_to pk)"
    and "cstr name = Inr (qv_name q)" and "length name = STR_LEN"
proof -
  obtain msg q0 where m: "start_reply lg (a_buff parg) = Some (Inr msg)" "msg_shape msg"
      "message_view msg = Inr (reply_to pk)" "ques_at msg 0 = Inr q0"
      "cstr (q_name q0) = Inr (qv_name q)" "q_type q0 = qv_type q"
    by (rule start_reply_ok [OF assms(1,2)])
  obtain a where "strncpy_arr (uninit STR_LEN) (q_name q0) STR_LEN = Inr a" "length a = length (uninit STR_LEN)"
      "cstr a = Inr (qv_name q)"
    by (rule strncpy_arr_ok [OF m(5) assms(3), of "uninit STR_LEN"]) simp_all
  with m show ?thesis by (intro that [of msg q0 a]) simp_all
qed

lemma handler_query:
  assumes "query_of parg pk q" and "qv_type q < 50" and "length (qv_name q) < STR_LEN"
  obtains msg name where "handler net clk sv parg = handle_query net clk sv parg msg name (qv_type q)"
    and "msg_shape msg" and "message_view msg = Inr (reply_to pk)"
    and "cstr name = Inr (qv_name q)" and "length name = STR_LEN"
proof -
  obtain msg q0 name where m: "start_reply (sv_log sv) (a_buff parg) = Some (Inr msg)" "ques_at msg 0 = Inr q0"
      "strncpy_arr (uninit STR_LEN) (q_name q0) STR_LEN = Inr name" "q_type q0 = qv_type q" "msg_shape msg"
      "message_view msg = Inr (reply_to pk)" "cstr name = Inr (qv_name q)" "length name = STR_LEN"
    by (rule handler_start [OF assms])
  then show ?thesis by (intro that [of msg name]) (simp_all add: handler_def)
qed

section \<open>Answers from the cache\<close>

lemma cache_hit:
  assumes rel: "plain_rel c es" and name: "cstr name = Inr s" "length name \<le> 256" and t: "cached_type t"
    and l: "live es (item_key s t) (clk 0) it" and it: "item_is it iv" "iv_data iv \<noteq> []"
    and sh: "msg_shape msg" and v: "message_view msg = Inr pk"
    and room: "length (pk_rrs pk ! 0) + length (iv_data iv) \<le> MAX_SIZE"
  obtains c' es' msg' where "answer_from_cache clk c msg name t = Inr (c', Some msg')"
    and "plain_rel c' es'" and "\<And>k. lru_find k es' = lru_find k es"
    and "msg_shape msg'" and "message_view msg' = Inr (answered pk iv (clk 1))"
proof -
  obtain c' es' where g: "CacheGet c (item_key s t) (clk 0) = Inr (c', Some it)" "plain_rel c' es'"
      "\<And>k. lru_find k es' = lru_find k es"
    by (rule plain.get_hit [OF rel is_cstring_key [OF cstr_is_cstring [OF name(1)]] l]) metis
  obtain msg' where "Item2Msg msg it (it_name it) (clk 1) = Inr msg'" "msg_shape msg'"
      "message_view msg' = Inr (answered pk iv (clk 1))"
    by (rule Item2Msg_ok [OF it sh v room])
  then show ?thesis
    using g t by (intro that [of c' msg' es']) (simp_all add: answer_from_cache_def getItem_eq [OF name t])
qed

text \<open>A target name in a slot of a \<open>CNAME\<close> item.\<close>

lemma cname_target:
  assumes "item_is it iv" and "iv_type iv = 5" and "iv_data iv = Rd_Name target # ds"
  shows "cstr (it_strVal it ! 0) = Inr target" and "length (it_strVal it ! 0) \<le> 256"
  using assms by (auto simp: item_is_def slot_is_def MAX_NUM_def STR_LEN_def)

lemma cache_hit_cname:
  assumes rel: "plain_rel c es" and name: "cstr name = Inr s" "length name \<le> 256"
    and miss: "lru_find (item_key s TYPE_A) es = None"
    and l: "live es (item_key s TYPE_CNAME) (clk 1) it" "live es (item_key target TYPE_A) (clk 2) tit"
    and it: "item_is it iv" "iv_type iv = 5" "iv_data iv = Rd_Name target # ds"
    and tit: "item_is tit tiv" "iv_data tiv \<noteq> []"
    and sh: "msg_shape msg" and v: "message_view msg = Inr pk"
    and room: "length (pk_rrs pk ! 0) + length (iv_data iv) + length (iv_data tiv) \<le> MAX_SIZE"
  obtains c' es' msg' where "answer_from_cache clk c msg name TYPE_A = Inr (c', Some msg')"
    and "plain_rel c' es'" and "msg_shape msg'"
    and "message_view msg' = Inr (answered (answered pk iv (clk 3)) tiv (clk 4))"
proof -
  note key = is_cstring_key [OF cstr_is_cstring [OF name(1)]]
  note target = cname_target [OF it]
  obtain c0 where c0: "CacheGet c (item_key s TYPE_A) (clk 0) = Inr (c0, None)" "plain_rel c0 es"
    by (rule plain.get_miss [where now = "clk 0", OF rel key miss])
  obtain c1 es1 where c1: "CacheGet c0 (item_key s TYPE_CNAME) (clk 1) = Inr (c1, Some it)" "plain_rel c1 es1"
      "\<And>k. lru_find k es1 = lru_find k es"
    by (rule plain.get_hit [OF c0(2) key l(1)]) metis
  have "live es1 (item_key target TYPE_A) (clk 2) tit" using l(2) c1(3) by (simp add: live_def)
  then obtain c2 es2 where c2: "CacheGet c1 (item_key target TYPE_A) (clk 2) = Inr (c2, Some tit)" "plain_rel c2 es2"
    using plain.get_hit [OF c1(2) is_cstring_key [OF cstr_is_cstring [OF target(1)]]] by metis
  have nb: "answered pk iv (clk 3) = with_answers pk (map (item_rr iv (clk 3)) (iv_data iv))"
    using it(2) by (simp add: answered_def blocked_def)
  have l3: "length (pk_rrs pk) = 3" using v by (simp add: message_view_iff)
  have "iv_data iv \<noteq> []" "length (pk_rrs pk ! 0) + length (iv_data iv) \<le> MAX_SIZE" using it(3) room by simp_all
  then obtain m1 where m1: "Item2Msg msg it (it_name it) (clk 3) = Inr m1" "msg_shape m1"
      "message_view m1 = Inr (answered pk iv (clk 3))"
    using Item2Msg_ok [OF it(1) _ sh v] by metis
  have "length (pk_rrs (answered pk iv (clk 3)) ! 0) + length (iv_data tiv) \<le> MAX_SIZE"
    using room l3 by (simp add: nb with_answers_def)
  then obtain m2 where m2: "Item2Msg m1 tit (it_name tit) (clk 4) = Inr m2" "msg_shape m2"
      "message_view m2 = Inr (answered (answered pk iv (clk 3)) tiv (clk 4))"
    by (rule Item2Msg_ok [OF tit m1(2,3)])
  have "answer_from_cache clk c msg name TYPE_A = Inr (c2, Some m2)"
    using c0(1) c1(1) c2(1) m1(1) m2(1)
    by (simp add: answer_from_cache_def getItem_eq [OF name] getItem_eq [OF target])
  then show ?thesis using that c2(2) m2(2,3) by blast
qed

text \<open>Nothing in the cache for a name and type: neither its own entry nor, for an address, a \<open>CNAME\<close>.\<close>

definition uncached :: "'v lru \<Rightarrow> cstring \<Rightarrow> 16 word \<Rightarrow> bool" where
  "uncached es s t \<longleftrightarrow>
     (cached_type t \<longrightarrow> lru_find (item_key s t) es = None) \<and>
     (t = TYPE_A \<longrightarrow> lru_find (item_key s TYPE_CNAME) es = None)"

lemma cache_miss:
  assumes rel: "plain_rel c es" and name: "cstr name = Inr s" "length name \<le> 256" and un: "uncached es s t"
  obtains c' where "answer_from_cache clk c msg name t = Inr (c', None)" and "plain_rel c' es"
    and "plain_cap c' = plain_cap c"
proof (cases "cached_type t")
  case False
  then show ?thesis using that [of c] rel by (simp add: answer_from_cache_def)
next
  case True
  note key = is_cstring_key [OF cstr_is_cstring [OF name(1)]]
  have "lru_find (item_key s t) es = None" using un True by (auto simp: uncached_def)
  then obtain c0 where c0: "CacheGet c (item_key s t) (clk 0) = Inr (c0, None)" "plain_rel c0 es" "plain_cap c0 = plain_cap c"
    by (rule plain.get_miss [where now = "clk 0", OF rel key])
  show ?thesis
  proof (cases "t = TYPE_A")
    case True
    then have "lru_find (item_key s TYPE_CNAME) es = None" using un by (simp add: uncached_def)
    then obtain c1 where "CacheGet c0 (item_key s TYPE_CNAME) (clk 1) = Inr (c1, None)" "plain_rel c1 es"
        "plain_cap c1 = plain_cap c0"
      by (rule plain.get_miss [where now = "clk 1", OF c0(2) key])
    then show ?thesis using that [of c1] c0 True by (simp add: answer_from_cache_def getItem_eq [OF name])
  next
    case False
    then show ?thesis using that [of c0] c0 \<open>cached_type t\<close>
      by (auto simp: answer_from_cache_def getItem_eq [OF name])
  qed
qed

lemma type_below_50: "cached_type t \<Longrightarrow> t < 50"
  by (auto simp: TYPE_A_def TYPE_NS_def TYPE_CNAME_def)

lemma STR_LEN_256: "length name = STR_LEN \<Longrightarrow> length name \<le> 256"
  by (simp add: STR_LEN_def)

text \<open>A handler that answers from the cache sends one datagram and leaves the host file alone.\<close>

lemma handle_from_cache:
  assumes "answer_from_cache clk (sv_cache sv) msg name t = Inr (c', Some msg')" and "plain_rel c' es'"
    and "msg_shape msg'" and "message_view msg' = Inr reply" and "packet_ok reply" and "packet_size reply \<le> BUFF_LEN"
  shows "\<exists>d. handle_query net clk sv parg msg name t =
      Some (Inr (sv\<lparr>sv_cache := c'\<rparr>, [To_Client d (a_cliAddr parg)])) \<and> client_sees d reply"
proof -
  obtain d where "send_reply msg' (a_cliAddr parg) = Inr (To_Client d (a_cliAddr parg))" "client_sees d reply"
    by (rule send_reply_ok [OF assms(3-6)])
  then show ?thesis using assms(1) by (simp add: handle_query_def)
qed

section \<open>Answers from the host file\<close>

definition file_item :: "cstring \<Rightarrow> byte list \<Rightarrow> int \<Rightarrow> item_val" where
  "file_item s bs now = \<lparr>iv_name = s, iv_type = 1, iv_data = [Rd_Bytes bs], iv_ddl = 600000 + now\<rparr>"

definition no_item :: item_val where
  "no_item = \<lparr>iv_name = [], iv_type = 0, iv_data = [], iv_ddl = 0\<rparr>"

lemma zeroed_cstr: "0 < n \<Longrightarrow> cstr (zeroed n) = Inr []"
  by (cases n) (simp_all add: zeroed_def)

lemma item0_is: "item_is item0 no_item"
  by (simp add: item_is_def item0_def no_item_def zeroed_cstr STR_LEN_def) (simp add: zeroed_def)

lemma all_some_length: "all_some xs = Some ys \<Longrightarrow> length ys = length xs"
  by (induction xs arbitrary: ys rule: all_some.induct) auto

lemma inet_pton_length: "inet_pton s = Some bs \<Longrightarrow> length bs = 4"
  by (auto simp: inet_pton_def Let_def dest: all_some_length split: if_splits)

lemma local_RR_ok:
  assumes "cstr name = Inr s" and "length s < STR_LEN" and "cstr ip = Inr a" and "inet_pton a = Some bs"
  obtains r where "local_RR name ip = Inr r"
    and "rr_view r = Inr \<lparr>rv_name = s, rv_type = TYPE_A, rv_class = CLASS_IN, rv_TTL = 600000, rv_data = Rd_Bytes bs\<rparr>"
proof -
  let ?r = "RR0\<lparr>rr_type := TYPE_A, rr_class := CLASS_IN, rr_TTL := 600000\<rparr>"
  have "length s < MAX_LEN" "MAX_LEN \<le> length (rr_name ?r)"
    using assms(2) by (simp_all add: STR_LEN_def MAX_LEN_def RR0_def zeroed_def)
  then obtain n where n: "strncpy_arr (rr_name ?r) name MAX_LEN = Inr n" "cstr n = Inr s"
    using strncpy_arr_ok [OF assms(1)] by metis
  have l: "length bs = 4" by (rule inet_pton_length [OF assms(4)])
  have rd: "rd_block (map Some bs) 0 4 = Inr (map Some bs)" using l rd_block_all [of "map Some bs"] by simp
  let ?q = "?r\<lparr>rr_name := n, rr_data_length := 4, rr_data := Some (map Some bs), rr_data_type := BINARY_TYPE\<rparr>"
  have "local_RR name ip = Inr ?q"
    using assms(3,4) n(1) rd by (simp add: local_RR_def setRRName_def setRRData_def)
  moreover have "data_view ?q = Inr (Rd_Bytes bs)" using rd l by (simp add: data_view_def)
  ultimately show ?thesis using n(2) by (intro that [of ?q]) (simp_all add: rr_view_def)
qed

text \<open>The item that the handler makes of an address of the host file.\<close>

lemma local_item:
  assumes name: "cstr name = Inr s" "length s + 2 < HASH_KEY_MAX_LEN" and ip: "cstr ip = Inr a" "inet_pton a = Some bs"
  obtains r it where "local_RR name ip = Inr r" and "addRR2Item item0 r now = Inr it" and "item_is it (file_item s bs now)"
    and "cstr (it_name it) = Inr s" and "length (it_name it) \<le> 256" and "it_type it \<noteq> 0" and "it_ddl it = 600000 + now"
    and "good_key (item_key s TYPE_A)"
proof -
  let ?w = "\<lparr>rv_name = s, rv_type = TYPE_A, rv_class = CLASS_IN, rv_TTL = 600000, rv_data = Rd_Bytes bs\<rparr>"
  have short: "length s < STR_LEN" using name(2) by (simp add: HASH_KEY_MAX_LEN_def STR_LEN_def)
  obtain r where r: "local_RR name ip = Inr r" "rr_view r = Inr ?w"
    by (rule local_RR_ok [OF name(1) short ip])
  have "storable ?w" using short inet_pton_length [OF ip(2)] by (simp add: storable_def)
  moreover have "iv_data no_item = []" "length (iv_data no_item) < MAX_NUM" by (simp_all add: no_item_def MAX_NUM_def)
  moreover have "add_rv no_item ?w now = file_item s bs now"
    by (simp add: add_rv_def no_item_def file_item_def TYPE_A_def)
  ultimately obtain it where it: "addRR2Item item0 r now = Inr it" "item_is it (file_item s bs now)"
    using addRR2Item_ok [OF item0_is r(2)] by metis
  then have "cstr (it_name it) = Inr s" "length (it_name it) \<le> 256" "it_type it \<noteq> 0" "it_ddl it = 600000 + now"
    by (simp_all add: item_is_def file_item_def STR_LEN_def)
  moreover have "good_key (item_key s TYPE_A)"
    using is_cstring_key [OF cstr_is_cstring [OF name(1)]] name(2)
    by (simp add: good_key_def) (simp add: item_key_def)
  ultimately show ?thesis by (rule that [OF r(1) it])
qed

lemma file_hit:
  assumes rel: "plain_rel (sv_cache sv) es" and name: "cstr name = Inr s" "length s + 2 < HASH_KEY_MAX_LEN"
    and fr: "reader_of ls (sv_reader sv)" and a: "map_of (rev (hosts ls)) s = Some a" "inet_pton a = Some bs"
    and sh: "msg_shape msg" and v: "message_view msg = Inr pk" and room: "length (pk_rrs pk ! 0) < MAX_SIZE"
  obtains sv' it msg' where "answer_from_file clk sv msg name TYPE_A = Inr (sv', Some msg')"
    and "item_is it (file_item s bs (clk 5))"
    and "plain_rel (sv_cache sv') (lru_put (plain_cap (sv_cache sv)) (clk 7) (item_key s TYPE_A) it (600000 + clk 5 - clk 6) es)"
    and "plain_cap (sv_cache sv') = plain_cap (sv_cache sv)"
    and "reader_of ls (sv_reader sv')" and "sv_log sv' = sv_log sv" and "msg_shape msg'"
    and "message_view msg' = Inr (answered pk (file_item s bs (clk 5)) (clk 8))"
proof -
  have "16 \<le> length (uninit 17)" by simp
  then obtain fr' fr'' ip where f: "get_a_record_seek (sv_reader sv) name = Inr (Some fr')"
      "get_a_record_scan fr' (uninit 17) = Inr (fr'', ip)" "cstr ip = Inr a" "reader_of ls fr''"
    using get_a_record_parts(2) [OF fr name(1) a(1)] by blast
  then have get: "file_reader_get_a_record (sv_reader sv) name (uninit 17) = Inr (Some (fr'', ip))"
    by (simp add: file_reader_get_a_record_def)
  obtain r it where it: "local_RR name ip = Inr r" "addRR2Item item0 r (clk 5) = Inr it" "item_is it (file_item s bs (clk 5))"
      "cstr (it_name it) = Inr s" "length (it_name it) \<le> 256" "it_type it \<noteq> 0" "it_ddl it = 600000 + clk 5"
      "good_key (item_key s TYPE_A)"
    by (rule local_item [OF name f(3) a(2)])
  obtain c' where c': "CachePut (sv_cache sv) (item_key s TYPE_A) it SIZEOF_ITEM (600000 + clk 5 - clk 6) (clk 7) = Inr c'"
      "plain_rel c' (lru_put (plain_cap (sv_cache sv)) (clk 7) (item_key s TYPE_A) it (600000 + clk 5 - clk 6) es)"
      "plain_cap c' = plain_cap (sv_cache sv)"
    using plain.put_ok [OF rel it(8)] by metis
  have put: "putItem (sv_cache sv) (it_name it) (uint TYPE_A) it (clk 6) (clk 7) = Inr c'"
    using putItem_eq [OF it(4,5) _ it(6)] c'(1) it(7) by simp
  have "iv_data (file_item s bs (clk 5)) \<noteq> []"
      "length (pk_rrs pk ! 0) + length (iv_data (file_item s bs (clk 5))) \<le> MAX_SIZE"
    using room by (simp_all add: file_item_def)
  then obtain msg' where m: "Item2Msg msg it (it_name it) (clk 8) = Inr msg'" "msg_shape msg'"
      "message_view msg' = Inr (answered pk (file_item s bs (clk 5)) (clk 8))"
    by (rule Item2Msg_ok [OF it(3) _ sh v])
  have "answer_from_file clk sv msg name TYPE_A = Inr (sv\<lparr>sv_cache := c', sv_reader := fr''\<rparr>, Some msg')"
    using get it(1,2) put m(1) by (simp add: answer_from_file_def)
  then show ?thesis using that [of _ msg' it] it(3) c'(2,3) f(4) m(2,3) by simp
qed

lemma handle_from_file:
  assumes name: "cstr name = Inr s" "length name = STR_LEN" "length s + 2 < HASH_KEY_MAX_LEN"
    and rel: "plain_rel (sv_cache sv) es" and un: "uncached es s TYPE_A"
    and fr: "reader_of ls (sv_reader sv)" and a: "map_of (rev (hosts ls)) s = Some a" "inet_pton a = Some bs"
    and sh: "msg_shape msg" and v: "message_view msg = Inr pk" and room: "length (pk_rrs pk ! 0) < MAX_SIZE"
    and ok: "packet_ok (answered pk (file_item s bs (clk 5)) (clk 8))"
      "packet_size (answered pk (file_item s bs (clk 5)) (clk 8)) \<le> BUFF_LEN"
  obtains sv' d it where "handle_query net clk sv parg msg name TYPE_A = Some (Inr (sv', [To_Client d (a_cliAddr parg)]))"
    and "client_sees d (answered pk (file_item s bs (clk 5)) (clk 8))" and "item_is it (file_item s bs (clk 5))"
    and "plain_rel (sv_cache sv') (lru_put (plain_cap (sv_cache sv)) (clk 7) (item_key s TYPE_A) it
       (600000 + clk 5 - clk 6) es)" and "reader_of ls (sv_reader sv')"
proof -
  obtain c where c: "answer_from_cache clk (sv_cache sv) msg name TYPE_A = Inr (c, None)" "plain_rel c es"
      "plain_cap c = plain_cap (sv_cache sv)"
    by (rule cache_miss [where clk = clk, OF rel name(1) STR_LEN_256 [OF name(2)] un])
  let ?sv = "sv\<lparr>sv_cache := c\<rparr>"
  have sv: "plain_rel (sv_cache ?sv) es" "reader_of ls (sv_reader ?sv)" using c(2) fr by simp_all
  obtain sv' it msg' where f: "answer_from_file clk ?sv msg name TYPE_A = Inr (sv', Some msg')"
      "item_is it (file_item s bs (clk 5))"
      "plain_rel (sv_cache sv') (lru_put (plain_cap (sv_cache ?sv)) (clk 7) (item_key s TYPE_A) it
         (600000 + clk 5 - clk 6) es)"
      "reader_of ls (sv_reader sv')" "msg_shape msg'"
      "message_view msg' = Inr (answered pk (file_item s bs (clk 5)) (clk 8))"
    by (rule file_hit [where clk = clk, OF sv(1) name(1,3) sv(2) a sh v room]) metis
  obtain d where "send_reply msg' (a_cliAddr parg) = Inr (To_Client d (a_cliAddr parg))"
      "client_sees d (answered pk (file_item s bs (clk 5)) (clk 8))"
    by (rule send_reply_ok [OF f(5,6) ok])
  then show ?thesis using c(1,3) f(1-4) by (intro that [of sv' d it]) (simp_all add: handle_query_def)
qed

end
