(* ===== verification/Server_Caching.thy ===== *)
theory Server_Caching
  imports Server_Reply
begin

text \<open>
  The handler on a request it cannot answer: the relay of the two datagrams, and what the cache
  holds of the answer section afterwards.
\<close>

section \<open>What is cached of an answer\<close>

text \<open>The records of one type of an answer section, as the item they are collected in.\<close>

primrec collect :: "(nat \<Rightarrow> int) \<Rightarrow> 16 word \<Rightarrow> rr_val list \<Rightarrow> nat \<Rightarrow> item_val" where
  "collect clk t ws 0 = no_item"
| "collect clk t ws (Suc n) =
     (if rv_type (ws ! n) = t then add_rv (collect clk t ws n) (ws ! n) (clk n) else collect clk t ws n)"

lemma collect_data:
  "n \<le> length ws \<Longrightarrow> iv_data (collect clk t ws n) = map rv_data (filter (\<lambda>w. rv_type w = t) (take n ws))"
  by (induction n) (simp_all add: no_item_def add_rv_def take_Suc_conv_app_nth)

lemma collect_type:
  "iv_type (collect clk t ws n) = (if iv_data (collect clk t ws n) = [] then 0 else ucast t)"
  by (induction n) (auto simp: no_item_def add_rv_def)

lemma collect_name:
  "n \<le> length ws \<Longrightarrow> iv_data (collect clk t ws n) \<noteq> [] \<Longrightarrow>
     \<exists>w \<in> set ws. rv_type w = t \<and> iv_name (collect clk t ws n) = rv_name w"
  by (induction n) (auto simp: no_item_def add_rv_def intro: bexI [OF _ nth_mem])

text \<open>Answers that fit the items: at most ten records of a type, with names that make keys below 50 bytes.\<close>

definition cachable :: "rr_val list \<Rightarrow> bool" where
  "cachable ws \<longleftrightarrow>
     (\<forall>w \<in> set ws. cached_type (rv_type w) \<longrightarrow>
        storable w \<and> length (rv_name w) + 6 < HASH_KEY_MAX_LEN \<and> is_cstring (rv_name w)) \<and>
     (\<forall>t. length (filter (\<lambda>w. rv_type w = t) ws) \<le> MAX_NUM)"

lemma cachable_take: "cachable ws \<Longrightarrow> cachable (take n ws)"
proof -
  assume c: "cachable ws"
  have "length (filter (\<lambda>w. rv_type w = t) (take n ws)) \<le> MAX_NUM" for t
  proof -
    have "length (filter (\<lambda>w. rv_type w = t) (take n ws)) \<le> length (filter (\<lambda>w. rv_type w = t) ws)"
      by (metis append_take_drop_id filter_append le_add1 length_append)
    then show ?thesis using c by (auto simp: cachable_def intro: order_trans)
  qed
  then show ?thesis using c by (auto simp: cachable_def dest: in_set_takeD)
qed

lemma collect_room:
  assumes "cachable (take (Suc n) ws)" and "n < length ws" and "rv_type (ws ! n) = t"
  shows "length (iv_data (collect clk t ws n)) < MAX_NUM"
proof -
  have "length (filter (\<lambda>w. rv_type w = t) (take (Suc n) ws)) \<le> MAX_NUM"
    using assms(1) by (simp add: cachable_def)
  then show ?thesis using assms(2,3) by (simp add: collect_data take_Suc_conv_app_nth)
qed

text \<open>One record goes to the item of its type.\<close>

lemma sort_one_ok:
  assumes v: "message_view msg = Inr pk" and ws: "ws = pk_rrs pk ! 0" and ok: "cachable (take (Suc n) ws)" and n: "n < length ws"
    and A: "item_is A (collect clk TYPE_A ws n)" and N: "item_is N (collect clk TYPE_NS ws n)"
    and C: "item_is C (collect clk TYPE_CNAME ws n)"
  shows "\<exists>A' N' C'. sort_answer clk msg (A, N, C) n = Inr (A', N', C') \<and> item_is A' (collect clk TYPE_A ws (Suc n)) \<and>
     item_is N' (collect clk TYPE_NS ws (Suc n)) \<and> item_is C' (collect clk TYPE_CNAME ws (Suc n))"
proof -
  let ?w = "ws ! n"
  have "bindE (rr_at msg 0 n) rr_view = Inr ?w" using v ws n by (simp add: message_view_iff)
  then obtain r where r: "rr_at msg 0 n = Inr r" "rr_view r = Inr ?w" by (auto simp: bindE_Inr_iff)
  have rt: "rr_type r = rv_type ?w" using rr_view_type [OF r(2)] by simp
  have add: "\<exists>it'. addRR2Item it r (clk n) = Inr it' \<and> item_is it' (add_rv (collect clk t ws n) ?w (clk n))"
    if it: "item_is it (collect clk t ws n)" and t: "rv_type ?w = t" "cached_type t" for it t
  proof -
    have "?w \<in> set (take (Suc n) ws)" using n by (simp add: take_Suc_conv_app_nth)
    then have "storable ?w" using ok t by (auto simp: cachable_def)
    moreover have "iv_data (collect clk t ws n) = [] \<or> iv_type (collect clk t ws n) = ucast (rv_type ?w)"
      using collect_type [of clk t ws n] t(1) by simp
    ultimately show ?thesis
      using addRR2Item_ok [OF it r(2) _ _ collect_room [OF ok n t(1)]] by metis
  qed
  have distinct: "TYPE_A \<noteq> TYPE_NS" "TYPE_A \<noteq> TYPE_CNAME" "TYPE_NS \<noteq> TYPE_CNAME"
    by (simp_all add: TYPE_A_def TYPE_NS_def TYPE_CNAME_def)
  note rules = sort_answer_def ANSWER_def r(1) rt
  consider "rv_type ?w = TYPE_A" | "rv_type ?w = TYPE_NS" | "rv_type ?w = TYPE_CNAME" | "\<not> cached_type (rv_type ?w)"
    by blast
  then show ?thesis
  proof cases
    case 1
    with add [OF A] show ?thesis using N C distinct by (auto simp: rules)
  next
    case 2
    with add [OF N] show ?thesis using A C distinct by (auto simp: rules)
  next
    case 3
    with add [OF C] show ?thesis using A N distinct by (auto simp: rules)
  qed (use A N C in \<open>auto simp: rules\<close>)
qed

lemma sort_answer_ok:
  assumes v: "message_view msg = Inr pk" and ws: "ws = pk_rrs pk ! 0" and ok: "cachable (take n ws)" and n: "n \<le> length ws"
  shows "\<exists>A N C. foldE (sort_answer clk msg) (item0, item0, item0) [0..<n] = Inr (A, N, C) \<and>
     item_is A (collect clk TYPE_A ws n) \<and> item_is N (collect clk TYPE_NS ws n) \<and>
     item_is C (collect clk TYPE_CNAME ws n)"
  using ok n
proof (induction n)
  case 0
  then show ?case by (simp add: item0_is)
next
  case (Suc n)
  have "cachable (take n ws)" using cachable_take [OF Suc.prems(1), of n] by (simp add: min_def split: if_splits)
  with Suc obtain A N C where IH: "foldE (sort_answer clk msg) (item0, item0, item0) [0..<n] = Inr (A, N, C)"
      "item_is A (collect clk TYPE_A ws n)" "item_is N (collect clk TYPE_NS ws n)"
      "item_is C (collect clk TYPE_CNAME ws n)" by auto
  have "foldE (sort_answer clk msg) (item0, item0, item0) [0..<Suc n] = sort_answer clk msg (A, N, C) n"
    using IH(1) by (cases "sort_answer clk msg (A, N, C) n") (simp_all add: foldE_append)
  then show ?case using sort_one_ok [OF v ws Suc.prems(1) _ IH(2-4)] Suc.prems(2) by simp
qed

text \<open>The entries just put in stay while the cache has places for those put in after them.\<close>

lemma find_prefix: "find P xs = Some e \<Longrightarrow> find P (xs @ ys) = Some e"
  by (induction xs) (auto split: if_splits)

lemma find_others_take:
  "lru_find k (take m es) = Some e \<Longrightarrow> k \<noteq> k' \<Longrightarrow> lru_find k (take m (lru_others k' es)) = Some e"
proof (induction es arbitrary: m)
  case (Cons x es)
  then obtain m' where m: "m = Suc m'" by (cases m) (auto simp: lru_find_def)
  show ?case
  proof (cases "e_key x = k'")
    case True
    then have "lru_find k (take m' es) = Some e" using Cons.prems m by (auto simp: lru_find_def)
    then have IH: "lru_find k (take m' (lru_others k' es)) = Some e" using Cons.IH Cons.prems(2) by simp
    have "take m (lru_others k' es) = take m' (lru_others k' es) @ take 1 (drop m' (lru_others k' es))"
      by (metis Suc_eq_plus1 m take_add)
    with find_prefix IH have "lru_find k (take m (lru_others k' es)) = Some e" by (metis lru_find_def)
    then show ?thesis using True by (simp add: lru_others_def)
  next
    case False
    then show ?thesis using Cons m by (auto simp: lru_others_def lru_find_def)
  qed
qed (simp add: lru_find_def)

lemma find_put_other:
  assumes "lru_find k (take m es) = Some e" and "k \<noteq> k'" and "m < cap"
  shows "lru_find k (take (Suc m) (lru_put cap now k' d ttl es)) = Some e"
proof -
  have "take m (butlast es) = take m es" if "cap \<le> length es"
  proof -
    have "m \<le> length es - 1" using that assms(3) by simp
    then show ?thesis by (simp add: butlast_conv_take min_absorb1)
  qed
  then show ?thesis
    using assms find_others_take [OF assms(1,2)] by (auto simp: lru_put_def lru_find_def)
qed

lemma find_put_same:
  "lru_find k (take (Suc m) (lru_put cap now k d ttl es)) = Some \<lparr>e_key = k, e_saved = now, e_ttl = ttl, e_data = d\<rparr>"
  by (simp add: lru_put_def lru_find_def)

lemma find_take: "lru_find k (take m es) = Some e \<Longrightarrow> lru_find k es = Some e"
  using find_prefix [of _ "take m es" e "drop m es"] by (simp add: lru_find_def)

lemma find_stays:
  assumes "lru_find k (take m es) = Some e" and "k \<noteq> k'" and "m < cap"
    and "es' = (if b then es else lru_put cap now k' d ttl es)"
  shows "lru_find k (take (Suc m) es') = Some e"
proof (cases b)
  case True
  have "lru_find k (take m (take (Suc m) es)) = Some e" using assms(1) by (simp add: min_def)
  then show ?thesis using find_take True assms(4) by metis
qed (use find_put_other [OF assms(1-3)] assms(4) in simp)

text \<open>The item that the records of one type are collected in, if there are any.\<close>

lemma collected_item:
  assumes it: "item_is it iv" and iv: "iv = collect clk t ws (length ws)" and ok: "cachable ws" and t: "cached_type t"
  shows "iv_data iv = [] \<Longrightarrow> it_type it = 0"
    and "iv_data iv \<noteq> [] \<Longrightarrow> uint (it_type it) = uint t \<and> it_type it \<noteq> 0 \<and> good_key (item_key (iv_name iv) t)"
    and "cstr (it_name it) = Inr (iv_name iv)" and "length (it_name it) \<le> 256" and "it_ddl it = iv_ddl iv"
proof -
  show "cstr (it_name it) = Inr (iv_name iv)" "length (it_name it) \<le> 256" "it_ddl it = iv_ddl iv"
    using it by (simp_all add: item_is_def STR_LEN_def)
  show "it_type it = 0" if "iv_data iv = []"
    using that it iv collect_type [of clk t ws "length ws"] by (simp add: item_is_def)
  assume ne: "iv_data iv \<noteq> []"
  then have "iv_type iv = ucast t" using iv collect_type [of clk t ws "length ws"] by simp
  then have "uint (it_type it) = uint t" "it_type it \<noteq> 0"
    using it t by (auto simp: item_is_def TYPE_A_def TYPE_NS_def TYPE_CNAME_def)
  moreover obtain w where w: "w \<in> set ws" "rv_type w = t" "iv_name iv = rv_name w"
    using collect_name [of "length ws" ws clk t] ne iv by auto
  then have "length (iv_name iv) + 6 < HASH_KEY_MAX_LEN" "is_cstring (iv_name iv)"
    using ok t by (auto simp: cachable_def)
  then have "good_key (item_key (iv_name iv) t)"
    using is_cstring_key [of "iv_name iv" t] by (simp add: good_key_def) (simp add: item_key_def)
  ultimately show "uint (it_type it) = uint t \<and> it_type it \<noteq> 0 \<and> good_key (item_key (iv_name iv) t)" by simp
qed

text \<open>Storing one collected item.\<close>

lemma put_collected:
  assumes rel: "plain_rel c es" and it: "item_is it iv" and iv: "iv = collect clk t ws (length ws)"
    and ok: "cachable ws" and t: "cached_type t"
  obtains c' es' where "putItem c (it_name it) (uint (it_type it)) it now now' = Inr c'" and "plain_rel c' es'"
    and "plain_cap c' = plain_cap c"
    and "es' = (if iv_data iv = [] then es
                else lru_put (plain_cap c) now' (item_key (iv_name iv) t) it (iv_ddl iv - now) es)"
proof (cases "iv_data iv = []")
  case True
  then show ?thesis using that [of c es] rel collected_item(1) [OF it iv ok t] by (simp add: putItem_def)
next
  case False
  note c = collected_item(2) [OF it iv ok t False] and f = collected_item(3-5) [OF it iv ok t]
  obtain c' where "CachePut c (item_key (iv_name iv) t) it SIZEOF_ITEM (iv_ddl iv - now) now' = Inr c'"
      "plain_rel c' (lru_put (plain_cap c) now' (item_key (iv_name iv) t) it (iv_ddl iv - now) es)"
      "plain_cap c' = plain_cap c"
    using plain.put_ok [OF rel] c by metis
  then show ?thesis
    using putItem_eq [OF f(1,2) t] c f(3) False by (intro that [of c']) simp_all
qed

text \<open>
  The three items are put in one after the other; the cache has them afterwards. \<open>j\<close> is the
  number of the first clock reading of \<open>putItem\<close> for the type.
\<close>

definition holds_answer :: "(nat \<Rightarrow> int) \<Rightarrow> item lru \<Rightarrow> rr_val list \<Rightarrow> 16 word \<Rightarrow> nat \<Rightarrow> bool" where
  "holds_answer clk es ws t j \<longleftrightarrow>
     (let iv = collect (\<lambda>i. clk (15 + i)) t ws (length ws) in
      iv_data iv \<noteq> [] \<longrightarrow>
        (\<exists>e. lru_find (item_key (iv_name iv) t) es = Some e \<and> item_is (e_data e) iv \<and>
           e_ttl e = iv_ddl iv - clk j \<and> e_saved e = clk (j + 1)))"

text \<open>An entry that is put in for the records of a type.\<close>

definition collected_entry :: "(nat \<Rightarrow> int) \<Rightarrow> rr_val list \<Rightarrow> 16 word \<Rightarrow> item slot_entry \<Rightarrow> bool" where
  "collected_entry clk ws t e \<longleftrightarrow>
     (let iv = collect (\<lambda>i. clk (15 + i)) t ws (length ws) in
      iv_data iv \<noteq> [] \<and> item_is (e_data e) iv \<and> e_key e = item_key (iv_name iv) t)"

lemma set_lru_put: "e \<in> set (lru_put cap now k d ttl es) \<Longrightarrow>
    e \<in> set es \<or> e = \<lparr>e_key = k, e_saved = now, e_ttl = ttl, e_data = d\<rparr>"
  by (auto simp: lru_put_def lru_others_def split: if_splits dest: in_set_butlastD)

text \<open>
  The entry of a type is at the head of the cache when it is put in, and it is still there after
  the items of the other types: it is among the first \<open>m\<close> entries.
\<close>

definition put_list :: "(nat \<Rightarrow> int) \<Rightarrow> nat \<Rightarrow> item \<Rightarrow> item_val \<Rightarrow> 16 word \<Rightarrow> nat \<Rightarrow> item lru \<Rightarrow> item lru" where
  "put_list clk cap it iv t j es =
     (if iv_data iv = [] then es
      else lru_put cap (clk (j + 1)) (item_key (iv_name iv) t) it (iv_ddl iv - clk j) es)"

definition holds_first :: "(nat \<Rightarrow> int) \<Rightarrow> nat \<Rightarrow> item lru \<Rightarrow> item_val \<Rightarrow> 16 word \<Rightarrow> nat \<Rightarrow> bool" where
  "holds_first clk m es iv t j \<longleftrightarrow> (iv_data iv \<noteq> [] \<longrightarrow>
     (\<exists>e. lru_find (item_key (iv_name iv) t) (take m es) = Some e \<and> item_is (e_data e) iv \<and>
        e_ttl e = iv_ddl iv - clk j \<and> e_saved e = clk (j + 1)))"

lemma holds_put: "item_is it iv \<Longrightarrow> holds_first clk (Suc 0) (put_list clk cap it iv t j es) iv t j"
  by (simp add: holds_first_def put_list_def find_put_same)

lemma holds_stays:
  assumes "holds_first clk m es iv t j" and "cached_type t" and "cached_type t'" and "t \<noteq> t'" and "m < cap"
  shows "holds_first clk (Suc m) (put_list clk cap it iv' t' j' es) iv t j"
  unfolding holds_first_def
proof
  assume "iv_data iv \<noteq> []"
  then obtain e where e: "lru_find (item_key (iv_name iv) t) (take m es) = Some e" "item_is (e_data e) iv"
      "e_ttl e = iv_ddl iv - clk j" "e_saved e = clk (j + 1)"
    using assms(1) by (auto simp: holds_first_def)
  have "item_key (iv_name iv) t \<noteq> item_key (iv_name iv') t'" using assms(2-4) by simp
  from find_stays [OF e(1) this assms(5)]
  have "lru_find (item_key (iv_name iv) t) (take (Suc m) (put_list clk cap it iv' t' j' es)) = Some e"
    by (simp add: put_list_def)
  with e show "\<exists>e. lru_find (item_key (iv_name iv) t) (take (Suc m) (put_list clk cap it iv' t' j' es)) = Some e \<and>
      item_is (e_data e) iv \<and> e_ttl e = iv_ddl iv - clk j \<and> e_saved e = clk (j + 1)" by blast
qed

lemma holds_first_answer:
  "holds_first clk m es (collect (\<lambda>i. clk (15 + i)) t ws (length ws)) t j \<Longrightarrow> holds_answer clk es ws t j"
  by (auto simp: holds_first_def holds_answer_def Let_def dest: find_take)

lemma put_entries:
  assumes "e \<in> set (put_list clk cap it iv t j es)" and "item_is it iv"
    and "iv = collect (\<lambda>i. clk (15 + i)) t ws (length ws)"
  shows "e \<in> set es \<or> collected_entry clk ws t e"
  using assms set_lru_put [of e cap "clk (j + 1)" "item_key (iv_name iv) t" it "iv_ddl iv - clk j" es]
  by (auto simp: collected_entry_def Let_def put_list_def split: if_splits)

lemma put_collected_list:
  assumes "plain_rel c es" and "item_is it (collect clk' t ws (length ws))" and "cachable ws" and "cached_type t"
    and "plain_cap c = cap"
  obtains c' where "putItem c (it_name it) (uint (it_type it)) it (clk j) (clk (j + 1)) = Inr c'"
    and "plain_rel c' (put_list clk cap it (collect clk' t ws (length ws)) t j es)" and "plain_cap c' = cap"
proof -
  let ?iv = "collect clk' t ws (length ws)"
  obtain c' es' where c: "putItem c (it_name it) (uint (it_type it)) it (clk j) (clk (j + 1)) = Inr c'"
      "plain_rel c' es'" "plain_cap c' = plain_cap c"
      "es' = (if iv_data ?iv = [] then es
              else lru_put (plain_cap c) (clk (j + 1)) (item_key (iv_name ?iv) t) it (iv_ddl ?iv - clk j) es)"
    by (rule put_collected [where now = "clk j" and now' = "clk (j + 1)", OF assms(1,2) refl assms(3,4)])
  have "es' = put_list clk cap it ?iv t j es" unfolding c(4) assms(5) put_list_def by (rule refl)
  with c(1-3) assms(5) show ?thesis by (intro that) simp_all
qed

lemma cache_answer_ok:
  assumes rel: "plain_rel c es" and cap: "3 \<le> plain_cap c" and sh: "msg_shape msg" and v: "message_view msg = Inr pk"
    and ws: "ws = pk_rrs pk ! 0" and ok: "cachable ws"
  obtains c' es' where "cache_answer clk c msg = Inr c'" and "plain_rel c' es'"
    and "holds_answer clk es' ws TYPE_A 9" and "holds_answer clk es' ws TYPE_NS 11"
    and "holds_answer clk es' ws TYPE_CNAME 13" and "plain_cap c' = plain_cap c"
    and "\<And>e. e \<in> set es' \<Longrightarrow> e \<in> set es \<or> (\<exists>t. cached_type t \<and> collected_entry clk ws t e)"
proof -
  let ?iv = "\<lambda>t. collect (\<lambda>i. clk (15 + i)) t ws (length ws)"
  have n: "unat (msg_RR_count msg ! 0) = length ws" using v ws by (simp add: message_view_iff)
  obtain A N C where s: "foldE (sort_answer (\<lambda>i. clk (15 + i)) msg) (item0, item0, item0) [0..<length ws] = Inr (A, N, C)"
      "item_is A (?iv TYPE_A)" "item_is N (?iv TYPE_NS)" "item_is C (?iv TYPE_CNAME)"
    using sort_answer_ok [OF v ws, of "length ws" "\<lambda>i. clk (15 + i)"] ok by auto
  define es1 where "es1 = put_list clk (plain_cap c) A (?iv TYPE_A) TYPE_A 9 es"
  define es2 where "es2 = put_list clk (plain_cap c) N (?iv TYPE_NS) TYPE_NS 11 es1"
  define es3 where "es3 = put_list clk (plain_cap c) C (?iv TYPE_CNAME) TYPE_CNAME 13 es2"
  obtain c1 where c1: "putItem c (it_name A) (uint (it_type A)) A (clk 9) (clk (9 + 1)) = Inr c1" "plain_rel c1 es1"
      "plain_cap c1 = plain_cap c"
    unfolding es1_def by (rule put_collected_list [OF rel s(2) ok _ refl, of clk 9]) simp_all
  obtain c2 where c2: "putItem c1 (it_name N) (uint (it_type N)) N (clk 11) (clk (11 + 1)) = Inr c2" "plain_rel c2 es2"
      "plain_cap c2 = plain_cap c"
    unfolding es2_def by (rule put_collected_list [OF c1(2) s(3) ok _ c1(3), of clk 11]) simp_all
  obtain c3 where c3: "putItem c2 (it_name C) (uint (it_type C)) C (clk 13) (clk (13 + 1)) = Inr c3" "plain_rel c3 es3"
      "plain_cap c3 = plain_cap c"
    unfolding es3_def by (rule put_collected_list [OF c2(2) s(4) ok _ c2(3), of clk 13]) simp_all
  have distinct: "TYPE_A \<noteq> TYPE_NS" "TYPE_A \<noteq> TYPE_CNAME" "TYPE_NS \<noteq> TYPE_CNAME"
    by (simp_all add: TYPE_A_def TYPE_NS_def TYPE_CNAME_def)
  have A1: "holds_first clk (Suc 0) es1 (?iv TYPE_A) TYPE_A 9" unfolding es1_def by (rule holds_put [OF s(2)])
  have A2: "holds_first clk (Suc (Suc 0)) es2 (?iv TYPE_A) TYPE_A 9"
    unfolding es2_def by (rule holds_stays [OF A1]) (use cap distinct in simp_all)
  have A3: "holds_first clk (Suc (Suc (Suc 0))) es3 (?iv TYPE_A) TYPE_A 9"
    unfolding es3_def by (rule holds_stays [OF A2]) (use cap distinct in simp_all)
  have N2: "holds_first clk (Suc 0) es2 (?iv TYPE_NS) TYPE_NS 11" unfolding es2_def by (rule holds_put [OF s(3)])
  have N3: "holds_first clk (Suc (Suc 0)) es3 (?iv TYPE_NS) TYPE_NS 11"
    unfolding es3_def by (rule holds_stays [OF N2]) (use cap distinct in simp_all)
  have C3: "holds_first clk (Suc 0) es3 (?iv TYPE_CNAME) TYPE_CNAME 13" unfolding es3_def by (rule holds_put [OF s(4)])
  note h = holds_first_answer [OF A3] holds_first_answer [OF N3] holds_first_answer [OF C3]
  have run: "cache_answer clk c msg = Inr c3"
    using s(1) n destroyMsg_ok [OF sh v] c1(1) c2(1) c3(1) by (simp add: cache_answer_def ANSWER_def)
  have e3: "e \<in> set es3 \<Longrightarrow> e \<in> set es2 \<or> collected_entry clk ws TYPE_CNAME e"
    and e2: "e \<in> set es2 \<Longrightarrow> e \<in> set es1 \<or> collected_entry clk ws TYPE_NS e"
    and e1: "e \<in> set es1 \<Longrightarrow> e \<in> set es \<or> collected_entry clk ws TYPE_A e" for e
    unfolding es3_def es2_def es1_def by (erule put_entries [OF _ s(4) refl] put_entries [OF _ s(3) refl]
      put_entries [OF _ s(2) refl])+
  have "e \<in> set es \<or> (\<exists>t. cached_type t \<and> collected_entry clk ws t e)" if "e \<in> set es3" for e
    using e3 [OF that] e2 [of e] e1 [of e] by blast
  with run c3(2) h c3(3) show ?thesis by (rule that)
qed

section \<open>Requests that are relayed\<close>

lemma rd_block_prefix: "n \<le> length xs \<Longrightarrow> rd_block (xs @ ys) 0 n = Inr (take n xs)"
  by (simp add: rd_block_def)

lemma receive_request:
  "rd_block (a_buff (receive dgram cli)) 0 (a_n (receive dgram cli)) = Inr (map Some (take BUFF_LEN dgram))"
  by (simp add: receive_def Let_def rd_block_prefix take_map min_def)

text \<open>The datagram of the server behind the relay, in the buffer it is received into.\<close>

definition answer_buff :: "cstring \<Rightarrow> carr" where
  "answer_buff ans = map Some (take BUFF_LEN ans) @ uninit (BUFF_LEN - length ans)"

lemma take_min_length: "take (min n (length xs)) xs = take n xs"
  by (metis min.commute take_all_iff min_def nle_le)

lemma answer_received:
  "map Some (take (min BUFF_LEN (length ans)) ans) @ uninit (BUFF_LEN - min BUFF_LEN (length ans)) = answer_buff ans"
  "rd_block (answer_buff ans) 0 (min BUFF_LEN (length ans)) = Inr (map Some (take BUFF_LEN ans))"
proof -
  show "map Some (take (min BUFF_LEN (length ans)) ans) @ uninit (BUFF_LEN - min BUFF_LEN (length ans)) = answer_buff ans"
    by (simp add: answer_buff_def take_min_length) (simp add: min_def)
  show "rd_block (answer_buff ans) 0 (min BUFF_LEN (length ans)) = Inr (map Some (take BUFF_LEN ans))"
    unfolding answer_buff_def by (subst rd_block_prefix) (simp_all add: take_map min_def)
qed

lemma relay_runs:
  assumes net: "net (map Some (take BUFF_LEN dgram)) = Answer ans" and dec: "decode (answer_buff ans) = Some (Inr r)"
    and sh: "msg_shape msg" and v: "message_view msg = Inr pk"
  shows "relay net clk sv (receive dgram cli) msg =
     bindR (Some (cache_answer clk (sv_cache sv) r)) (\<lambda>c. Some (Inr (sv\<lparr>sv_cache := c\<rparr>,
       [Socket_Open, To_Server (map Some (take BUFF_LEN dgram)), Socket_Close,
        To_Client (map Some (take BUFF_LEN ans)) cli])))"
  unfolding relay_def receive_request Let_def answer_received(1)
  using net dec answer_received(2) destroyMsg_ok [OF sh v] by (simp add: receive_def Let_def)

lemma relay_answer:
  assumes net: "net (map Some (take BUFF_LEN dgram)) = Answer ans"
    and dec: "decode (answer_buff ans) = Some (Inr r)" "message_view r = Inr rpk" "cachable (pk_rrs rpk ! 0)"
    and rel: "plain_rel (sv_cache sv) es" and cap: "3 \<le> plain_cap (sv_cache sv)"
    and sh: "msg_shape msg" and v: "message_view msg = Inr pk"
  obtains c' es' where "relay net clk sv (receive dgram cli) msg = Some (Inr (sv\<lparr>sv_cache := c'\<rparr>,
      [Socket_Open, To_Server (map Some (take BUFF_LEN dgram)), Socket_Close,
       To_Client (map Some (take BUFF_LEN ans)) cli]))"
    and "plain_rel c' es'" and "holds_answer clk es' (pk_rrs rpk ! 0) TYPE_A 9"
    and "holds_answer clk es' (pk_rrs rpk ! 0) TYPE_NS 11" and "holds_answer clk es' (pk_rrs rpk ! 0) TYPE_CNAME 13"
proof -
  have rsh: "msg_shape r" using decode_decoded [OF dec(1)] by (simp add: decoded_def)
  obtain c' es' where c': "cache_answer clk (sv_cache sv) r = Inr c'" "plain_rel c' es'"
      "holds_answer clk es' (pk_rrs rpk ! 0) TYPE_A 9" "holds_answer clk es' (pk_rrs rpk ! 0) TYPE_NS 11"
      "holds_answer clk es' (pk_rrs rpk ! 0) TYPE_CNAME 13"
    by (rule cache_answer_ok [where clk = clk, OF rel cap rsh dec(2) refl dec(3)]) metis
  have "relay net clk sv (receive dgram cli) msg = Some (Inr (sv\<lparr>sv_cache := c'\<rparr>,
      [Socket_Open, To_Server (map Some (take BUFF_LEN dgram)), Socket_Close,
       To_Client (map Some (take BUFF_LEN ans)) cli]))"
    using relay_runs [where net = net, OF net dec(1) sh v] c'(1) by simp
  then show ?thesis using that c'(2-) by blast
qed

lemma no_file:
  assumes "reader_of ls (sv_reader sv)" and "cstr name = Inr s"
    and "t \<noteq> TYPE_A \<or> map_of (rev (hosts ls)) s = None"
  shows "answer_from_file clk sv msg name t = Inr (sv, None)"
proof (cases "t = TYPE_A")
  case True
  then show ?thesis using get_a_record_parts(1) [OF assms(1,2)] assms(3)
    by (simp add: answer_from_file_def file_reader_get_a_record_def)
qed (simp add: answer_from_file_def)

lemma handle_relay:
  assumes name: "cstr name = Inr s" "length name = STR_LEN" and rel: "plain_rel (sv_cache sv) es"
    and un: "uncached es s t" and fr: "reader_of ls (sv_reader sv)"
    and nofile: "t \<noteq> TYPE_A \<or> map_of (rev (hosts ls)) s = None"
  obtains c' where "handle_query net clk sv parg msg name t = relay net clk (sv\<lparr>sv_cache := c'\<rparr>) parg msg"
    and "plain_rel c' es" and "plain_cap c' = plain_cap (sv_cache sv)"
proof -
  obtain c' where c': "answer_from_cache clk (sv_cache sv) msg name t = Inr (c', None)" "plain_rel c' es"
      "plain_cap c' = plain_cap (sv_cache sv)"
    by (rule cache_miss [where clk = clk, OF rel name(1) STR_LEN_256 [OF name(2)] un])
  have "answer_from_file clk (sv\<lparr>sv_cache := c'\<rparr>) msg name t = Inr (sv\<lparr>sv_cache := c'\<rparr>, None)"
    by (rule no_file [OF _ name(1) nofile]) (simp add: fr)
  then show ?thesis using that c' by (simp add: handle_query_def)
qed

definition server_failure :: "packet \<Rightarrow> packet" where
  "server_failure pk = pk\<lparr>pk_flag := or (or (pk_flag pk) 1) (push_bit 8 (ucast (reverse8 2)))\<rparr>"

lemma fail_reply_ok:
  assumes "msg_shape msg" and "message_view msg = Inr pk" and "packet_ok pk" and "packet_size pk \<le> BUFF_LEN"
  obtains d where "fail_reply msg cli = Inr (To_Client d cli)" and "client_sees d (server_failure pk)"
proof -
  let ?m = "setRCODE (setResp msg) RCODE_SERVER_FAILURE"
  have m: "?m = msg\<lparr>msg_flag := pk_flag (server_failure pk)\<rparr>"
    using assms(2) by (simp add: message_view_iff setRCODE_def setResp_def Let_def RCODE_SERVER_FAILURE_def server_failure_def)
  have v: "msg_shape ?m" "message_view ?m = Inr (server_failure pk)"
    unfolding m using flag_view [OF assms(1,2)] by (simp_all add: server_failure_def)
  have "packet_ok (server_failure pk)" "packet_size (server_failure pk) \<le> BUFF_LEN"
    using assms(3,4) by (simp_all add: packet_ok_def packet_size_def server_failure_def)
  from send_reply_ok [OF v this] that show ?thesis by (metis fail_reply_def)
qed

lemma handler_relays:
  assumes query: "query_of (receive dgram cli) pk q" "qv_type q < 50" "length (qv_name q) < STR_LEN"
    and rel: "plain_rel (sv_cache sv) es" "3 \<le> plain_cap (sv_cache sv)" "uncached es (qv_name q) (qv_type q)"
    and local: "reader_of ls (sv_reader sv)" "qv_type q \<noteq> TYPE_A \<or> map_of (rev (hosts ls)) (qv_name q) = None"
    and net: "net (map Some (take BUFF_LEN dgram)) = Answer ans" "decode (answer_buff ans) = Some (Inr r)"
      "message_view r = Inr rpk" "cachable (pk_rrs rpk ! 0)"
  obtains c' es' where "handler net clk sv (receive dgram cli) = Some (Inr (sv\<lparr>sv_cache := c'\<rparr>,
       [Socket_Open, To_Server (map Some (take BUFF_LEN dgram)), Socket_Close,
        To_Client (map Some (take BUFF_LEN ans)) cli]))"
    and "plain_rel c' es'" and "holds_answer clk es' (pk_rrs rpk ! 0) TYPE_A 9"
    and "holds_answer clk es' (pk_rrs rpk ! 0) TYPE_NS 11" and "holds_answer clk es' (pk_rrs rpk ! 0) TYPE_CNAME 13"
proof -
  obtain msg name where h: "handler net clk sv (receive dgram cli) =
        handle_query net clk sv (receive dgram cli) msg name (qv_type q)"
      "msg_shape msg" "message_view msg = Inr (reply_to pk)" "cstr name = Inr (qv_name q)" "length name = STR_LEN"
    by (rule handler_query [OF query])
  obtain c where c: "handle_query net clk sv (receive dgram cli) msg name (qv_type q) =
        relay net clk (sv\<lparr>sv_cache := c\<rparr>) (receive dgram cli) msg" "plain_rel c es"
      "plain_cap c = plain_cap (sv_cache sv)"
    by (rule handle_relay [OF h(4,5) rel(1,3) local])
  have sv: "plain_rel (sv_cache (sv\<lparr>sv_cache := c\<rparr>)) es" "3 \<le> plain_cap (sv_cache (sv\<lparr>sv_cache := c\<rparr>))"
    using c(2,3) rel(2) by simp_all
  obtain c' es' where "relay net clk (sv\<lparr>sv_cache := c\<rparr>) (receive dgram cli) msg =
      Some (Inr (sv\<lparr>sv_cache := c\<rparr>\<lparr>sv_cache := c'\<rparr>,
        [Socket_Open, To_Server (map Some (take BUFF_LEN dgram)), Socket_Close,
         To_Client (map Some (take BUFF_LEN ans)) cli]))" "plain_rel c' es'"
      "holds_answer clk es' (pk_rrs rpk ! 0) TYPE_A 9" "holds_answer clk es' (pk_rrs rpk ! 0) TYPE_NS 11"
      "holds_answer clk es' (pk_rrs rpk ! 0) TYPE_CNAME 13"
    by (rule relay_answer [where net = net and clk = clk and sv = "sv\<lparr>sv_cache := c\<rparr>" and dgram = dgram and cli = cli,
        OF net sv h(2,3)])
  then show ?thesis using h(1) c(1) by (intro that [of c' es']) simp_all
qed

end
