(* ===== verification/Server_Samples.thy ===== *)
theory Server_Samples
  imports Server_Caching
begin

text \<open>
  Sample datagrams for the witnesses: the query for the name \<open>a.cn\<close> and a type below 256, and an
  answer with a number of address records of that name, each with a compressed name, a time to
  live of 60 seconds and the address 1.2.3.4.
\<close>

definition name_bytes :: cstring where
  "name_bytes = [1, 0x61, 2, 0x63, 0x6e, 0]"

definition sample_name :: cstring where
  "sample_name = [0x61] @ of_char (CHR ''.'') # [0x63, 0x6e]"

definition header_bytes :: "byte list \<Rightarrow> byte \<Rightarrow> byte \<Rightarrow> cstring" where
  "header_bytes flags qc ac = [0x12, 0x34] @ flags @ [0, qc, 0, ac, 0, 0, 0, 0]"

definition rr_bytes :: cstring where
  "rr_bytes = [0xc0, 12, 0, 1, 0, 1, 0, 0, 0, 60, 0, 4, 1, 2, 3, 4]"

definition sample_bytes :: "byte list \<Rightarrow> byte \<Rightarrow> nat \<Rightarrow> cstring" where
  "sample_bytes flags t n = header_bytes flags 1 (of_nat n) @ name_bytes @ [0, t, 0, 1] @ concat (replicate n rr_bytes)"

definition sample_query :: "byte \<Rightarrow> cstring" where
  "sample_query t = sample_bytes [1, 0] t 0"

definition sample_answer :: "nat \<Rightarrow> cstring" where
  "sample_answer n = sample_bytes [0x81, 0x80] 1 n"

definition sample_ques :: "byte \<Rightarrow> ques_val" where
  "sample_ques t = \<lparr>qv_name = sample_name, qv_type = ucast t, qv_class = 1\<rparr>"

definition sample_rr :: rr_val where
  "sample_rr = \<lparr>rv_name = sample_name, rv_type = TYPE_A, rv_class = 1, rv_TTL = 60, rv_data = Rd_Bytes [1, 2, 3, 4]\<rparr>"

definition sample_packet :: "16 word \<Rightarrow> byte \<Rightarrow> nat \<Rightarrow> packet" where
  "sample_packet flag t n = \<lparr>pk_ID = 0x1234, pk_flag = flag, pk_ques = [sample_ques t],
     pk_rrs = [replicate n sample_rr, [], []]\<rparr>"

text \<open>Bytes at an offset.\<close>

lemma rd8_at: "drop p buf = map Some xs @ rest \<Longrightarrow> i < length xs \<Longrightarrow> rd8 buf (p + i) = Inr (xs ! i)"
proof -
  assume d: "drop p buf = map Some xs @ rest" and i: "i < length xs"
  have "length (drop p buf) = length xs + length rest" using d by simp
  then have "p + i < length buf" using i by simp
  moreover have "drop p buf ! i = Some (xs ! i)" using d i by (simp add: nth_append)
  ultimately show ?thesis by (simp add: rd8_def)
qed

lemma rd16_at:
  "drop p buf = map Some xs @ rest \<Longrightarrow> i + 1 < length xs \<Longrightarrow>
     rd16 buf (p + i) = Inr (be16 (xs ! i) (xs ! (i + 1)))"
  using rd8_at [of p buf xs rest i] rd8_at [of p buf xs rest "i + 1"] by (simp add: rd16_def)

lemma rd32_at:
  "drop p buf = map Some xs @ rest \<Longrightarrow> i + 3 < length xs \<Longrightarrow>
     rd32 buf (p + i) = Inr (be32 (be16 (xs ! i) (xs ! (i + 1))) (be16 (xs ! (i + 2)) (xs ! (i + 3))))"
  using rd16_at [of p buf xs rest i] rd16_at [of p buf xs rest "i + 2"]
  by (simp add: rd32_def ac_simps numeral_3_eq_3)

lemma rd_block_at:
  assumes d: "drop p buf = map Some xs @ rest" and p: "p \<le> length buf"
  shows "rd_block buf p (length xs) = Inr (map Some xs)"
proof -
  have "length (drop p buf) = length xs + length rest" using d by simp
  then have "p + length xs \<le> length buf" using p by simp
  with d show ?thesis by (simp add: rd_block_def)
qed

lemma name_bytes_at:
  assumes "drop p buf = map Some (name_bytes @ xs) @ rest"
  shows "name_at buf p sample_name (p + 6)"
proof -
  have "length name_bytes = 6" by (simp add: name_bytes_def)
  then have b: "rd8 buf (p + i) = Inr (name_bytes ! i)" if "i < 6" for i
    using rd8_at [OF assms, of i] that by (simp add: nth_append)
  have l1: "label_at buf p [0x61]"
    using b [of 0] b [of 1] by (simp add: label_at_def label_ok_def name_bytes_def)
  have l2: "label_at buf (p + 2) [0x63, 0x6e]"
    using b [of 2] b [of 3] b [of 4]
    by (auto simp: label_at_def label_ok_def name_bytes_def less_Suc_eq numeral_eq_Suc)
  have "rd8 buf (p + 2 + 1 + length [0x63, 0x6e :: byte]) = Inr 0"
    using b [of 5] by (simp add: name_bytes_def eval_nat_numeral)
  from name_at.last_label [OF l2 this] have "name_at buf (p + 1 + length [0x61 :: byte]) [0x63, 0x6e] (p + 6)"
    by (simp add: eval_nat_numeral)
  from name_at.label [OF l1 this] show ?thesis by (simp add: sample_name_def)
qed

lemma rr_bytes_at:
  assumes d: "drop p buf = map Some rr_bytes @ rest" and name: "name_at buf 12 sample_name e" and e: "e \<le> p"
  shows "rr_wire buf p sample_rr (p + 16)"
proof -
  have b: "rd8 buf (p + i) = Inr (rr_bytes ! i)" if "i < 16" for i
    using rd8_at [OF d, of i] that by (simp add: rr_bytes_def)
  have h: "rd8 buf p = Inr 0xc0" "rd8 buf (p + 1) = Inr 12"
    using b [of 0] b [of 1] by (simp_all add: rr_bytes_def)
  define m where "m = p + 2"
  have "name_at buf p sample_name m"
    unfolding m_def
    by (rule name_at.pointer [OF h(1) _ h(2), of _ e]) (use name e in \<open>simp_all add: be16_def\<close>)
  moreover have "rd16 buf m = Inr TYPE_A" "rd16 buf (m + 2) = Inr 1" "rd32 buf (m + 4) = Inr 60"
      "rd16 buf (m + 8) = Inr 4"
    using rd16_at [OF d, of 2] rd16_at [OF d, of 4] rd32_at [OF d, of 6] rd16_at [OF d, of 10]
    by (simp_all add: m_def rr_bytes_def be16_def be32_def TYPE_A_def add.commute [of p]
        del: add_2_eq_Suc add_2_eq_Suc')
  moreover have "rd_block buf (m + 10) (length [1, 2, 3, 4 :: byte]) = Inr (map Some [1, 2, 3, 4])"
  proof -
    have "drop (m + 10) buf = map Some [1, 2, 3, 4] @ rest"
      using arg_cong [OF d, of "drop 12"] by (simp add: m_def rr_bytes_def add.commute)
    moreover have "m + 10 \<le> length buf" using b [of 12] rd8_in_bounds [of buf "p + 12"] by (simp add: m_def)
    ultimately show ?thesis by (rule rd_block_at)
  qed
  moreover have "p + 16 = m + 10 + unat (4 :: 16 word)" "unat (4 :: 16 word) = length [1, 2, 3, 4 :: byte]"
    by (simp_all add: m_def)
  ultimately show ?thesis
    unfolding rr_wire_def sample_rr_def
    by (intro exI [of _ m] exI [of _ "4 :: 16 word"]) (simp del: list.size)
qed

lemma rrs_bytes_at:
  assumes "drop p buf = map Some (concat (replicate n rr_bytes)) @ rest" and "name_at buf 12 sample_name e" and "e \<le> p"
  shows "seq_wire rr_wire buf p (replicate n sample_rr) (p + 16 * n)"
  using assms
proof (induction n arbitrary: p)
  case (Suc n)
  then have d: "drop p buf = map Some rr_bytes @ map Some (concat (replicate n rr_bytes)) @ rest" by simp
  have l: "length (map Some rr_bytes) = 16" by (simp add: rr_bytes_def)
  have "drop (p + 16) buf = map Some (concat (replicate n rr_bytes)) @ rest"
    using arg_cong [OF d, of "drop 16"] l by (simp add: add.commute)
  from Suc.IH [OF this Suc.prems(2)] Suc.prems(3) rr_bytes_at [OF d Suc.prems(2,3)]
  show ?case by (auto simp: ac_simps)
qed simp

text \<open>A buffer that starts with a header, the question and some of those records is decoded.\<close>

definition sample_message :: "16 word \<Rightarrow> byte \<Rightarrow> nat \<Rightarrow> message" where
  "sample_message flag t n = newMsg\<lparr>msg_ID := 0x1234, msg_flag := flag, msg_q_count := 1,
     msg_RR_count := [of_nat n, 0, 0],
     msg_ques := (msg_ques newMsg)[0 := Some \<lparr>q_name = map Some (sample_name @ [0]) @ uninit 251,
       q_type = ucast t, q_class = 1\<rparr>],
     msg_resourse_record := (msg_resourse_record newMsg)[0 := replicate n (Some
       \<lparr>rr_name = map Some (sample_name @ [0]) @ uninit 251, rr_type = TYPE_A, rr_class = 1, rr_TTL = 60,
        rr_data_length = 4, rr_data = Some (map Some [1, 2, 3, 4]), rr_data_type = BINARY_TYPE,
        rr_string_data = uninit 256\<rparr>) @ replicate (32 - n) None]\<rparr>"

lemma sample_name_ok: "good_name sample_name"
  by (simp add: good_name_def good_key_def HASH_KEY_MAX_LEN_def sample_name_def)

lemma sample_message_shape: "n \<le> 32 \<Longrightarrow> msg_shape (sample_message flag t n)"
  by (auto simp: msg_shape_def sample_message_def newMsg_def MAX_SIZE_def nth_list_update)

lemma sample_message_view: "n \<le> 32 \<Longrightarrow> message_view (sample_message flag t n) = Inr (sample_packet flag t n)"
proof -
  assume n: "n \<le> 32"
  have name: "cstr (map Some (sample_name @ [0]) @ uninit 251) = Inr sample_name"
    using cstr_map_Some [of sample_name "[]"] by (simp add: sample_name_def)
  have u: "unat (of_nat n :: 16 word) = n" using n by (simp add: unat_of_nat)
  show ?thesis
    unfolding message_view_iff using n u name
    by (auto simp: sample_message_def sample_packet_def newMsg_def less_3_cases ques_at_def rr_at_def MAX_SIZE_def
        ques_view_def sample_ques_def rr_view_def sample_rr_def data_view_def rd_block_def nth_append)
qed

lemma sample_header:
  assumes d: "buf = map Some (header_bytes flags qc ac) @ rest" and f: "length flags = 2"
  shows "decode_header buf = Inr (newMsg\<lparr>msg_ID := 0x1234,
     msg_flag := or (ucast (reverse8 (flags ! 0))) (push_bit 8 (ucast (reverse8 (flags ! 1)))),
     msg_q_count := ucast qc, msg_RR_count := [ucast ac, 0, 0]\<rparr>)"
proof -
  obtain a b where fl: "flags = [a, b]" using f by (auto simp: numeral_eq_Suc length_Suc_conv)
  show ?thesis
    by (simp add: d fl header_bytes_def decode_header_def rd16_def rd8_def be16_def upt_3 newMsg_def
        numeral_3_eq_3)
qed

lemma sample_decode:
  assumes buf: "buf = map Some (sample_bytes flags t n) @ rest" and f: "length flags = 2" and n: "n \<le> 32"
    and fl: "flag = or (ucast (reverse8 (flags ! 0))) (push_bit 8 (ucast (reverse8 (flags ! 1))))"
  obtains m where "decode buf = Some (Inr m)" and "message_view m = Inr (sample_packet flag t n)"
proof -
  let ?msg = "sample_message flag t n"
  have l: "length (header_bytes flags 1 (of_nat n)) = 12" using f by (simp add: header_bytes_def)
  have ln: "length name_bytes = 6" by (simp add: name_bytes_def)
  have d12: "drop 12 buf = map Some (name_bytes @ [0, t, 0, 1] @ concat (replicate n rr_bytes)) @ rest"
    using l by (simp add: buf sample_bytes_def)
  have d18: "drop 18 buf = map Some [0, t, 0, 1] @ map Some (concat (replicate n rr_bytes)) @ rest"
    using arg_cong [OF d12, of "drop 6"] ln by simp
  have d22: "drop 22 buf = map Some (concat (replicate n rr_bytes)) @ rest"
    using arg_cong [OF d18, of "drop 4"] by simp
  have na: "name_at buf 12 sample_name 18" using name_bytes_at [OF d12] by simp
  have "rd16 buf 18 = Inr (ucast t)" "rd16 buf 20 = Inr 1"
    using rd16_at [OF d18, of 0] rd16_at [OF d18, of 2] by (simp_all add: be16_def)
  with na have q: "seq_wire ques_wire buf 12 [sample_ques t] 22"
    by (simp add: ques_wire_def sample_ques_def)
  have "seq_wire rr_wire buf 22 (replicate n sample_rr) (22 + 16 * n)"
    using rrs_bytes_at [OF d22 na] by simp
  then have r: "seq_wire (seq_wire rr_wire) buf 22 [replicate n sample_rr, [], []] (22 + 16 * n)" by auto
  have u: "(ucast (of_nat n :: byte) :: 16 word) = of_nat n"
    using n by (simp add: word_unat_eq_iff unat_of_nat unsigned_ucast_eq take_bit_eq_mod)
  have "decode_header buf = Inr (newMsg\<lparr>msg_ID := msg_ID ?msg, msg_flag := msg_flag ?msg,
       msg_q_count := msg_q_count ?msg, msg_RR_count := msg_RR_count ?msg\<rparr>)"
    using sample_header [of buf flags 1 "of_nat n"] f u
    by (simp add: buf sample_bytes_def fl sample_message_def)
  then have at: "packet_at buf ?msg (sample_packet flag t n) (22 + 16 * n)"
    using q r by (auto simp: packet_at_def sample_packet_def)
  have ok: "packet_ok (sample_packet flag t n)"
    by (auto simp: packet_ok_def sample_packet_def sample_ques_def sample_rr_def rr_ok_def sample_name_ok
        TYPE_A_def TYPE_NS_def TYPE_CNAME_def)
  show ?thesis
    by (rule decode_ok [OF at sample_message_view [OF n] sample_message_shape [OF n] ok]) (rule that)
qed

lemma length_sample: "length flags = 2 \<Longrightarrow> length (sample_bytes flags t n) = 22 + 16 * n"
  by (induction n) (auto simp: sample_bytes_def header_bytes_def name_bytes_def rr_bytes_def)

lemma sample_query_of:
  "query_of (receive (sample_query t) cli) (sample_packet 0x80 t 0) (sample_ques t)"
proof -
  let ?n = "min BUFF_LEN (length (sample_query t))"
  have "take ?n (sample_query t) = sample_query t" by (simp add: length_sample sample_query_def BUFF_LEN_def)
  then have "a_buff (receive (sample_query t) cli) = map Some (sample_bytes [1, 0] t 0) @ uninit (BUFF_LEN - ?n)"
    by (simp add: receive_def Let_def sample_query_def)
  then obtain m where "decode (a_buff (receive (sample_query t) cli)) = Some (Inr m)"
      "message_view m = Inr (sample_packet 0x80 t 0)"
    by (rule sample_decode) (simp_all add: reverse8_def)
  then show ?thesis by (auto simp: query_of_def sample_packet_def)
qed

lemma sample_answer_decode:
  assumes "n \<le> 32"
  obtains m where "decode (answer_buff (sample_answer n)) = Some (Inr m)"
    and "message_view m = Inr (sample_packet 0x181 1 n)"
proof -
  have "answer_buff (sample_answer n) =
      map Some (sample_bytes [0x81, 0x80] 1 n) @ uninit (BUFF_LEN - length (sample_answer n))"
    using assms by (simp add: answer_buff_def sample_answer_def length_sample BUFF_LEN_def)
  then show ?thesis
    by (rule sample_decode) (use assms that in \<open>simp_all add: reverse8_def\<close>)
qed

text \<open>A new server on a host file.\<close>

definition sample_config :: "file_reader \<Rightarrow> config" where
  "sample_config fr = \<lparr>cf_poolsize = 10, cf_debug = CLOG_LEVEL_INFO, cf_port = 53, cf_cachesize = 1024,
     cf_reader = fr, cf_dns = [1, 1, 1, 1]\<rparr>"

lemma start_state_ok:
  assumes "2 \<le> cf_cachesize cf" and "cf_cachesize cf \<le> 2 ^ 28"
  shows "plain_rel (sv_cache (start_state cf)) []" and "plain_cap (sv_cache (start_state cf)) = nat (cf_cachesize cf)"
  using CreateCache_plain [OF assms] by (simp_all add: start_state_def plain_cap_def CreateCache_def Let_def split: prod.splits)

definition sample_item :: "byte list \<Rightarrow> item" where
  "sample_item bs = \<lparr>it_name = map Some (sample_name @ [0]) @ zeroed 123, it_type = 1, it_num = 1,
     it_ipv4 = (replicate MAX_NUM (zeroed 4))[0 := map Some bs],
     it_strVal = replicate MAX_NUM (zeroed (STR_LEN + 1)), it_ddl = 1060\<rparr>"

definition sample_iv :: "byte list \<Rightarrow> item_val" where
  "sample_iv bs = \<lparr>iv_name = sample_name, iv_type = 1, iv_data = [Rd_Bytes bs], iv_ddl = 1060\<rparr>"

lemma sample_item_is: "length bs = 4 \<Longrightarrow> item_is (sample_item bs) (sample_iv bs)"
  using cstr_map_Some [of sample_name "[]" "zeroed 123"]
  by (simp add: item_is_def sample_item_def sample_iv_def MAX_NUM_def STR_LEN_def zeroed_def slot_is_def sample_name_def)

lemma sample_key_good: "good_key (item_key sample_name t)"
  by (simp add: good_key_def item_key_def sample_name_def HASH_KEY_MAX_LEN_def bytes_def)

definition sample_cli :: sockaddr_in where
  "sample_cli = \<lparr>sin_port = 5353, sin_addr = 0x7f000001\<rparr>"

definition no_hosts :: file_reader where
  "no_hosts = \<lparr>fr_fd = \<lparr>st_bytes = [], st_pos = 0\<rparr>, fr_item_index = NewHashTab\<rparr>"

lemma no_hosts_reader: "reader_of [] no_hosts"
  by (simp add: reader_of_def no_hosts_def file_bytes_def NewHashTab_ok)

definition sample_server :: "item Cache \<Rightarrow> server" where
  "sample_server c = \<lparr>sv_cache = c, sv_reader = no_hosts, sv_log = log_state0\<rparr>"

lemma sample_cache:
  fixes it :: item
  obtains c where "CachePut (CreateCache 1024 None) (item_key sample_name t) it SIZEOF_ITEM 60 1000 = Inr c"
    and "plain_rel c [\<lparr>e_key = item_key sample_name t, e_saved = 1000, e_ttl = 60, e_data = it\<rparr>]"
proof -
  have "plain_rel (CreateCache 1024 None :: item Cache) []" by (rule CreateCache_plain) simp_all
  from plain.put_ok [OF this sample_key_good, of t it SIZEOF_ITEM 60 1000] that
  show ?thesis by (auto simp: lru_put_def lru_find_def split: if_splits)
qed

lemma sample_reply_ok:
  assumes "length bs = 4"
  shows "packet_ok (answered (reply_to (sample_packet f t 0)) (sample_iv bs) now)"
    and "packet_size (answered (reply_to (sample_packet f t 0)) (sample_iv bs) now) \<le> BUFF_LEN"
  using assms sample_name_ok
  by (auto simp: answered_def name_error_def with_answers_def reply_to_def sample_packet_def sample_ques_def
      packet_ok_def rr_ok_def item_rr_def sample_iv_def TYPE_NS_def TYPE_CNAME_def BUFF_LEN_def
      packet_size_def ques_size_def rr_size_def sample_name_def)

lemma sample_types [simp]:
  "qv_name (sample_ques t) = sample_name" "qv_type (sample_ques 1) = TYPE_A" "length sample_name = 4"
  "is_cstring sample_name"
  by (simp_all add: sample_ques_def TYPE_A_def sample_name_def)

lemma type_distinct [simp]: "TYPE_A \<noteq> TYPE_NS" "TYPE_NS \<noteq> TYPE_A" "TYPE_A \<noteq> TYPE_CNAME" "TYPE_CNAME \<noteq> TYPE_A"
    "TYPE_NS \<noteq> TYPE_CNAME" "TYPE_CNAME \<noteq> TYPE_NS"
  by (simp_all add: TYPE_A_def TYPE_NS_def TYPE_CNAME_def)

lemma new_cache: "plain_rel (CreateCache 1024 None :: item Cache) []" "plain_cap (CreateCache 1024 None :: item Cache) = 1024"
  using CreateCache_plain [of 1024] by (simp_all add: plain_cap_def CreateCache_def Let_def split: prod.splits)

lemma sample_name_bytes: "sample_name = bytes ''a.cn''"
  by (simp add: sample_name_def bytes_def)

lemma uncached_Nil [simp]: "uncached [] s t"
  by (simp add: uncached_def lru_find_def)

definition blocking_hosts :: "(cstring \<times> cstring) list" where
  "blocking_hosts = [(bytes ''0.0.0.0'', sample_name)]"

lemma blocking_hosts_ok: "\<forall>l \<in> set blocking_hosts. line_ok l" "length blocking_hosts \<le> 2 ^ 29"
  by (simp_all add: blocking_hosts_def line_ok_def is_word_def bytes_def is_cstring_def isspace_def good_key_def
      HASH_KEY_MAX_LEN_def word_le_nat_alt sample_name_def)

definition alias_item :: item where
  "alias_item = \<lparr>it_name = map Some (sample_name @ [0]) @ zeroed 123, it_type = 5, it_num = 1,
     it_ipv4 = replicate MAX_NUM (zeroed 4),
     it_strVal = (replicate MAX_NUM (zeroed (STR_LEN + 1)))[0 := map Some (bytes ''b.cn'' @ [0]) @ zeroed 124], it_ddl = 1060\<rparr>"

definition alias_iv :: item_val where
  "alias_iv = \<lparr>iv_name = sample_name, iv_type = 5, iv_data = [Rd_Name (bytes ''b.cn'')], iv_ddl = 1060\<rparr>"

lemma alias_item_is: "item_is alias_item alias_iv"
  using cstr_map_Some [of sample_name "[]" "zeroed 123"] cstr_map_Some [of "bytes ''b.cn''" "[]" "zeroed 124"]
  by (simp add: item_is_def alias_item_def alias_iv_def MAX_NUM_def STR_LEN_def zeroed_def slot_is_def nth_list_update
      del: map_append append.simps)
    (simp add: sample_name_def bytes_def)

definition target_item :: item where
  "target_item = (sample_item [1, 2, 3, 4])\<lparr>it_name := map Some (bytes ''b.cn'' @ [0]) @ zeroed 123\<rparr>"

definition target_iv :: item_val where
  "target_iv = (sample_iv [1, 2, 3, 4])\<lparr>iv_name := bytes ''b.cn''\<rparr>"

lemma target_item_is: "item_is target_item target_iv"
  using cstr_map_Some [of "bytes ''b.cn''" "[]" "zeroed 123"] sample_item_is [of "[1, 2, 3, 4]"]
  by (simp add: item_is_def target_item_def target_iv_def sample_item_def sample_iv_def slot_is_def STR_LEN_def
      zeroed_def bytes_def)

lemma cachable_sample: "n \<le> 10 \<Longrightarrow> cachable (replicate n sample_rr)"
proof -
  assume n: "n \<le> 10"
  have "filter (\<lambda>w. rv_type w = t) (replicate n sample_rr) = (if rv_type sample_rr = t then replicate n sample_rr else [])" for t
    by (induction n) auto
  then show ?thesis
    using n by (auto simp: cachable_def sample_rr_def storable_def MAX_NUM_def HASH_KEY_MAX_LEN_def STR_LEN_def)
qed

end
