(* ===== verification/Server_Properties.thy ===== *)
theory Server_Properties
  imports Server_Samples
begin

text \<open>
  What the handler of a request promises: the answers from the cache, from the host file and from
  the server behind the relay, and the requests and answers that it does not survive.
\<close>

section \<open>Properties\<close>

text \<open>
  C8. A cached item answers: on a request for an address, a name server or an alias whose item is
  in the cache and not past its time, the handler sends one datagram to the client and nothing
  to anyone else. The client reads from it the request's identifier and questions, the response
  and recursion flags, and the item's records with the remaining time to live; or, for the
  blocked address 0.0.0.0, the response code NAME_ERR and no record.
\<close>

theorem cached_item_answers:
  assumes "query_of parg pk q" and "cached_type (qv_type q)" and "length (qv_name q) < STR_LEN"
    and "plain_rel (sv_cache sv) es" and "live es (item_key (qv_name q) (qv_type q)) (clk 0) it"
    and "item_is it iv" and "iv_data iv \<noteq> []"
    and "length (pk_rrs pk ! 0) + length (iv_data iv) \<le> MAX_SIZE"
    and "packet_ok (answered (reply_to pk) iv (clk 1))"
    and "packet_size (answered (reply_to pk) iv (clk 1)) \<le> BUFF_LEN"
  shows "\<exists>sv' d es'. handler net clk sv parg = Some (Inr (sv', [To_Client d (a_cliAddr parg)])) \<and>
     client_sees d (answered (reply_to pk) iv (clk 1)) \<and>
     plain_rel (sv_cache sv') es' \<and> sv_reader sv' = sv_reader sv"
proof -
  obtain msg name where h: "handler net clk sv parg = handle_query net clk sv parg msg name (qv_type q)"
      "msg_shape msg" "message_view msg = Inr (reply_to pk)" "cstr name = Inr (qv_name q)" "length name = STR_LEN"
    by (rule handler_query [OF assms(1) type_below_50 [OF assms(2)] assms(3)])
  have "length (pk_rrs (reply_to pk) ! 0) + length (iv_data iv) \<le> MAX_SIZE"
    using assms(8) by (simp add: reply_to_def)
  then obtain c' es' msg' where c: "answer_from_cache clk (sv_cache sv) msg name (qv_type q) = Inr (c', Some msg')"
      "plain_rel c' es'" "msg_shape msg'" "message_view msg' = Inr (answered (reply_to pk) iv (clk 1))"
    by (rule cache_hit [where clk = clk, OF assms(4) h(4) STR_LEN_256 [OF h(5)] assms(2,5-7) h(2,3)])
  show ?thesis
    using handle_from_cache [OF c(1-4) assms(9,10), of net parg] h(1) c(2) by fastforce
qed

theorem cached_item_answers_witness:
  "\<exists>c sv' d. CachePut (CreateCache 1024 None) (item_key sample_name TYPE_A) (sample_item [1, 2, 3, 4]) SIZEOF_ITEM 60 1000 = Inr c \<and>
     handler (\<lambda>_. No_Answer) (\<lambda>_. 1030) (sample_server c) (receive (sample_query 1) sample_cli) =
       Some (Inr (sv', [To_Client d sample_cli])) \<and>
     client_sees d \<lparr>pk_ID = 0x1234, pk_flag = 0x181, pk_ques = [sample_ques 1],
       pk_rrs = [[\<lparr>rv_name = sample_name, rv_type = 1, rv_class = CLASS_IN, rv_TTL = 30,
                   rv_data = Rd_Bytes [1, 2, 3, 4]\<rparr>], [], []]\<rparr>"
proof -
  let ?it = "sample_item [1, 2, 3, 4]" and ?iv = "sample_iv [1, 2, 3, 4]"
  obtain c where c: "CachePut (CreateCache 1024 None) (item_key sample_name TYPE_A) ?it SIZEOF_ITEM 60 1000 = Inr c"
      "plain_rel c [\<lparr>e_key = item_key sample_name TYPE_A, e_saved = 1000, e_ttl = 60, e_data = ?it\<rparr>]"
    by (rule sample_cache)
  have "\<exists>sv' d es'. handler (\<lambda>_. No_Answer) (\<lambda>_. 1030) (sample_server c) (receive (sample_query 1) sample_cli) =
       Some (Inr (sv', [To_Client d (a_cliAddr (receive (sample_query 1) sample_cli))])) \<and>
     client_sees d (answered (reply_to (sample_packet 0x80 1 0)) ?iv 1030) \<and>
     plain_rel (sv_cache sv') es' \<and> sv_reader sv' = sv_reader (sample_server c)"
    by (rule cached_item_answers [OF sample_query_of, where it = ?it])
      (use c(2) in \<open>simp_all add: sample_server_def STR_LEN_def live_def lru_find_def sample_item_is sample_reply_ok,
        simp_all add: sample_iv_def sample_packet_def MAX_SIZE_def\<close>)
  then show ?thesis
    using c(1) by (auto simp: receive_def Let_def answered_def blocked_def sample_iv_def with_answers_def reply_to_def
        sample_packet_def item_rr_def)
qed

text \<open>
  C9. An alias in the cache answers: on a request for an address of a name that has no address item
  but a live \<open>CNAME\<close> item whose first target has a live address item, the client receives the
  alias records followed by the address records of the target, each with its remaining time to
  live.
\<close>

theorem cached_alias_answers:
  assumes "query_of parg pk q" and "qv_type q = TYPE_A" and "length (qv_name q) < STR_LEN"
    and "plain_rel (sv_cache sv) es" and "lru_find (item_key (qv_name q) TYPE_A) es = None"
    and "live es (item_key (qv_name q) TYPE_CNAME) (clk 1) it" and "live es (item_key target TYPE_A) (clk 2) tit"
    and "item_is it iv" and "iv_type iv = 5" and "iv_data iv = Rd_Name target # ds"
    and "item_is tit tiv" and "iv_data tiv \<noteq> []"
    and "length (pk_rrs pk ! 0) + length (iv_data iv) + length (iv_data tiv) \<le> MAX_SIZE"
    and "packet_ok (answered (answered (reply_to pk) iv (clk 3)) tiv (clk 4))"
    and "packet_size (answered (answered (reply_to pk) iv (clk 3)) tiv (clk 4)) \<le> BUFF_LEN"
  shows "\<exists>sv' d es'. handler net clk sv parg = Some (Inr (sv', [To_Client d (a_cliAddr parg)])) \<and>
     client_sees d (answered (answered (reply_to pk) iv (clk 3)) tiv (clk 4)) \<and>
     plain_rel (sv_cache sv') es' \<and> sv_reader sv' = sv_reader sv"
proof -
  have "qv_type q < 50" using assms(2) by (simp add: TYPE_A_def)
  then obtain msg name where h: "handler net clk sv parg = handle_query net clk sv parg msg name (qv_type q)"
      "msg_shape msg" "message_view msg = Inr (reply_to pk)" "cstr name = Inr (qv_name q)" "length name = STR_LEN"
    by (rule handler_query [OF assms(1) _ assms(3)])
  have "length (pk_rrs (reply_to pk) ! 0) + length (iv_data iv) + length (iv_data tiv) \<le> MAX_SIZE"
    using assms(13) by (simp add: reply_to_def)
  then obtain c' es' msg' where c: "answer_from_cache clk (sv_cache sv) msg name TYPE_A = Inr (c', Some msg')"
      "plain_rel c' es'" "msg_shape msg'"
      "message_view msg' = Inr (answered (answered (reply_to pk) iv (clk 3)) tiv (clk 4))"
    by (rule cache_hit_cname [where clk = clk, OF assms(4) h(4) STR_LEN_256 [OF h(5)] assms(5-12) h(2,3)])
  show ?thesis
    using handle_from_cache [OF c(1-4) assms(14,15), of net parg] h(1) c(2) assms(2) by fastforce
qed

theorem cached_alias_answers_witness:
  "\<exists>c1 c sv' d. CachePut (CreateCache 1024 None) (item_key sample_name TYPE_CNAME) alias_item SIZEOF_ITEM 60 1000 = Inr c1 \<and>
     CachePut c1 (item_key (bytes ''b.cn'') TYPE_A) target_item SIZEOF_ITEM 60 1000 = Inr c \<and>
     handler (\<lambda>_. No_Answer) (\<lambda>_. 1030) (sample_server c) (receive (sample_query 1) sample_cli) =
       Some (Inr (sv', [To_Client d sample_cli])) \<and>
     client_sees d \<lparr>pk_ID = 0x1234, pk_flag = 0x181, pk_ques = [sample_ques 1],
       pk_rrs = [[\<lparr>rv_name = sample_name, rv_type = 5, rv_class = CLASS_IN, rv_TTL = 30, rv_data = Rd_Name (bytes ''b.cn'')\<rparr>,
                  \<lparr>rv_name = bytes ''b.cn'', rv_type = 1, rv_class = CLASS_IN, rv_TTL = 30,
                   rv_data = Rd_Bytes [1, 2, 3, 4]\<rparr>], [], []]\<rparr>"
proof -
  let ?k1 = "item_key sample_name TYPE_CNAME" and ?k2 = "item_key (bytes ''b.cn'') TYPE_A"
  let ?es = "[\<lparr>e_key = ?k2, e_saved = 1000, e_ttl = 60, e_data = target_item\<rparr>,
      \<lparr>e_key = ?k1, e_saved = 1000, e_ttl = 60, e_data = alias_item\<rparr>]"
  obtain c1 where c1: "CachePut (CreateCache 1024 None) ?k1 alias_item SIZEOF_ITEM 60 1000 = Inr c1"
      "plain_cap c1 = 1024" "plain_rel c1 (lru_put 1024 1000 ?k1 alias_item 60 [])"
    using plain.put_ok [OF new_cache(1) sample_key_good] new_cache(2) by metis
  have "good_key ?k2"
    by (simp add: good_key_def item_key_def HASH_KEY_MAX_LEN_def bytes_def)
  then obtain c where c: "CachePut c1 ?k2 target_item SIZEOF_ITEM 60 1000 = Inr c"
      "plain_rel c (lru_put 1024 1000 ?k2 target_item 60 (lru_put 1024 1000 ?k1 alias_item 60 []))"
    using plain.put_ok [OF c1(3)] c1(2) by metis
  have ne: "sample_name \<noteq> bytes ''b.cn''" by (simp add: sample_name_bytes) (simp add: bytes_def)
  have es: "lru_put 1024 1000 ?k2 target_item 60 (lru_put 1024 1000 ?k1 alias_item 60 []) = ?es"
    using ne by (simp add: lru_put_def lru_find_def)
  have r: "answered (answered (reply_to (sample_packet 0x80 1 0)) alias_iv 1030) target_iv 1030 =
      \<lparr>pk_ID = 0x1234, pk_flag = 0x181, pk_ques = [sample_ques 1],
       pk_rrs = [[\<lparr>rv_name = sample_name, rv_type = 5, rv_class = CLASS_IN, rv_TTL = 30, rv_data = Rd_Name (bytes ''b.cn'')\<rparr>,
                  \<lparr>rv_name = bytes ''b.cn'', rv_type = 1, rv_class = CLASS_IN, rv_TTL = 30,
                   rv_data = Rd_Bytes [1, 2, 3, 4]\<rparr>], [], []]\<rparr>"
    by (simp add: answered_def blocked_def alias_iv_def target_iv_def sample_iv_def with_answers_def reply_to_def
        sample_packet_def item_rr_def)
  have gb: "good_name (bytes ''b.cn'')"
    by (simp add: good_name_def good_key_def HASH_KEY_MAX_LEN_def bytes_def)
  have ok: "packet_ok (answered (answered (reply_to (sample_packet 0x80 1 0)) alias_iv 1030) target_iv 1030)"
      "packet_size (answered (answered (reply_to (sample_packet 0x80 1 0)) alias_iv 1030) target_iv 1030) \<le> BUFF_LEN"
    unfolding r using sample_name_ok gb
    by (simp_all add: packet_ok_def rr_ok_def TYPE_NS_def TYPE_CNAME_def packet_size_def ques_size_def rr_size_def BUFF_LEN_def)
  have "\<exists>sv' d es'. handler (\<lambda>_. No_Answer) (\<lambda>_. 1030) (sample_server c) (receive (sample_query 1) sample_cli) =
       Some (Inr (sv', [To_Client d (a_cliAddr (receive (sample_query 1) sample_cli))])) \<and>
     client_sees d (answered (answered (reply_to (sample_packet 0x80 1 0)) alias_iv 1030) target_iv 1030) \<and>
     plain_rel (sv_cache sv') es' \<and> sv_reader sv' = sv_reader (sample_server c)"
    by (rule cached_alias_answers [where clk = "\<lambda>_. 1030" and es = ?es and it = alias_item and tit = target_item
        and target = "bytes ''b.cn''" and ds = "[]", OF sample_query_of _ _ _ _ _ _ alias_item_is _ _ target_item_is _ _ ok])
      (use c(2) es ne in \<open>simp_all add: sample_server_def STR_LEN_def live_def lru_find_def alias_iv_def target_iv_def
        sample_iv_def sample_packet_def MAX_SIZE_def\<close>)
  then show ?thesis using c1(1) c(1) unfolding r by (auto simp: receive_def Let_def)
qed

text \<open>
  C10. The host file answers: on a request for an address that nothing in the cache answers, of a
  name on a line of the host file, the client receives that address with a time to live of
  600000 seconds from the first reading of the clock, nothing is relayed, and the item is put
  into the cache. The name must leave the key below 50 bytes.
\<close>

theorem host_file_answers:
  assumes "query_of parg pk q" and "qv_type q = TYPE_A" and "length (qv_name q) + 2 < HASH_KEY_MAX_LEN"
    and "plain_rel (sv_cache sv) es" and "uncached es (qv_name q) TYPE_A" and "reader_of ls (sv_reader sv)"
    and "map_of (rev (hosts ls)) (qv_name q) = Some a" and "inet_pton a = Some bs"
    and "length (pk_rrs pk ! 0) < MAX_SIZE"
    and "packet_ok (answered (reply_to pk) (file_item (qv_name q) bs (clk 5)) (clk 8))"
    and "packet_size (answered (reply_to pk) (file_item (qv_name q) bs (clk 5)) (clk 8)) \<le> BUFF_LEN"
  shows "\<exists>sv' d it. handler net clk sv parg = Some (Inr (sv', [To_Client d (a_cliAddr parg)])) \<and>
     client_sees d (answered (reply_to pk) (file_item (qv_name q) bs (clk 5)) (clk 8)) \<and>
     item_is it (file_item (qv_name q) bs (clk 5)) \<and>
     plain_rel (sv_cache sv') (lru_put (plain_cap (sv_cache sv)) (clk 7) (item_key (qv_name q) TYPE_A) it
       (600000 + clk 5 - clk 6) es) \<and> reader_of ls (sv_reader sv')"
proof -
  have short: "qv_type q < 50" "length (qv_name q) < STR_LEN"
    using assms(2,3) by (simp_all add: TYPE_A_def STR_LEN_def HASH_KEY_MAX_LEN_def)
  obtain msg name where h: "handler net clk sv parg = handle_query net clk sv parg msg name (qv_type q)"
      "msg_shape msg" "message_view msg = Inr (reply_to pk)" "cstr name = Inr (qv_name q)" "length name = STR_LEN"
    by (rule handler_query [OF assms(1) short])
  have "length (pk_rrs (reply_to pk) ! 0) < MAX_SIZE" using assms(9) by (simp add: reply_to_def)
  then show ?thesis
    using handle_from_file [where clk = clk and net = net and parg = parg,
        OF h(4,5) assms(3-8) h(2,3) _ assms(10,11)] h(1) assms(2) by metis
qed

theorem host_file_answers_witness:
  "\<exists>fr sv' d. file_reader_alloc (file_bytes two_hosts) = Inr fr \<and>
     handler (\<lambda>_. No_Answer) (\<lambda>_. 1000) ((sample_server (CreateCache 1024 None))\<lparr>sv_reader := fr\<rparr>)
       (receive (sample_query 1) sample_cli) = Some (Inr (sv', [To_Client d sample_cli])) \<and>
     client_sees d \<lparr>pk_ID = 0x1234, pk_flag = 0x181, pk_ques = [sample_ques 1],
       pk_rrs = [[\<lparr>rv_name = sample_name, rv_type = 1, rv_class = CLASS_IN, rv_TTL = 600000,
                   rv_data = Rd_Bytes [1, 2, 3, 4]\<rparr>], [], []]\<rparr>"
proof -
  obtain fr where fr: "file_reader_alloc (file_bytes two_hosts) = Inr fr" "reader_of two_hosts fr"
    by (rule file_reader_alloc_ok [OF two_hosts_ok])
  let ?sv = "(sample_server (CreateCache 1024 None))\<lparr>sv_reader := fr\<rparr>"
  have a: "map_of (rev (hosts two_hosts)) (qv_name (sample_ques 1)) = Some (bytes ''1.2.3.4'')"
    by (simp add: two_hosts_def hosts_def sample_name_bytes) (simp add: bytes_def)
  have p: "inet_pton (bytes ''1.2.3.4'') = Some [1, 2, 3, 4]"
    by (simp add: inet_pton_def bytes_def octet_def is_digit_def digits_value_def)
  have r: "answered (reply_to (sample_packet 0x80 1 0)) (file_item (qv_name (sample_ques 1)) [1, 2, 3, 4] 1000) 1000 =
      \<lparr>pk_ID = 0x1234, pk_flag = 0x181, pk_ques = [sample_ques 1],
       pk_rrs = [[\<lparr>rv_name = sample_name, rv_type = 1, rv_class = CLASS_IN, rv_TTL = 600000,
                   rv_data = Rd_Bytes [1, 2, 3, 4]\<rparr>], [], []]\<rparr>"
    by (simp add: answered_def blocked_def file_item_def with_answers_def reply_to_def sample_packet_def item_rr_def)
  have ok: "packet_ok (answered (reply_to (sample_packet 0x80 1 0)) (file_item (qv_name (sample_ques 1)) [1, 2, 3, 4] 1000) 1000)"
      "packet_size (answered (reply_to (sample_packet 0x80 1 0)) (file_item (qv_name (sample_ques 1)) [1, 2, 3, 4] 1000) 1000) \<le> BUFF_LEN"
    unfolding r using sample_name_ok
    by (simp_all add: packet_ok_def rr_ok_def TYPE_NS_def TYPE_CNAME_def packet_size_def ques_size_def rr_size_def BUFF_LEN_def)
  have "\<exists>sv' d it. handler (\<lambda>_. No_Answer) (\<lambda>_. 1000) ?sv (receive (sample_query 1) sample_cli) =
       Some (Inr (sv', [To_Client d (a_cliAddr (receive (sample_query 1) sample_cli))])) \<and>
     client_sees d (answered (reply_to (sample_packet 0x80 1 0)) (file_item (qv_name (sample_ques 1)) [1, 2, 3, 4] 1000) 1000) \<and>
     item_is it (file_item (qv_name (sample_ques 1)) [1, 2, 3, 4] 1000) \<and>
     plain_rel (sv_cache sv') (lru_put (plain_cap (sv_cache ?sv)) 1000 (item_key (qv_name (sample_ques 1)) TYPE_A) it
       (600000 + 1000 - 1000) []) \<and> reader_of two_hosts (sv_reader sv')"
    by (rule host_file_answers [where clk = "\<lambda>_. 1000", OF sample_query_of _ _ _ _ _ a p _ ok])
      (simp_all add: HASH_KEY_MAX_LEN_def sample_server_def new_cache fr(2) sample_packet_def MAX_SIZE_def)
  then show ?thesis using fr(1) unfolding r by (auto simp: receive_def Let_def)
qed

text \<open>
  C11. A blocked domain is refused: on a request for an address of a name that the host file maps to
  0.0.0.0, when neither an address nor an alias of the name is in the cache (both are looked up before
  the file), the handler sends the client one response with the code NAME_ERR and without any answer
  record, and relays nothing.
\<close>

theorem blocked_domain_refused:
  assumes "query_of parg pk q" and "qv_type q = TYPE_A" and "length (qv_name q) + 2 < HASH_KEY_MAX_LEN"
    and "plain_rel (sv_cache sv) es" and "uncached es (qv_name q) TYPE_A" and "reader_of ls (sv_reader sv)"
    and "map_of (rev (hosts ls)) (qv_name q) = Some (bytes ''0.0.0.0'')"
    and "pk_rrs pk ! 0 = []" and "packet_ok (reply_to pk)" and "packet_size (reply_to pk) \<le> BUFF_LEN"
  shows "\<exists>sv' d. handler net clk sv parg = Some (Inr (sv', [To_Client d (a_cliAddr parg)])) \<and>
     client_sees d (name_error (reply_to pk)) \<and> pk_rrs (name_error (reply_to pk)) ! 0 = []"
proof -
  have short: "qv_type q < 50" "length (qv_name q) < STR_LEN"
    using assms(2,3) by (simp_all add: TYPE_A_def STR_LEN_def HASH_KEY_MAX_LEN_def)
  obtain msg name where h: "handler net clk sv parg = handle_query net clk sv parg msg name (qv_type q)"
      "msg_shape msg" "message_view msg = Inr (reply_to pk)" "cstr name = Inr (qv_name q)" "length name = STR_LEN"
    by (rule handler_query [OF assms(1) short])
  have zero: "inet_pton (bytes ''0.0.0.0'') = Some [0, 0, 0, 0]"
    by (simp add: inet_pton_def bytes_def octet_def is_digit_def digits_value_def)
  have ans: "answered (reply_to pk) (file_item (qv_name q) [0, 0, 0, 0] (clk 5)) (clk 8) = name_error (reply_to pk)"
    by (simp add: answered_def blocked_def file_item_def)
  have none: "pk_rrs (name_error (reply_to pk)) ! 0 = []" using assms(8) by (simp add: name_error_def reply_to_def)
  have "length (pk_rrs (reply_to pk) ! 0) < MAX_SIZE" using assms(8) by (simp add: reply_to_def MAX_SIZE_def)
  moreover have "packet_ok (name_error (reply_to pk))" "packet_size (name_error (reply_to pk)) \<le> BUFF_LEN"
    using assms(9,10) by (simp_all add: packet_ok_def packet_size_def name_error_def)
  ultimately show ?thesis
    using handle_from_file [where clk = clk and net = net and parg = parg,
        OF h(4,5) assms(3-7) zero h(2,3)] h(1) assms(2) none unfolding ans by metis
qed

theorem blocked_domain_refused_witness:
  "\<exists>fr sv' d. file_reader_alloc (file_bytes blocking_hosts) = Inr fr \<and>
     handler (\<lambda>_. No_Answer) (\<lambda>_. 1000) ((sample_server (CreateCache 1024 None))\<lparr>sv_reader := fr\<rparr>)
       (receive (sample_query 1) sample_cli) = Some (Inr (sv', [To_Client d sample_cli])) \<and>
     client_sees d \<lparr>pk_ID = 0x1234, pk_flag = 0xc181, pk_ques = [sample_ques 1], pk_rrs = [[], [], []]\<rparr>"
proof -
  obtain fr where fr: "file_reader_alloc (file_bytes blocking_hosts) = Inr fr" "reader_of blocking_hosts fr"
    by (rule file_reader_alloc_ok [OF blocking_hosts_ok])
  let ?sv = "(sample_server (CreateCache 1024 None))\<lparr>sv_reader := fr\<rparr>"
  have a: "map_of (rev (hosts blocking_hosts)) (qv_name (sample_ques 1)) = Some (bytes ''0.0.0.0'')"
    by (simp add: blocking_hosts_def hosts_def)
  have r: "name_error (reply_to (sample_packet 0x80 1 0)) =
      \<lparr>pk_ID = 0x1234, pk_flag = 0xc181, pk_ques = [sample_ques 1], pk_rrs = [[], [], []]\<rparr>"
    by (simp add: name_error_def reply_to_def sample_packet_def reverse8_def)
  have ok: "packet_ok (reply_to (sample_packet 0x80 1 0))" "packet_size (reply_to (sample_packet 0x80 1 0)) \<le> BUFF_LEN"
    using sample_name_ok
    by (simp_all add: packet_ok_def packet_size_def ques_size_def BUFF_LEN_def reply_to_def sample_packet_def)
  have "\<exists>sv' d. handler (\<lambda>_. No_Answer) (\<lambda>_. 1000) ?sv (receive (sample_query 1) sample_cli) =
       Some (Inr (sv', [To_Client d (a_cliAddr (receive (sample_query 1) sample_cli))])) \<and>
     client_sees d (name_error (reply_to (sample_packet 0x80 1 0))) \<and>
     pk_rrs (name_error (reply_to (sample_packet 0x80 1 0))) ! 0 = []"
    by (rule blocked_domain_refused [where clk = "\<lambda>_. 1000" and es = "[]", OF sample_query_of _ _ _ _ _ a _ ok])
      (simp_all add: HASH_KEY_MAX_LEN_def sample_server_def new_cache fr(2) sample_packet_def)
  then show ?thesis using fr(1) unfolding r by (auto simp: receive_def Let_def)
qed

text \<open>
  C5. The relay is transparent and remembers: a request that neither the cache nor the host file
  answers is sent on as it came (cut to 1024 bytes), the client receives exactly the datagram
  that came back, the temporary socket is closed, and the cache holds the address, name server
  and alias records of the answer section, under the name of the last record of each type,
  for the least time to live that the clock readings leave.
\<close>

theorem relay_transparent_and_cached:
  assumes "query_of (receive dgram cli) pk q" and "qv_type q < 50" and "length (qv_name q) < STR_LEN"
    and "plain_rel (sv_cache sv) es" and "3 \<le> plain_cap (sv_cache sv)" and "uncached es (qv_name q) (qv_type q)"
    and "reader_of ls (sv_reader sv)"
    and "qv_type q \<noteq> TYPE_A \<or> map_of (rev (hosts ls)) (qv_name q) = None"
    and "net (map Some (take BUFF_LEN dgram)) = Answer ans"
    and "decode (answer_buff ans) = Some (Inr r)" and "message_view r = Inr rpk" and "cachable (pk_rrs rpk ! 0)"
  shows "\<exists>sv' es'. handler net clk sv (receive dgram cli) = Some (Inr (sv',
       [Socket_Open, To_Server (map Some (take BUFF_LEN dgram)), Socket_Close,
        To_Client (map Some (take BUFF_LEN ans)) cli])) \<and>
     plain_rel (sv_cache sv') es' \<and> holds_answer clk es' (pk_rrs rpk ! 0) TYPE_A 9 \<and>
     holds_answer clk es' (pk_rrs rpk ! 0) TYPE_NS 11 \<and> holds_answer clk es' (pk_rrs rpk ! 0) TYPE_CNAME 13"
proof -
  obtain c' es' where "handler net clk sv (receive dgram cli) = Some (Inr (sv\<lparr>sv_cache := c'\<rparr>,
       [Socket_Open, To_Server (map Some (take BUFF_LEN dgram)), Socket_Close,
        To_Client (map Some (take BUFF_LEN ans)) cli]))" "plain_rel c' es'"
      "holds_answer clk es' (pk_rrs rpk ! 0) TYPE_A 9" "holds_answer clk es' (pk_rrs rpk ! 0) TYPE_NS 11"
      "holds_answer clk es' (pk_rrs rpk ! 0) TYPE_CNAME 13"
    by (rule handler_relays [where net = net and clk = clk and sv = sv and dgram = dgram and cli = cli, OF assms])
  then show ?thesis by auto
qed

theorem relay_transparent_and_cached_witness:
  "\<exists>sv' es' e. handler (\<lambda>_. Answer (sample_answer 1)) (\<lambda>_. 1000) (sample_server (CreateCache 1024 None))
       (receive (sample_query 1) sample_cli) = Some (Inr (sv',
       [Socket_Open, To_Server (map Some (sample_query 1)), Socket_Close,
        To_Client (map Some (sample_answer 1)) sample_cli])) \<and>
     plain_rel (sv_cache sv') es' \<and> lru_find (item_key sample_name TYPE_A) es' = Some e \<and> e_ttl e = 60"
proof -
  obtain m where m: "decode (answer_buff (sample_answer 1)) = Some (Inr m)" "message_view m = Inr (sample_packet 0x181 1 1)"
    by (rule sample_answer_decode [of 1]) simp_all
  have cut: "take BUFF_LEN (sample_query 1) = sample_query 1" "take BUFF_LEN (sample_answer 1) = sample_answer 1"
    by (simp_all add: BUFF_LEN_def sample_query_def sample_answer_def length_sample)
  have c: "cachable (pk_rrs (sample_packet 0x181 1 1) ! 0)"
    using cachable_sample [of 1] by (simp add: sample_packet_def)
  have "\<exists>sv' es'. handler (\<lambda>_. Answer (sample_answer 1)) (\<lambda>_. 1000) (sample_server (CreateCache 1024 None))
       (receive (sample_query 1) sample_cli) = Some (Inr (sv',
       [Socket_Open, To_Server (map Some (take BUFF_LEN (sample_query 1))), Socket_Close,
        To_Client (map Some (take BUFF_LEN (sample_answer 1))) sample_cli])) \<and>
     plain_rel (sv_cache sv') es' \<and> holds_answer (\<lambda>_. 1000) es' (pk_rrs (sample_packet 0x181 1 1) ! 0) TYPE_A 9 \<and>
     holds_answer (\<lambda>_. 1000) es' (pk_rrs (sample_packet 0x181 1 1) ! 0) TYPE_NS 11 \<and>
     holds_answer (\<lambda>_. 1000) es' (pk_rrs (sample_packet 0x181 1 1) ! 0) TYPE_CNAME 13"
    by (rule relay_transparent_and_cached [where es = "[]" and ls = "[]", OF sample_query_of _ _ _ _ _ _ _ _ m c])
      (simp_all add: sample_server_def new_cache STR_LEN_def TYPE_A_def hosts_def no_hosts_reader)
  then show ?thesis
    unfolding cut
    by (auto simp: holds_answer_def Let_def sample_packet_def no_item_def add_rv_def sample_rr_def)
qed

text \<open>A request for the name that the last address record of an earlier answer has.\<close>

lemma later_request_from_cache:
  assumes "query_of (receive dgram cli) pk q" and "qv_type q < 50" and "length (qv_name q) < STR_LEN"
    and "plain_rel (sv_cache sv) es" and "3 \<le> plain_cap (sv_cache sv)" and "uncached es (qv_name q) (qv_type q)"
    and "reader_of ls (sv_reader sv)"
    and "qv_type q \<noteq> TYPE_A \<or> map_of (rev (hosts ls)) (qv_name q) = None"
    and "net (map Some (take BUFF_LEN dgram)) = Answer ans"
    and "decode (answer_buff ans) = Some (Inr r)" and "message_view r = Inr rpk" and "cachable (pk_rrs rpk ! 0)"
    and "iv = collect (\<lambda>i. clk (15 + i)) TYPE_A (pk_rrs rpk ! 0) (length (pk_rrs rpk ! 0))" and "iv_data iv \<noteq> []"
    and "query_of parg pk' q'" and "qv_type q' = TYPE_A" and "qv_name q' = iv_name iv"
    and "length (qv_name q') < STR_LEN" and "clk' 0 - clk 10 \<le> iv_ddl iv - clk 9"
    and "length (pk_rrs pk' ! 0) + length (iv_data iv) \<le> MAX_SIZE"
    and "packet_ok (answered (reply_to pk') iv (clk' 1))"
    and "packet_size (answered (reply_to pk') iv (clk' 1)) \<le> BUFF_LEN"
  shows "\<exists>sv1 es1 sv2 d. handler net clk sv (receive dgram cli) = Some (Inr (sv1, es1)) \<and>
     handler net' clk' sv1 parg = Some (Inr (sv2, [To_Client d (a_cliAddr parg)])) \<and>
     client_sees d (answered (reply_to pk') iv (clk' 1))"
proof -
  obtain c es' where 1: "handler net clk sv (receive dgram cli) = Some (Inr (sv\<lparr>sv_cache := c\<rparr>,
       [Socket_Open, To_Server (map Some (take BUFF_LEN dgram)), Socket_Close,
        To_Client (map Some (take BUFF_LEN ans)) cli]))" "plain_rel c es'"
      "holds_answer clk es' (pk_rrs rpk ! 0) TYPE_A 9"
    by (rule handler_relays [where net = net and clk = clk and sv = sv and dgram = dgram and cli = cli, OF assms(1-12)])
  obtain e where e: "lru_find (item_key (qv_name q') TYPE_A) es' = Some e" "item_is (e_data e) iv"
      "e_ttl e = iv_ddl iv - clk 9" "e_saved e = clk 10"
    using 1(3) assms(13,14,17) by (auto simp: holds_answer_def Let_def)
  then have l: "live es' (item_key (qv_name q') TYPE_A) (clk' 0) (e_data e)"
    using assms(19) by (simp add: live_def)
  let ?sv = "sv\<lparr>sv_cache := c\<rparr>"
  have "qv_type q' < 50" using assms(16) by (simp add: TYPE_A_def)
  then obtain msg name where h: "handler net' clk' ?sv parg = handle_query net' clk' ?sv parg msg name (qv_type q')"
      "msg_shape msg" "message_view msg = Inr (reply_to pk')" "cstr name = Inr (qv_name q')" "length name = STR_LEN"
    by (rule handler_query [OF assms(15) _ assms(18)])
  have room: "length (pk_rrs (reply_to pk') ! 0) + length (iv_data iv) \<le> MAX_SIZE"
    using assms(20) by (simp add: reply_to_def)
  obtain c' es'' msg' where a: "answer_from_cache clk' c msg name TYPE_A = Inr (c', Some msg')"
      "plain_rel c' es''" "msg_shape msg'" "message_view msg' = Inr (answered (reply_to pk') iv (clk' 1))"
    by (rule cache_hit [where clk = clk', OF 1(2) h(4) STR_LEN_256 [OF h(5)] _ l e(2) assms(14) h(2,3) room]) simp_all
  have "answer_from_cache clk' (sv_cache ?sv) msg name TYPE_A = Inr (c', Some msg')" using a(1) by simp
  from handle_from_cache [OF this a(2-4) assms(21,22), of net' parg] h(1) 1(1) assms(16)
  show ?thesis by fastforce
qed

text \<open>
  C6. The second request for an address is answered from the cache: after a relayed request for the
  addresses of a name, when the address records of the answer are those of the name itself (and not
  of the target of an alias), a request for the addresses of the same name from any client is
  answered by the handler alone while their time to live lasts, whatever the server behind the relay
  does, with the data of all these records and the remaining time to live.
\<close>
theorem second_request_from_cache:
  assumes "query_of (receive dgram cli) pk q" and "qv_type q = TYPE_A" and "length (qv_name q) < STR_LEN"
    and "plain_rel (sv_cache sv) es" and "3 \<le> plain_cap (sv_cache sv)" and "uncached es (qv_name q) TYPE_A"
    and "reader_of ls (sv_reader sv)" and "map_of (rev (hosts ls)) (qv_name q) = None"
    and "net (map Some (take BUFF_LEN dgram)) = Answer ans"
    and "decode (answer_buff ans) = Some (Inr r)" and "message_view r = Inr rpk" and "cachable (pk_rrs rpk ! 0)"
    and "ws = filter (\<lambda>w. rv_type w = TYPE_A) (pk_rrs rpk ! 0)" and "ws \<noteq> []" and "\<forall>w \<in> set ws. rv_name w = qv_name q"
    and "iv = collect (\<lambda>i. clk (15 + i)) TYPE_A (pk_rrs rpk ! 0) (length (pk_rrs rpk ! 0))"
    and "query_of parg pk' q'" and "qv_type q' = TYPE_A" and "qv_name q' = qv_name q"
    and "clk' 0 - clk 10 \<le> iv_ddl iv - clk 9" and "length (pk_rrs pk' ! 0) + length ws \<le> MAX_SIZE"
    and "packet_ok (answered (reply_to pk') iv (clk' 1))"
    and "packet_size (answered (reply_to pk') iv (clk' 1)) \<le> BUFF_LEN"
  shows "iv_name iv = qv_name q \<and> iv_data iv = map rv_data ws \<and>
     (\<exists>sv1 es1 sv2 d. handler net clk sv (receive dgram cli) = Some (Inr (sv1, es1)) \<and>
        handler net' clk' sv1 parg = Some (Inr (sv2, [To_Client d (a_cliAddr parg)])) \<and>
        client_sees d (answered (reply_to pk') iv (clk' 1)))"
proof -
  have d: "iv_data iv = map rv_data ws" using collect_data assms(13,16) by simp
  then have ne: "iv_data iv \<noteq> []" using assms(14) by simp
  then obtain w where "w \<in> set (pk_rrs rpk ! 0)" "rv_type w = TYPE_A" "iv_name iv = rv_name w"
    using collect_name [of "length (pk_rrs rpk ! 0)" "pk_rrs rpk ! 0"] assms(16) by blast
  then have n: "iv_name iv = qv_name q" using assms(13,15) by simp
  have t: "qv_type q < 50" "uncached es (qv_name q) (qv_type q)"
      "qv_type q \<noteq> TYPE_A \<or> map_of (rev (hosts ls)) (qv_name q) = None"
      "qv_name q' = iv_name iv" "length (qv_name q') < STR_LEN"
      "length (pk_rrs pk' ! 0) + length (iv_data iv) \<le> MAX_SIZE"
    using assms(2,3,6,8,19,21) n d by (simp_all add: TYPE_A_def)
  show ?thesis
    using later_request_from_cache [where net = net and net' = net' and clk = clk and clk' = clk' and ls = ls, OF assms(1) t(1) assms(3-5) t(2) assms(7) t(3) assms(9-12) assms(16) ne
        assms(17,18) t(4,5) assms(20) t(6) assms(22,23)] d n by simp
qed

theorem second_request_from_cache_witness:
  "\<exists>sv1 es1 sv2 d. handler (\<lambda>_. Answer (sample_answer 1)) (\<lambda>_. 1000) (sample_server (CreateCache 1024 None))
       (receive (sample_query 1) sample_cli) = Some (Inr (sv1, es1)) \<and>
     handler (\<lambda>_. No_Answer) (\<lambda>_. 1040) sv1 (receive (sample_query 1) sample_cli) =
       Some (Inr (sv2, [To_Client d sample_cli])) \<and>
     client_sees d \<lparr>pk_ID = 0x1234, pk_flag = 0x181, pk_ques = [sample_ques 1],
       pk_rrs = [[\<lparr>rv_name = sample_name, rv_type = 1, rv_class = CLASS_IN, rv_TTL = 20,
                   rv_data = Rd_Bytes [1, 2, 3, 4]\<rparr>], [], []]\<rparr>"
proof -
  let ?iv = "sample_iv [1, 2, 3, 4]"
  obtain m where m: "decode (answer_buff (sample_answer 1)) = Some (Inr m)" "message_view m = Inr (sample_packet 0x181 1 1)"
    by (rule sample_answer_decode [of 1]) simp_all
  have c: "cachable (pk_rrs (sample_packet 0x181 1 1) ! 0)"
    using cachable_sample [of 1] by (simp add: sample_packet_def)
  have iv: "?iv = collect (\<lambda>_. 1000) TYPE_A (pk_rrs (sample_packet 0x181 1 1) ! 0) (length (pk_rrs (sample_packet 0x181 1 1) ! 0))"
    by (simp add: sample_packet_def no_item_def add_rv_def sample_rr_def sample_iv_def TYPE_A_def)
  have "iv_name ?iv = qv_name (sample_ques 1) \<and> iv_data ?iv = map rv_data [sample_rr] \<and>
     (\<exists>sv1 es1 sv2 d. handler (\<lambda>_. Answer (sample_answer 1)) (\<lambda>_. 1000) (sample_server (CreateCache 1024 None))
         (receive (sample_query 1) sample_cli) = Some (Inr (sv1, es1)) \<and>
       handler (\<lambda>_. No_Answer) (\<lambda>_. 1040) sv1 (receive (sample_query 1) sample_cli) =
         Some (Inr (sv2, [To_Client d (a_cliAddr (receive (sample_query 1) sample_cli))])) \<and>
       client_sees d (answered (reply_to (sample_packet 0x80 1 0)) ?iv 1040))"
    by (rule second_request_from_cache [where clk = "\<lambda>_. 1000" and clk' = "\<lambda>_. 1040" and es = "[]" and ls = "[]",
          OF sample_query_of _ _ _ _ _ _ _ _ m c _ _ _ iv sample_query_of])
      (simp_all add: sample_server_def new_cache STR_LEN_def TYPE_A_def hosts_def no_hosts_reader sample_reply_ok,
        simp_all add: sample_iv_def sample_packet_def sample_rr_def MAX_SIZE_def TYPE_A_def)
  moreover have "answered (reply_to (sample_packet 0x80 1 0)) ?iv 1040 =
      \<lparr>pk_ID = 0x1234, pk_flag = 0x181, pk_ques = [sample_ques 1],
       pk_rrs = [[\<lparr>rv_name = sample_name, rv_type = 1, rv_class = CLASS_IN, rv_TTL = 20,
                   rv_data = Rd_Bytes [1, 2, 3, 4]\<rparr>], [], []]\<rparr>"
    by (simp add: answered_def blocked_def sample_iv_def with_answers_def reply_to_def sample_packet_def item_rr_def)
  ultimately show ?thesis by (simp add: receive_def Let_def)
qed

text \<open>
  An item put under a name and type is found again under them, as it was, until its time is over,
  as long as the key stays below 50 bytes.
\<close>
theorem item_put_get:
  assumes "plain_rel c es" and "cstr name = Inr s" and "length name \<le> 256" and "cached_type t"
    and "it_type it \<noteq> 0" and "good_key (item_key s t)" and "now2 - now1 \<le> it_ddl it - now0"
  shows "\<exists>c' c''. putItem c name (uint t) it now0 now1 = Inr c' \<and>
     getItem c' name (uint t) now2 = Inr (c'', Some it)"
proof -
  obtain c' c'' where "CachePut c (item_key s t) it SIZEOF_ITEM (it_ddl it - now0) now1 = Inr c'"
      "CacheGet c' (item_key s t) now2 = Inr (c'', Some it)"
    by (rule plain.get_after_put [OF assms(1,6,7), where d = it and sz = SIZEOF_ITEM])
  then show ?thesis using putItem_eq [OF assms(2-5)] getItem_eq [OF assms(2-4)] by simp
qed

theorem item_put_get_witness:
  "\<exists>c' c''. putItem (CreateCache 1024 None) (it_name (sample_item [1, 2, 3, 4])) 1 (sample_item [1, 2, 3, 4]) 1000 1000 = Inr c' \<and>
     getItem c' (it_name (sample_item [1, 2, 3, 4])) 1 1060 = Inr (c'', Some (sample_item [1, 2, 3, 4]))"
proof -
  have it: "item_is (sample_item [1, 2, 3, 4]) (sample_iv [1, 2, 3, 4])" by (rule sample_item_is) simp
  have "cstr (it_name (sample_item [1, 2, 3, 4])) = Inr sample_name" "length (it_name (sample_item [1, 2, 3, 4])) \<le> 256"
      "it_type (sample_item [1, 2, 3, 4]) \<noteq> 0" "it_ddl (sample_item [1, 2, 3, 4]) = 1060"
    using it by (simp_all add: item_is_def sample_iv_def STR_LEN_def)
  with item_put_get [OF new_cache(1) this(1,2) _ this(3) sample_key_good, of TYPE_A 1060 1000 1000]
  show ?thesis by (simp add: TYPE_A_def)
qed

end
