(* ===== verification/Server_Faults.thy ===== *)
theory Server_Faults
  imports Server_Properties
begin

text \<open>
  What the handler does when the relay gets no answer, and the requests and answers it does not
  survive or caches wrongly: no question, a large record type, long names, more than ten
  addresses, a chain of aliases.
\<close>

section \<open>When the relay gets no answer\<close>

text \<open>
  C12. No answer is a server failure: when a request cannot be sent on or no answer comes in time, the
  client receives one response to its request with the code SERVER_FAILURE, the cache and the
  host file stay usable, and the temporary socket is never closed.
\<close>
theorem no_answer_server_failure:
  assumes "query_of (receive dgram cli) pk q" and "qv_type q < 50" and "length (qv_name q) < STR_LEN"
    and "plain_rel (sv_cache sv) es" and "uncached es (qv_name q) (qv_type q)" and "reader_of ls (sv_reader sv)"
    and "qv_type q \<noteq> TYPE_A \<or> map_of (rev (hosts ls)) (qv_name q) = None"
    and "net (map Some (take BUFF_LEN dgram)) = Send_Failed \<or> net (map Some (take BUFF_LEN dgram)) = No_Answer"
    and "packet_ok (reply_to pk)" and "packet_size (reply_to pk) \<le> BUFF_LEN"
  shows "\<exists>sv' evs d. handler net clk sv (receive dgram cli) = Some (Inr (sv', Socket_Open # evs @ [To_Client d cli])) \<and>
     client_sees d (server_failure (reply_to pk)) \<and> Socket_Close \<notin> set evs \<and> (\<forall>d'. To_Client d' cli \<notin> set evs) \<and>
     plain_rel (sv_cache sv') es \<and> sv_reader sv' = sv_reader sv"
proof -
  obtain msg name where h: "handler net clk sv (receive dgram cli) =
        handle_query net clk sv (receive dgram cli) msg name (qv_type q)"
      "msg_shape msg" "message_view msg = Inr (reply_to pk)" "cstr name = Inr (qv_name q)" "length name = STR_LEN"
    by (rule handler_query [OF assms(1-3)])
  obtain c where c: "handle_query net clk sv (receive dgram cli) msg name (qv_type q) =
        relay net clk (sv\<lparr>sv_cache := c\<rparr>) (receive dgram cli) msg" "plain_rel c es"
    by (rule handle_relay [OF h(4,5) assms(4-7)])
  obtain d where d: "fail_reply msg cli = Inr (To_Client d cli)" "client_sees d (server_failure (reply_to pk))"
    by (rule fail_reply_ok [OF h(2,3) assms(9,10)])
  have cli: "a_cliAddr (receive dgram cli) = cli" by (simp add: receive_def Let_def)
  let ?sv = "sv\<lparr>sv_cache := c\<rparr>" and ?req = "map Some (take BUFF_LEN dgram)"
  show ?thesis
  proof (cases "net ?req")
    case Send_Failed
    have "pk_ques (reply_to pk) \<noteq> []" "qv_type (hd (pk_ques (reply_to pk))) < 50"
      using assms(1,2) by (auto simp: query_of_def reply_to_def)
    then have "\<exists>s. showRequest (sv_log ?sv) msg CLOG_LEVEL_INFO = Inr s" by (rule showRequest_runs [OF h(3)])
    then have "relay net clk ?sv (receive dgram cli) msg = Some (Inr (?sv, Socket_Open # [] @ [To_Client d cli]))"
      unfolding relay_def receive_request cli using Send_Failed d(1) by auto
    then show ?thesis using h(1) c d(2) by (intro exI [of _ ?sv] exI [of _ "[]"] exI [of _ d]) simp
  next
    case No_Answer
    then have "relay net clk ?sv (receive dgram cli) msg =
        Some (Inr (?sv, Socket_Open # [To_Server ?req] @ [To_Client d cli]))"
      unfolding relay_def receive_request cli using d(1) by simp
    then show ?thesis using h(1) c d(2) by (intro exI [of _ ?sv] exI [of _ "[To_Server ?req]"] exI [of _ d]) simp
  next
    case (Answer ans)
    then show ?thesis using assms(8) by simp
  qed
qed

theorem no_answer_server_failure_witness:
  "\<exists>sv' evs d. handler (\<lambda>_. No_Answer) (\<lambda>_. 1000) (sample_server (CreateCache 1024 None)) (receive (sample_query 1) sample_cli) =
       Some (Inr (sv', Socket_Open # evs @ [To_Client d sample_cli])) \<and>
     client_sees d \<lparr>pk_ID = 0x1234, pk_flag = 0x4181, pk_ques = [sample_ques 1], pk_rrs = [[], [], []]\<rparr> \<and>
     Socket_Close \<notin> set evs"
proof -
  have r: "server_failure (reply_to (sample_packet 0x80 1 0)) =
      \<lparr>pk_ID = 0x1234, pk_flag = 0x4181, pk_ques = [sample_ques 1], pk_rrs = [[], [], []]\<rparr>"
    by (simp add: server_failure_def reply_to_def sample_packet_def reverse8_def)
  have ok: "packet_ok (reply_to (sample_packet 0x80 1 0))" "packet_size (reply_to (sample_packet 0x80 1 0)) \<le> BUFF_LEN"
    using sample_name_ok
    by (simp_all add: packet_ok_def packet_size_def ques_size_def BUFF_LEN_def reply_to_def sample_packet_def)
  have "\<exists>sv' evs d. handler (\<lambda>_. No_Answer) (\<lambda>_. 1000) (sample_server (CreateCache 1024 None)) (receive (sample_query 1) sample_cli) =
       Some (Inr (sv', Socket_Open # evs @ [To_Client d sample_cli])) \<and>
     client_sees d (server_failure (reply_to (sample_packet 0x80 1 0))) \<and> Socket_Close \<notin> set evs \<and>
     (\<forall>d'. To_Client d' sample_cli \<notin> set evs) \<and>
     plain_rel (sv_cache sv') [] \<and> sv_reader sv' = sv_reader (sample_server (CreateCache 1024 None))"
    by (rule no_answer_server_failure [where ls = "[]", OF sample_query_of _ _ _ _ _ _ _ ok])
      (simp_all add: sample_server_def new_cache STR_LEN_def TYPE_A_def hosts_def no_hosts_reader)
  then show ?thesis unfolding r by blast
qed

section \<open>Requests and answers with undefined behaviour\<close>

lemma handler_start_fault:
  assumes "decode (a_buff parg) = Some (Inr m)" and "showRequest (sv_log sv) (marked m) CLOG_LEVEL_INFO = Inl e"
  shows "handler net clk sv parg = Some (Inl e)"
  using start_reply_marked [OF assms(1), of "sv_log sv"] assms(2) by (simp add: handler_def)

text \<open>
  A datagram of twelve bytes crashes the relay: a request without a question is decoded, and
  the handler reads the type of its first question through a null pointer.
\<close>
theorem no_question_null_pointer:
  assumes "decode_header (a_buff parg) = Inr h" and "msg_q_count h = 0" and "decode (a_buff parg) = Some (Inr m)"
  shows "handler net clk sv parg = Some (Inl Bad_Pointer)"
proof -
  obtain p where s: "foldR (decode_section (a_buff parg)) (h, 12) [0..<3] = Some (Inr (m, p))"
    using assms by (auto simp: decode_def bindR_Inr_iff)
  note hs = decode_header_Inr [OF assms(1)]
  have "(\<lambda>_ (m, _). rr_only h m \<and> rr_shape m) (3 :: nat) (m, p)"
  proof (rule foldR_upt_Inr [OF s])
    fix i st st' assume i: "i < 3" and P: "case st of (m, _) \<Rightarrow> rr_only h m \<and> rr_shape m"
      and step: "decode_section (a_buff parg) st i = Some (Inr st')"
    obtain m p m' p' where st: "st = (m, p)" "st' = (m', p')" by (cases st; cases st')
    have "rr_only m m'" "rr_shape m'"
      using decode_section_Inr [OF step [unfolded st] _ i] P st by auto
    then show "case st' of (m, _) \<Rightarrow> rr_only h m \<and> rr_shape m"
      using P st rr_only_trans by auto
  qed (use hs in simp)
  then have "msg_ques m = msg_ques h" using rr_only_fields(1) by auto
  moreover have "msg_ques h = msg_ques newMsg"
    using assms(1) by (auto simp: decode_header_def bindE_Inr_iff)
  ultimately have "ques_at m 0 = Inl Bad_Pointer" by (simp add: ques_at_def newMsg_def MAX_SIZE_def)
  then show ?thesis
    by (intro handler_start_fault [OF assms(3)]) (simp add: showRequest_def)
qed

definition empty_query :: cstring where
  "empty_query = [0x12, 0x34, 1, 0, 0, 0, 0, 0, 0, 0, 0, 0]"

theorem no_question_null_pointer_witness:
  "handler (\<lambda>_. No_Answer) (\<lambda>_. 1000) (sample_server (CreateCache 1024 None)) (receive empty_query sample_cli) =
     Some (Inl Bad_Pointer)"
proof -
  let ?buf = "a_buff (receive empty_query sample_cli)"
  let ?h = "newMsg\<lparr>msg_ID := 0x1234, msg_flag := 0x80, msg_q_count := 0, msg_RR_count := [0, 0, 0]\<rparr>"
  have h: "decode_header ?buf = Inr ?h"
    using sample_header [of ?buf "[1, 0]" 0 0 "uninit 1012"]
    by (simp add: receive_def Let_def empty_query_def header_bytes_def BUFF_LEN_def reverse8_def)
  have "decode ?buf = Some (Inr ?h)"
    using h by (simp add: decode_def upt_3 decode_section_def)
  then show ?thesis by (intro no_question_null_pointer [OF h]) simp_all
qed

text \<open>
  A request for a record type of 50 or more is out of bounds: \<open>showRequest\<close> reads behind the
  end of its table of type names. Browsers ask for type 65 (HTTPS) before every connection.
\<close>
theorem large_type_out_of_bounds:
  assumes "query_of parg pk q" and "50 \<le> qv_type q"
  shows "handler net clk sv parg = Some (Inl Out_Of_Bounds)"
proof -
  obtain m q0 where m: "decode (a_buff parg) = Some (Inr m)" "ques_at m 0 = Inr q0" "q_type q0 = qv_type q"
    by (rule query_question [OF assms(1)])
  then show ?thesis
    using assms(2) by (intro handler_start_fault [OF m(1)]) (simp add: showRequest_def)
qed

theorem large_type_out_of_bounds_witness:
  "handler (\<lambda>_. No_Answer) (\<lambda>_. 1000) (sample_server (CreateCache 1024 None)) (receive (sample_query 65) sample_cli) =
     Some (Inl Out_Of_Bounds)"
  by (rule large_type_out_of_bounds [OF sample_query_of]) (simp add: sample_ques_def)

text \<open>
  C40. An answer with eleven addresses overflows the item: it has places for ten, the count is
  not tested, and the eleventh address is written behind the array. Any server behind the relay
  can do that with a datagram of 200 bytes.
\<close>
theorem eleven_addresses_out_of_bounds:
  assumes "query_of (receive dgram cli) pk q" and "qv_type q < 50" and "length (qv_name q) < STR_LEN"
    and "plain_rel (sv_cache sv) es" and "uncached es (qv_name q) (qv_type q)" and "reader_of ls (sv_reader sv)"
    and "qv_type q \<noteq> TYPE_A \<or> map_of (rev (hosts ls)) (qv_name q) = None"
    and "net (map Some (take BUFF_LEN dgram)) = Answer ans"
    and "decode (answer_buff ans) = Some (Inr r)" and "message_view r = Inr rpk"
    and "10 < length (pk_rrs rpk ! 0)"
    and "\<forall>w \<in> set (take 11 (pk_rrs rpk ! 0)). rv_type w = TYPE_A \<and> storable w \<and> is_cstring (rv_name w) \<and>
       length (rv_name w) + 6 < HASH_KEY_MAX_LEN"
  shows "handler net clk sv (receive dgram cli) = Some (Inl Out_Of_Bounds)"
proof -
  let ?ws = "pk_rrs rpk ! 0" and ?clk = "\<lambda>i. clk (15 + i)"
  obtain msg name where h: "handler net clk sv (receive dgram cli) =
        handle_query net clk sv (receive dgram cli) msg name (qv_type q)"
      "msg_shape msg" "message_view msg = Inr (reply_to pk)" "cstr name = Inr (qv_name q)" "length name = STR_LEN"
    by (rule handler_query [OF assms(1-3)])
  obtain c where c: "handle_query net clk sv (receive dgram cli) msg name (qv_type q) =
        relay net clk (sv\<lparr>sv_cache := c\<rparr>) (receive dgram cli) msg"
    by (rule handle_relay [OF h(4,5) assms(4-7)])
  have sub: "set (take 10 ?ws) \<subseteq> set (take 11 ?ws)" by (rule set_take_subset_set_take) simp
  have all_A: "filter (\<lambda>w. rv_type w = t) (take 10 ?ws) = (if t = TYPE_A then take 10 ?ws else [])" for t
    using assms(12) sub by (auto simp: filter_id_conv filter_empty_conv)
  have "cachable (take 10 ?ws)"
    using assms(12) sub all_A by (auto simp: cachable_def MAX_NUM_def)
  then obtain A N C where s: "foldE (sort_answer ?clk r) (item0, item0, item0) [0..<10] = Inr (A, N, C)"
      "item_is A (collect ?clk TYPE_A ?ws 10)"
    using sort_answer_ok [OF assms(10) refl, of 10 ?clk] assms(11) by auto
  have num: "unat (it_num A) = 10" "length (it_ipv4 A) = 10" "length (it_name A) = STR_LEN"
    using s(2) assms(11) all_A [of TYPE_A] by (simp_all add: item_is_def collect_data MAX_NUM_def)
  let ?w = "?ws ! 10"
  have "bindE (rr_at r 0 10) rr_view = Inr ?w" using assms(10,11) by (simp add: message_view_iff)
  then obtain rr where rr: "rr_at r 0 10 = Inr rr" "rr_view rr = Inr ?w" by (auto simp: bindE_Inr_iff)
  have "?w \<in> set (take 11 ?ws)" using assms(11) by (simp add: in_set_conv_nth) (intro exI [of _ 10], simp)
  then have w: "rv_type ?w = TYPE_A" "storable ?w" using assms(12) by auto
  have rt: "rr_type rr = TYPE_A" using rr_view_type [OF rr(2)] w(1) by simp
  have "addRR2Item A rr (?clk 10) = Inl Out_Of_Bounds"
    by (rule addRR2Item_full [OF rr(2) w(2,1) num(3)]) (use num in simp)
  then have step: "sort_answer ?clk r (A, N, C) 10 = Inl Out_Of_Bounds"
    using rr(1) rt by (simp add: sort_answer_def ANSWER_def)
  have cnt: "unat (msg_RR_count r ! 0) = length ?ws" using assms(10) by (simp add: message_view_iff)
  have "[0..<10 + (length ?ws - 10)] = [0..<10] @ [10..<10 + (length ?ws - 10)]"
    by (rule upt_add_eq_append) simp
  then have "[0..<length ?ws] = [0..<10] @ 10 # [Suc 10..<length ?ws]"
    using assms(11) by (simp add: upt_conv_Cons)
  then have ca: "cache_answer clk c' r = Inl Out_Of_Bounds" for c'
    using s(1) step cnt by (simp add: cache_answer_def ANSWER_def foldE_append)
  have "relay net clk sv' (receive dgram cli) msg = Some (Inl Out_Of_Bounds)" for sv'
    using relay_runs [where net = net, OF assms(8,9) h(2,3)] ca by simp
  then show ?thesis using h(1) c by simp
qed

theorem eleven_addresses_out_of_bounds_witness:
  "handler (\<lambda>_. Answer (sample_answer 11)) (\<lambda>_. 1000) (sample_server (CreateCache 1024 None))
     (receive (sample_query 1) sample_cli) = Some (Inl Out_Of_Bounds)"
proof -
  obtain m where m: "decode (answer_buff (sample_answer 11)) = Some (Inr m)" "message_view m = Inr (sample_packet 0x181 1 11)"
    by (rule sample_answer_decode [of 11]) simp_all
  have c: "storable sample_rr" "rv_type sample_rr = TYPE_A" "is_cstring (rv_name sample_rr)"
      "length (rv_name sample_rr) + 6 < HASH_KEY_MAX_LEN"
    using cachable_sample [of 1] by (simp_all add: cachable_def) (simp_all add: sample_rr_def)
  show ?thesis
    by (rule eleven_addresses_out_of_bounds [where es = "[]" and ls = "[]", OF sample_query_of _ _ _ _ _ _ _ m])
      (use c in \<open>simp_all add: sample_server_def new_cache STR_LEN_def TYPE_A_def hosts_def no_hosts_reader,
        simp_all add: sample_packet_def\<close>)
qed

lemma cstr_no_nul: "is_cstring t \<Longrightarrow> cstr (map Some t) = Inl Out_Of_Bounds"
  by (induction t) auto

text \<open>
  A request for a name of 128 to 255 bytes and a type that is cached reads behind an array: the
  handler copies the name without its terminator and \<open>calcKey\<close> runs past it.
\<close>
theorem long_name_out_of_bounds:
  assumes "query_of parg pk q" and "cached_type (qv_type q)" and "STR_LEN \<le> length (qv_name q)"
  shows "handler net clk sv parg = Some (Inl Out_Of_Bounds)"
proof -
  let ?s = "qv_name q"
  obtain msg q0 where m: "start_reply (sv_log sv) (a_buff parg) = Some (Inr msg)" "ques_at msg 0 = Inr q0"
      "cstr (q_name q0) = Inr ?s" "q_type q0 = qv_type q"
    by (rule start_reply_ok [OF assms(1) type_below_50 [OF assms(2)]])
  let ?a = "map Some (take STR_LEN ?s)"
  have a: "strncpy_arr (uninit STR_LEN) (q_name q0) STR_LEN = Inr ?a"
    using cstrn_cstr [OF m(3), of STR_LEN] assms(3) by (simp add: strncpy_arr_def strncpy_def uninit_def)
  have "cstr ?a = Inl Out_Of_Bounds"
    by (rule cstr_no_nul [OF is_cstring_take_drop(1) [OF cstr_is_cstring [OF m(3)]]])
  then have "getItem c ?a (uint (qv_type q)) now = Inl Out_Of_Bounds" for c now
    using assms(2)
    by (auto simp: getItem_def calcKey_def key_type_name_def TYPE_A_def TYPE_NS_def TYPE_CNAME_def)
  then have "handle_query net clk sv parg msg ?a (qv_type q) = Some (Inl Out_Of_Bounds)"
    using assms(2) by (simp add: handle_query_def answer_from_cache_def)
  then show ?thesis using m a by (simp add: handler_def)
qed

definition long_name_query :: cstring where
  "long_name_query = header_bytes [1, 0] 1 0 @ (150 # replicate 150 0x61 @ [0]) @ [0, 1, 0, 1]"

lemma long_query_of:
  "\<exists>pk. query_of (receive long_name_query sample_cli) pk \<lparr>qv_name = replicate 150 0x61, qv_type = TYPE_A, qv_class = 1\<rparr>"
proof -
  let ?buf = "a_buff (receive long_name_query sample_cli)" and ?s = "replicate 150 (0x61 :: byte)"
  have len: "length long_name_query = 168" by (simp add: long_name_query_def header_bytes_def)
  then have buf: "?buf = map Some long_name_query @ uninit 856"
    by (simp add: receive_def Let_def BUFF_LEN_def)
  have hl: "length (header_bytes [1, 0] 1 0) = 12" by (simp add: header_bytes_def)
  have d12: "drop 12 ?buf = map Some (150 # ?s @ [0]) @ map Some [0, 1, 0, 1] @ uninit 856"
    unfolding buf unfolding long_name_query_def using hl by simp
  have d164: "drop 164 ?buf = map Some [0, 1, 0, 1] @ uninit 856"
    using arg_cong [OF d12, of "drop 152"] by simp
  have "label_at ?buf 12 ?s"
  proof -
    have "rd8 ?buf (12 + (1 + i)) = Inr 0x61" if "i < 150" for i
      using rd8_at [OF d12, of "1 + i"] that by (simp add: nth_append)
    then show ?thesis using rd8_at [OF d12, of 0] by (simp add: label_at_def label_ok_def)
  qed
  moreover have "rd8 ?buf (12 + 1 + length ?s) = Inr 0"
    using rd8_at [OF d12, of 151] by (simp add: nth_append)
  ultimately have "name_at ?buf 12 ?s (12 + length ?s + 2)" by (rule name_at.last_label)
  then have na: "name_at ?buf 12 ?s 164" by simp
  let ?nm = "blit (uninit MAX_LEN) 0 (map Some (?s @ [0]))"
  have name: "decodeName ?buf 12 (uninit MAX_LEN) 0 = Some (Inr (164, ?nm))"
    using decodeName_name_at [OF na, of 0 "uninit MAX_LEN"] by (simp add: MAX_LEN_def is_cstring_def)
  have nm: "cstr ?nm = Inr ?s" by (rule blit_cstr) (simp add: is_cstring_def)
  let ?q = "\<lparr>q_name = ?nm, q_type = 1, q_class = 1\<rparr>"
  let ?h = "newMsg\<lparr>msg_ID := 0x1234, msg_flag := 0x80, msg_q_count := 1, msg_RR_count := [0, 0, 0]\<rparr>"
  let ?m = "?h\<lparr>msg_ques := (msg_ques newMsg)[0 := Some ?q]\<rparr>"
  have h: "decode_header ?buf = Inr ?h"
    unfolding buf unfolding long_name_query_def
    by (subst sample_header [where flags = "[1, 0]" and qc = 1 and ac = 0]) (simp_all add: reverse8_def)
  have "rd16 ?buf 164 = Inr 1" "rd16 ?buf 166 = Inr 1"
    using rd16_at [OF d164, of 0] rd16_at [OF d164, of 2] by (simp_all add: be16_def)
  then have "decode ?buf = Some (Inr ?m)"
    using h name
    by (simp add: decode_def upt_rec decode_ques_step_def newMsg_def MAX_SIZE_def decode_section_def)
  moreover have "message_view ?m = Inr \<lparr>pk_ID = 0x1234, pk_flag = 0x80,
      pk_ques = [\<lparr>qv_name = ?s, qv_type = TYPE_A, qv_class = 1\<rparr>], pk_rrs = [[], [], []]\<rparr>"
    unfolding message_view_iff
    by (simp add: less_3_cases ques_at_def newMsg_def MAX_SIZE_def ques_view_def nm [simplified] TYPE_A_def)
  ultimately show ?thesis by (auto simp: query_of_def)
qed

theorem long_name_out_of_bounds_witness:
  "handler (\<lambda>_. No_Answer) (\<lambda>_. 1000) (sample_server (CreateCache 1024 None)) (receive long_name_query sample_cli) =
     Some (Inl Out_Of_Bounds)"
proof -
  obtain pk where "query_of (receive long_name_query sample_cli) pk
      \<lparr>qv_name = replicate 150 0x61, qv_type = TYPE_A, qv_class = 1\<rparr>"
    using long_query_of by blast
  from long_name_out_of_bounds [OF this] show ?thesis by (simp add: STR_LEN_def)
qed

text \<open>
  A cached item with a key of 50 bytes or more (a name of 48 bytes for an address) breaks the
  cache: either it is not stored because the table reads uninitialised memory, or it is stored
  without a terminator and the next lookup of the same name and type reads uninitialised memory.
\<close>
theorem long_item_key_breaks_cache:
  assumes "plain_rel c es" and "cstr name = Inr s" and "length name \<le> 256" and "cached_type t" and "it_type it \<noteq> 0"
    and "HASH_KEY_MAX_LEN \<le> length (item_key s t)"
  shows "putItem c name (uint t) it now0 now1 = Inl Uninit_Read \<or>
     (\<exists>c'. putItem c name (uint t) it now0 now1 = Inr c' \<and> getItem c' name (uint t) now2 = Inl Uninit_Read)"
  using CachePut_long [OF assms(1) is_cstring_key [OF cstr_is_cstring [OF assms(2)]] assms(6)]
    putItem_eq [OF assms(2-5)] getItem_eq [OF assms(2-4)]
  by simp

theorem long_item_key_breaks_cache_witness:
  "putItem (CreateCache 1024 None) (map Some (replicate 48 0x61 @ [0])) 1 (sample_item [1, 2, 3, 4]) 1000 1000 = Inl Uninit_Read \<or>
   (\<exists>c'. putItem (CreateCache 1024 None) (map Some (replicate 48 0x61 @ [0])) 1 (sample_item [1, 2, 3, 4]) 1000 1000 = Inr c' \<and>
      getItem c' (map Some (replicate 48 0x61 @ [0])) 1 1000 = Inl Uninit_Read)"
proof -
  have n: "cstr (map Some (replicate 48 0x61 @ [0])) = Inr (replicate 48 (0x61 :: byte))"
    using cstr_map_Some [of "replicate 48 (0x61 :: byte)" "[]" "[]"] by (simp add: is_cstring_def)
  have "HASH_KEY_MAX_LEN \<le> length (item_key (replicate 48 0x61) TYPE_A)"
    by (simp add: item_key_def bytes_def HASH_KEY_MAX_LEN_def)
  moreover have "cached_type TYPE_A" "it_type (sample_item [1, 2, 3, 4]) \<noteq> 0" "uint TYPE_A = 1"
    by (simp_all add: sample_item_def TYPE_A_def)
  ultimately show ?thesis
    using long_item_key_breaks_cache [OF new_cache(1) n, of TYPE_A "sample_item [1, 2, 3, 4]" 1000 1000 1000] by simp
qed

text \<open>
  A chain of aliases is cached under the wrong name: when an answer has an alias of one name for a
  second and an alias of the second for a third, both records are collected in one item under
  the second name, which from then on is cached as an alias of itself.
\<close>
theorem alias_chain_cached_wrongly:
  assumes "plain_rel c es" and "3 \<le> plain_cap c" and "msg_shape msg" and "message_view msg = Inr pk"
    and "pk_rrs pk ! 0 = [w1, w2]" and "rv_type w1 = TYPE_CNAME" and "rv_type w2 = TYPE_CNAME"
    and "rv_data w1 = Rd_Name (rv_name w2)" and "cachable [w1, w2]"
  shows "\<exists>c' es' e iv. cache_answer clk c msg = Inr c' \<and> plain_rel c' es' \<and>
     lru_find (item_key (rv_name w2) TYPE_CNAME) es' = Some e \<and> item_is (e_data e) iv \<and>
     iv_name iv = rv_name w2 \<and> hd (iv_data iv) = Rd_Name (rv_name w2)"
proof -
  have ok: "cachable (pk_rrs pk ! 0)" using assms(5,9) by simp
  obtain c' es' where c': "cache_answer clk c msg = Inr c'" "plain_rel c' es'"
      "holds_answer clk es' (pk_rrs pk ! 0) TYPE_CNAME 13"
    by (rule cache_answer_ok [OF assms(1-4) refl ok])
  let ?iv = "collect (\<lambda>i. clk (15 + i)) TYPE_CNAME [w1, w2] 2"
  have iv: "iv_name ?iv = rv_name w2" "iv_data ?iv = [rv_data w1, rv_data w2]"
    using assms(6,7) by (simp_all add: numeral_2_eq_2 add_rv_def no_item_def)
  have len: "length [w1, w2] = 2" by simp
  from c'(3) obtain e where "lru_find (item_key (iv_name ?iv) TYPE_CNAME) es' = Some e" "item_is (e_data e) ?iv"
    unfolding holds_answer_def Let_def assms(5) len using iv(2) by (auto simp del: collect.simps)
  then show ?thesis using c'(1,2) iv assms(8) by (metis list.sel(1))
qed


definition chain_rr :: "cstring \<Rightarrow> cstring \<Rightarrow> RR" where
  "chain_rr a b = \<lparr>rr_name = map Some (a @ [0]) @ uninit 251, rr_type = TYPE_CNAME, rr_class = 1, rr_TTL = 60,
     rr_data_length = 6, rr_data = None, rr_data_type = STRING_TYPE, rr_string_data = map Some (b @ [0]) @ uninit 251\<rparr>"

definition chain_message :: message where
  "chain_message = newMsg\<lparr>msg_RR_count := [2, 0, 0],
     msg_resourse_record := (msg_resourse_record newMsg)[0 :=
       Some (chain_rr (bytes ''a.cn'') (bytes ''b.cn'')) # Some (chain_rr (bytes ''b.cn'') (bytes ''c.cn'')) #
       replicate 30 None]\<rparr>"

definition chain_rv :: "cstring \<Rightarrow> cstring \<Rightarrow> rr_val" where
  "chain_rv a b = \<lparr>rv_name = a, rv_type = TYPE_CNAME, rv_class = 1, rv_TTL = 60, rv_data = Rd_Name b\<rparr>"

lemma chain_rr_view: "is_cstring a \<Longrightarrow> is_cstring b \<Longrightarrow> rr_view (chain_rr a b) = Inr (chain_rv a b)"
  by (simp add: rr_view_def data_view_def chain_rr_def chain_rv_def cstr_map_Some cstr_map_Some [of _ "[]", simplified])

lemma chain_message_ok:
  "msg_shape chain_message"
  "message_view chain_message = Inr \<lparr>pk_ID = 0, pk_flag = 0, pk_ques = [],
     pk_rrs = [[chain_rv (bytes ''a.cn'') (bytes ''b.cn''), chain_rv (bytes ''b.cn'') (bytes ''c.cn'')], [], []]\<rparr>"
proof -
  show "msg_shape chain_message"
    by (auto simp: msg_shape_def chain_message_def newMsg_def MAX_SIZE_def nth_list_update)
  have "rr_view (chain_rr (bytes ''a.cn'') (bytes ''b.cn'')) = Inr (chain_rv (bytes ''a.cn'') (bytes ''b.cn''))"
      "rr_view (chain_rr (bytes ''b.cn'') (bytes ''c.cn'')) = Inr (chain_rv (bytes ''b.cn'') (bytes ''c.cn''))"
    by (rule chain_rr_view; simp add: bytes_def)+
  then show "message_view chain_message = Inr \<lparr>pk_ID = 0, pk_flag = 0, pk_ques = [],
     pk_rrs = [[chain_rv (bytes ''a.cn'') (bytes ''b.cn''), chain_rv (bytes ''b.cn'') (bytes ''c.cn'')], [], []]\<rparr>"
    unfolding message_view_iff
    by (auto simp: chain_message_def newMsg_def less_3_cases rr_at_def MAX_SIZE_def less_Suc_eq)
qed

theorem alias_chain_cached_wrongly_witness:
  "\<exists>c' es' e iv. cache_answer (\<lambda>_. 0) (CreateCache 1024 None) chain_message = Inr c' \<and> plain_rel c' es' \<and>
     lru_find (item_key (bytes ''b.cn'') TYPE_CNAME) es' = Some e \<and> item_is (e_data e) iv \<and>
     iv_name iv = bytes ''b.cn'' \<and> hd (iv_data iv) = Rd_Name (bytes ''b.cn'')"
proof -
  let ?w1 = "chain_rv (bytes ''a.cn'') (bytes ''b.cn'')" and ?w2 = "chain_rv (bytes ''b.cn'') (bytes ''c.cn'')"
  have "cachable [?w1, ?w2]"
    by (auto simp: cachable_def chain_rv_def storable_def MAX_NUM_def HASH_KEY_MAX_LEN_def STR_LEN_def bytes_def)
  from alias_chain_cached_wrongly [OF new_cache(1) _ chain_message_ok _ _ _ _ this, of "\<lambda>_. 0"] show ?thesis
    using new_cache(2) by (simp add: chain_rv_def)
qed

end
