(* ===== verification/Queue.thy ===== *)
theory Queue
  imports C_Prelude
begin

text \<open>
  The task queue of \<open>pool/queue.c\<close>: a linked list with a head node that is never used, two
  mutexes and two condition variables, shared by any number of threads. The nodes are cells of
  an explicit memory. Each thread has a program counter, and a step of a thread is one access to
  what is shared: a call on a mutex or a condition variable, a read or a write of \<open>destroyed\<close>,
  or what a mutex guards up to its release. Threads take steps in any order, memory is
  sequentially consistent.
\<close>

section \<open>Data\<close>

record 'd QueNode =
  qn_data :: "'d option"
  qn_next :: "nat option"

text \<open>
  A mutex is the thread that holds it, a condition variable is the set of threads asleep on it,
  and \<open>q_gone\<close> says that the four have been destroyed.
\<close>

record 'd SafeQueue =
  q_mem :: "nat \<Rightarrow> 'd QueNode option"
  q_brk :: nat
  q_head :: nat
  q_tail :: nat
  q_lock :: "nat option"
  q_ready :: "nat set"
  q_destroyed :: bool
  q_usedNum :: int
  q_numMut :: "nat option"
  q_noUsed :: "nat set"
  q_gone :: bool

definition NewSafeQueue :: "'d SafeQueue" where
  "NewSafeQueue = \<lparr>q_mem = [0 \<mapsto> \<lparr>qn_data = None, qn_next = None\<rparr>], q_brk = 1, q_head = 0, q_tail = 0,
     q_lock = None, q_ready = {}, q_destroyed = False, q_usedNum = 0, q_numMut = None, q_noUsed = {},
     q_gone = False\<rparr>"

section \<open>The list\<close>

text \<open>Lines 44 to 46, 53 and 54, 85 to 89, 91 and 111 to 115.\<close>

definition new_node :: "'d SafeQueue \<Rightarrow> 'd \<Rightarrow> 'd SafeQueue \<times> nat" where
  "new_node q d =
     (q\<lparr>q_mem := (q_mem q)(q_brk q \<mapsto> \<lparr>qn_data = Some d, qn_next = None\<rparr>), q_brk := Suc (q_brk q)\<rparr>, q_brk q)"

definition link_node :: "'d SafeQueue \<Rightarrow> nat \<Rightarrow> 'd SafeQueue res" where
  "link_node q nod =
     (case q_mem q (q_tail q) of
        None \<Rightarrow> Inl Bad_Pointer
      | Some n \<Rightarrow> Inr (q\<lparr>q_mem := (q_mem q)(q_tail q \<mapsto> n\<lparr>qn_next := Some nod\<rparr>), q_tail := nod\<rparr>))"

definition take_node :: "'d SafeQueue \<Rightarrow> ('d SafeQueue \<times> nat \<times> 'd) res" where
  "take_node q =
     (case q_mem q (q_head q) of
        None \<Rightarrow> Inl Bad_Pointer
      | Some h \<Rightarrow>
          (case qn_next h of
             None \<Rightarrow> Inl Bad_Pointer
           | Some t \<Rightarrow>
               (case q_mem q t of
                  None \<Rightarrow> Inl Bad_Pointer
                | Some n \<Rightarrow>
                    (case qn_data n of
                       None \<Rightarrow> Inl Uninit_Read
                     | Some d \<Rightarrow>
                         let q = q\<lparr>q_mem := (q_mem q)(q_head q \<mapsto> h\<lparr>qn_next := qn_next n\<rparr>)\<rparr>
                         in Inr (if t = q_tail q then q\<lparr>q_tail := q_head q\<rparr> else q, t, d)))))"

definition free_node :: "'d SafeQueue \<Rightarrow> nat \<Rightarrow> 'd SafeQueue res" where
  "free_node q a =
     (case q_mem q a of None \<Rightarrow> Inl Bad_Pointer | Some _ \<Rightarrow> Inr (q\<lparr>q_mem := (q_mem q)(a := None)\<rparr>))"

partial_function (option) free_nodes :: "'d SafeQueue \<Rightarrow> nat option \<Rightarrow> 'd SafeQueue run" where
  "free_nodes q t =
     (case t of
        None \<Rightarrow> Some (Inr q)
      | Some a \<Rightarrow>
          (case q_mem q a of
             None \<Rightarrow> Some (Inl Bad_Pointer)
           | Some n \<Rightarrow> bindR (Some (free_node q a)) (\<lambda>q. free_nodes q (qn_next n))))"

section \<open>The threads\<close>

text \<open>
  Where a thread is in \<open>SafeEnque\<close>, \<open>SafeDeque\<close> or \<open>SafeDestroy\<close>, with its local variables. \<open>Got\<close> is
  a call of \<open>SafeDeque\<close> that has returned, \<open>Crash\<close> a fault of memory, and \<open>Undefined\<close> the use of a
  mutex or a condition variable that has been destroyed.
\<close>

datatype 'd pc =
    Idle
  | Enq_Start 'd | Enq_Count 'd | Enq_Inc 'd | Enq_Node 'd | Enq_Lock 'd nat | Enq_Test 'd nat | Enq_Link 'd nat
  | Enq_Signal | Enq_Uncount | Enq_Dec
  | Deq_Start | Deq_Count | Deq_Inc | Deq_Lock | Deq_Test | Deq_Wait | Deq_Sleep | Deq_Check | Deq_Take
  | Deq_Free nat 'd | Deq_Uncount "'d option" | Deq_Dec "'d option" | Got "'d option"
  | Des_Mark | Des_Wake | Des_Lock | Des_Test | Des_Sleep | Des_Free | Des_End | Des_Done
  | Crash fault | Undefined

datatype 'd event = Tau | Enqueued 'd | Dequeued 'd | Dropped 'd

text \<open>The steps that use a mutex or a condition variable.\<close>

fun syncs :: "'d pc \<Rightarrow> bool" where
  "syncs (Enq_Count d) = True"
| "syncs (Enq_Inc d) = True"
| "syncs (Enq_Lock d a) = True"
| "syncs (Enq_Test d a) = True"
| "syncs (Enq_Link d a) = True"
| "syncs Enq_Signal = True"
| "syncs Enq_Uncount = True"
| "syncs Enq_Dec = True"
| "syncs Deq_Count = True"
| "syncs Deq_Inc = True"
| "syncs Deq_Lock = True"
| "syncs Deq_Wait = True"
| "syncs Deq_Sleep = True"
| "syncs Deq_Check = True"
| "syncs Deq_Take = True"
| "syncs (Deq_Uncount r) = True"
| "syncs (Deq_Dec r) = True"
| "syncs Des_Wake = True"
| "syncs Des_Lock = True"
| "syncs Des_Test = True"
| "syncs Des_Sleep = True"
| "syncs _ = False"

text \<open>\<open>pthread_cond_signal\<close> wakes at least one of the threads that sleep, if there are any.\<close>

definition signal :: "nat set \<Rightarrow> nat set \<Rightarrow> bool" where
  "signal w w' \<longleftrightarrow> w' \<subseteq> w \<and> (w \<noteq> {} \<longrightarrow> w' \<noteq> w)"

text \<open>
  The steps of a thread inside a call, in the order of the code. A thread that was woken takes
  the mutex again before it goes on.
\<close>

inductive qstep :: "nat \<Rightarrow> 'd SafeQueue \<Rightarrow> 'd pc \<Rightarrow> 'd event \<Rightarrow> 'd SafeQueue \<Rightarrow> 'd pc \<Rightarrow> bool" where
  gone: "syncs p \<Longrightarrow> q_gone q \<Longrightarrow> qstep t q p Tau q Undefined"
| enq_refused: "q_destroyed q \<Longrightarrow> qstep t q (Enq_Start d) Tau q Idle"
| enq_start: "\<not> q_destroyed q \<Longrightarrow> qstep t q (Enq_Start d) Tau q (Enq_Count d)"
| enq_count: "\<not> q_gone q \<Longrightarrow> q_numMut q = None \<Longrightarrow>
     qstep t q (Enq_Count d) Tau (q\<lparr>q_numMut := Some t\<rparr>) (Enq_Inc d)"
| enq_inc: "\<not> q_gone q \<Longrightarrow>
     qstep t q (Enq_Inc d) Tau (q\<lparr>q_usedNum := q_usedNum q + 1, q_numMut := None\<rparr>) (Enq_Node d)"
| enq_node: "new_node q d = (q', a) \<Longrightarrow> qstep t q (Enq_Node d) Tau q' (Enq_Lock d a)"
| enq_lock: "\<not> q_gone q \<Longrightarrow> q_lock q = None \<Longrightarrow>
     qstep t q (Enq_Lock d a) Tau (q\<lparr>q_lock := Some t\<rparr>) (Enq_Test d a)"
| enq_drop: "\<not> q_gone q \<Longrightarrow> q_destroyed q \<Longrightarrow>
     qstep t q (Enq_Test d a) (Dropped d) (q\<lparr>q_lock := None\<rparr>) Idle"
| enq_go: "\<not> q_gone q \<Longrightarrow> \<not> q_destroyed q \<Longrightarrow> qstep t q (Enq_Test d a) Tau q (Enq_Link d a)"
| enq_link: "\<not> q_gone q \<Longrightarrow> link_node q a = Inr q' \<Longrightarrow>
     qstep t q (Enq_Link d a) (Enqueued d) (q'\<lparr>q_lock := None\<rparr>) Enq_Signal"
| enq_crash: "\<not> q_gone q \<Longrightarrow> link_node q a = Inl e \<Longrightarrow> qstep t q (Enq_Link d a) Tau q (Crash e)"
| enq_signal: "\<not> q_gone q \<Longrightarrow> signal (q_ready q) w \<Longrightarrow>
     qstep t q Enq_Signal Tau (q\<lparr>q_ready := w\<rparr>) Enq_Uncount"
| enq_uncount: "\<not> q_gone q \<Longrightarrow> q_numMut q = None \<Longrightarrow>
     qstep t q Enq_Uncount Tau (q\<lparr>q_numMut := Some t\<rparr>) Enq_Dec"
| enq_dec: "\<not> q_gone q \<Longrightarrow> signal (q_noUsed q) w \<Longrightarrow>
     qstep t q Enq_Dec Tau (q\<lparr>q_usedNum := q_usedNum q - 1, q_noUsed := w, q_numMut := None\<rparr>) Idle"
| deq_refused: "q_destroyed q \<Longrightarrow> qstep t q Deq_Start Tau q (Got None)"
| deq_start: "\<not> q_destroyed q \<Longrightarrow> qstep t q Deq_Start Tau q Deq_Count"
| deq_count: "\<not> q_gone q \<Longrightarrow> q_numMut q = None \<Longrightarrow>
     qstep t q Deq_Count Tau (q\<lparr>q_numMut := Some t\<rparr>) Deq_Inc"
| deq_inc: "\<not> q_gone q \<Longrightarrow>
     qstep t q Deq_Inc Tau (q\<lparr>q_usedNum := q_usedNum q + 1, q_numMut := None\<rparr>) Deq_Lock"
| deq_lock: "\<not> q_gone q \<Longrightarrow> q_lock q = None \<Longrightarrow>
     qstep t q Deq_Lock Tau (q\<lparr>q_lock := Some t\<rparr>) Deq_Test"
| deq_empty: "\<not> q_destroyed q \<Longrightarrow> q_head q = q_tail q \<Longrightarrow> qstep t q Deq_Test Tau q Deq_Wait"
| deq_leave: "q_destroyed q \<or> q_head q \<noteq> q_tail q \<Longrightarrow> qstep t q Deq_Test Tau q Deq_Check"
| deq_wait: "\<not> q_gone q \<Longrightarrow>
     qstep t q Deq_Wait Tau (q\<lparr>q_lock := None, q_ready := insert t (q_ready q)\<rparr>) Deq_Sleep"
| deq_wake: "\<not> q_gone q \<Longrightarrow> t \<notin> q_ready q \<Longrightarrow> q_lock q = None \<Longrightarrow>
     qstep t q Deq_Sleep Tau (q\<lparr>q_lock := Some t\<rparr>) Deq_Test"
| deq_quit: "\<not> q_gone q \<Longrightarrow> q_destroyed q \<Longrightarrow>
     qstep t q Deq_Check Tau (q\<lparr>q_lock := None\<rparr>) (Deq_Uncount None)"
| deq_go: "\<not> q_gone q \<Longrightarrow> \<not> q_destroyed q \<Longrightarrow> qstep t q Deq_Check Tau q Deq_Take"
| deq_take: "\<not> q_gone q \<Longrightarrow> take_node q = Inr (q', a, d) \<Longrightarrow>
     qstep t q Deq_Take (Dequeued d) (q'\<lparr>q_lock := None\<rparr>) (Deq_Free a d)"
| deq_crash: "\<not> q_gone q \<Longrightarrow> take_node q = Inl e \<Longrightarrow> qstep t q Deq_Take Tau q (Crash e)"
| deq_free: "free_node q a = Inr q' \<Longrightarrow> qstep t q (Deq_Free a d) Tau q' (Deq_Uncount (Some d))"
| deq_free_crash: "free_node q a = Inl e \<Longrightarrow> qstep t q (Deq_Free a d) Tau q (Crash e)"
| deq_uncount: "\<not> q_gone q \<Longrightarrow> q_numMut q = None \<Longrightarrow>
     qstep t q (Deq_Uncount r) Tau (q\<lparr>q_numMut := Some t\<rparr>) (Deq_Dec r)"
| deq_dec: "\<not> q_gone q \<Longrightarrow> signal (q_noUsed q) w \<Longrightarrow>
     qstep t q (Deq_Dec r) Tau (q\<lparr>q_usedNum := q_usedNum q - 1, q_noUsed := w, q_numMut := None\<rparr>) (Got r)"
| des_mark: "qstep t q Des_Mark Tau (q\<lparr>q_destroyed := True\<rparr>) Des_Wake"
| des_wake: "\<not> q_gone q \<Longrightarrow> qstep t q Des_Wake Tau (q\<lparr>q_ready := {}\<rparr>) Des_Lock"
| des_lock: "\<not> q_gone q \<Longrightarrow> q_numMut q = None \<Longrightarrow>
     qstep t q Des_Lock Tau (q\<lparr>q_numMut := Some t\<rparr>) Des_Test"
| des_wait: "\<not> q_gone q \<Longrightarrow> 0 < q_usedNum q \<Longrightarrow>
     qstep t q Des_Test Tau (q\<lparr>q_numMut := None, q_noUsed := insert t (q_noUsed q)\<rparr>) Des_Sleep"
| des_woken: "\<not> q_gone q \<Longrightarrow> t \<notin> q_noUsed q \<Longrightarrow> q_numMut q = None \<Longrightarrow>
     qstep t q Des_Sleep Tau (q\<lparr>q_numMut := Some t\<rparr>) Des_Test"
| des_go: "\<not> q_gone q \<Longrightarrow> q_usedNum q \<le> 0 \<Longrightarrow> qstep t q Des_Test Tau (q\<lparr>q_numMut := None\<rparr>) Des_Free"
| des_free: "free_nodes q (Some (q_head q)) = Some (Inr q') \<Longrightarrow> qstep t q Des_Free Tau q' Des_End"
| des_crash: "free_nodes q (Some (q_head q)) = Some (Inl e) \<Longrightarrow> qstep t q Des_Free Tau q (Crash e)"
| des_end: "q_lock q = None \<Longrightarrow> q_numMut q = None \<Longrightarrow> q_ready q = {} \<Longrightarrow> q_noUsed q = {} \<Longrightarrow>
     qstep t q Des_End Tau (q\<lparr>q_gone := True\<rparr>) Des_Done"
| des_undefined: "q_lock q \<noteq> None \<or> q_numMut q \<noteq> None \<or> q_ready q \<noteq> {} \<or> q_noUsed q \<noteq> {} \<Longrightarrow>
     qstep t q Des_End Tau q Undefined"

text \<open>
  The whole system: the queue and the threads. Thread 0 owns the queue and destroys it once,
  when it is in no other call; every thread may call the other two operations at any time, also
  after that. \<open>internal\<close> is a step inside a call.
\<close>

record 'd sys =
  sy_q :: "'d SafeQueue"
  sy_pc :: "nat \<Rightarrow> 'd pc"

definition sys0 :: "'d sys" where
  "sys0 = \<lparr>sy_q = NewSafeQueue, sy_pc = (\<lambda>_. Idle)\<rparr>"

inductive internal :: "'d sys \<Rightarrow> 'd event \<Rightarrow> 'd sys \<Rightarrow> bool" where
  inside: "qstep t (sy_q s) (sy_pc s t) e q p \<Longrightarrow> internal s e \<lparr>sy_q = q, sy_pc = (sy_pc s)(t := p)\<rparr>"

inductive client :: "'d sys \<Rightarrow> 'd sys \<Rightarrow> bool" where
  call_enque: "sy_pc s t = Idle \<Longrightarrow> client s (s\<lparr>sy_pc := (sy_pc s)(t := Enq_Start d)\<rparr>)"
| call_deque: "sy_pc s t = Idle \<Longrightarrow> client s (s\<lparr>sy_pc := (sy_pc s)(t := Deq_Start)\<rparr>)"
| use_result: "sy_pc s t = Got r \<Longrightarrow> client s (s\<lparr>sy_pc := (sy_pc s)(t := Idle)\<rparr>)"
| call_destroy: "sy_pc s 0 = Idle \<Longrightarrow> client s (s\<lparr>sy_pc := (sy_pc s)(0 := Des_Mark)\<rparr>)"

text \<open>A thread may also wake up without a signal.\<close>

inductive spurious :: "'d sys \<Rightarrow> 'd sys \<Rightarrow> bool" where
  wake_ready: "spurious s (s\<lparr>sy_q := (sy_q s)\<lparr>q_ready := q_ready (sy_q s) - {t}\<rparr>\<rparr>)"
| wake_noUsed: "spurious s (s\<lparr>sy_q := (sy_q s)\<lparr>q_noUsed := q_noUsed (sy_q s) - {t}\<rparr>\<rparr>)"

inductive reach :: "'d event list \<Rightarrow> 'd sys \<Rightarrow> bool" where
  reach_init: "reach [] sys0"
| reach_internal: "reach tr s \<Longrightarrow> internal s e s' \<Longrightarrow> reach (tr @ [e]) s'"
| reach_client: "reach tr s \<Longrightarrow> client s s' \<Longrightarrow> reach tr s'"
| reach_spurious: "reach tr s \<Longrightarrow> spurious s s' \<Longrightarrow> reach tr s'"

section \<open>The list of the nodes\<close>

fun qseg :: "(nat \<Rightarrow> 'd QueNode option) \<Rightarrow> nat \<Rightarrow> (nat \<times> 'd) list \<Rightarrow> bool" where
  "qseg m h [] \<longleftrightarrow> (\<exists>n. m h = Some n \<and> qn_next n = None)"
| "qseg m h ((a, d) # xs) \<longleftrightarrow>
     (\<exists>n. m h = Some n \<and> qn_next n = Some a) \<and> (\<exists>n. m a = Some n \<and> qn_data n = Some d) \<and> qseg m a xs"

definition q_list :: "'d SafeQueue \<Rightarrow> (nat \<times> 'd) list \<Rightarrow> bool" where
  "q_list q xs \<longleftrightarrow> qseg (q_mem q) (q_head q) xs \<and> distinct (q_head q # map fst xs) \<and>
     q_tail q = last (q_head q # map fst xs) \<and> (\<forall>a. q_mem q a \<noteq> None \<longrightarrow> a < q_brk q)"

text \<open>Writing a cell outside the list changes nothing, writing the last cell extends it.\<close>

lemma qseg_cong: "(\<And>b. b \<in> set (h # map fst xs) \<Longrightarrow> m' b = m b) \<Longrightarrow> qseg m' h xs = qseg m h xs"
  by (induction xs arbitrary: h) auto

lemma qseg_upd: "a \<notin> set (h # map fst xs) \<Longrightarrow> qseg (m(a := v)) h xs = qseg m h xs"
  by (rule qseg_cong) auto

lemma qseg_mem: "qseg m h xs \<Longrightarrow> b \<in> set (h # map fst xs) \<Longrightarrow> m b \<noteq> None"
proof (induction xs arbitrary: h)
  case (Cons x xs)
  then show ?case by (cases x) auto
qed auto

lemma qseg_snoc:
  assumes "qseg m h xs" and "distinct (h # map fst xs)" and "l = last (h # map fst xs)" and "m l = Some n"
    and "a \<notin> set (h # map fst xs)" and "m a = Some \<lparr>qn_data = Some d, qn_next = None\<rparr>"
  shows "qseg (m(l \<mapsto> n\<lparr>qn_next := Some a\<rparr>)) h (xs @ [(a, d)])"
  using assms
proof (induction xs arbitrary: h)
  case (Cons x xs)
  obtain b e where x: "x = (b, e)" by (cases x)
  have "l \<in> set (b # map fst xs)" using Cons.prems(3) x by (simp add: last_conv_nth)
  then have "l \<noteq> h" using Cons.prems(2) x by auto
  moreover have "qseg (m(l \<mapsto> n\<lparr>qn_next := Some a\<rparr>)) b (xs @ [(a, d)])"
    using Cons.prems x by (intro Cons.IH) auto
  ultimately show ?case using Cons.prems(1,4) x by (cases "l = b") (auto simp: fun_upd_def)
qed auto

lemma link_node_ok:
  assumes "q_list q xs" and "q_mem q a = Some \<lparr>qn_data = Some d, qn_next = None\<rparr>"
    and "a \<notin> set (q_head q # map fst xs)"
  obtains n where "link_node q a = Inr (q\<lparr>q_mem := (q_mem q)(q_tail q \<mapsto> n\<lparr>qn_next := Some a\<rparr>), q_tail := a\<rparr>)"
    and "q_list (q\<lparr>q_mem := (q_mem q)(q_tail q \<mapsto> n\<lparr>qn_next := Some a\<rparr>), q_tail := a\<rparr>) (xs @ [(a, d)])"
    and "q_tail q \<in> set (q_head q # map fst xs)"
proof -
  have l: "qseg (q_mem q) (q_head q) xs" "distinct (q_head q # map fst xs)"
      "q_tail q = last (q_head q # map fst xs)" "\<forall>a. q_mem q a \<noteq> None \<longrightarrow> a < q_brk q"
    using assms(1) unfolding q_list_def by blast+
  have t: "q_tail q \<in> set (q_head q # map fst xs)" unfolding l(3) by (rule last_in_set) simp
  then obtain n where n: "q_mem q (q_tail q) = Some n" using qseg_mem [OF l(1)] by blast
  have "q_list (q\<lparr>q_mem := (q_mem q)(q_tail q \<mapsto> n\<lparr>qn_next := Some a\<rparr>), q_tail := a\<rparr>) (xs @ [(a, d)])"
    unfolding q_list_def using qseg_snoc [OF l(1-3) n assms(3,2)] l(2,4) n assms(2,3) by auto
  with n t that show ?thesis by (simp add: link_node_def)
qed

lemma take_node_ok:
  assumes "q_list q ((a, d) # xs)"
  obtains h n t where "take_node q = Inr (q\<lparr>q_mem := (q_mem q)(q_head q \<mapsto> h\<lparr>qn_next := n\<rparr>), q_tail := t\<rparr>, a, d)"
    and "q_list (q\<lparr>q_mem := (q_mem q)(q_head q \<mapsto> h\<lparr>qn_next := n\<rparr>), q_tail := t\<rparr>) xs"
    and "q_mem q (q_head q) = Some h"
proof -
  have l: "qseg (q_mem q) (q_head q) ((a, d) # xs)" "distinct (q_head q # a # map fst xs)"
      "q_tail q = last (a # map fst xs)" "\<forall>a. q_mem q a \<noteq> None \<longrightarrow> a < q_brk q"
    using assms unfolding q_list_def by auto
  obtain h k where h: "q_mem q (q_head q) = Some h" "qn_next h = Some a" "q_mem q a = Some k" "qn_data k = Some d"
    using l(1) by auto
  let ?m = "(q_mem q)(q_head q \<mapsto> h\<lparr>qn_next := qn_next k\<rparr>)"
  let ?t = "if a = q_tail q then q_head q else q_tail q"
  let ?q' = "q\<lparr>q_mem := ?m, q_tail := ?t\<rparr>"
  have run: "take_node q = Inr (?q', a, d)" by (simp add: take_node_def h Let_def)
  have "qseg ?m (q_head q) xs"
  proof (cases xs)
    case Nil
    then show ?thesis using l(1) h by auto
  next
    case (Cons y ys)
    obtain b e where y: "y = (b, e)" by (cases y)
    have "qseg ?m b ys" using l(1,2) Cons y by (subst qseg_upd) auto
    then show ?thesis using l(1,2) h Cons y by auto
  qed
  moreover have "a = q_tail q \<longleftrightarrow> xs = []" using l(2,3) by (cases xs rule: rev_cases) auto
  ultimately have "q_list ?q' xs" using l(2-4) h(1) by (auto simp: q_list_def)
  with run h(1) that show ?thesis by blast
qed

lemma q_list_empty: "q_list q xs \<Longrightarrow> q_head q = q_tail q \<longleftrightarrow> xs = []"
  by (cases xs rule: rev_cases) (auto simp: q_list_def)

lemma free_nodes_ok:
  assumes "qseg (q_mem q) h xs" and "distinct (h # map fst xs)"
  shows "free_nodes q (Some h) =
     Some (Inr (q\<lparr>q_mem := \<lambda>a. if a \<in> set (h # map fst xs) then None else q_mem q a\<rparr>))"
  using assms
proof (induction xs arbitrary: h q)
  case Nil
  then show ?case by (auto simp: free_nodes.simps free_node_def fun_upd_def)
next
  case (Cons x xs)
  obtain a d where x: "x = (a, d)" by (cases x)
  obtain n where n: "q_mem q h = Some n" "qn_next n = Some a" using Cons.prems(1) x by auto
  let ?q = "q\<lparr>q_mem := (q_mem q)(h := None)\<rparr>"
  have "qseg (q_mem ?q) a xs" "distinct (a # map fst xs)" using Cons.prems x by (simp_all add: qseg_upd)
  note Cons.IH [OF this]
  moreover have "free_nodes q (Some h) = free_nodes ?q (Some a)"
    using n by (simp add: free_nodes.simps [of q] free_node_def)
  moreover have "(\<lambda>b. if b \<in> set (a # map fst xs) then None else q_mem ?q b) =
      (\<lambda>b. if b \<in> set (h # map fst (x # xs)) then None else q_mem q b)"
    using x by auto
  ultimately show ?case by simp
qed

text \<open>The operations on the list leave everything else alone.\<close>

definition same_ends :: "'d SafeQueue \<Rightarrow> 'd SafeQueue \<Rightarrow> bool" where
  "same_ends q q' \<longleftrightarrow> q_head q' = q_head q \<and> q_tail q' = q_tail q \<and> q_brk q' = q_brk q"

definition same_sync :: "'d SafeQueue \<Rightarrow> 'd SafeQueue \<Rightarrow> bool" where
  "same_sync q q' \<longleftrightarrow> q_head q' = q_head q \<and> q_lock q' = q_lock q \<and> q_ready q' = q_ready q \<and>
     q_destroyed q' = q_destroyed q \<and> q_usedNum q' = q_usedNum q \<and> q_numMut q' = q_numMut q \<and>
     q_noUsed q' = q_noUsed q \<and> q_gone q' = q_gone q"

lemma free_node_same: "free_node q a = Inr q' \<Longrightarrow> same_sync q q'"
  by (auto simp: free_node_def same_sync_def split: option.splits)

lemma list_ops_same:
  "new_node q d = (q', a) \<Longrightarrow> same_sync q q'"
  "link_node q a = Inr q' \<Longrightarrow> same_sync q q'"
  "take_node q = Inr (q', a, d) \<Longrightarrow> same_sync q q'"
  by (auto simp: new_node_def link_node_def take_node_def Let_def same_sync_def split: option.splits if_splits)

lemma free_nodes_same:
  assumes "free_nodes q p = Some (Inr q')"
  shows "same_sync q q'" and "same_ends q q'"
proof -
  have "\<forall>q2. (Inr q' :: 'a SafeQueue res) = Inr q2 \<longrightarrow> same_sync q q2 \<and> same_ends q q2"
  proof (rule free_nodes.raw_induct [OF _ assms, where P = "\<lambda>q p r. \<forall>q2. r = Inr q2 \<longrightarrow> same_sync q q2 \<and> same_ends q q2"])
    fix free :: "'a SafeQueue \<Rightarrow> nat option \<Rightarrow> 'a SafeQueue run" and q p r
    assume IH: "\<And>q p r. free q p = Some r \<Longrightarrow> \<forall>q2. r = Inr q2 \<longrightarrow> same_sync q q2 \<and> same_ends q q2"
      and run: "(case p of None \<Rightarrow> Some (Inr q)
        | Some a \<Rightarrow> case q_mem q a of None \<Rightarrow> Some (Inl Bad_Pointer)
            | Some n \<Rightarrow> bindR (Some (free_node q a)) (\<lambda>q. free q (qn_next n))) = Some r"
    show "\<forall>q2. r = Inr q2 \<longrightarrow> same_sync q q2 \<and> same_ends q q2"
    proof (cases p)
      case (Some a)
      show ?thesis
      proof (cases "q_mem q a")
        fix n assume "q_mem q a = Some n"
        then have "free (q\<lparr>q_mem := (q_mem q)(a := None)\<rparr>) (qn_next n) = Some r"
          using run Some by (simp add: free_node_def)
        from IH [OF this] show ?thesis by (simp add: same_sync_def same_ends_def)
      qed (use run Some in auto)
    qed (use run in \<open>auto simp: same_sync_def same_ends_def\<close>)
  qed
  then show "same_sync q q'" "same_ends q q'" by simp_all
qed

lemmas list_same = list_ops_same free_node_same free_nodes_same(1)

end
