(* ===== verification/Queue_Invariants.thy ===== *)
theory Queue_Invariants
  imports Queue
begin

text \<open>
  The invariants of the queue under any interleaving: who holds the mutexes, how many threads
  count as users, what the destroyer may rely on, and that the list is the queue of a history.
\<close>

section \<open>Where a thread is\<close>

fun holds_q :: "'d pc \<Rightarrow> bool" where
  "holds_q (Enq_Test d a) = True"
| "holds_q (Enq_Link d a) = True"
| "holds_q Deq_Test = True"
| "holds_q Deq_Wait = True"
| "holds_q Deq_Check = True"
| "holds_q Deq_Take = True"
| "holds_q _ = False"

fun holds_n :: "'d pc \<Rightarrow> bool" where
  "holds_n (Enq_Inc d) = True"
| "holds_n Enq_Dec = True"
| "holds_n Deq_Inc = True"
| "holds_n (Deq_Dec r) = True"
| "holds_n Des_Test = True"
| "holds_n _ = False"

text \<open>Between the increment and the decrement of \<open>usedNum\<close>.\<close>

fun counted :: "'d pc \<Rightarrow> bool" where
  "counted (Enq_Node d) = True"
| "counted (Enq_Lock d a) = True"
| "counted (Enq_Test d a) = True"
| "counted (Enq_Link d a) = True"
| "counted Enq_Signal = True"
| "counted Enq_Uncount = True"
| "counted Enq_Dec = True"
| "counted Deq_Lock = True"
| "counted Deq_Test = True"
| "counted Deq_Wait = True"
| "counted Deq_Sleep = True"
| "counted Deq_Check = True"
| "counted Deq_Take = True"
| "counted (Deq_Free a d) = True"
| "counted (Deq_Uncount r) = True"
| "counted (Deq_Dec r) = True"
| "counted _ = False"

text \<open>The node that a thread owns: not in the list yet, or not any more.\<close>

fun own_node :: "'d pc \<Rightarrow> (nat \<times> 'd) option" where
  "own_node (Enq_Lock d a) = Some (a, d)"
| "own_node (Enq_Test d a) = Some (a, d)"
| "own_node (Enq_Link d a) = Some (a, d)"
| "own_node (Deq_Free a d) = Some (a, d)"
| "own_node _ = None"

fun frees :: "'d pc \<Rightarrow> bool" where
  "frees (Deq_Free a d) = True"
| "frees _ = False"

fun touches :: "'d pc \<Rightarrow> bool" where
  "touches (Enq_Link d a) = True"
| "touches Deq_Take = True"
| "touches (Deq_Free a d) = True"
| "touches _ = False"

text \<open>The destroyer: in its call, past the mark, past the wait for the users, past the list.\<close>

fun is_des :: "'d pc \<Rightarrow> bool" where
  "is_des Des_Mark = True"
| "is_des Des_Wake = True"
| "is_des Des_Lock = True"
| "is_des Des_Test = True"
| "is_des Des_Sleep = True"
| "is_des Des_Free = True"
| "is_des Des_End = True"
| "is_des Des_Done = True"
| "is_des _ = False"

definition closing :: "'d pc \<Rightarrow> bool" where
  "closing p \<longleftrightarrow> p \<in> {Des_Wake, Des_Lock, Des_Test, Des_Sleep}"

definition past_wait :: "'d pc \<Rightarrow> bool" where
  "past_wait p \<longleftrightarrow> p \<in> {Des_Free, Des_End, Des_Done, Undefined}"

definition freed :: "'d pc \<Rightarrow> bool" where
  "freed p \<longleftrightarrow> p \<in> {Des_End, Des_Done, Undefined}"

section \<open>Histories\<close>

text \<open>The history of a queue: a data item enters at the end and leaves at the front.\<close>

fun fifo_run :: "'d list \<Rightarrow> 'd event list \<Rightarrow> 'd list option" where
  "fifo_run xs [] = Some xs"
| "fifo_run xs (Enqueued d # es) = fifo_run (xs @ [d]) es"
| "fifo_run xs (Dequeued d # es) =
     (case xs of [] \<Rightarrow> None | x # xs' \<Rightarrow> if x = d then fifo_run xs' es else None)"
| "fifo_run xs (e # es) = fifo_run xs es"

fun drops :: "'d event list \<Rightarrow> nat" where
  "drops [] = 0"
| "drops (Dropped d # es) = Suc (drops es)"
| "drops (e # es) = drops es"

lemma fifo_run_append: "fifo_run xs (es @ fs) = Option.bind (fifo_run xs es) (\<lambda>ys. fifo_run ys fs)"
  by (induction xs es rule: fifo_run.induct) (auto split: list.splits)

lemma drops_append: "drops (es @ fs) = drops es + drops fs"
  by (induction es rule: drops.induct) auto

section \<open>The invariants\<close>

text \<open>They are stated of a queue and the program counters of all threads.\<close>

definition des_inv :: "'d SafeQueue \<Rightarrow> (nat \<Rightarrow> 'd pc) \<Rightarrow> bool" where
  "des_inv q f \<longleftrightarrow> (\<forall>t. is_des (f t) \<longrightarrow> t = 0) \<and>
     (closing (f 0) \<or> past_wait (f 0) \<longrightarrow> q_destroyed q) \<and> (q_gone q \<longrightarrow> f 0 = Des_Done)"

definition lock_inv :: "'d SafeQueue \<Rightarrow> (nat \<Rightarrow> 'd pc) \<Rightarrow> bool" where
  "lock_inv q f \<longleftrightarrow> (\<not> q_gone q \<longrightarrow>
     (\<forall>t. q_lock q = Some t \<longleftrightarrow> holds_q (f t)) \<and> (\<forall>t. q_numMut q = Some t \<longleftrightarrow> holds_n (f t)))"

definition count_inv :: "'d event list \<Rightarrow> 'd SafeQueue \<Rightarrow> (nat \<Rightarrow> 'd pc) \<Rightarrow> bool" where
  "count_inv tr q f \<longleftrightarrow> finite {t. f t \<noteq> Idle} \<and>
     (\<not> q_gone q \<longrightarrow> q_usedNum q = int (card {t. counted (f t)}) + int (drops tr))"

definition past_inv :: "(nat \<Rightarrow> 'd pc) \<Rightarrow> bool" where
  "past_inv f \<longleftrightarrow> (past_wait (f 0) \<longrightarrow> (\<forall>t. \<not> touches (f t)))"

definition take_inv :: "'d SafeQueue \<Rightarrow> (nat \<Rightarrow> 'd pc) \<Rightarrow> bool" where
  "take_inv q f \<longleftrightarrow> (\<forall>t. f t = Deq_Take \<or> f t = Deq_Check \<and> \<not> q_destroyed q \<longrightarrow> q_head q \<noteq> q_tail q)"

definition own_ok :: "'d SafeQueue \<Rightarrow> nat set \<Rightarrow> 'd pc \<Rightarrow> bool" where
  "own_ok q A p \<longleftrightarrow> (\<forall>a d. own_node p = Some (a, d) \<longrightarrow> a \<notin> A \<and> a < q_brk q \<and>
     (if frees p then q_mem q a \<noteq> None else q_mem q a = Some \<lparr>qn_data = Some d, qn_next = None\<rparr>))"

definition own_inv :: "'d SafeQueue \<Rightarrow> (nat \<Rightarrow> 'd pc) \<Rightarrow> nat set \<Rightarrow> bool" where
  "own_inv q f A \<longleftrightarrow> (\<forall>t. own_ok q A (f t)) \<and>
     (\<forall>t u a d e. own_node (f t) = Some (a, d) \<and> own_node (f u) = Some (a, e) \<longrightarrow> t = u)"

definition list_inv :: "'d event list \<Rightarrow> 'd SafeQueue \<Rightarrow> (nat \<Rightarrow> 'd pc) \<Rightarrow> bool" where
  "list_inv tr q f \<longleftrightarrow> (\<exists>xs. fifo_run [] tr = Some (map snd xs) \<and>
     (\<not> freed (f 0) \<longrightarrow> q_list q xs \<and> own_inv q f (set (q_head q # map fst xs))))"

definition no_crash :: "(nat \<Rightarrow> 'd pc) \<Rightarrow> bool" where
  "no_crash f \<longleftrightarrow> (\<forall>t e. f t \<noteq> Crash e)"

section \<open>What one step does\<close>

text \<open>To the count and the mutexes, while they are there.\<close>

lemma qstep_count:
  assumes "qstep t q p e q' p'" and "\<not> q_gone q" and "\<And>f. p' \<noteq> Crash f"
  shows "q_usedNum q' + of_bool (counted p) = q_usedNum q + of_bool (counted p') + int (drops [e])"
  using assms by (cases rule: qstep.cases) (auto dest!: list_same simp: same_sync_def)

lemma qstep_lock:
  assumes "qstep t q p e q' p'" and "\<not> q_gone q" and "\<And>f. p' \<noteq> Crash f"
  shows "q_lock q' = q_lock q \<and> (holds_q p' \<longleftrightarrow> holds_q p) \<or>
     q_lock q = None \<and> q_lock q' = Some t \<and> holds_q p' \<or> holds_q p \<and> \<not> holds_q p' \<and> q_lock q' = None"
  using assms by (cases rule: qstep.cases) (auto dest!: list_same simp: same_sync_def)

lemma qstep_numMut:
  assumes "qstep t q p e q' p'" and "\<not> q_gone q" and "\<And>f. p' \<noteq> Crash f"
  shows "q_numMut q' = q_numMut q \<and> (holds_n p' \<longleftrightarrow> holds_n p) \<or>
     q_numMut q = None \<and> q_numMut q' = Some t \<and> holds_n p' \<or> holds_n p \<and> \<not> holds_n p' \<and> q_numMut q' = None"
  using assms by (cases rule: qstep.cases) (auto dest!: list_same simp: same_sync_def)

text \<open>To the progress of the destroyer.\<close>

lemma qstep_destroyed: "qstep t q p e q' p' \<Longrightarrow> q_destroyed q' \<longleftrightarrow> q_destroyed q \<or> p = Des_Mark"
  by (cases rule: qstep.cases) (auto dest!: list_same simp: same_sync_def)

lemma qstep_gone: "qstep t q p e q' p' \<Longrightarrow> q_gone q' \<longleftrightarrow> q_gone q \<or> p = Des_End \<and> p' = Des_Done"
  by (cases rule: qstep.cases) (auto dest!: list_same simp: same_sync_def)

lemma qstep_is_des: "qstep t q p e q' p' \<Longrightarrow> is_des p' \<Longrightarrow> is_des p"
  by (cases rule: qstep.cases) (auto split: if_splits)

lemma qstep_closing: "qstep t q p e q' p' \<Longrightarrow> closing p' \<Longrightarrow> closing p \<or> p = Des_Mark"
  by (cases rule: qstep.cases) (auto simp: closing_def split: if_splits)

lemma qstep_past_wait:
  "qstep t q p e q' p' \<Longrightarrow> past_wait p' \<Longrightarrow> past_wait p \<or> p = Des_Test \<and> q_usedNum q \<le> 0 \<or> q_gone q"
  by (cases rule: qstep.cases) (auto simp: past_wait_def split: if_splits)

lemma qstep_stays_past: "qstep t q p e q' p' \<Longrightarrow> past_wait p \<Longrightarrow> past_wait p' \<or> (\<exists>f. p' = Crash f)"
  by (cases rule: qstep.cases) (auto simp: past_wait_def split: if_splits)

lemma qstep_touches: "qstep t q p e q' p' \<Longrightarrow> touches p' \<Longrightarrow> touches p \<or> \<not> q_destroyed q"
  by (cases rule: qstep.cases) (auto split: if_splits)

section \<open>Every step keeps the invariants\<close>

text \<open>The set of the threads that satisfy a property, when one of them moves.\<close>

lemma card_moved:
  assumes "finite {u. P (f u)}"
  shows "card {u. P ((f(t := p)) u)} + of_bool (P (f t)) = card {u. P (f u)} + of_bool (P p)"
proof -
  let ?A = "{u. P (f u)}"
  have "{u. P ((f(t := p)) u)} = (if P p then insert t (?A - {t}) else ?A - {t})" by auto
  moreover have "card (insert t (?A - {t})) = Suc (card (?A - {t}))"
    by (rule card_insert_disjoint) (use assms in auto)
  moreover have "card ?A = card (?A - {t}) + of_bool (P (f t))"
    using card.remove [OF assms, of t] by (cases "P (f t)") auto
  ultimately show ?thesis by simp
qed

lemma finite_counted: "finite {t. f t \<noteq> Idle} \<Longrightarrow> finite {t. counted (f t)}"
  by (erule rev_finite_subset) auto

lemma finite_moved: "finite {t. f t \<noteq> Idle} \<Longrightarrow> finite {u. (f(t := p)) u \<noteq> Idle}"
  by (rule finite_subset [of _ "insert t {t. f t \<noteq> Idle}"]) auto

lemma count_inv_step:
  assumes inv: "count_inv tr q f" and step: "qstep t q (f t) e q' p" and ok: "\<And>x. p \<noteq> Crash x"
  shows "count_inv (tr @ [e]) q' (f(t := p))"
proof -
  have fin: "finite {u. f u \<noteq> Idle}" using inv by (simp add: count_inv_def)
  have "q_usedNum q' = int (card {u. counted ((f(t := p)) u)}) + int (drops (tr @ [e]))" if "\<not> q_gone q'"
  proof -
    have g: "\<not> q_gone q" using that qstep_gone [OF step] by simp
    then have "q_usedNum q = int (card {u. counted (f u)}) + int (drops tr)" using inv by (simp add: count_inv_def)
    with qstep_count [OF step g ok] card_moved [where P = counted and t = t and p = p, OF finite_counted [OF fin]] show ?thesis
      by (cases "counted p"; cases "counted (f t)") (simp_all add: drops_append)
  qed
  then show ?thesis using finite_moved [OF fin] by (simp add: count_inv_def)
qed

lemma lock_inv_step:
  assumes inv: "lock_inv q f" and step: "qstep t q (f t) e q' p" and ok: "\<And>x. p \<noteq> Crash x"
  shows "lock_inv q' (f(t := p))"
proof (cases "q_gone q'")
  case False
  then have g: "\<not> q_gone q" using qstep_gone [OF step] by simp
  have l: "\<And>u. q_lock q = Some u \<longleftrightarrow> holds_q (f u)" "\<And>u. q_numMut q = Some u \<longleftrightarrow> holds_n (f u)"
    using inv g by (auto simp: lock_inv_def)
  have "q_lock q' = Some u \<longleftrightarrow> holds_q ((f(t := p)) u)" for u
    using qstep_lock [OF step g ok] l(1) [of u] l(1) [of t] by (cases "u = t") auto
  moreover have "q_numMut q' = Some u \<longleftrightarrow> holds_n ((f(t := p)) u)" for u
    using qstep_numMut [OF step g ok] l(2) [of u] l(2) [of t] by (cases "u = t") auto
  ultimately show ?thesis by (simp add: lock_inv_def)
qed (simp add: lock_inv_def)

lemma des_inv_step:
  assumes inv: "des_inv q f" and step: "qstep t q (f t) e q' p"
  shows "des_inv q' (f(t := p))"
proof -
  have a: "\<And>u. is_des (f u) \<Longrightarrow> u = 0" and b: "closing (f 0) \<or> past_wait (f 0) \<Longrightarrow> q_destroyed q"
    and c: "q_gone q \<Longrightarrow> f 0 = Des_Done"
    using inv by (auto simp: des_inv_def)
  have done_stays: "\<not> qstep t q Des_Done e q' p" by (auto elim: qstep.cases)
  have "u = 0" if "is_des ((f(t := p)) u)" for u
    using that a [of u] a [of t] qstep_is_des [OF step] by (cases "u = t") auto
  moreover have "q_destroyed q'" if "closing ((f(t := p)) 0) \<or> past_wait ((f(t := p)) 0)"
  proof (cases "t = 0")
    case True
    then have "closing p \<or> past_wait p" using that by simp
    then have "closing (f 0) \<or> past_wait (f 0) \<or> f 0 = Des_Mark"
      using qstep_closing [OF step] qstep_past_wait [OF step] True c by (auto simp: past_wait_def closing_def)
    then show ?thesis using qstep_destroyed [OF step] b True by auto
  next
    case False
    then show ?thesis using that b qstep_destroyed [OF step] by auto
  qed
  moreover have "(f(t := p)) 0 = Des_Done" if "q_gone q'"
    using that qstep_gone [OF step] c a [of t] step done_stays by (cases "t = 0") auto
  ultimately show ?thesis by (simp add: des_inv_def)
qed

lemma past_inv_step:
  assumes inv: "past_inv f" and d: "des_inv q f" and c: "count_inv tr q f"
    and step: "qstep t q (f t) e q' p" and ok: "\<And>x. p \<noteq> Crash x"
  shows "past_inv (f(t := p))"
proof -
  have "\<not> touches ((f(t := p)) u)" if pw: "past_wait ((f(t := p)) 0)" for u
  proof -
    have "(\<forall>u. \<not> touches (f u)) \<and> q_destroyed q"
    proof (cases "past_wait (f 0)")
      case True
      then show ?thesis using inv d by (auto simp: past_inv_def des_inv_def)
    next
      case False
      then have t: "t = 0" using pw by (cases "t = 0") auto
      have "\<not> q_gone q" using False d by (auto simp: des_inv_def past_wait_def)
      with qstep_past_wait [OF step] pw t False have z: "f 0 = Des_Test" "q_usedNum q \<le> 0" "\<not> q_gone q" by auto
      then have "card {u. counted (f u)} = 0" using c by (simp add: count_inv_def)
      moreover have "finite {u. counted (f u)}" using c finite_counted by (auto simp: count_inv_def)
      ultimately have "\<not> counted (f u)" for u by auto
      moreover have "touches p' \<Longrightarrow> counted p'" for p' :: "'a pc" by (cases p') auto
      moreover have "q_destroyed q" using d z(1) by (auto simp: des_inv_def closing_def)
      ultimately show ?thesis by blast
    qed
    then show ?thesis using qstep_touches [OF step] by (cases "u = t") auto
  qed
  then show ?thesis by (simp add: past_inv_def)
qed


section \<open>The list under interleaving\<close>

text \<open>Head and tail are moved only by the holder of the lock, who then releases it.\<close>

lemma qstep_tail:
  "qstep t q p e q' p' \<Longrightarrow> q_head q' = q_head q \<and>
     (q_tail q' = q_tail q \<or> holds_q p \<and> \<not> holds_q p' \<and> \<not> q_gone q)"
  by (cases rule: qstep.cases)
    (auto dest: list_same free_nodes_same(2) simp: same_sync_def same_ends_def new_node_def free_node_def
      split: option.splits)


lemma qstep_to_take: "qstep t q p e q' Deq_Take \<Longrightarrow> p = Deq_Check \<and> \<not> q_destroyed q"
  by (cases rule: qstep.cases) (auto split: if_splits)

lemma qstep_to_check: "qstep t q p e q' Deq_Check \<Longrightarrow> q_destroyed q \<or> q_head q \<noteq> q_tail q"
  by (cases rule: qstep.cases) (auto split: if_splits)

lemma take_inv_step:
  assumes inv: "take_inv q f" and lock: "lock_inv q f" and step: "qstep t q (f t) e q' p"
  shows "take_inv q' (f(t := p))"
proof -
  have "q_head q' \<noteq> q_tail q'"
    if u: "(f(t := p)) u = Deq_Take \<or> (f(t := p)) u = Deq_Check \<and> \<not> q_destroyed q'" for u
  proof (cases "u = t")
    case True
    then have "q_head q \<noteq> q_tail q" "holds_q p"
      using u inv step qstep_to_take [of t q "f t" e q'] qstep_to_check [of t q "f t" e q'] qstep_destroyed [OF step]
      by (auto simp: take_inv_def)
    then show ?thesis using qstep_tail [OF step] by auto
  next
    case False
    then have n: "q_head q \<noteq> q_tail q" "holds_q (f u)"
      using u inv qstep_destroyed [OF step] by (auto simp: take_inv_def)
    have "\<not> (holds_q (f t) \<and> \<not> q_gone q)"
      using n(2) lock False unfolding lock_inv_def by (metis option.inject)
    then show ?thesis using n(1) qstep_tail [OF step] by auto
  qed
  then show ?thesis unfolding take_inv_def by blast
qed

text \<open>A step that does not write a node.\<close>

fun writes :: "'d pc \<Rightarrow> bool" where
  "writes (Enq_Node d) = True"
| "writes (Enq_Link d a) = True"
| "writes Deq_Take = True"
| "writes (Deq_Free a d) = True"
| "writes Des_Free = True"
| "writes _ = False"


lemma fifo_tau: "fifo_run xs (tr @ [Tau]) = fifo_run xs tr" "fifo_run xs (tr @ [Dropped d]) = fifo_run xs tr"
  by (simp_all add: fifo_run_append split: option.splits)

end
