(* ===== verification/Queue_Reach.thy ===== *)
theory Queue_Reach
  imports Queue_Invariants
begin

text \<open>
  The list of the queue under any interleaving, the nodes that threads own outside it, and that
  every reachable state satisfies all invariants.
\<close>

lemma qstep_quiet:
  assumes "qstep t q p e q' p'" and "\<not> writes p"
  shows "q_mem q' = q_mem q" and "q_head q' = q_head q" and "q_tail q' = q_tail q" and "q_brk q' = q_brk q"
    and "fifo_run xs (tr @ [e]) = fifo_run xs tr" and "p' \<noteq> Crash c"
    and "own_node p' = None \<or> own_node p' = own_node p" and "\<not> frees p'"
    and "freed p \<Longrightarrow> freed p'"
  using assms by (cases rule: qstep.cases; auto simp: fifo_tau freed_def)+

text \<open>The nodes that threads own, when one of them moves.\<close>

lemma own_inv_move:
  assumes "own_inv q f A" and "own_ok q' A' p"
    and "\<And>u. u \<noteq> t \<Longrightarrow> own_ok q A (f u) \<Longrightarrow> own_ok q' A' (f u)"
    and "\<And>a d u e. own_node p = Some (a, d) \<Longrightarrow> u \<noteq> t \<Longrightarrow> own_node (f u) \<noteq> Some (a, e)"
  shows "own_inv q' (f(t := p)) A'"
  unfolding own_inv_def
proof (intro conjI allI impI)
  show "own_ok q' A' ((f(t := p)) u)" for u using assms(1-3) by (simp add: own_inv_def)
  show "u = v" if "own_node ((f(t := p)) u) = Some (a, d) \<and> own_node ((f(t := p)) v) = Some (a, e)" for u v a d e
  proof (rule ccontr)
    assume ne: "u \<noteq> v"
    show False
    proof (cases "u = t \<or> v = t")
      case True
      then show False using that ne assms(4) by (metis fun_upd_other fun_upd_same)
    next
      case False
      then show False using that ne assms(1) unfolding own_inv_def by (metis fun_upd_other)
    qed
  qed
qed

lemma own_other:
  assumes "own_inv q f A" and "own_node (f t) = Some (a, d)" and "u \<noteq> t"
  shows "own_node (f u) \<noteq> Some (a, e)"
  using assms unfolding own_inv_def by blast

lemma own_ok_same:
  "q_mem q' = q_mem q \<Longrightarrow> q_brk q' = q_brk q \<Longrightarrow> own_ok q' A p = own_ok q A p"
  by (simp add: own_ok_def)

lemma own_ok_sub:
  "own_ok q A p \<Longrightarrow> own_node p' = None \<or> own_node p' = own_node p \<Longrightarrow> \<not> frees p \<Longrightarrow> \<not> frees p' \<Longrightarrow> own_ok q A p'"
  by (auto simp: own_ok_def)

lemma list_inv_quiet:
  assumes inv: "list_inv tr q f" and step: "qstep t q (f t) e q' p" and w: "\<not> writes (f t)"
  shows "list_inv (tr @ [e]) q' (f(t := p))"
proof -
  note Q = qstep_quiet [OF step w]
  obtain xs where xs: "fifo_run [] tr = Some (map snd xs)" "\<not> freed (f 0) \<Longrightarrow> q_list q xs"
      "\<not> freed (f 0) \<Longrightarrow> own_inv q f (set (q_head q # map fst xs))"
    using inv by (auto simp: list_inv_def)
  have "q_list q' xs \<and> own_inv q' (f(t := p)) (set (q_head q' # map fst xs))" if "\<not> freed ((f(t := p)) 0)"
  proof -
    have nf: "\<not> freed (f 0)" using that Q(9) by (cases "t = 0") auto
    let ?A = "set (q_head q # map fst xs)"
    have own: "own_inv q f ?A" using xs(3) nf .
    have nf_t: "\<not> frees (f t)" using w by (cases "f t") auto
    have "own_inv q' (f(t := p)) ?A"
    proof (rule own_inv_move [OF own])
      have "own_ok q ?A p"
        by (rule own_ok_sub [of _ _ "f t"]) (use own w nf_t Q(7,8) in \<open>auto simp: own_inv_def\<close>)
      then show "own_ok q' ?A p" using own_ok_same [OF Q(1,4)] by simp
      show "own_ok q' ?A (f u)" if "own_ok q ?A (f u)" for u using that own_ok_same [OF Q(1,4)] by simp
      show "own_node (f u) \<noteq> Some (a, e)" if "own_node p = Some (a, d)" "u \<noteq> t" for a d u e
        using own_other [OF own, of t a d u e] Q(7) that by auto
    qed
    then show ?thesis using xs(2) nf Q(1-4) by (simp add: q_list_def)
  qed
  then show ?thesis using xs(1) Q(5) unfolding list_inv_def by metis
qed

lemma own_ok_frame:
  assumes "own_ok q A p" and "q_brk q \<le> q_brk q'"
    and "\<And>a d. own_node p = Some (a, d) \<Longrightarrow> a < q_brk q \<Longrightarrow> a \<notin> A \<Longrightarrow> a \<notin> A' \<and> q_mem q' a = q_mem q a"
  shows "own_ok q' A' p"
  using assms unfolding own_ok_def by (metis (no_types, lifting) order.strict_trans2)

lemma list_lock [simp]: "q_list (q\<lparr>q_lock := l\<rparr>) xs = q_list q xs" "own_inv (q\<lparr>q_lock := l\<rparr>) f A = own_inv q f A"
  by (simp_all add: q_list_def own_inv_def own_ok_def)

lemma list_inv_elim:
  assumes "list_inv tr q f" and "\<not> freed (f 0)"
  obtains xs where "fifo_run [] tr = Some (map snd xs)" and "q_list q xs"
    and "own_inv q f (set (q_head q # map fst xs))"
  using assms by (auto simp: list_inv_def)

lemma q_list_mem: "q_list q xs \<Longrightarrow> a \<in> set (q_head q # map fst xs) \<Longrightarrow> q_mem q a \<noteq> None \<and> a < q_brk q"
  unfolding q_list_def using qseg_mem by metis

lemma list_inv_node:
  assumes inv: "list_inv tr q f" and pc: "f t = Enq_Node d" and new: "new_node q d = (q', a)"
  shows "list_inv (tr @ [Tau]) q' (f(t := Enq_Lock d a))"
proof -
  have q': "q' = q\<lparr>q_mem := (q_mem q)(a \<mapsto> \<lparr>qn_data = Some d, qn_next = None\<rparr>), q_brk := Suc a\<rparr>" "a = q_brk q"
    using new by (auto simp: new_node_def)
  have fr: "freed ((f(t := Enq_Lock d a)) 0) \<longleftrightarrow> freed (f 0)" using pc by (auto simp: freed_def)
  show ?thesis
  proof (cases "freed (f 0)")
    case True
    then show ?thesis using inv fr by (auto simp: list_inv_def fifo_tau)
  next
    case False
    obtain xs where xs: "fifo_run [] tr = Some (map snd xs)" "q_list q xs" "own_inv q f (set (q_head q # map fst xs))"
      by (rule list_inv_elim [OF inv False])
    let ?A = "set (q_head q # map fst xs)"
    have a: "a \<notin> ?A" using q_list_mem [OF xs(2), of a] q'(2) by auto
    have "q_list q' xs"
      using xs(2) a unfolding q'(1) q_list_def by (auto simp: qseg_upd q'(2) less_Suc_eq)
    moreover have "own_inv q' (f(t := Enq_Lock d a)) ?A"
    proof (rule own_inv_move [OF xs(3)])
      show "own_ok q' ?A (Enq_Lock d a)" using a by (simp add: own_ok_def q'(1))
      show "own_ok q' ?A (f u)" if "own_ok q ?A (f u)" for u
        by (rule own_ok_frame [OF that]) (auto simp: q')
      show "own_node (f u) \<noteq> Some (b, e)" if "own_node (Enq_Lock d a) = Some (b, d')" for b d' u e
      proof -
        have "own_ok q ?A (f u)" using xs(3) by (simp add: own_inv_def)
        then show ?thesis using that q'(2) by (auto simp: own_ok_def)
      qed
    qed
    moreover have "q_head q' = q_head q" by (simp add: q'(1))
    ultimately show ?thesis using xs(1) by (auto simp: list_inv_def fifo_tau)
  qed
qed

lemma list_inv_link:
  assumes inv: "list_inv tr q f" and pc: "f t = Enq_Link d a" and fr: "\<not> freed (f 0)"
  obtains q' where "link_node q a = Inr q'" and "list_inv (tr @ [Enqueued d]) (q'\<lparr>q_lock := l\<rparr>) (f(t := Enq_Signal))"
proof -
  obtain xs where xs: "fifo_run [] tr = Some (map snd xs)" "q_list q xs" "own_inv q f (set (q_head q # map fst xs))"
    by (rule list_inv_elim [OF inv fr])
  let ?A = "set (q_head q # map fst xs)"
  have "own_ok q ?A (Enq_Link d a)" using xs(3) pc unfolding own_inv_def by metis
  then have a: "q_mem q a = Some \<lparr>qn_data = Some d, qn_next = None\<rparr>" "a \<notin> ?A" by (simp_all add: own_ok_def)
  obtain n where n: "link_node q a = Inr (q\<lparr>q_mem := (q_mem q)(q_tail q \<mapsto> n\<lparr>qn_next := Some a\<rparr>), q_tail := a\<rparr>)"
      "q_list (q\<lparr>q_mem := (q_mem q)(q_tail q \<mapsto> n\<lparr>qn_next := Some a\<rparr>), q_tail := a\<rparr>) (xs @ [(a, d)])" "q_tail q \<in> ?A"
    by (rule link_node_ok [OF xs(2) a])
  let ?q = "q\<lparr>q_mem := (q_mem q)(q_tail q \<mapsto> n\<lparr>qn_next := Some a\<rparr>), q_tail := a\<rparr>"
  have "own_inv ?q (f(t := Enq_Signal)) (set (q_head q # map fst (xs @ [(a, d)])))"
  proof (rule own_inv_move [OF xs(3)])
    fix u assume u: "u \<noteq> t" "own_ok q ?A (f u)"
    show "own_ok ?q (set (q_head q # map fst (xs @ [(a, d)]))) (f u)"
    proof (rule own_ok_frame [OF u(2)])
      fix b e assume b: "own_node (f u) = Some (b, e)" "b \<notin> ?A"
      have "own_node (f t) = Some (a, d)" using pc by simp
      from own_other [OF xs(3) this u(1), of e] b n(3)
      show "b \<notin> set (q_head q # map fst (xs @ [(a, d)])) \<and> q_mem ?q b = q_mem q b" by auto
    qed simp
  qed (simp_all add: own_ok_def)
  moreover have "fifo_run [] (tr @ [Enqueued d]) = Some (map snd (xs @ [(a, d)]))"
    using xs(1) by (simp add: fifo_run_append)
  ultimately have "list_inv (tr @ [Enqueued d]) (?q\<lparr>q_lock := l\<rparr>) (f(t := Enq_Signal))"
    using n(2) unfolding list_inv_def list_lock by (intro exI [of _ "xs @ [(a, d)]"]) simp
  with n(1) that show ?thesis by blast
qed


lemma list_inv_take:
  assumes inv: "list_inv tr q f" and pc: "f t = Deq_Take" and fr: "\<not> freed (f 0)" and ne: "q_head q \<noteq> q_tail q"
  obtains q' a d where "take_node q = Inr (q', a, d)"
    and "list_inv (tr @ [Dequeued d]) (q'\<lparr>q_lock := l\<rparr>) (f(t := Deq_Free a d))"
proof -
  obtain xs0 where xs0: "fifo_run [] tr = Some (map snd xs0)" "q_list q xs0" "own_inv q f (set (q_head q # map fst xs0))"
    by (rule list_inv_elim [OF inv fr])
  obtain x xs where "xs0 = x # xs" using q_list_empty [OF xs0(2)] ne by (cases xs0) auto
  then obtain a d where cons: "xs0 = (a, d) # xs" by (cases x) auto
  note xs = xs0 [unfolded cons]
  obtain h n k where n: "take_node q = Inr (q\<lparr>q_mem := (q_mem q)(q_head q \<mapsto> h\<lparr>qn_next := n\<rparr>), q_tail := k\<rparr>, a, d)"
      "q_list (q\<lparr>q_mem := (q_mem q)(q_head q \<mapsto> h\<lparr>qn_next := n\<rparr>), q_tail := k\<rparr>) xs"
    by (rule take_node_ok [OF xs(2)])
  let ?q = "q\<lparr>q_mem := (q_mem q)(q_head q \<mapsto> h\<lparr>qn_next := n\<rparr>), q_tail := k\<rparr>"
  have a: "q_mem q a \<noteq> None" "a < q_brk q" "a \<noteq> q_head q" "a \<notin> fst ` set xs"
    using q_list_mem [OF xs(2), of a] xs(2) by (auto simp: q_list_def)
  have "own_inv ?q (f(t := Deq_Free a d)) (set (q_head q # map fst xs))"
  proof (rule own_inv_move [OF xs(3)])
    show "own_ok ?q (set (q_head q # map fst xs)) (Deq_Free a d)" using a by (simp add: own_ok_def)
  next
    fix u assume u: "u \<noteq> t" "own_ok q (set (q_head q # map fst ((a, d) # xs))) (f u)"
    show "own_ok ?q (set (q_head q # map fst xs)) (f u)"
      by (rule own_ok_frame [OF u(2)]) auto
  next
    fix b d' u e assume "own_node (Deq_Free a d) = Some (b, d')"
    moreover have "own_ok q (set (q_head q # map fst ((a, d) # xs))) (f u)" using xs(3) by (simp add: own_inv_def)
    ultimately show "own_node (f u) \<noteq> Some (b, e)" by (auto simp: own_ok_def)
  qed
  moreover have "fifo_run [] (tr @ [Dequeued d]) = Some (map snd xs)"
    using xs(1) by (simp add: fifo_run_append)
  ultimately have "list_inv (tr @ [Dequeued d]) (?q\<lparr>q_lock := l\<rparr>) (f(t := Deq_Free a d))"
    using n(2) unfolding list_inv_def list_lock by (intro exI [of _ xs]) simp
  with n(1) that show ?thesis by blast
qed

lemma list_inv_free:
  assumes inv: "list_inv tr q f" and pc: "f t = Deq_Free a d" and fr: "\<not> freed (f 0)"
  obtains q' where "free_node q a = Inr q'" and "list_inv (tr @ [Tau]) q' (f(t := Deq_Uncount (Some d)))"
proof -
  obtain xs where xs: "fifo_run [] tr = Some (map snd xs)" "q_list q xs" "own_inv q f (set (q_head q # map fst xs))"
    by (rule list_inv_elim [OF inv fr])
  let ?A = "set (q_head q # map fst xs)" and ?q = "q\<lparr>q_mem := (q_mem q)(a := None)\<rparr>"
  have "own_ok q ?A (Deq_Free a d)" using xs(3) pc unfolding own_inv_def by metis
  then have a: "q_mem q a \<noteq> None" "a \<notin> ?A" by (simp_all add: own_ok_def)
  have "q_list ?q xs" using xs(2) a(2) by (auto simp: q_list_def qseg_upd)
  moreover have "own_inv ?q (f(t := Deq_Uncount (Some d))) ?A"
  proof (rule own_inv_move [OF xs(3)])
    fix u assume u: "u \<noteq> t" "own_ok q ?A (f u)"
    show "own_ok ?q ?A (f u)"
    proof (rule own_ok_frame [OF u(2)])
      fix b e assume b: "own_node (f u) = Some (b, e)" "b \<notin> ?A"
      have "own_node (f t) = Some (a, d)" using pc by simp
      from own_other [OF xs(3) this u(1), of e] b show "b \<notin> ?A \<and> q_mem ?q b = q_mem q b" by auto
    qed simp
  qed (simp_all add: own_ok_def)
  ultimately have "list_inv (tr @ [Tau]) ?q (f(t := Deq_Uncount (Some d)))"
    using xs(1) unfolding list_inv_def fifo_tau by (intro exI [of _ xs]) simp
  moreover have "free_node q a = Inr ?q" using a(1) by (auto simp: free_node_def)
  ultimately show ?thesis using that by blast
qed

lemma touching_live:
  assumes "past_inv f" and "des_inv q f" and "touches (f t)"
  shows "\<not> freed (f 0)" and "\<not> q_gone q"
proof -
  have "\<not> past_wait (f 0)" using assms(1,3) unfolding past_inv_def by blast
  then show "\<not> freed (f 0)" "\<not> q_gone q" using assms(2) by (auto simp: past_wait_def freed_def des_inv_def)
qed

inductive_cases node_stepE: "qstep t q (Enq_Node d) e q' p"
inductive_cases link_stepE: "qstep t q (Enq_Link d a) e q' p"
inductive_cases take_stepE: "qstep t q Deq_Take e q' p"
inductive_cases free_stepE: "qstep t q (Deq_Free a d) e q' p"
inductive_cases des_free_stepE: "qstep t q Des_Free e q' p"

text \<open>The four steps that change the nodes, and the one that frees them all.\<close>

lemma list_inv_writes:
  assumes inv: "list_inv tr q f" and past: "past_inv f" and take: "take_inv q f" and des: "des_inv q f"
    and step: "qstep t q (f t) e q' p" and w: "writes (f t)" "f t \<noteq> Des_Free"
  shows "list_inv (tr @ [e]) q' (f(t := p)) \<and> (\<forall>c. p \<noteq> Crash c)"
proof -
  consider (node) d where "f t = Enq_Node d" | (link) d a where "f t = Enq_Link d a" | (take) "f t = Deq_Take"
    | (free) a d where "f t = Deq_Free a d" using w by (cases "f t") auto
  then show ?thesis
  proof cases
    case (node d)
    from step [unfolded node] obtain a where "new_node q d = (q', a)" "e = Tau" "p = Enq_Lock d a"
      by (auto elim: node_stepE)
    then show ?thesis using list_inv_node [OF inv node] by simp
  next
    case (link d a)
    have "touches (f t)" using link by simp
    note fr = touching_live(1) [OF past des this] and g = touching_live(2) [OF past des this]
    obtain q1 where q1: "link_node q a = Inr q1" "list_inv (tr @ [Enqueued d]) (q1\<lparr>q_lock := None\<rparr>) (f(t := Enq_Signal))"
      by (rule list_inv_link [OF inv link fr])
    from step [unfolded link] have "e = Enqueued d" "q' = q1\<lparr>q_lock := None\<rparr>" "p = Enq_Signal"
      using q1(1) g by (auto elim: link_stepE)
    then show ?thesis using q1(2) by simp
  next
    case take
    have "touches (f t)" using take by simp
    note fr = touching_live(1) [OF past des this] and g = touching_live(2) [OF past des this]
    have ne: "q_head q \<noteq> q_tail q" using \<open>take_inv q f\<close> take by (auto simp: take_inv_def)
    obtain q1 a d where q1: "take_node q = Inr (q1, a, d)"
        "list_inv (tr @ [Dequeued d]) (q1\<lparr>q_lock := None\<rparr>) (f(t := Deq_Free a d))"
      by (rule list_inv_take [OF inv take fr ne])
    from step [unfolded take] have "e = Dequeued d" "q' = q1\<lparr>q_lock := None\<rparr>" "p = Deq_Free a d"
      using q1(1) g by (auto elim: take_stepE)
    then show ?thesis using q1(2) by simp
  next
    case (free a d)
    have "touches (f t)" using free by simp
    note fr = touching_live(1) [OF past des this]
    obtain q1 where q1: "free_node q a = Inr q1" "list_inv (tr @ [Tau]) q1 (f(t := Deq_Uncount (Some d)))"
      by (rule list_inv_free [OF inv free fr])
    from step [unfolded free] have "e = Tau" "q' = q1" "p = Deq_Uncount (Some d)"
      using q1(1) by (auto elim: free_stepE)
    then show ?thesis using q1(2) by simp
  qed
qed

lemma list_inv_frees:
  assumes inv: "list_inv tr q f" and des: "des_inv q f" and step: "qstep t q (f t) e q' p" and f: "f t = Des_Free"
  shows "list_inv (tr @ [e]) q' (f(t := p)) \<and> (\<forall>c. p \<noteq> Crash c)"
proof -
  have t: "t = 0" using des f by (auto simp: des_inv_def dest: spec [of _ t])
  then have "\<not> freed (f 0)" using f by (simp add: freed_def)
  then obtain xs where xs: "fifo_run [] tr = Some (map snd xs)" "q_list q xs" by (rule list_inv_elim [OF inv])
  have fn: "\<exists>q1. free_nodes q (Some (q_head q)) = Some (Inr q1)"
    using free_nodes_ok [of q "q_head q" xs] xs(2) by (auto simp: q_list_def)
  from step [unfolded f] have "e = Tau" "p = Des_End" using fn by (auto elim: des_free_stepE)
  then show ?thesis using xs(1) t by (auto simp: list_inv_def fifo_tau freed_def)
qed

lemma list_inv_step:
  assumes inv: "list_inv tr q f" and past: "past_inv f" and take: "take_inv q f" and des: "des_inv q f"
    and step: "qstep t q (f t) e q' p"
  shows "list_inv (tr @ [e]) q' (f(t := p)) \<and> (\<forall>c. p \<noteq> Crash c)"
proof (cases "writes (f t)")
  case True
  then show ?thesis using list_inv_writes [OF assms] list_inv_frees [OF inv des step] by blast
next
  case False
  show ?thesis using list_inv_quiet [OF inv step False] qstep_quiet(6) [OF step False] by blast
qed

section \<open>Every reachable state satisfies them\<close>

definition queue_inv :: "'d event list \<Rightarrow> 'd sys \<Rightarrow> bool" where
  "queue_inv tr s \<longleftrightarrow> des_inv (sy_q s) (sy_pc s) \<and> lock_inv (sy_q s) (sy_pc s) \<and> count_inv tr (sy_q s) (sy_pc s) \<and>
     past_inv (sy_pc s) \<and> take_inv (sy_q s) (sy_pc s) \<and> list_inv tr (sy_q s) (sy_pc s) \<and> no_crash (sy_pc s)"

lemma queue_inv_init: "queue_inv [] sys0"
proof -
  have "list_inv [] (sy_q sys0) (sy_pc sys0 :: nat \<Rightarrow> 'a pc)"
    unfolding list_inv_def
    by (intro exI [of _ "[]"]) (auto simp: sys0_def NewSafeQueue_def q_list_def own_inv_def own_ok_def)
  then show ?thesis
    by (auto simp: queue_inv_def des_inv_def lock_inv_def count_inv_def past_inv_def take_inv_def no_crash_def
        sys0_def NewSafeQueue_def closing_def past_wait_def)
qed

lemma queue_inv_internal:
  assumes inv: "queue_inv tr s" and step: "internal s e s'"
  shows "queue_inv (tr @ [e]) s'"
  using step
proof (cases rule: internal.cases)
  case (inside t q p)
  note I = inv [unfolded queue_inv_def]
  note st = inside(2)
  have l: "list_inv (tr @ [e]) q ((sy_pc s)(t := p))" "\<And>c. p \<noteq> Crash c"
    using list_inv_step [where f = "sy_pc s" and tr = tr, OF _ _ _ _ st] I by blast+
  have "no_crash ((sy_pc s)(t := p))" using I l(2) by (simp add: no_crash_def)
  then show ?thesis
    using des_inv_step [where f = "sy_pc s", OF _ st] lock_inv_step [where f = "sy_pc s", OF _ st l(2)]
      count_inv_step [where f = "sy_pc s" and tr = tr, OF _ st l(2)]
      past_inv_step [where f = "sy_pc s" and tr = tr, OF _ _ _ st l(2)]
      take_inv_step [where f = "sy_pc s", OF _ _ st] l(1) I
    by (simp add: queue_inv_def inside(1))
qed

text \<open>A step outside the calls: one thread moves between places that no invariant speaks of.\<close>

definition outside :: "'d pc \<Rightarrow> bool" where
  "outside p \<longleftrightarrow> \<not> holds_q p \<and> \<not> holds_n p \<and> \<not> counted p \<and> own_node p = None \<and> \<not> touches p \<and>
     p \<noteq> Deq_Check \<and> p \<noteq> Deq_Take \<and> \<not> closing p \<and> \<not> past_wait p \<and> \<not> freed p \<and> (\<forall>c. p \<noteq> Crash c)"

lemma outside_pcs [simp]:
  "outside Idle" "outside (Enq_Start d)" "outside Deq_Start" "outside (Got r)" "outside Des_Mark"
  by (simp_all add: outside_def closing_def past_wait_def freed_def)

lemma queue_inv_outside:
  assumes inv: "queue_inv tr s" and out: "outside (sy_pc s t)" "outside p" and d: "is_des p \<Longrightarrow> t = 0"
  shows "queue_inv tr (s\<lparr>sy_pc := (sy_pc s)(t := p)\<rparr>)"
proof -
  let ?f = "sy_pc s" and ?q = "sy_q s"
  let ?g = "?f(t := p)"
  note I = inv [unfolded queue_inv_def]
  have "des_inv ?q ?f" using I by blast
  moreover have "t \<noteq> 0" if "?f 0 = Des_Done"
    by (rule notI) (use that out(1) in \<open>simp add: outside_def past_wait_def\<close>)
  ultimately have "des_inv ?q ?g" using out(2) d by (auto simp: des_inv_def outside_def)
  moreover have "lock_inv ?q ?g" using I out by (auto simp: lock_inv_def outside_def)
  moreover have "count_inv tr ?q ?g"
  proof -
    have "{u. counted (?g u)} = {u. counted (?f u)}" using out by (auto simp: outside_def)
    moreover have "finite {u. ?g u \<noteq> Idle}"
      by (rule finite_moved) (use I in \<open>simp add: count_inv_def\<close>)
    ultimately show ?thesis using I by (simp add: count_inv_def)
  qed
  moreover have "past_inv ?g" using I out by (auto simp: past_inv_def outside_def)
  moreover have "take_inv ?q ?g" using I out by (auto simp: take_inv_def outside_def)
  moreover have "list_inv tr ?q ?g"
  proof -
    obtain xs where xs: "fifo_run [] tr = Some (map snd xs)"
        "\<not> freed (?f 0) \<Longrightarrow> q_list ?q xs \<and> own_inv ?q ?f (set (q_head ?q # map fst xs))"
      using I by (auto simp: list_inv_def)
    have "freed (?g 0) \<longleftrightarrow> freed (?f 0)" using out by (auto simp: outside_def)
    moreover have "own_inv ?q ?f A \<Longrightarrow> own_inv ?q ?g A" for A
      by (rule own_inv_move) (use out in \<open>auto simp: outside_def own_ok_def\<close>)
    ultimately show ?thesis using xs unfolding list_inv_def by blast
  qed
  moreover have "no_crash ?g" using I out by (auto simp: no_crash_def outside_def)
  ultimately show ?thesis by (simp add: queue_inv_def)
qed

lemma queue_inv_client: "client s s' \<Longrightarrow> queue_inv tr s \<Longrightarrow> queue_inv tr s'"
  by (cases rule: client.cases, assumption) (auto intro!: queue_inv_outside)

lemma queue_inv_spurious:
  assumes "spurious s s'" and "queue_inv tr s"
  shows "queue_inv tr s'"
proof -
  have "queue_inv tr (s\<lparr>sy_q := (sy_q s)\<lparr>q_ready := w\<rparr>\<rparr>) = queue_inv tr s"
    "queue_inv tr (s\<lparr>sy_q := (sy_q s)\<lparr>q_noUsed := w\<rparr>\<rparr>) = queue_inv tr s" for w
    by (simp_all add: queue_inv_def des_inv_def lock_inv_def count_inv_def past_inv_def take_inv_def list_inv_def
        own_inv_def own_ok_def q_list_def)
  then show ?thesis using assms by (auto elim: spurious.cases)
qed

lemma reach_inv: "reach tr s \<Longrightarrow> queue_inv tr s"
proof (induction rule: reach.induct)
  case reach_init
  show ?case by (rule queue_inv_init)
next
  case (reach_internal tr s e s')
  then show ?case by (blast intro: queue_inv_internal)
next
  case (reach_client tr s s')
  then show ?case by (blast intro: queue_inv_client)
next
  case (reach_spurious tr s s')
  then show ?case by (blast intro: queue_inv_spurious)
qed

lemma reach_invD:
  assumes "reach tr s"
  shows "des_inv (sy_q s) (sy_pc s)" "lock_inv (sy_q s) (sy_pc s)" "count_inv tr (sy_q s) (sy_pc s)"
    "past_inv (sy_pc s)" "take_inv (sy_q s) (sy_pc s)" "list_inv tr (sy_q s) (sy_pc s)" "no_crash (sy_pc s)"
  using reach_inv [OF assms] by (simp_all add: queue_inv_def)

end
