(* ===== verification/Queue_Schedules.thy ===== *)
theory Queue_Schedules
  imports Queue_Reach
begin

text \<open>
  The steps of the queue as a function of the thread that is to move, for schedules that can be
  evaluated and to decide who can go on.
\<close>

section \<open>A scheduler\<close>

text \<open>
  The step of a thread as a function, with a signal that wakes all sleepers: \<open>None\<close> where the
  thread cannot go on. It runs schedules for the examples and decides which threads can go on.
\<close>

fun pc_step :: "nat \<Rightarrow> 'd SafeQueue \<Rightarrow> 'd pc \<Rightarrow> ('d SafeQueue \<times> 'd pc \<times> 'd event) option" where
  "pc_step t q (Enq_Start d) = Some (q, if q_destroyed q then Idle else Enq_Count d, Tau)"
| "pc_step t q (Enq_Count d) =
     (if q_gone q then Some (q, Undefined, Tau)
      else if q_numMut q = None then Some (q\<lparr>q_numMut := Some t\<rparr>, Enq_Inc d, Tau) else None)"
| "pc_step t q (Enq_Inc d) =
     (if q_gone q then Some (q, Undefined, Tau)
      else Some (q\<lparr>q_usedNum := q_usedNum q + 1, q_numMut := None\<rparr>, Enq_Node d, Tau))"
| "pc_step t q (Enq_Node d) = (case new_node q d of (q', a) \<Rightarrow> Some (q', Enq_Lock d a, Tau))"
| "pc_step t q (Enq_Lock d a) =
     (if q_gone q then Some (q, Undefined, Tau)
      else if q_lock q = None then Some (q\<lparr>q_lock := Some t\<rparr>, Enq_Test d a, Tau) else None)"
| "pc_step t q (Enq_Test d a) =
     (if q_gone q then Some (q, Undefined, Tau)
      else if q_destroyed q then Some (q\<lparr>q_lock := None\<rparr>, Idle, Dropped d)
      else Some (q, Enq_Link d a, Tau))"
| "pc_step t q (Enq_Link d a) =
     (if q_gone q then Some (q, Undefined, Tau)
      else case link_node q a of Inl e \<Rightarrow> Some (q, Crash e, Tau)
        | Inr q' \<Rightarrow> Some (q'\<lparr>q_lock := None\<rparr>, Enq_Signal, Enqueued d))"
| "pc_step t q Enq_Signal =
     (if q_gone q then Some (q, Undefined, Tau) else Some (q\<lparr>q_ready := {}\<rparr>, Enq_Uncount, Tau))"
| "pc_step t q Enq_Uncount =
     (if q_gone q then Some (q, Undefined, Tau)
      else if q_numMut q = None then Some (q\<lparr>q_numMut := Some t\<rparr>, Enq_Dec, Tau) else None)"
| "pc_step t q Enq_Dec =
     (if q_gone q then Some (q, Undefined, Tau)
      else Some (q\<lparr>q_usedNum := q_usedNum q - 1, q_noUsed := {}, q_numMut := None\<rparr>, Idle, Tau))"
| "pc_step t q Deq_Start = Some (q, if q_destroyed q then Got None else Deq_Count, Tau)"
| "pc_step t q Deq_Count =
     (if q_gone q then Some (q, Undefined, Tau)
      else if q_numMut q = None then Some (q\<lparr>q_numMut := Some t\<rparr>, Deq_Inc, Tau) else None)"
| "pc_step t q Deq_Inc =
     (if q_gone q then Some (q, Undefined, Tau)
      else Some (q\<lparr>q_usedNum := q_usedNum q + 1, q_numMut := None\<rparr>, Deq_Lock, Tau))"
| "pc_step t q Deq_Lock =
     (if q_gone q then Some (q, Undefined, Tau)
      else if q_lock q = None then Some (q\<lparr>q_lock := Some t\<rparr>, Deq_Test, Tau) else None)"
| "pc_step t q Deq_Test =
     Some (q, if \<not> q_destroyed q \<and> q_head q = q_tail q then Deq_Wait else Deq_Check, Tau)"
| "pc_step t q Deq_Wait =
     (if q_gone q then Some (q, Undefined, Tau)
      else Some (q\<lparr>q_lock := None, q_ready := insert t (q_ready q)\<rparr>, Deq_Sleep, Tau))"
| "pc_step t q Deq_Sleep =
     (if q_gone q then Some (q, Undefined, Tau)
      else if t \<notin> q_ready q \<and> q_lock q = None then Some (q\<lparr>q_lock := Some t\<rparr>, Deq_Test, Tau) else None)"
| "pc_step t q Deq_Check =
     (if q_gone q then Some (q, Undefined, Tau)
      else if q_destroyed q then Some (q\<lparr>q_lock := None\<rparr>, Deq_Uncount None, Tau)
      else Some (q, Deq_Take, Tau))"
| "pc_step t q Deq_Take =
     (if q_gone q then Some (q, Undefined, Tau)
      else case take_node q of Inl e \<Rightarrow> Some (q, Crash e, Tau)
        | Inr (q', a, d) \<Rightarrow> Some (q'\<lparr>q_lock := None\<rparr>, Deq_Free a d, Dequeued d))"
| "pc_step t q (Deq_Free a d) =
     (case free_node q a of Inl e \<Rightarrow> Some (q, Crash e, Tau) | Inr q' \<Rightarrow> Some (q', Deq_Uncount (Some d), Tau))"
| "pc_step t q (Deq_Uncount r) =
     (if q_gone q then Some (q, Undefined, Tau)
      else if q_numMut q = None then Some (q\<lparr>q_numMut := Some t\<rparr>, Deq_Dec r, Tau) else None)"
| "pc_step t q (Deq_Dec r) =
     (if q_gone q then Some (q, Undefined, Tau)
      else Some (q\<lparr>q_usedNum := q_usedNum q - 1, q_noUsed := {}, q_numMut := None\<rparr>, Got r, Tau))"
| "pc_step t q Des_Mark = Some (q\<lparr>q_destroyed := True\<rparr>, Des_Wake, Tau)"
| "pc_step t q Des_Wake =
     (if q_gone q then Some (q, Undefined, Tau) else Some (q\<lparr>q_ready := {}\<rparr>, Des_Lock, Tau))"
| "pc_step t q Des_Lock =
     (if q_gone q then Some (q, Undefined, Tau)
      else if q_numMut q = None then Some (q\<lparr>q_numMut := Some t\<rparr>, Des_Test, Tau) else None)"
| "pc_step t q Des_Test =
     (if q_gone q then Some (q, Undefined, Tau)
      else if 0 < q_usedNum q then Some (q\<lparr>q_numMut := None, q_noUsed := insert t (q_noUsed q)\<rparr>, Des_Sleep, Tau)
      else Some (q\<lparr>q_numMut := None\<rparr>, Des_Free, Tau))"
| "pc_step t q Des_Sleep =
     (if q_gone q then Some (q, Undefined, Tau)
      else if t \<notin> q_noUsed q \<and> q_numMut q = None then Some (q\<lparr>q_numMut := Some t\<rparr>, Des_Test, Tau) else None)"
| "pc_step t q Des_Free =
     (case free_nodes q (Some (q_head q)) of None \<Rightarrow> None
      | Some (Inl e) \<Rightarrow> Some (q, Crash e, Tau) | Some (Inr q') \<Rightarrow> Some (q', Des_End, Tau))"
| "pc_step t q Des_End =
     (if q_lock q = None \<and> q_numMut q = None \<and> q_ready q = {} \<and> q_noUsed q = {}
      then Some (q\<lparr>q_gone := True\<rparr>, Des_Done, Tau) else Some (q, Undefined, Tau))"
| "pc_step t q _ = None"

lemma signal_all: "signal w {}"
  by (simp add: signal_def)

lemma pc_step_sound: "pc_step t q p = Some (q', p', e) \<Longrightarrow> qstep t q p e q' p'"
  by (cases p)
    (auto simp: signal_all intro!: qstep.intros split: if_splits sum.splits option.splits prod.splits)

text \<open>A thread that has a step can go on in the scheduler, too.\<close>

lemma pc_step_complete: "qstep t q p e q' p' \<Longrightarrow> pc_step t q p \<noteq> None"
  by (cases rule: qstep.cases) (auto simp: new_node_def elim!: syncs.elims split: sum.splits option.splits if_splits)

datatype 'd action = Step nat | Enque nat 'd | Deque nat | Use nat | Destroy

fun act :: "'d event list \<times> 'd sys \<Rightarrow> 'd action \<Rightarrow> ('d event list \<times> 'd sys) option" where
  "act (tr, s) (Step t) =
     (case pc_step t (sy_q s) (sy_pc s t) of None \<Rightarrow> None
      | Some (q, p, e) \<Rightarrow> Some (tr @ [e], \<lparr>sy_q = q, sy_pc = (sy_pc s)(t := p)\<rparr>))"
| "act (tr, s) (Enque t d) =
     (case sy_pc s t of Idle \<Rightarrow> Some (tr, s\<lparr>sy_pc := (sy_pc s)(t := Enq_Start d)\<rparr>) | _ \<Rightarrow> None)"
| "act (tr, s) (Deque t) =
     (case sy_pc s t of Idle \<Rightarrow> Some (tr, s\<lparr>sy_pc := (sy_pc s)(t := Deq_Start)\<rparr>) | _ \<Rightarrow> None)"
| "act (tr, s) (Use t) =
     (case sy_pc s t of Got r \<Rightarrow> Some (tr, s\<lparr>sy_pc := (sy_pc s)(t := Idle)\<rparr>) | _ \<Rightarrow> None)"
| "act (tr, s) Destroy =
     (case sy_pc s 0 of Idle \<Rightarrow> Some (tr, s\<lparr>sy_pc := (sy_pc s)(0 := Des_Mark)\<rparr>) | _ \<Rightarrow> None)"

fun acts :: "'d event list \<times> 'd sys \<Rightarrow> 'd action list \<Rightarrow> ('d event list \<times> 'd sys) option" where
  "acts x [] = Some x"
| "acts x (a # as) = (case act x a of None \<Rightarrow> None | Some y \<Rightarrow> acts y as)"

lemma act_reach: "act (tr, s) a = Some (tr', s') \<Longrightarrow> reach tr s \<Longrightarrow> reach tr' s'"
  by (cases a)
    (auto split: option.splits pc.splits intro: reach_internal internal.inside pc_step_sound
      reach_client client.intros)

lemma acts_reach: "acts (tr, s) as = Some (tr', s') \<Longrightarrow> reach tr s \<Longrightarrow> reach tr' s'"
  by (induction as arbitrary: tr s) (auto split: option.splits dest: act_reach)

lemma schedule: "acts ([], sys0) as = Some (tr, s) \<Longrightarrow> reach tr s"
  using acts_reach reach_init by blast

text \<open>A whole call of one thread.\<close>

lemmas run_simps = sys0_def NewSafeQueue_def new_node_def link_node_def take_node_def free_node_def Let_def

definition put :: "nat \<Rightarrow> 'd \<Rightarrow> 'd action list" where
  "put t d = Enque t d # replicate 10 (Step t)"

definition fetch :: "nat \<Rightarrow> 'd action list" where
  "fetch t = Deque t # replicate 10 (Step t)"

end
