(* ===== verification/Queue_Shutdown.thy ===== *)
theory Queue_Shutdown
  imports Queue_Schedules
begin

text \<open>
  What happens to the queue once it is being destroyed: the two ways in which \<open>SafeDestroy\<close> never
  returns, the bound on the steps that are left, and that it has returned where nothing moves.
\<close>

section \<open>Onward from a state\<close>

text \<open>All that may follow a state, with or without wake-ups that nobody signalled.\<close>

inductive onward :: "bool \<Rightarrow> 'd sys \<Rightarrow> 'd sys \<Rightarrow> bool" for b where
  on_refl: "onward b s s"
| on_internal: "onward b s s' \<Longrightarrow> internal s' e s'' \<Longrightarrow> onward b s s''"
| on_client: "onward b s s' \<Longrightarrow> client s' s'' \<Longrightarrow> onward b s s''"
| on_spurious: "b \<Longrightarrow> onward b s s' \<Longrightarrow> spurious s' s'' \<Longrightarrow> onward b s s''"

lemma spurious_pc: "spurious s s' \<Longrightarrow> sy_pc s' = sy_pc s"
  by (auto elim: spurious.cases)

lemma client_pc:
  assumes "client s s'" and "\<not> outside (sy_pc s t)"
  shows "sy_pc s' t = sy_pc s t" and "sy_q s' = sy_q s"
proof -
  have "\<forall>u. sy_pc s u = Idle \<longrightarrow> u \<noteq> t" "\<forall>u r. sy_pc s u = Got r \<longrightarrow> u \<noteq> t"
    using assms(2) by (metis outside_pcs(1), metis outside_pcs(4))
  with assms(1) have "sy_pc s' t = sy_pc s t \<and> sy_q s' = sy_q s" by (auto elim!: client.cases)
  then show "sy_pc s' t = sy_pc s t" "sy_q s' = sy_q s" by simp_all
qed

section \<open>A dropped item\<close>

lemma qstep_closing_stays:
  "qstep t q p e q' p' \<Longrightarrow> closing p \<Longrightarrow> \<not> q_gone q \<Longrightarrow> closing p' \<or> p = Des_Test \<and> q_usedNum q \<le> 0"
  by (cases rule: qstep.cases) (auto simp: closing_def)

lemma closing_internal:
  assumes r: "reach tr s" and c: "closing (sy_pc s 0)" and d: "0 < q_usedNum (sy_q s)" and step: "internal s e s'"
  shows "closing (sy_pc s' 0)"
  using step
proof (cases rule: internal.cases)
  case (inside t q p)
  have "\<not> q_gone (sy_q s)" using reach_invD(1) [OF r] c by (auto simp: des_inv_def closing_def)
  with qstep_closing_stays [OF inside(2)] c d show ?thesis by (cases "t = 0") (auto simp: inside(1))
qed

lemma dropped_stuck:
  assumes "onward b s s'" and "reach tr s" and "0 < drops tr" and "closing (sy_pc s 0)"
  shows "\<exists>tr'. reach tr' s' \<and> 0 < drops tr' \<and> closing (sy_pc s' 0)"
  using assms
proof (induction rule: onward.induct)
  case (on_refl s)
  then show ?case by blast
next
  case (on_internal s s' e s'')
  then obtain tr' where tr': "reach tr' s'" "0 < drops tr'" "closing (sy_pc s' 0)" by blast
  have "\<not> q_gone (sy_q s')" using reach_invD(1) [OF tr'(1)] tr'(3) by (auto simp: des_inv_def closing_def)
  then have "0 < q_usedNum (sy_q s')" using reach_invD(3) [OF tr'(1)] tr'(2) by (simp add: count_inv_def)
  from closing_internal [OF tr'(1,3) this on_internal(2)] show ?case
    using reach_internal [OF tr'(1) on_internal(2)] tr'(2) by (metis drops_append add_gr_0)
next
  case (on_client s s' s'')
  then obtain tr' where tr': "reach tr' s'" "0 < drops tr'" "closing (sy_pc s' 0)" by blast
  have "\<not> outside (sy_pc s' 0)" using tr'(3) by (simp add: outside_def)
  then show ?case using client_pc(1) [OF on_client(2)] tr' reach_client [OF tr'(1) on_client(2)] by metis
next
  case (on_spurious s s' s'')
  then show ?case using spurious_pc reach_spurious by metis
qed

section \<open>A lost wake-up\<close>

text \<open>
  A thread is asleep although the queue is being destroyed, the broadcast is over, and nobody is
  about to signal.
\<close>

definition lost_wakeup :: "nat \<Rightarrow> 'd sys \<Rightarrow> bool" where
  "lost_wakeup t s \<longleftrightarrow> q_destroyed (sy_q s) \<and> sy_pc s t = Deq_Sleep \<and> t \<in> q_ready (sy_q s) \<and>
     (\<forall>u d a. sy_pc s u \<noteq> Enq_Link d a \<and> sy_pc s u \<noteq> Enq_Signal) \<and> sy_pc s 0 \<in> {Des_Lock, Des_Test, Des_Sleep}"

lemma qstep_ready: "qstep t q p e q' p' \<Longrightarrow> q_ready q \<subseteq> q_ready q' \<or> p = Enq_Signal \<or> p = Des_Wake"
  by (cases rule: qstep.cases) (auto dest: list_same simp: same_sync_def)

lemma qstep_to_signal:
  "qstep t q p e q' p' \<Longrightarrow> p' = Enq_Link d a \<or> p' = Enq_Signal \<Longrightarrow> \<not> q_destroyed q \<or> (\<exists>d a. p = Enq_Link d a)"
  by (cases rule: qstep.cases) auto

lemma qstep_asleep: "qstep t q Deq_Sleep e q' p' \<Longrightarrow> t \<in> q_ready q \<Longrightarrow> q_gone q"
  by (cases rule: qstep.cases) auto

lemma qstep_wait_stays:
  "qstep t q p e q' p' \<Longrightarrow> p \<in> {Des_Lock, Des_Test, Des_Sleep} \<Longrightarrow> \<not> q_gone q \<Longrightarrow> 0 < q_usedNum q \<Longrightarrow>
     p' \<in> {Des_Lock, Des_Test, Des_Sleep}"
  by (cases rule: qstep.cases) auto

lemma lost_internal:
  assumes r: "reach tr s" and lost: "lost_wakeup c s" and step: "internal s e s'"
  shows "lost_wakeup c s'"
  using step
proof (cases rule: internal.cases)
  case (inside t q p)
  let ?f = "sy_pc s" and ?q = "sy_q s"
  note L = lost [unfolded lost_wakeup_def]
  have g: "\<not> q_gone ?q" using reach_invD(1) [OF r] L by (auto simp: des_inv_def)
  have "finite {u. counted (?f u)}" using reach_invD(3) [OF r] finite_counted by (auto simp: count_inv_def)
  then have "0 < card {u. counted (?f u)}" using L by (auto simp: card_gt_0_iff intro!: exI [of _ c])
  then have n: "0 < q_usedNum ?q" using reach_invD(3) [OF r] g by (simp add: count_inv_def)
  have "?f t \<noteq> Des_Wake"
  proof
    assume w: "?f t = Des_Wake"
    then have "t = 0" using reach_invD(1) [OF r] by (simp add: des_inv_def)
    then show False using w L by simp
  qed
  then have "c \<in> q_ready q" using qstep_ready [OF inside(2)] L by auto
  moreover have "t \<noteq> c" using qstep_asleep [of t ?q] inside(2) L g by metis
  moreover have "q_destroyed q" using qstep_destroyed [OF inside(2)] L by simp
  moreover have "(?f(t := p)) u \<noteq> Enq_Link d a \<and> (?f(t := p)) u \<noteq> Enq_Signal" for u d a
    using qstep_to_signal [OF inside(2), of d a] L by auto
  moreover have "(?f(t := p)) 0 \<in> {Des_Lock, Des_Test, Des_Sleep}"
    using qstep_wait_stays [OF inside(2) _ g n] L by (cases "t = 0") auto
  ultimately show ?thesis using L by (simp add: lost_wakeup_def inside(1))
qed

lemma lost_client: "client s s' \<Longrightarrow> lost_wakeup c s \<Longrightarrow> lost_wakeup c s'"
  by (cases rule: client.cases, assumption) (auto simp: lost_wakeup_def)

lemma lost_for_ever:
  assumes "onward False s s'" and "reach tr s" and "lost_wakeup c s"
  shows "\<exists>tr'. reach tr' s' \<and> lost_wakeup c s'"
  using assms
proof (induction rule: onward.induct)
  case (on_refl s)
  then show ?case by blast
next
  case (on_internal s s' e s'')
  then obtain tr' where "reach tr' s'" "lost_wakeup c s'" by blast
  then show ?case using lost_internal reach_internal on_internal(2) by metis
next
  case (on_client s s' s'')
  then show ?case using lost_client reach_client by metis
qed simp

section \<open>Closing comes to an end\<close>

text \<open>How many steps a thread can still take once the queue is marked as destroyed.\<close>

fun weight :: "'d pc \<Rightarrow> nat" where
  "weight (Enq_Start d) = 13"
| "weight (Enq_Count d) = 12"
| "weight (Enq_Inc d) = 11"
| "weight (Enq_Node d) = 10"
| "weight (Enq_Lock d a) = 9"
| "weight (Enq_Test d a) = 8"
| "weight (Enq_Link d a) = 7"
| "weight Enq_Signal = 6"
| "weight Enq_Uncount = 5"
| "weight Enq_Dec = 4"
| "weight Deq_Start = 13"
| "weight Deq_Count = 12"
| "weight Deq_Inc = 11"
| "weight Deq_Lock = 10"
| "weight Deq_Wait = 11"
| "weight Deq_Sleep = 10"
| "weight Deq_Test = 9"
| "weight Deq_Check = 8"
| "weight Deq_Take = 7"
| "weight (Deq_Free a d) = 6"
| "weight (Deq_Uncount r) = 5"
| "weight (Deq_Dec r) = 4"
| "weight Des_Mark = 8"
| "weight Des_Wake = 7"
| "weight Des_Lock = 6"
| "weight Des_Test = 4"
| "weight Des_Sleep = 3"
| "weight Des_Free = 2"
| "weight Des_End = 1"
| "weight _ = 0"

text \<open>A destroyer that was woken looks at the count once more.\<close>

definition woken :: "'d SafeQueue \<Rightarrow> 'd pc \<Rightarrow> nat" where
  "woken q p = (if p = Des_Sleep \<and> 0 \<notin> q_noUsed q then 2 else 0)"

definition weights :: "(nat \<Rightarrow> 'd pc) \<Rightarrow> nat" where
  "weights f = (\<Sum>t | f t \<noteq> Idle. weight (f t))"

definition load :: "'d sys \<Rightarrow> nat" where
  "load s = weights (sy_pc s) + woken (sy_q s) (sy_pc s 0)"

lemma qstep_weight:
  assumes "qstep t q p e q' p'" and "q_destroyed q" and "is_des p \<Longrightarrow> t = 0"
  shows "weight p' < weight p \<or> p = Des_Sleep \<and> p' = Des_Test" and "weight p' + 3 < weight p \<or> q_noUsed q \<subseteq> q_noUsed q'"
  using assms by (cases rule: qstep.cases; auto dest!: list_same simp: same_sync_def elim!: syncs.elims)+

lemma qstep_weight0:
  assumes "qstep 0 q p e q' p'" and "q_destroyed q"
  shows "weight p' + woken q' p' < weight p + woken q p"
  using assms by (cases rule: qstep.cases) (auto simp: woken_def dest!: list_same elim!: syncs.elims)

lemma weights_moved:
  assumes "finite {u. f u \<noteq> Idle}"
  shows "weights (f(t := p)) + weight (f t) = weights f + weight p"
proof -
  let ?A = "insert t {u. f u \<noteq> Idle}"
  have all: "weights g = (\<Sum>u \<in> ?A. weight (g u))" if "g = f \<or> g = f(t := p)" for g
    unfolding weights_def by (rule sum.mono_neutral_left) (use that assms in \<open>auto split: if_splits\<close>)
  have "(\<Sum>u \<in> ?A. weight (g u)) = (\<Sum>u \<in> ?A - {t}. weight (g u)) + weight (g t)" for g :: "nat \<Rightarrow> 'a pc"
    using assms by (subst sum.remove [of _ t]) (simp_all add: add.commute)
  moreover have "(\<Sum>u \<in> ?A - {t}. weight ((f(t := p)) u)) = (\<Sum>u \<in> ?A - {t}. weight (f u))"
    by (rule sum.cong) auto
  ultimately show ?thesis using all [of f] all [of "f(t := p)"] by simp
qed

lemma load_decreases:
  assumes r: "reach tr s" and d: "q_destroyed (sy_q s)" and step: "internal s e s'"
  shows "load s' < load s"
  using step
proof (cases rule: internal.cases)
  case (inside t q p)
  let ?f = "sy_pc s"
  have fin: "finite {u. ?f u \<noteq> Idle}" using reach_invD(3) [OF r] by (simp add: count_inv_def)
  note S = weights_moved [where t = t and p = p, OF fin]
  have des: "is_des (?f t) \<Longrightarrow> t = 0" using reach_invD(1) [OF r] by (simp add: des_inv_def)
  show ?thesis
  proof (cases "t = 0")
    case True
    then show ?thesis using S qstep_weight0 [of "sy_q s" "?f 0" e q p] inside d by (simp add: load_def)
  next
    case False
    then have "?f t \<noteq> Des_Sleep" using des by auto
    then have "weight p + woken q (?f 0) < weight (?f t) + woken (sy_q s) (?f 0)"
      using qstep_weight [OF inside(2) d des] by (auto simp: woken_def)
    then show ?thesis using S inside False by (simp add: load_def)
  qed
qed

inductive internal_run :: "'d sys \<Rightarrow> nat \<Rightarrow> 'd sys \<Rightarrow> bool" where
  run_0: "internal_run s 0 s"
| run_Suc: "internal s e s' \<Longrightarrow> internal_run s' n s'' \<Longrightarrow> internal_run s (Suc n) s''"

lemma destroyed_internal: "internal s e s' \<Longrightarrow> q_destroyed (sy_q s) \<Longrightarrow> q_destroyed (sy_q s')"
  by (cases rule: internal.cases, assumption) (auto dest: qstep_destroyed)

lemma internal_run_load:
  assumes "internal_run s n s'" and "reach tr s" and "q_destroyed (sy_q s)"
  shows "n + load s' \<le> load s"
  using assms
proof (induction arbitrary: tr rule: internal_run.induct)
  case (run_Suc s e s' n s'')
  have "n + load s'' \<le> load s'"
    using run_Suc.IH [OF reach_internal [OF run_Suc.prems(1) run_Suc.hyps(1)]]
      destroyed_internal [OF run_Suc.hyps(1) run_Suc.prems(2)] by blast
  then show ?case using load_decreases [OF run_Suc.prems run_Suc.hyps(1)] by simp
qed simp

section \<open>What is at rest\<close>

text \<open>Only the destroyer waits for the users, and while nobody signals there are some.\<close>

definition sleep_inv :: "'d SafeQueue \<Rightarrow> (nat \<Rightarrow> 'd pc) \<Rightarrow> bool" where
  "sleep_inv q f \<longleftrightarrow> q_noUsed q \<subseteq> {0} \<and> (f 0 = Des_Sleep \<and> 0 \<in> q_noUsed q \<longrightarrow> 0 < q_usedNum q)"

lemma qstep_noUsed:
  "qstep t q p e q' p' \<Longrightarrow> q_noUsed q' \<subseteq> insert t (q_noUsed q) \<and> (q_noUsed q' \<subseteq> q_noUsed q \<or> p = Des_Test)"
  by (cases rule: qstep.cases) (auto simp: signal_def dest!: list_same simp: same_sync_def)

lemma qstep_fewer:
  "qstep t q p e q' p' \<Longrightarrow> q_usedNum q \<le> q_usedNum q' \<or> q_noUsed q' \<subset> q_noUsed q \<or> q_noUsed q = {} \<and> q_noUsed q' = {}"
  by (cases rule: qstep.cases) (auto simp: signal_def dest!: list_same simp: same_sync_def)

lemma qstep_to_sleep: "qstep t q p e q' Des_Sleep \<Longrightarrow> 0 < q_usedNum q \<and> q_usedNum q' = q_usedNum q"
  by (cases rule: qstep.cases) auto

lemma sleep_inv_step:
  assumes inv: "sleep_inv q f" and des: "des_inv q f" and step: "qstep t q (f t) e q' p"
  shows "sleep_inv q' (f(t := p))"
proof -
  have "is_des (f t) \<Longrightarrow> t = 0" using des by (simp add: des_inv_def)
  then have t: "f t = Des_Test \<Longrightarrow> t = 0" by simp
  have z: "q_noUsed q \<subseteq> {0}" using inv by (simp add: sleep_inv_def)
  have u: "q_noUsed q' \<subseteq> insert t (q_noUsed q)" "q_noUsed q' \<subseteq> q_noUsed q \<or> f t = Des_Test"
    using qstep_noUsed [OF step] by simp_all
  then have a: "q_noUsed q' \<subseteq> {0}" using t z by (cases "t = 0") auto
  have "0 < q_usedNum q'" if s: "(f(t := p)) 0 = Des_Sleep" "0 \<in> q_noUsed q'"
  proof (cases "t = 0")
    case True
    then show ?thesis using s qstep_to_sleep [of t q "f t" e q'] step by auto
  next
    case False
    then have "0 \<in> q_noUsed q" using s(2) u(1) by auto
    moreover have "f 0 = Des_Sleep" using s False by simp
    ultimately have n: "0 < q_usedNum q" "q_noUsed q = {0}" using inv z by (simp add: sleep_inv_def, blast)
    have "\<not> q_noUsed q' \<subset> q_noUsed q" unfolding n(2) using s(2) by auto
    moreover have "q_noUsed q \<noteq> {}" using n(2) by simp
    ultimately have "q_usedNum q \<le> q_usedNum q'" using qstep_fewer [OF step] by simp
    then show ?thesis using n(1) by linarith
  qed
  then show ?thesis using a by (simp add: sleep_inv_def)
qed

lemma reach_sleep_inv: "reach tr s \<Longrightarrow> sleep_inv (sy_q s) (sy_pc s)"
proof (induction rule: reach.induct)
  case reach_init
  show ?case by (simp add: sleep_inv_def sys0_def NewSafeQueue_def)
next
  case (reach_internal tr s e s')
  from reach_internal(2) show ?case
    using sleep_inv_step [OF reach_internal.IH reach_invD(1) [OF reach_internal(1)]]
    by (cases rule: internal.cases) (auto simp del: fun_upd_apply)
next
  case (reach_client tr s s')
  from reach_client(2) show ?case
    using reach_client.IH by (cases rule: client.cases) (auto simp: sleep_inv_def split: if_splits)
next
  case (reach_spurious tr s s')
  from reach_spurious(2) show ?case
    using reach_spurious.IH by (cases rule: spurious.cases) (auto simp: sleep_inv_def)
qed

definition at_rest :: "'d sys \<Rightarrow> bool" where
  "at_rest s \<longleftrightarrow> (\<forall>e s'. \<not> internal s e s')"

lemma at_rest_pc: "at_rest s \<Longrightarrow> pc_step t (sy_q s) (sy_pc s t) = None"
proof (rule ccontr)
  assume r: "at_rest s" and "pc_step t (sy_q s) (sy_pc s t) \<noteq> None"
  then obtain q p e where "pc_step t (sy_q s) (sy_pc s t) = Some (q, p, e)" by auto
  then have "internal s e \<lparr>sy_q = q, sy_pc = (sy_pc s)(t := p)\<rparr>" by (intro internal.inside pc_step_sound)
  with r show False by (simp add: at_rest_def)
qed

text \<open>Who holds a mutex can go on, and so can every user when the mutexes are free.\<close>

lemma holder_moves: "holds_q p \<or> holds_n p \<Longrightarrow> pc_step t q p \<noteq> None"
  by (cases p) (auto split: sum.splits)

lemma user_moves:
  "counted p \<Longrightarrow> q_lock q = None \<Longrightarrow> q_numMut q = None \<Longrightarrow> (p = Deq_Sleep \<Longrightarrow> t \<notin> q_ready q) \<Longrightarrow> pc_step t q p \<noteq> None"
  by (cases p) (auto split: sum.splits prod.splits simp: new_node_def)

lemma destroyer_moves:
  "is_des p \<Longrightarrow> p \<noteq> Des_Done \<Longrightarrow> q_numMut q = None \<Longrightarrow> (p = Des_Sleep \<Longrightarrow> t \<notin> q_noUsed q) \<Longrightarrow>
     (p = Des_Free \<Longrightarrow> \<exists>q'. free_nodes q (Some (q_head q)) = Some (Inr q')) \<Longrightarrow> pc_step t q p \<noteq> None"
  by (cases p) auto

lemma free_nodes_reach:
  assumes "reach tr s" and "sy_pc s 0 = Des_Free"
  shows "\<exists>q'. free_nodes (sy_q s) (Some (q_head (sy_q s))) = Some (Inr q')"
proof -
  obtain xs where "q_list (sy_q s) xs"
    using reach_invD(6) [OF assms(1)] assms(2) by (auto simp: list_inv_def freed_def)
  then show ?thesis using free_nodes_ok [of "sy_q s" "q_head (sy_q s)" xs] by (auto simp: q_list_def)
qed

lemma destroyer_done:
  assumes r: "reach tr s" and d: "is_des (sy_pc s 0)" and rest: "at_rest s" and n: "drops tr = 0"
    and w: "\<And>t. sy_pc s t = Deq_Sleep \<Longrightarrow> t \<notin> q_ready (sy_q s)"
  shows "sy_pc s 0 = Des_Done"
proof (rule ccontr)
  assume nd: "sy_pc s 0 \<noteq> Des_Done"
  let ?q = "sy_q s" and ?f = "sy_pc s"
  have g: "\<not> q_gone ?q" using reach_invD(1) [OF r] nd by (auto simp: des_inv_def)
  have stuck: "pc_step t ?q (?f t) = None" for t by (rule at_rest_pc [OF rest])
  have locks: "\<And>t. q_lock ?q = Some t \<longleftrightarrow> holds_q (?f t)" "\<And>t. q_numMut ?q = Some t \<longleftrightarrow> holds_n (?f t)"
    using reach_invD(2) [OF r] g by (auto simp: lock_inv_def)
  have free: "q_lock ?q = None" "q_numMut ?q = None"
    using locks holder_moves stuck by (metis not_None_eq)+
  have "\<not> counted (?f t)" for t using user_moves [OF _ free] w [of t] stuck [of t] by metis
  then have "q_usedNum ?q = 0" using reach_invD(3) [OF r] g n by (simp add: count_inv_def)
  then have "?f 0 = Des_Sleep \<Longrightarrow> 0 \<notin> q_noUsed ?q" using reach_sleep_inv [OF r] by (auto simp: sleep_inv_def)
  then have "pc_step 0 ?q (?f 0) \<noteq> None"
    using destroyer_moves [OF d nd free(2)] free_nodes_reach [OF r] by blast
  then show False using stuck [of 0] by simp
qed

end
