(* ===== verification/Queue_Locks.thy ===== *)
theory Queue_Locks
  imports Queue_Shutdown
begin

text \<open>
  When a destroyed mutex or condition variable is used: never before \<open>SafeDestroy\<close> has passed its
  wait, and never at all when every caller that is inside has counted itself by the time the queue
  is marked.
\<close>

section \<open>Who waits\<close>

definition waiting_inv :: "'d SafeQueue \<Rightarrow> (nat \<Rightarrow> 'd pc) \<Rightarrow> bool" where
  "waiting_inv q f \<longleftrightarrow> (\<not> q_gone q \<longrightarrow>
     (\<forall>t \<in> q_ready q. f t = Deq_Sleep) \<and> (\<forall>t \<in> q_noUsed q. f t = Des_Sleep))"

lemma qstep_waits:
  "qstep t q p e q' p' \<Longrightarrow> \<not> q_gone q \<Longrightarrow>
     q_ready q' \<subseteq> insert t (q_ready q) \<and> (t \<in> q_ready q' \<longrightarrow> p' = Deq_Sleep \<or> t \<in> q_ready q \<and> p \<noteq> Deq_Sleep) \<and>
     q_noUsed q' \<subseteq> insert t (q_noUsed q) \<and> (t \<in> q_noUsed q' \<longrightarrow> p' = Des_Sleep \<or> t \<in> q_noUsed q \<and> p \<noteq> Des_Sleep)"
  by (cases rule: qstep.cases)
    (auto dest: list_same simp: same_sync_def new_node_def signal_def)

lemma waiting_inv_step:
  assumes inv: "waiting_inv q f" and step: "qstep t q (f t) e q' p"
  shows "waiting_inv q' (f(t := p))"
  unfolding waiting_inv_def
proof (intro impI conjI ballI)
  assume "\<not> q_gone q'"
  then have g: "\<not> q_gone q" using qstep_gone [OF step] by simp
  note w = qstep_waits [OF step g]
  have old: "u \<in> q_ready q \<Longrightarrow> f u = Deq_Sleep" "u \<in> q_noUsed q \<Longrightarrow> f u = Des_Sleep" for u
    using inv g by (auto simp: waiting_inv_def)
  show "(f(t := p)) u = Deq_Sleep" if "u \<in> q_ready q'" for u
    using that w old(1) [of u] by (cases "u = t") auto
  show "(f(t := p)) u = Des_Sleep" if "u \<in> q_noUsed q'" for u
    using that w old(2) [of u] by (cases "u = t") auto
qed

lemma reach_waiting: "reach tr s \<Longrightarrow> waiting_inv (sy_q s) (sy_pc s)"
proof (induction rule: reach.induct)
  case reach_init
  show ?case by (simp add: waiting_inv_def sys0_def NewSafeQueue_def)
next
  case (reach_internal tr s e s')
  from reach_internal(2) show ?case
  proof (cases rule: internal.cases)
    case (inside t q p)
    show ?thesis using waiting_inv_step [OF reach_internal(3) inside(2)] by (simp add: inside(1) del: fun_upd_apply)
  qed
next
  case (reach_client tr s s')
  have "sy_q s' = sy_q s" using reach_client(2) by (auto elim!: client.cases)
  moreover have "sy_pc s' t = sy_pc s t" if "sy_pc s t \<in> {Deq_Sleep, Des_Sleep}" for t
    by (rule client_pc(1) [OF reach_client(2)]) (use that in \<open>auto simp: outside_def closing_def\<close>)
  ultimately show ?case using reach_client(3) by (simp add: waiting_inv_def)
next
  case (reach_spurious tr s s')
  then show ?case by (auto simp: waiting_inv_def elim!: spurious.cases)
qed

section \<open>Destroyed locks\<close>

text \<open>Between the first test of \<open>destroyed\<close> and the increment of \<open>usedNum\<close>.\<close>

fun uncounted :: "'d pc \<Rightarrow> bool" where
  "uncounted (Enq_Count d) = True"
| "uncounted (Enq_Inc d) = True"
| "uncounted Deq_Count = True"
| "uncounted Deq_Inc = True"
| "uncounted _ = False"

lemma qstep_undefined:
  "qstep t q p e q' Undefined \<Longrightarrow> q_gone q \<and> syncs p \<or>
     p = Des_End \<and> (q_lock q \<noteq> None \<or> q_numMut q \<noteq> None \<or> q_ready q \<noteq> {} \<or> q_noUsed q \<noteq> {})"
  by (cases rule: qstep.cases) auto

lemma qstep_uncounted: "qstep t q p e q' p' \<Longrightarrow> uncounted p' \<Longrightarrow> uncounted p \<or> \<not> q_destroyed q"
  by (cases rule: qstep.cases) auto

lemma qstep_counted: "qstep t q p e q' p' \<Longrightarrow> counted p' \<Longrightarrow> counted p \<or> uncounted p"
  by (cases rule: qstep.cases) auto

lemma pc_groups:
  "syncs p \<Longrightarrow> counted p \<or> uncounted p \<or> closing p" "holds_q p \<Longrightarrow> counted p"
  "holds_n p \<Longrightarrow> counted p \<or> uncounted p \<or> p = Des_Test"
  by (cases p; simp add: closing_def)+

text \<open>No thread has used a destroyed lock before the destroyer is past its wait.\<close>

lemma undefined_late:
  "reach tr s \<Longrightarrow> sy_pc s t = Undefined \<Longrightarrow> past_wait (sy_pc s 0)"
proof (induction arbitrary: t rule: reach.induct)
  case reach_init
  then show ?case by (simp add: sys0_def)
next
  case (reach_internal tr s e s')
  from reach_internal(2) show ?case
  proof (cases rule: internal.cases)
    case (inside u q p)
    have d: "des_inv (sy_q s) (sy_pc s)" by (rule reach_invD(1) [OF reach_internal(1)])
    have "no_crash (sy_pc s')" by (rule reach_invD(7) [OF reach.reach_internal [OF reach_internal(1,2)]])
    then have "sy_pc s' u \<noteq> Crash c" for c by (simp add: no_crash_def)
    then have ok: "p \<noteq> Crash c" for c using inside(1) by simp
    have "past_wait (sy_pc s 0) \<or> u = 0 \<and> p = Undefined"
    proof (cases "t = u")
      case True
      then have "p = Undefined" using reach_internal(4) inside(1) by simp
      then have "q_gone (sy_q s) \<or> sy_pc s u = Des_End" using qstep_undefined inside(2) by metis
      then show ?thesis
      proof
        assume "sy_pc s u = Des_End"
        moreover from this have "u = 0" using d unfolding des_inv_def by (metis is_des.simps(7))
        ultimately show ?thesis by (simp add: past_wait_def)
      qed (use d in \<open>simp add: des_inv_def past_wait_def\<close>)
    next
      case False
      then show ?thesis using reach_internal(3) [of t] reach_internal(4) inside(1) by simp
    qed
    then show ?thesis
      using qstep_stays_past [OF inside(2)] ok inside(1) by (cases "u = 0") (auto simp: past_wait_def)
  qed
next
  case (reach_client tr s s')
  have "sy_pc s t = Undefined" using reach_client(2,4) by (cases rule: client.cases) (auto split: if_splits)
  then have "past_wait (sy_pc s 0)" by (rule reach_client(3))
  moreover from this have "\<not> outside (sy_pc s 0)" by (simp add: outside_def)
  ultimately show ?case using client_pc(1) [OF reach_client(2)] by simp
next
  case (reach_spurious tr s s')
  then show ?case using spurious_pc by metis
qed

text \<open>The queue is being destroyed and every caller inside has counted itself.\<close>

definition all_counted :: "'d SafeQueue \<Rightarrow> (nat \<Rightarrow> 'd pc) \<Rightarrow> bool" where
  "all_counted q f \<longleftrightarrow> q_destroyed q \<and> (\<forall>t. \<not> uncounted (f t)) \<and>
     (closing (f 0) \<or> f 0 \<in> {Des_Free, Des_End, Des_Done} \<and> (\<forall>t. \<not> counted (f t))) \<and> (\<forall>t. f t \<noteq> Undefined)"

lemma all_counted_defined:
  assumes "reach tr s" and c: "all_counted (sy_q s) (sy_pc s)" and step: "qstep t (sy_q s) (sy_pc s t) e q p"
  shows "p \<noteq> Undefined"
proof
  assume "p = Undefined"
  let ?q = "sy_q s" and ?f = "sy_pc s"
  have d: "\<And>u. is_des (?f u) \<Longrightarrow> u = 0" "q_gone ?q \<Longrightarrow> ?f 0 = Des_Done"
    using reach_invD(1) [OF assms(1)] by (auto simp: des_inv_def)
  have n: "\<not> uncounted (?f u)" "?f 0 \<in> {Des_Free, Des_End, Des_Done} \<Longrightarrow> \<not> counted (?f u)" for u
    using c by (auto simp: all_counted_def closing_def)
  from qstep_undefined [OF step [unfolded \<open>p = Undefined\<close>]] show False
  proof
    assume a: "q_gone ?q \<and> syncs (?f t)"
    then have "closing (?f t)" using pc_groups(1) n d(2) by blast
    moreover from this have "is_des (?f t)" by (auto simp: closing_def)
    then have "t = 0" by (rule d(1))
    ultimately show False using d(2) a by (simp add: closing_def)
  next
    assume a: "?f t = Des_End \<and> (q_lock ?q \<noteq> None \<or> q_numMut ?q \<noteq> None \<or> q_ready ?q \<noteq> {} \<or> q_noUsed ?q \<noteq> {})"
    then have e: "?f t = Des_End" by simp
    then have t: "t = 0" using d(1) [of t] by simp
    then have g: "\<not> q_gone ?q" using d(2) e by auto
    have none: "\<not> counted (?f u)" "\<not> uncounted (?f u)" "?f u \<noteq> Des_Test" "?f u \<noteq> Des_Sleep" "?f u \<noteq> Deq_Sleep" for u
      using n [of u] d(1) [of u] e t by auto
    have "q_lock ?q \<noteq> Some u \<and> q_numMut ?q \<noteq> Some u" for u
      using reach_invD(2) [OF assms(1)] g none [of u] pc_groups(2,3) [of "?f u"] by (auto simp: lock_inv_def)
    then have "q_lock ?q = None \<and> q_numMut ?q = None" by (metis not_None_eq)
    moreover have "q_ready ?q = {} \<and> q_noUsed ?q = {}"
      using reach_waiting [OF assms(1)] g none by (auto simp: waiting_inv_def)
    ultimately show False using a by simp
  qed
qed

lemma all_counted_internal:
  assumes r: "reach tr s" and c: "all_counted (sy_q s) (sy_pc s)" and step: "internal s e s'"
  shows "all_counted (sy_q s') (sy_pc s')"
  using step
proof (cases rule: internal.cases)
  case (inside t q p)
  let ?q = "sy_q s" and ?f = "sy_pc s"
  have C: "q_destroyed ?q" "\<And>u. \<not> uncounted (?f u)" "\<And>u. ?f u \<noteq> Undefined"
      "closing (?f 0) \<or> ?f 0 \<in> {Des_Free, Des_End, Des_Done} \<and> (\<forall>u. \<not> counted (?f u))"
    using c by (auto simp: all_counted_def)
  have "p \<noteq> Undefined" by (rule all_counted_defined [OF r c inside(2)])
  moreover have "\<not> uncounted p" using qstep_uncounted [OF inside(2)] C(1,2) by blast
  moreover have "q_destroyed q" using qstep_destroyed [OF inside(2)] C(1) by simp
  moreover have "closing ((?f(t := p)) 0) \<or> (?f(t := p)) 0 \<in> {Des_Free, Des_End, Des_Done} \<and> (\<forall>u. \<not> counted ((?f(t := p)) u))"
  proof (cases "closing (?f 0)")
    case True
    then have g: "\<not> q_gone ?q" using reach_invD(1) [OF r] by (auto simp: des_inv_def closing_def)
    show ?thesis
    proof (cases "t = 0 \<and> \<not> closing p")
      case True
      then have z: "?f 0 = Des_Test" "q_usedNum ?q \<le> 0" using qstep_closing_stays [OF inside(2) _ g] \<open>closing (?f 0)\<close> by auto
      then have "p = Des_Free" using inside(2) True \<open>p \<noteq> Undefined\<close> by (auto elim!: qstep.cases simp: closing_def)
      moreover have "card {u. counted (?f u)} = 0" "finite {u. counted (?f u)}"
        using reach_invD(3) [OF r] g z(2) finite_counted by (auto simp: count_inv_def)
      ultimately show ?thesis using True by auto
    qed (use True in auto)
  next
    case False
    then have n: "?f 0 \<in> {Des_Free, Des_End, Des_Done}" "\<And>u. \<not> counted (?f u)" using C(4) by auto
    have "\<not> counted p" using qstep_counted [OF inside(2)] n(2) C(2) by blast
    moreover have "sy_pc s' t \<noteq> Crash x" for x
      using reach_invD(7) [OF reach_internal [OF r step]] by (simp add: no_crash_def)
    then have "p \<noteq> Crash x" for x using inside(1) by simp
    then have "t = 0 \<Longrightarrow> p \<in> {Des_Free, Des_End, Des_Done}"
      using inside(2) n(1) \<open>p \<noteq> Undefined\<close> by (auto elim!: qstep.cases)
    ultimately show ?thesis using n by auto
  qed
  ultimately show ?thesis using C(2,3) by (auto simp: all_counted_def inside(1))
qed

lemma all_counted_onward:
  assumes "onward b s s'" and "reach tr s" and "all_counted (sy_q s) (sy_pc s)"
  shows "\<exists>tr'. reach tr' s' \<and> all_counted (sy_q s') (sy_pc s')"
  using assms
proof (induction rule: onward.induct)
  case (on_refl s)
  then show ?case by blast
next
  case (on_internal s s' e s'')
  then show ?case using all_counted_internal reach.reach_internal by metis
next
  case (on_client s s' s'')
  then obtain tr' where tr': "reach tr' s'" "all_counted (sy_q s') (sy_pc s')" by blast
  have "\<not> outside (sy_pc s' 0)" using tr'(2) by (auto simp: all_counted_def outside_def closing_def past_wait_def)
  note z = client_pc [OF on_client(2) this]
  have "(counted (sy_pc s'' u) \<longrightarrow> counted (sy_pc s' u)) \<and> (uncounted (sy_pc s'' u) \<longrightarrow> uncounted (sy_pc s' u)) \<and>
      (sy_pc s'' u = Undefined \<longrightarrow> sy_pc s' u = Undefined)" for u
    using on_client(2) by (cases rule: client.cases) auto
  then have "all_counted (sy_q s'') (sy_pc s'')" using tr'(2) unfolding all_counted_def z by blast
  then show ?case using reach_client [OF tr'(1) on_client(2)] by blast
next
  case (on_spurious s s' s'')
  then obtain tr' where tr': "reach tr' s'" "all_counted (sy_q s') (sy_pc s')" by blast
  have "all_counted (sy_q s'') (sy_pc s'')"
    using on_spurious(3) tr'(2) by (cases rule: spurious.cases) (auto simp: all_counted_def)
  then show ?case using reach_spurious [OF tr'(1) on_spurious(3)] by blast
qed

lemma counted_callers_defined:
  assumes r: "reach tr s" and c: "closing (sy_pc s 0)" and u: "\<forall>u. \<not> uncounted (sy_pc s u)" and on: "onward b s s'"
  shows "sy_pc s' t \<noteq> Undefined"
proof -
  have "sy_pc s u \<noteq> Undefined" for u using undefined_late [OF r] c by (auto simp: closing_def past_wait_def)
  moreover have "q_destroyed (sy_q s)" using reach_invD(1) [OF r] c by (simp add: des_inv_def)
  ultimately have "all_counted (sy_q s) (sy_pc s)" using c u by (simp add: all_counted_def)
  then show ?thesis using all_counted_onward [OF on r] by (auto simp: all_counted_def)
qed

end
