(* ===== verification/Queue_Properties.thy ===== *)
theory Queue_Properties
  imports Queue_Locks
begin

text \<open>What the queue promises its callers, and where it does not keep it when it is destroyed.\<close>

section \<open>Properties\<close>

text \<open>
  C24. The queue is a queue under every interleaving of its callers: the items that \<open>SafeDeque\<close> has
  taken are the items that \<open>SafeEnque\<close> has linked, in the same order, from the first on; and as long
  as the nodes have not been freed, the list from \<open>head\<close> to \<open>tail\<close> holds exactly the remaining ones.
\<close>
theorem queue_is_fifo:
  assumes "reach tr s"
  shows "\<exists>ds. fifo_run [] tr = Some ds \<and>
     (\<not> freed (sy_pc s 0) \<longrightarrow> (\<exists>xs. q_list (sy_q s) xs \<and> map snd xs = ds))"
  using reach_invD(6) [OF assms] by (auto simp: list_inv_def)

lemma sample_run: "\<exists>s. acts ([], sys0) (put 1 (7 :: nat) @ put 1 8 @ fetch 2) =
    Some (replicate 6 Tau @ Enqueued 7 # replicate 9 Tau @ Enqueued 8 # replicate 9 Tau @ [Dequeued 7] @ replicate 3 Tau, s)"
  by (simp add: run_simps put_def fetch_def numeral_eq_Suc)

theorem queue_is_fifo_witness:
  "\<exists>ds. fifo_run [] (replicate 6 Tau @ Enqueued (7 :: nat) # replicate 9 Tau @ Enqueued 8 # replicate 9 Tau @
     [Dequeued 7] @ replicate 3 Tau) = Some ds"
proof -
  obtain s where "acts ([], sys0) (put 1 (7 :: nat) @ put 1 8 @ fetch 2) =
      Some (replicate 6 Tau @ Enqueued 7 # replicate 9 Tau @ Enqueued 8 # replicate 9 Tau @ [Dequeued 7] @ replicate 3 Tau, s)"
    using sample_run by blast
  from queue_is_fifo [OF schedule [OF this]] show ?thesis by blast
qed

text \<open>
  C25. The mutexes do what they are for and \<open>usedNum\<close> counts the users: as long as they exist, at
  most one thread is between lock and unlock of either mutex, and \<open>usedNum\<close> is the number of threads
  between its increment and its decrement, plus one for every item that was dropped.
\<close>
theorem users_counted:
  assumes "reach tr s" and "\<not> q_gone (sy_q s)"
  shows "(holds_q (sy_pc s t) \<and> holds_q (sy_pc s u) \<or> holds_n (sy_pc s t) \<and> holds_n (sy_pc s u) \<longrightarrow> t = u) \<and>
     q_usedNum (sy_q s) = int (card {t. counted (sy_pc s t)}) + int (drops tr)"
proof -
  have "\<And>t. q_lock (sy_q s) = Some t \<longleftrightarrow> holds_q (sy_pc s t)" "\<And>t. q_numMut (sy_q s) = Some t \<longleftrightarrow> holds_n (sy_pc s t)"
    using reach_invD(2) [OF assms(1)] assms(2) by (auto simp: lock_inv_def)
  then have "holds_q (sy_pc s t) \<and> holds_q (sy_pc s u) \<or> holds_n (sy_pc s t) \<and> holds_n (sy_pc s u) \<longrightarrow> t = u"
    by (metis option.inject)
  then show ?thesis using reach_invD(3) [OF assms(1)] assms(2) by (simp add: count_inv_def)
qed

lemma sample_busy: "\<exists>tr s. acts ([], sys0) (Enque 1 (7 :: nat) # replicate 5 (Step 1) @ Deque 2 # replicate 3 (Step 2)) = Some (tr, s) \<and>
    \<not> q_gone (sy_q s) \<and> sy_pc s 1 = Enq_Test 7 1 \<and> sy_pc s 2 = Deq_Lock \<and> drops tr = 0"
  by (simp add: run_simps numeral_eq_Suc)

theorem users_counted_witness:
  "\<exists>tr s. reach tr (s :: nat sys) \<and> sy_pc s 1 = Enq_Test 7 1 \<and> sy_pc s 2 = Deq_Lock \<and>
     q_usedNum (sy_q s) = int (card {t. counted (sy_pc s t)})"
proof -
  obtain tr s where s: "acts ([], sys0) (Enque 1 (7 :: nat) # replicate 5 (Step 1) @ Deque 2 # replicate 3 (Step 2)) = Some (tr, s)"
      "\<not> q_gone (sy_q s)" "sy_pc s 1 = Enq_Test 7 1" "sy_pc s 2 = Deq_Lock" "drops tr = 0"
    using sample_busy by blast
  from users_counted [OF schedule [OF s(1)] s(2)] s schedule [OF s(1)] show ?thesis by auto
qed

text \<open>
  C26. No node is used after it is freed: under every interleaving, calls of \<open>SafeEnque\<close> and \<open>SafeDeque\<close>
  during and after \<open>SafeDestroy\<close> included, no thread follows a null or dangling pointer, reads a
  node without data or frees a node twice, and the node a thread has in hand is allocated. No thread
  uses a destroyed mutex or condition variable before \<open>SafeDestroy\<close> has passed its wait for the
  users; and when every caller inside has counted itself while \<open>SafeDestroy\<close> still waits, no thread
  ever does in what follows, new calls and wake-ups without a signal included.
\<close>
theorem queue_memory_safe:
  assumes "reach tr s"
  shows "sy_pc s t \<noteq> Crash e \<and> (\<not> freed (sy_pc s 0) \<and> own_node (sy_pc s t) = Some (a, d) \<longrightarrow> q_mem (sy_q s) a \<noteq> None) \<and>
     (sy_pc s t = Undefined \<longrightarrow> past_wait (sy_pc s 0)) \<and>
     (closing (sy_pc s 0) \<and> (\<forall>u. \<not> uncounted (sy_pc s u)) \<longrightarrow> (\<forall>s'. onward True s s' \<longrightarrow> sy_pc s' t \<noteq> Undefined))"
proof -
  have "sy_pc s t \<noteq> Crash e" using reach_invD(7) [OF assms] by (simp add: no_crash_def)
  moreover have "q_mem (sy_q s) a \<noteq> None" if nf: "\<not> freed (sy_pc s 0)" and own: "own_node (sy_pc s t) = Some (a, d)"
  proof -
    obtain A where "own_inv (sy_q s) (sy_pc s) A"
      using reach_invD(6) [OF assms] nf unfolding list_inv_def by blast
    then have "own_ok (sy_q s) A (sy_pc s t)" by (simp add: own_inv_def)
    then show ?thesis using own by (auto simp: own_ok_def split: if_splits)
  qed
  ultimately show ?thesis using undefined_late [OF assms] counted_callers_defined [OF assms] by blast
qed

text \<open>The queue is marked while a caller is about to link its node.\<close>

lemma sample_marked: "\<exists>tr s. acts ([], sys0) (Enque 1 (7 :: nat) # replicate 5 (Step 1) @ Destroy # [Step 0]) = Some (tr, s) \<and>
    sy_pc s 0 = Des_Wake \<and> sy_pc s 1 = Enq_Test 7 1 \<and> (\<forall>u. \<not> uncounted (sy_pc s u))"
  by (simp add: run_simps numeral_eq_Suc)

theorem queue_memory_safe_witness:
  "\<exists>tr s. reach tr (s :: nat sys) \<and> sy_pc s 0 = Des_Wake \<and> sy_pc s 1 = Enq_Test 7 1 \<and> q_mem (sy_q s) 1 \<noteq> None \<and>
     (\<forall>s'. onward True s s' \<longrightarrow> sy_pc s' 1 \<noteq> Undefined)"
proof -
  obtain tr s where s: "acts ([], sys0) (Enque 1 (7 :: nat) # replicate 5 (Step 1) @ Destroy # [Step 0]) = Some (tr, s)"
      "sy_pc s 0 = Des_Wake" "sy_pc s 1 = Enq_Test 7 1" "\<forall>u. \<not> uncounted (sy_pc s u)"
    using sample_marked by blast
  have "\<not> freed (sy_pc s 0)" "closing (sy_pc s 0)" using s(2) by (simp_all add: freed_def closing_def)
  with queue_memory_safe [OF schedule [OF s(1)], of 1 Bad_Pointer 1 7] s schedule [OF s(1)] show ?thesis by auto
qed

text \<open>
  C27. Shutting down takes a bounded number of steps: once the queue is marked as destroyed, the threads
  inside its operations can take only \<open>load s\<close> further steps, whatever their order, before all of
  them have returned or wait for something that does not come any more.
\<close>
theorem closing_terminates:
  assumes "reach tr s" and "q_destroyed (sy_q s)" and "internal_run s n s'"
  shows "n \<le> load s"
  using internal_run_load [OF assms(3,1,2)] by simp

lemma sample_close: "\<exists>tr s. acts ([], sys0) (put 1 (7 :: nat) @ fetch 2 @ [Destroy, Step 0]) = Some (tr, s) \<and>
    q_destroyed (sy_q s) \<and> sy_pc s 0 = Des_Wake \<and> (\<forall>t. t \<noteq> 0 \<longrightarrow> sy_pc s t \<in> {Idle, Got (Some 7)})"
  by (simp add: run_simps put_def fetch_def numeral_eq_Suc)

theorem closing_terminates_witness:
  "\<exists>s. q_destroyed (sy_q (s :: nat sys)) \<and> sy_pc s 0 = Des_Wake \<and> (\<forall>n s'. internal_run s n s' \<longrightarrow> n \<le> load s)"
proof -
  obtain tr s where s: "acts ([], sys0) (put 1 (7 :: nat) @ fetch 2 @ [Destroy, Step 0]) = Some (tr, s)"
      "q_destroyed (sy_q s)" "sy_pc s 0 = Des_Wake"
    using sample_close by blast
  from closing_terminates [OF schedule [OF s(1)] s(2)] s show ?thesis by blast
qed

text \<open>
  C28. \<open>SafeDestroy\<close> returns when nobody is left behind: if no item was dropped and no caller of
  \<open>SafeDeque\<close> is asleep without having been signalled, then a state in which no thread inside the
  queue can take a step is one in which \<open>SafeDestroy\<close> has returned.
\<close>
theorem destroy_returns:
  assumes "reach tr s" and "is_des (sy_pc s 0)" and "at_rest s" and "drops tr = 0"
    and "\<forall>t. sy_pc s t = Deq_Sleep \<longrightarrow> t \<notin> q_ready (sy_q s)"
  shows "sy_pc s 0 = Des_Done"
  using destroyer_done [OF assms(1-4)] assms(5) by blast

lemma sample_end: "\<exists>tr s. acts ([], sys0) (put 1 (7 :: nat) @ fetch 2 @ Destroy # replicate 6 (Step 0)) = Some (tr, s) \<and>
    (\<forall>t. t \<noteq> 0 \<longrightarrow> sy_pc s t \<in> {Idle, Got (Some 7)}) \<and> sy_pc s 0 = Des_Done \<and> drops tr = 0"
  by (simp add: run_simps put_def fetch_def numeral_eq_Suc free_nodes.simps)

theorem destroy_returns_witness:
  "\<exists>tr s. reach tr (s :: nat sys) \<and> at_rest s \<and> drops tr = 0 \<and> sy_pc s 0 = Des_Done"
proof -
  obtain tr s where s: "acts ([], sys0) (put 1 (7 :: nat) @ fetch 2 @ Destroy # replicate 6 (Step 0)) = Some (tr, s)"
      "\<forall>t. t \<noteq> 0 \<longrightarrow> sy_pc s t \<in> {Idle, Got (Some 7)}" "sy_pc s 0 = Des_Done" "drops tr = 0"
    using sample_end by blast
  have "pc_step t (sy_q s) (sy_pc s t) = None" for t
    using s(2,3) by (cases "t = 0") (auto dest: spec [of _ t])
  then have rest: "at_rest s" using pc_step_complete unfolding at_rest_def by (metis internal.cases)
  have "t \<notin> q_ready (sy_q s)" if "sy_pc s t = Deq_Sleep" for t
  proof (cases "t = 0")
    case False
    then have "sy_pc s t \<in> {Idle, Got (Some 7)}" using s(2) by blast
    then show ?thesis using that by auto
  qed (use that s(3) in simp)
  with destroy_returns [OF schedule [OF s(1)] _ rest s(4)] s(3,4) rest schedule [OF s(1)] show ?thesis by auto
qed


text \<open>
  An item that is dropped keeps \<open>SafeDestroy\<close> from returning: \<open>SafeEnque\<close> leaves by its second
  test of \<open>destroyed\<close> without counting itself off, so that the destroyer, if it is still before
  the end of its wait then, waits for ever, whatever happens afterwards.
\<close>
theorem dropped_item_blocks_destroy:
  assumes "reach tr s" and "Dropped d \<in> set tr" and "closing (sy_pc s 0)" and "onward True s s'"
  shows "sy_pc s' 0 \<in> {Des_Wake, Des_Lock, Des_Test, Des_Sleep}"
proof -
  have "0 < drops tr" using assms(2) by (induction tr rule: drops.induct) auto
  then show ?thesis using dropped_stuck [OF assms(4,1) _ assms(3)] by (auto simp: closing_def)
qed

lemma sample_drop: "\<exists>tr s. acts ([], sys0) (Enque 1 (7 :: nat) # replicate 5 (Step 1) @ Destroy # Step 0 # [Step 1]) = Some (tr, s) \<and>
    Dropped 7 \<in> set tr \<and> sy_pc s 0 = Des_Wake \<and> sy_pc s 1 = Idle \<and> q_usedNum (sy_q s) = 1"
  by (simp add: run_simps numeral_eq_Suc)


theorem dropped_item_blocks_destroy_witness:
  "\<exists>tr s. reach tr (s :: nat sys) \<and> Dropped 7 \<in> set tr \<and> sy_pc s 1 = Idle \<and>
     (\<forall>s'. onward True s s' \<longrightarrow> sy_pc s' 0 \<in> {Des_Wake, Des_Lock, Des_Test, Des_Sleep})"
proof -
  obtain tr s where s: "acts ([], sys0) (Enque 1 (7 :: nat) # replicate 5 (Step 1) @ Destroy # Step 0 # [Step 1]) = Some (tr, s)"
      "Dropped 7 \<in> set tr" "sy_pc s 0 = Des_Wake" "sy_pc s 1 = Idle"
    using sample_drop by blast
  have "closing (sy_pc s 0)" using s(3) by (simp add: closing_def)
  from dropped_item_blocks_destroy [OF schedule [OF s(1)] s(2) this] s schedule [OF s(1)] show ?thesis by blast
qed

text \<open>
  A lost wake-up keeps \<open>SafeDestroy\<close> from returning: \<open>destroyed\<close> is set and broadcast without the
  mutex, so that a caller of \<open>SafeDeque\<close> can test it before and fall asleep after both. It and the
  destroyer then sleep for ever, unless the system wakes a thread without a signal.
\<close>
theorem lost_wakeup_for_ever:
  assumes "reach tr s" and "lost_wakeup t s" and "onward False s s'"
  shows "sy_pc s' t = Deq_Sleep \<and> sy_pc s' 0 \<in> {Des_Lock, Des_Test, Des_Sleep}"
  using lost_for_ever [OF assms(3,1,2)] by (auto simp: lost_wakeup_def)

lemma sample_lost: "\<exists>tr s. acts ([], sys0) (Deque 1 # replicate 5 (Step 1) @ Destroy # replicate 4 (Step 0) @ [Step 1] :: nat action list) = Some (tr, s) \<and>
    q_destroyed (sy_q s) \<and> sy_pc s 1 = Deq_Sleep \<and> 1 \<in> q_ready (sy_q s) \<and> sy_pc s 0 = Des_Sleep \<and>
    (\<forall>t. t \<noteq> 0 \<longrightarrow> sy_pc s t \<in> {Idle, Deq_Sleep})"
  by (simp add: run_simps numeral_eq_Suc)

theorem lost_wakeup_for_ever_witness:
  "\<exists>tr s. reach tr (s :: nat sys) \<and> (\<forall>s'. onward False s s' \<longrightarrow> sy_pc s' 1 = Deq_Sleep \<and> sy_pc s' 0 \<in> {Des_Lock, Des_Test, Des_Sleep})"
proof -
  obtain tr s where s: "acts ([], sys0) (Deque 1 # replicate 5 (Step 1) @ Destroy # replicate 4 (Step 0) @ [Step 1] :: nat action list) = Some (tr, s)"
      "q_destroyed (sy_q s)" "sy_pc s 1 = Deq_Sleep" "1 \<in> q_ready (sy_q s)" "sy_pc s 0 = Des_Sleep"
      "\<forall>t. t \<noteq> 0 \<longrightarrow> sy_pc s t \<in> {Idle, Deq_Sleep}"
    using sample_lost by blast
  have "sy_pc s u \<in> {Idle, Deq_Sleep, Des_Sleep}" for u using s(5,6) by (cases "u = 0") auto
  then have "sy_pc s u \<noteq> Enq_Link d a \<and> sy_pc s u \<noteq> Enq_Signal" for u d a by (metis insertE empty_iff pc.distinct)
  then have "lost_wakeup 1 s" using s by (simp add: lost_wakeup_def)
  from lost_wakeup_for_ever [OF schedule [OF s(1)] this] schedule [OF s(1)] show ?thesis by blast
qed

text \<open>
  A call of \<open>SafeEnque\<close> or \<open>SafeDeque\<close> can use a destroyed mutex: between its first test of
  \<open>destroyed\<close> and the increment of \<open>usedNum\<close> it is invisible to \<open>SafeDestroy\<close>, which may run to its
  end there. From such a state the call can only go on into undefined behaviour.
\<close>
theorem uncounted_caller_undefined:
  assumes "reach tr s" and "q_gone (sy_q s)" and "sy_pc s t = Deq_Count \<or> sy_pc s t = Enq_Count d"
  shows "sy_pc s 0 = Des_Done \<and> (\<exists>s'. internal s Tau s' \<and> sy_pc s' t = Undefined) \<and>
     (\<forall>e s'. internal s e s' \<longrightarrow> sy_pc s' t \<in> {sy_pc s t, Undefined})"
proof (intro conjI allI impI)
  show "sy_pc s 0 = Des_Done" using reach_invD(1) [OF assms(1)] assms(2) by (simp add: des_inv_def)
  have "qstep t (sy_q s) (sy_pc s t) Tau (sy_q s) Undefined" using assms(2,3) by (auto intro: qstep.gone)
  from internal.inside [OF this] show "\<exists>s'. internal s Tau s' \<and> sy_pc s' t = Undefined" by force
  show "sy_pc s' t \<in> {sy_pc s t, Undefined}" if "internal s e s'" for e s'
    using that
  proof (cases rule: internal.cases)
    case (inside u q p)
    then show ?thesis using assms(2,3) by (cases "u = t") (auto elim: qstep.cases)
  qed
qed

lemma sample_late: "\<exists>tr s. acts ([], sys0) (Enque 1 (7 :: nat) # Step 1 # Destroy # replicate 6 (Step 0)) = Some (tr, s) \<and>
    q_gone (sy_q s) \<and> sy_pc s 1 = Enq_Count 7"
  by (simp add: run_simps numeral_eq_Suc free_nodes.simps)

theorem uncounted_caller_undefined_witness:
  "\<exists>tr s s'. reach tr (s :: nat sys) \<and> sy_pc s 0 = Des_Done \<and> internal s Tau s' \<and> sy_pc s' 1 = Undefined"
proof -
  obtain tr s where s: "acts ([], sys0) (Enque 1 (7 :: nat) # Step 1 # Destroy # replicate 6 (Step 0)) = Some (tr, s)"
      "q_gone (sy_q s)" "sy_pc s 1 = Enq_Count 7"
    using sample_late by blast
  from uncounted_caller_undefined [OF schedule [OF s(1)] s(2), of 1 7] s(3) schedule [OF s(1)] show ?thesis by blast
qed

end
