(* ===== verification/Thread_Pool.thy ===== *)
theory Thread_Pool
  imports Queue_Properties "HOL-Library.Multiset"
begin

text \<open>
  The thread pool of \<open>pool/thread_pool.c\<close> on the queue: the main thread is thread 0 and owns the
  queue, the workers are the threads from 1 on. What a task does is not modelled, only that it
  runs; a task does not add tasks itself.
\<close>

section \<open>Data\<close>

record ('f, 'a) Task =
  t_func :: 'f
  t_arg :: 'a

text \<open>Where a worker is in its loop, and where the main thread is with the pool.\<close>

datatype 'd worker = Fetching | Running 'd | Exited

datatype main = Serving | Destroying | Joining nat | Closed

record 'd ThreadPool =
  pl_q :: "'d sys"
  pl_num :: nat
  pl_worker :: "nat \<Rightarrow> 'd worker"
  pl_main :: main

definition CreateThreadPool :: "int \<Rightarrow> 'd ThreadPool" where
  "CreateThreadPool num = \<lparr>pl_q = sys0, pl_num = nat num, pl_worker = (\<lambda>_. Fetching), pl_main = Serving\<rparr>"

datatype 'd pool_event = Queue_Event "'d event" | Added 'd | Started 'd | Silent

section \<open>Steps\<close>

definition goto :: "'d ThreadPool \<Rightarrow> nat \<Rightarrow> 'd pc \<Rightarrow> 'd ThreadPool" where
  "goto p t c = p\<lparr>pl_q := (pl_q p)\<lparr>sy_pc := (sy_pc (pl_q p))(t := c)\<rparr>\<rparr>"

text \<open>A worker is one of the threads that \<open>CreateThreadPool\<close> has started.\<close>

definition is_worker :: "'d ThreadPool \<Rightarrow> nat \<Rightarrow> bool" where
  "is_worker p t \<longleftrightarrow> 0 < t \<and> t \<le> pl_num p"

inductive worker_step :: "'d ThreadPool \<Rightarrow> 'd pool_event \<Rightarrow> 'd ThreadPool \<Rightarrow> bool" where
  fetch: "is_worker p t \<Longrightarrow> pl_worker p t = Fetching \<Longrightarrow> sy_pc (pl_q p) t = Idle \<Longrightarrow>
     worker_step p Silent (goto p t Deq_Start)"
| run: "is_worker p t \<Longrightarrow> sy_pc (pl_q p) t = Got (Some d) \<Longrightarrow>
     worker_step p (Started d) ((goto p t Idle)\<lparr>pl_worker := (pl_worker p)(t := Running d)\<rparr>)"
| finish: "is_worker p t \<Longrightarrow> pl_worker p t = Running d \<Longrightarrow>
     worker_step p Silent (p\<lparr>pl_worker := (pl_worker p)(t := Fetching)\<rparr>)"
| leave: "is_worker p t \<Longrightarrow> sy_pc (pl_q p) t = Got None \<Longrightarrow>
     worker_step p Silent ((goto p t Idle)\<lparr>pl_worker := (pl_worker p)(t := Exited)\<rparr>)"

inductive AddTask :: "'d ThreadPool \<Rightarrow> 'd \<Rightarrow> 'd ThreadPool \<Rightarrow> bool" where
  add: "pl_main p = Serving \<Longrightarrow> sy_pc (pl_q p) 0 = Idle \<Longrightarrow> AddTask p d (goto p 0 (Enq_Start d))"

inductive ClosePool :: "'d ThreadPool \<Rightarrow> 'd ThreadPool \<Rightarrow> bool" where
  destroy: "pl_main p = Serving \<Longrightarrow> sy_pc (pl_q p) 0 = Idle \<Longrightarrow>
     ClosePool p ((goto p 0 Des_Mark)\<lparr>pl_main := Destroying\<rparr>)"
| destroyed: "pl_main p = Destroying \<Longrightarrow> sy_pc (pl_q p) 0 = Des_Done \<Longrightarrow> ClosePool p (p\<lparr>pl_main := Joining 0\<rparr>)"
| join: "pl_main p = Joining i \<Longrightarrow> i < pl_num p \<Longrightarrow> pl_worker p (Suc i) = Exited \<Longrightarrow>
     ClosePool p (p\<lparr>pl_main := Joining (Suc i)\<rparr>)"
| closed: "pl_main p = Joining i \<Longrightarrow> \<not> i < pl_num p \<Longrightarrow> ClosePool p (p\<lparr>pl_main := Closed\<rparr>)"

inductive pool_step :: "'d ThreadPool \<Rightarrow> 'd pool_event \<Rightarrow> 'd ThreadPool \<Rightarrow> bool" where
  p_queue: "internal (pl_q p) e s \<Longrightarrow> pool_step p (Queue_Event e) (p\<lparr>pl_q := s\<rparr>)"
| p_worker: "worker_step p e p' \<Longrightarrow> pool_step p e p'"
| p_add: "AddTask p d p' \<Longrightarrow> pool_step p (Added d) p'"
| p_close: "ClosePool p p' \<Longrightarrow> pool_step p Silent p'"

text \<open>The second argument says whether threads may wake up without a signal.\<close>

inductive pool_run :: "bool \<Rightarrow> 'd ThreadPool \<Rightarrow> 'd pool_event list \<Rightarrow> 'd ThreadPool \<Rightarrow> bool" for b p where
  pool_start: "pool_run b p [] p"
| pool_next: "pool_run b p tr p' \<Longrightarrow> pool_step p' e p'' \<Longrightarrow> pool_run b p (tr @ [e]) p''"
| pool_spurious: "b \<Longrightarrow> pool_run b p tr p' \<Longrightarrow> spurious (pl_q p') s \<Longrightarrow> pool_run b p tr (p'\<lparr>pl_q := s\<rparr>)"

definition pool_reach :: "int \<Rightarrow> 'd pool_event list \<Rightarrow> 'd ThreadPool \<Rightarrow> bool" where
  "pool_reach num tr p \<longleftrightarrow> pool_run True (CreateThreadPool num) tr p"

section \<open>The pool uses the queue as its contract says\<close>

text \<open>What the queue sees of a run of the pool.\<close>

fun queue_events :: "'d pool_event list \<Rightarrow> 'd event list" where
  "queue_events [] = []"
| "queue_events (Queue_Event e # es) = e # queue_events es"
| "queue_events (_ # es) = queue_events es"

lemma queue_events_append: "queue_events (es @ fs) = queue_events es @ queue_events fs"
  by (induction es rule: queue_events.induct) auto

lemmas pool_simps = goto_def is_worker_def

lemma pool_step_queue:
  assumes "pool_step p e p'"
  shows "(\<exists>qe. e = Queue_Event qe \<and> internal (pl_q p) qe (pl_q p')) \<or>
     queue_events [e] = [] \<and> (client (pl_q p) (pl_q p') \<or> pl_q p' = pl_q p)"
  using assms
proof (cases rule: pool_step.cases)
  case p_worker
  from p_worker show ?thesis by (cases rule: worker_step.cases) (auto simp: goto_def intro: client.intros)
next
  case (p_add d)
  from p_add(2) show ?thesis using p_add(1) by (cases rule: AddTask.cases) (auto simp: goto_def intro: client.intros)
next
  case p_close
  from p_close(2) show ?thesis using p_close(1) by (cases rule: ClosePool.cases) (auto simp: goto_def intro: client.intros)
qed auto

lemma pool_step_reach:
  "pool_step p e p' \<Longrightarrow> reach tr (pl_q p) \<Longrightarrow> reach (tr @ queue_events [e]) (pl_q p')"
  by (drule pool_step_queue) (auto intro: reach.intros)

lemma pool_reach_queue: "pool_run b p0 tr p \<Longrightarrow> reach [] (pl_q p0) \<Longrightarrow> reach (queue_events tr) (pl_q p)"
proof (induction rule: pool_run.induct)
  case (pool_next tr p' e p'')
  then show ?case using pool_step_reach by (simp add: queue_events_append)
qed (auto intro: reach_spurious)

lemma pool_reach_reach: "pool_reach num tr p \<Longrightarrow> reach (queue_events tr) (pl_q p)"
  unfolding pool_reach_def by (erule pool_reach_queue) (simp add: CreateThreadPool_def reach_init)

section \<open>Who does what\<close>

text \<open>
  The main thread adds and destroys, the workers fetch; after \<open>SafeDestroy\<close> was called the main
  thread is in it, and who has been joined is gone.
\<close>

fun enqueues :: "'d pc \<Rightarrow> bool" where
  "enqueues (Enq_Start d) = True"
| "enqueues (Enq_Count d) = True"
| "enqueues (Enq_Inc d) = True"
| "enqueues (Enq_Node d) = True"
| "enqueues (Enq_Lock d a) = True"
| "enqueues (Enq_Test d a) = True"
| "enqueues (Enq_Link d a) = True"
| "enqueues Enq_Signal = True"
| "enqueues Enq_Uncount = True"
| "enqueues Enq_Dec = True"
| "enqueues _ = False"

fun dequeues :: "'d pc \<Rightarrow> bool" where
  "dequeues Deq_Start = True"
| "dequeues Deq_Count = True"
| "dequeues Deq_Inc = True"
| "dequeues Deq_Lock = True"
| "dequeues Deq_Test = True"
| "dequeues Deq_Wait = True"
| "dequeues Deq_Sleep = True"
| "dequeues Deq_Check = True"
| "dequeues Deq_Take = True"
| "dequeues (Deq_Free a d) = True"
| "dequeues (Deq_Uncount r) = True"
| "dequeues (Deq_Dec r) = True"
| "dequeues (Got r) = True"
| "dequeues _ = False"

definition place_ok :: "'d ThreadPool \<Rightarrow> nat \<Rightarrow> bool" where
  "place_ok p t \<longleftrightarrow>
     (if t = 0 then
        (if pl_main p = Serving then enqueues (sy_pc (pl_q p) 0) \<or> sy_pc (pl_q p) 0 = Idle
         else is_des (sy_pc (pl_q p) 0) \<or> sy_pc (pl_q p) 0 = Undefined)
      else if is_worker p t then
        (dequeues (sy_pc (pl_q p) t) \<and> pl_worker p t = Fetching) \<or> sy_pc (pl_q p) t = Idle \<or> sy_pc (pl_q p) t = Undefined
      else sy_pc (pl_q p) t = Idle)"

definition pool_inv :: "'d ThreadPool \<Rightarrow> bool" where
  "pool_inv p \<longleftrightarrow> (\<forall>t. place_ok p t) \<and> (pl_main p = Serving \<longrightarrow> \<not> q_destroyed (sy_q (pl_q p))) \<and>
     (pl_main p \<notin> {Serving, Destroying} \<longrightarrow> sy_pc (pl_q p) 0 = Des_Done) \<and>
     (\<forall>i. pl_main p = Joining i \<longrightarrow> (\<forall>t. 0 < t \<and> t \<le> i \<longrightarrow> pl_worker p t = Exited)) \<and>
     (pl_main p = Closed \<longrightarrow> (\<forall>t. is_worker p t \<longrightarrow> pl_worker p t = Exited))"

lemma qstep_enqueues:
  assumes "qstep t q p e q' p'" and "enqueues p" and "\<not> q_gone q" and "\<And>c. p' \<noteq> Crash c"
  shows "enqueues p' \<or> p' = Idle"
  using assms by (cases rule: qstep.cases) auto

lemma qstep_dequeues:
  assumes "qstep t q p e q' p'" and "dequeues p" and "\<And>c. p' \<noteq> Crash c"
  shows "dequeues p' \<or> p' = Undefined"
  using assms by (cases rule: qstep.cases) auto

lemma qstep_is_des_stays:
  assumes "qstep t q p e q' p'" and "is_des p" and "\<And>c. p' \<noteq> Crash c"
  shows "is_des p' \<or> p' = Undefined"
  using assms by (cases rule: qstep.cases) auto

lemma qstep_outside: "qstep t q p e q' p' \<Longrightarrow> p \<noteq> Idle \<and> p \<noteq> Undefined \<and> p \<noteq> Des_Done \<and> (\<forall>r. p \<noteq> Got r)"
  by (cases rule: qstep.cases) auto

lemma pool_inv_queue:
  assumes inv: "pool_inv p" and r: "reach tr (pl_q p)" and step: "internal (pl_q p) e s"
  shows "pool_inv (p\<lparr>pl_q := s\<rparr>)"
  using step
proof (cases rule: internal.cases)
  case (inside t q c)
  let ?f = "sy_pc (pl_q p)" and ?q = "sy_q (pl_q p)"
  have crash: "\<And>x. c \<noteq> Crash x"
    using reach_invD(7) [OF reach_internal [OF r step]] unfolding inside(1) no_crash_def
    by (metis fun_upd_same sys.select_convs(2))
  note out = qstep_outside [OF inside(2)]
  have ok: "place_ok p u" for u using inv by (simp add: pool_inv_def)
  have c0: "?f 0 \<noteq> Des_Done \<longrightarrow> \<not> q_gone ?q" using reach_invD(1) [OF r] by (auto simp: des_inv_def)
  have "place_ok (p\<lparr>pl_q := s\<rparr>) u" for u
  proof (cases "u = t")
    case True
    have "enqueues (?f t) \<Longrightarrow> t = 0 \<Longrightarrow> \<not> q_gone ?q" using c0 by auto
    then show ?thesis
      using ok [of t] out True qstep_enqueues [OF inside(2) _ _ crash] qstep_dequeues [OF inside(2) _ crash]
        qstep_is_des_stays [OF inside(2) _ crash]
      by (auto simp: place_ok_def inside(1) is_worker_def split: if_splits)
  next
    case False
    then show ?thesis using ok [of u] by (auto simp: place_ok_def inside(1) is_worker_def split: if_splits)
  qed
  moreover have "\<not> q_destroyed q" if "pl_main p = Serving"
  proof -
    have "?f t \<noteq> Des_Mark" using ok [of t] that by (auto simp: place_ok_def is_worker_def split: if_splits)
    then show ?thesis using qstep_destroyed [OF inside(2)] inv that by (simp add: pool_inv_def)
  qed
  moreover have "(?f(t := c)) 0 = Des_Done" if "pl_main p \<notin> {Serving, Destroying}"
    using inv that out by (auto simp: pool_inv_def)
  ultimately show ?thesis using inv by (simp add: pool_inv_def inside(1) is_worker_def)
qed

lemma place_ok_goto: "u \<noteq> t \<Longrightarrow> place_ok (goto p t c) u = place_ok p u"
  by (simp add: place_ok_def goto_def is_worker_def)

lemma pool_inv_worker:
  assumes inv: "pool_inv p" and step: "worker_step p e p'"
  shows "pool_inv p'"
  using step
proof (cases rule: worker_step.cases)
  case (fetch t)
  then have "place_ok p' u" for u
    using inv by (cases "u = t") (auto simp: pool_inv_def place_ok_def pool_simps)
  then show ?thesis using inv fetch by (auto simp: pool_inv_def pool_simps)
next
  case (run t d)
  have "pl_worker p t = Fetching" using inv run by (auto simp: pool_inv_def place_ok_def is_worker_def dest: spec [of _ t])
  moreover have "place_ok p' u" for u
    using inv run by (cases "u = t") (auto simp: pool_inv_def place_ok_def pool_simps)
  ultimately show ?thesis using inv run by (auto simp: pool_inv_def pool_simps)
next
  case (finish t d)
  have "place_ok p' u" for u
    using inv finish by (cases "u = t") (auto simp: pool_inv_def place_ok_def pool_simps dest: spec [of _ t])
  then show ?thesis using inv finish by (auto simp: pool_inv_def pool_simps)
next
  case (leave t)
  have "place_ok p' u" for u
    using inv leave by (cases "u = t") (auto simp: pool_inv_def place_ok_def pool_simps)
  then show ?thesis using inv leave by (auto simp: pool_inv_def pool_simps)
qed

lemma pool_inv_main:
  "pool_inv p \<Longrightarrow> AddTask p d p' \<Longrightarrow> pool_inv p'"
  "pool_inv p \<Longrightarrow> ClosePool p p' \<Longrightarrow> pool_inv p'"
proof -
  assume inv: "pool_inv p"
  show "pool_inv p'" if "AddTask p d p'"
    using that inv by (cases rule: AddTask.cases) (auto simp: pool_inv_def place_ok_def pool_simps)
  show "pool_inv p'" if "ClosePool p p'"
    using that
  proof (cases rule: ClosePool.cases)
    case destroy
    then show ?thesis using inv by (auto simp: pool_inv_def place_ok_def pool_simps)
  next
    case destroyed
    then show ?thesis using inv by (auto simp: pool_inv_def place_ok_def pool_simps)
  next
    case (join i)
    then show ?thesis using inv by (auto simp: pool_inv_def place_ok_def pool_simps le_Suc_eq)
  next
    case (closed i)
    have "place_ok p u" for u using inv by (simp add: pool_inv_def)
    then have "place_ok p' u" for u using closed by (simp add: place_ok_def is_worker_def split: if_splits)
    then show ?thesis using inv closed by (auto simp: pool_inv_def is_worker_def)
  qed
qed

lemma pool_inv_spurious: "pool_inv p \<Longrightarrow> spurious (pl_q p) s \<Longrightarrow> pool_inv (p\<lparr>pl_q := s\<rparr>)"
  by (cases rule: spurious.cases, assumption) (simp_all add: pool_inv_def place_ok_def is_worker_def)

lemma pool_inv_step:
  assumes "pool_step p e p'" and "reach tr (pl_q p)" and "pool_inv p"
  shows "pool_inv p'"
  using assms(1)
proof (cases rule: pool_step.cases)
  case (p_queue e s)
  then show ?thesis using pool_inv_queue [OF assms(3,2)] by simp
next
  case p_worker
  then show ?thesis using pool_inv_worker [OF assms(3)] by simp
next
  case (p_add d)
  then show ?thesis using pool_inv_main(1) [OF assms(3)] by simp
next
  case p_close
  then show ?thesis using pool_inv_main(2) [OF assms(3)] by simp
qed

lemma pool_inv_run: "pool_run b p tr p' \<Longrightarrow> reach [] (pl_q p) \<Longrightarrow> pool_inv p \<Longrightarrow> pool_inv p'"
proof (induction rule: pool_run.induct)
  case (pool_next tr p' e p'')
  then show ?case using pool_inv_step [OF pool_next(2) pool_reach_queue [OF pool_next(1)]] by simp
qed (simp_all add: pool_inv_spurious)

lemma pool_inv_init: "pool_inv (CreateThreadPool num)"
  by (simp add: pool_inv_def place_ok_def CreateThreadPool_def sys0_def NewSafeQueue_def)

lemma pool_reach_inv: "pool_reach num tr p \<Longrightarrow> pool_inv p"
  unfolding pool_reach_def
  by (erule pool_inv_run) (simp_all add: pool_inv_init, simp add: CreateThreadPool_def reach_init)

lemma pool_num: "pool_run b p tr p' \<Longrightarrow> pl_num p' = pl_num p"
proof (induction rule: pool_run.induct)
  case (pool_next tr p' e p'')
  from pool_next(2) have "pl_num p'' = pl_num p'"
    by (cases rule: pool_step.cases)
      (auto elim!: worker_step.cases AddTask.cases ClosePool.cases simp: goto_def)
  then show ?case using pool_next.IH by simp
qed auto

section \<open>Where the tasks are\<close>

text \<open>The task that a thread has in hand: before it is linked, or after it was taken and before it runs.\<close>

fun in_hand :: "'d pc \<Rightarrow> 'd multiset" where
  "in_hand (Enq_Start d) = {#d#}"
| "in_hand (Enq_Count d) = {#d#}"
| "in_hand (Enq_Inc d) = {#d#}"
| "in_hand (Enq_Node d) = {#d#}"
| "in_hand (Enq_Lock d a) = {#d#}"
| "in_hand (Enq_Test d a) = {#d#}"
| "in_hand (Enq_Link d a) = {#d#}"
| "in_hand (Deq_Free a d) = {#d#}"
| "in_hand (Deq_Uncount r) = (case r of None \<Rightarrow> {#} | Some d \<Rightarrow> {#d#})"
| "in_hand (Deq_Dec r) = (case r of None \<Rightarrow> {#} | Some d \<Rightarrow> {#d#})"
| "in_hand (Got r) = (case r of None \<Rightarrow> {#} | Some d \<Rightarrow> {#d#})"
| "in_hand _ = {#}"

fun linked :: "'d event list \<Rightarrow> 'd multiset" where
  "linked [] = {#}"
| "linked (Enqueued d # es) = add_mset d (linked es)"
| "linked (e # es) = linked es"

fun taken :: "'d event list \<Rightarrow> 'd multiset" where
  "taken [] = {#}"
| "taken (Dequeued d # es) = add_mset d (taken es)"
| "taken (e # es) = taken es"

fun added :: "'d pool_event list \<Rightarrow> 'd multiset" where
  "added [] = {#}"
| "added (Added d # es) = add_mset d (added es)"
| "added (e # es) = added es"

fun started :: "'d pool_event list \<Rightarrow> 'd multiset" where
  "started [] = {#}"
| "started (Started d # es) = add_mset d (started es)"
| "started (e # es) = started es"

definition hand :: "'d ThreadPool \<Rightarrow> 'd multiset" where
  "hand p = (\<Sum>t \<le> pl_num p. in_hand (sy_pc (pl_q p) t))"

lemma event_counts_append:
  "linked (es @ fs) = linked es + linked fs" "taken (es @ fs) = taken es + taken fs"
  "added (gs @ hs) = added gs + added hs" "started (gs @ hs) = started gs + started hs"
proof -
  show "linked (es @ fs) = linked es + linked fs" by (induction es rule: linked.induct) auto
  show "taken (es @ fs) = taken es + taken fs" by (induction es rule: taken.induct) auto
  show "added (gs @ hs) = added gs + added hs" by (induction gs rule: added.induct) auto
  show "started (gs @ hs) = started gs + started hs" by (induction gs rule: started.induct) auto
qed

lemma fifo_mset: "fifo_run xs tr = Some ds \<Longrightarrow> mset xs + linked tr = taken tr + mset ds"
  by (induction xs tr rule: fifo_run.induct) (auto split: list.splits if_splits simp: ac_simps)

lemma qstep_hand:
  assumes "qstep t q p e q' p'" and "enqueues p \<Longrightarrow> \<not> q_destroyed q" and "p' \<noteq> Undefined" and "\<And>c. p' \<noteq> Crash c"
  shows "in_hand p' + linked [e] = in_hand p + taken [e]"
  using assms by (cases rule: qstep.cases) (auto split: option.splits)

lemma hand_moved:
  fixes f :: "nat \<Rightarrow> 'd pc"
  assumes "t \<le> n"
  shows "(\<Sum>u \<le> n. in_hand ((f(t := c)) u)) + in_hand (f t) = (\<Sum>u \<le> n. in_hand (f u)) + in_hand c"
proof -
  have eq: "(\<lambda>u. in_hand ((f(t := c)) u)) = (\<lambda>u. in_hand (f u))(t := in_hand c)" by auto
  show ?thesis unfolding eq using sum_update [OF assms, of "\<lambda>u. in_hand (f u)" "in_hand c"] by (simp only:)
qed

definition balanced :: "'d pool_event list \<Rightarrow> 'd ThreadPool \<Rightarrow> bool" where
  "balanced tr p \<longleftrightarrow> (\<forall>t. sy_pc (pl_q p) t \<noteq> Undefined) \<longrightarrow>
     added tr + taken (queue_events tr) = started tr + linked (queue_events tr) + hand p"

lemma balanced_queue:
  assumes bal: "balanced tr p" and inv: "pool_inv p" and r: "reach qtr (pl_q p)" and step: "internal (pl_q p) e s"
  shows "balanced (tr @ [Queue_Event e]) (p\<lparr>pl_q := s\<rparr>)"
  using step
proof (cases rule: internal.cases)
  case (inside t q c)
  let ?f = "sy_pc (pl_q p)"
  have crash: "\<And>x. c \<noteq> Crash x"
    using reach_invD(7) [OF reach_internal [OF r step]] unfolding inside(1) no_crash_def
    by (metis fun_upd_same sys.select_convs(2))
  have ok: "place_ok p t" "pl_main p = Serving \<Longrightarrow> \<not> q_destroyed (sy_q (pl_q p))" using inv by (simp_all add: pool_inv_def)
  have t: "t \<le> pl_num p" and d: "enqueues (?f t) \<Longrightarrow> \<not> q_destroyed (sy_q (pl_q p))"
    using ok qstep_outside [OF inside(2)] by (auto simp: place_ok_def is_worker_def split: if_splits elim: enqueues.elims)
  show ?thesis
    unfolding balanced_def
  proof
    assume u: "\<forall>u. sy_pc (pl_q (p\<lparr>pl_q := s\<rparr>)) u \<noteq> Undefined"
    then have c: "c \<noteq> Undefined" unfolding inside(1) by (auto dest: spec [of _ t])
    have "?f u \<noteq> Undefined" for u
      using u spec [OF u, of u] qstep_outside [OF inside(2)] unfolding inside(1) by (cases "u = t") auto
    then have b: "added tr + taken (queue_events tr) = started tr + linked (queue_events tr) + hand p"
      using bal by (simp add: balanced_def)
    have "hand (p\<lparr>pl_q := s\<rparr>) + in_hand (?f t) = hand p + in_hand c"
      using hand_moved [OF t, of ?f c] by (simp add: hand_def inside(1))
    with qstep_hand [OF inside(2) d c crash] b
    have "added tr + (taken (queue_events tr) + taken [e]) + in_hand (?f t) =
        started tr + (linked (queue_events tr) + linked [e]) + hand (p\<lparr>pl_q := s\<rparr>) + in_hand (?f t)"
      by (metis (no_types, lifting) add.assoc add.commute add.left_commute)
    then show "added (tr @ [Queue_Event e]) + taken (queue_events (tr @ [Queue_Event e])) =
        started (tr @ [Queue_Event e]) + linked (queue_events (tr @ [Queue_Event e])) + hand (p\<lparr>pl_q := s\<rparr>)"
      by (simp add: event_counts_append queue_events_append)
  qed
qed

lemma balanced_other:
  assumes bal: "balanced tr p" and pc: "sy_pc (pl_q p') = (sy_pc (pl_q p))(t := c)" and num: "pl_num p' = pl_num p"
    and t: "t \<le> pl_num p" and pcs: "sy_pc (pl_q p) t \<noteq> Undefined"
    and ev: "queue_events [e] = []" "added [e] + in_hand (sy_pc (pl_q p) t) = started [e] + in_hand c"
  shows "balanced (tr @ [e]) p'"
  unfolding balanced_def
proof
  let ?f = "sy_pc (pl_q p)"
  assume u: "\<forall>u. sy_pc (pl_q p') u \<noteq> Undefined"
  have "?f u \<noteq> Undefined" for u using spec [OF u, of u] pcs pc by (cases "u = t") auto
  then have "added tr + taken (queue_events tr) = started tr + linked (queue_events tr) + hand p"
    using bal by (simp add: balanced_def)
  moreover have "hand p' + in_hand (?f t) = hand p + in_hand c"
    using hand_moved [OF t, of ?f c] pc num by (simp add: hand_def)
  ultimately have "added tr + added [e] + taken (queue_events tr) + in_hand (?f t) =
      started tr + started [e] + linked (queue_events tr) + hand p' + in_hand (?f t)"
    using ev(2) by (metis (no_types, lifting) add.assoc add.commute add.left_commute)
  then show "added (tr @ [e]) + taken (queue_events (tr @ [e])) =
      started (tr @ [e]) + linked (queue_events (tr @ [e])) + hand p'"
    using ev(1) by (simp add: event_counts_append queue_events_append)
qed

lemma balanced_step:
  assumes bal: "balanced tr p" and inv: "pool_inv p" and r: "reach qtr (pl_q p)" and step: "pool_step p e p'"
  shows "balanced (tr @ [e]) p'"
  using step
proof (cases rule: pool_step.cases)
  case (p_queue qe s)
  then show ?thesis using balanced_queue [OF bal inv r] by simp
next
  case p_worker
  from p_worker show ?thesis
  proof (cases rule: worker_step.cases)
    case (fetch t)
    then show ?thesis by (intro balanced_other [OF bal, where t = t and c = Deq_Start]) (auto simp: pool_simps)
  next
    case (run t d)
    then show ?thesis by (intro balanced_other [OF bal, where t = t and c = Idle]) (auto simp: pool_simps)
  next
    case (finish t d)
    then show ?thesis using bal by (simp add: balanced_def hand_def event_counts_append queue_events_append)
  next
    case (leave t)
    then show ?thesis by (intro balanced_other [OF bal, where t = t and c = Idle]) (auto simp: pool_simps)
  qed
next
  case (p_add d)
  from p_add(2) show ?thesis
    by (cases rule: AddTask.cases)
      (use p_add(1) in \<open>intro balanced_other [OF bal, where t = 0 and c = "Enq_Start d"], auto simp: pool_simps\<close>)
next
  case p_close
  from p_close(2) show ?thesis
  proof (cases rule: ClosePool.cases)
    case destroy
    then show ?thesis using p_close(1)
      by (intro balanced_other [OF bal, where t = 0 and c = Des_Mark]) (auto simp: pool_simps)
  qed (use bal p_close(1) in \<open>simp_all add: balanced_def hand_def event_counts_append queue_events_append\<close>)
qed

lemma balanced_run: "pool_run b p tr p' \<Longrightarrow> reach [] (pl_q p) \<Longrightarrow> pool_inv p \<Longrightarrow> balanced [] p \<Longrightarrow> balanced tr p'"
proof (induction rule: pool_run.induct)
  case (pool_next tr p' e p'')
  then show ?case
    using balanced_step [OF _ pool_inv_run [OF pool_next(1)] pool_reach_queue [OF pool_next(1)] pool_next(2)] by simp
next
  case (pool_spurious tr p' s)
  then show ?case using spurious_pc [OF pool_spurious(3)] by (simp add: balanced_def hand_def)
qed

lemma pool_reach_balanced: "pool_reach num tr p \<Longrightarrow> balanced tr p"
  unfolding pool_reach_def
proof (erule balanced_run)
  show "reach [] (pl_q (CreateThreadPool num))" by (simp add: CreateThreadPool_def reach_init)
  show "balanced [] (CreateThreadPool num)" by (simp add: CreateThreadPool_def balanced_def hand_def sys0_def)
qed (rule pool_inv_init)

text \<open>Balance and history together.\<close>

lemma tasks_conserved:
  assumes "pool_reach num tr p" and "\<forall>t. sy_pc (pl_q p) t \<noteq> Undefined"
  shows "\<exists>ds. fifo_run [] (queue_events tr) = Some ds \<and> added tr = started tr + mset ds + hand p \<and>
     started tr \<subseteq># added tr"
proof -
  obtain xs :: "(nat \<times> 'a) list" where xs: "fifo_run [] (queue_events tr) = Some (map snd xs)"
    using reach_invD(6) [OF pool_reach_reach [OF assms(1)]] unfolding list_inv_def by blast
  have "added tr + taken (queue_events tr) = started tr + linked (queue_events tr) + hand p"
    using pool_reach_balanced [OF assms(1)] assms(2) by (simp add: balanced_def)
  moreover have "linked (queue_events tr) = taken (queue_events tr) + mset (map snd xs)"
    using fifo_mset [OF xs] by simp
  ultimately have "added tr + taken (queue_events tr) = (started tr + mset (map snd xs) + hand p) + taken (queue_events tr)"
    by (simp add: ac_simps)
  then have "added tr = started tr + mset (map snd xs) + hand p" by simp
  then show ?thesis using xs by (metis add.assoc mset_subset_eq_add_left)
qed

section \<open>Schedules\<close>

datatype 'd pool_action = P_Step nat | P_Fetch nat | P_Run nat | P_Finish nat | P_Leave nat | P_Add 'd | P_Close

fun pool_act :: "'d ThreadPool \<Rightarrow> 'd pool_action \<Rightarrow> ('d pool_event \<times> 'd ThreadPool) option" where
  "pool_act p (P_Step t) =
     (case pc_step t (sy_q (pl_q p)) (sy_pc (pl_q p) t) of None \<Rightarrow> None
      | Some (q, c, e) \<Rightarrow> Some (Queue_Event e, p\<lparr>pl_q := \<lparr>sy_q = q, sy_pc = (sy_pc (pl_q p))(t := c)\<rparr>\<rparr>))"
| "pool_act p (P_Fetch t) =
     (if is_worker p t \<and> pl_worker p t = Fetching \<and> sy_pc (pl_q p) t = Idle then Some (Silent, goto p t Deq_Start) else None)"
| "pool_act p (P_Run t) =
     (case sy_pc (pl_q p) t of
        Got (Some d) \<Rightarrow>
          if is_worker p t then Some (Started d, (goto p t Idle)\<lparr>pl_worker := (pl_worker p)(t := Running d)\<rparr>) else None
      | _ \<Rightarrow> None)"
| "pool_act p (P_Finish t) =
     (case pl_worker p t of
        Running d \<Rightarrow> if is_worker p t then Some (Silent, p\<lparr>pl_worker := (pl_worker p)(t := Fetching)\<rparr>) else None
      | _ \<Rightarrow> None)"
| "pool_act p (P_Leave t) =
     (case sy_pc (pl_q p) t of
        Got None \<Rightarrow>
          if is_worker p t then Some (Silent, (goto p t Idle)\<lparr>pl_worker := (pl_worker p)(t := Exited)\<rparr>) else None
      | _ \<Rightarrow> None)"
| "pool_act p (P_Add d) =
     (if pl_main p = Serving \<and> sy_pc (pl_q p) 0 = Idle then Some (Added d, goto p 0 (Enq_Start d)) else None)"
| "pool_act p P_Close =
     (case pl_main p of
        Serving \<Rightarrow>
          if sy_pc (pl_q p) 0 = Idle then Some (Silent, (goto p 0 Des_Mark)\<lparr>pl_main := Destroying\<rparr>) else None
      | Destroying \<Rightarrow> if sy_pc (pl_q p) 0 = Des_Done then Some (Silent, p\<lparr>pl_main := Joining 0\<rparr>) else None
      | Joining i \<Rightarrow>
          if i < pl_num p
          then if pl_worker p (Suc i) = Exited then Some (Silent, p\<lparr>pl_main := Joining (Suc i)\<rparr>) else None
          else Some (Silent, p\<lparr>pl_main := Closed\<rparr>)
      | Closed \<Rightarrow> None)"

fun pool_acts :: "'d pool_event list \<times> 'd ThreadPool \<Rightarrow> 'd pool_action list \<Rightarrow> ('d pool_event list \<times> 'd ThreadPool) option" where
  "pool_acts (tr, p) [] = Some (tr, p)"
| "pool_acts (tr, p) (a # as) =
     (case pool_act p a of None \<Rightarrow> None | Some (e, p') \<Rightarrow> pool_acts (tr @ [e], p') as)"

lemma pool_act_step: "pool_act p a = Some (e, p') \<Longrightarrow> pool_step p e p'"
  by (cases a)
    (auto split: option.splits prod.splits if_splits pc.splits worker.splits main.splits
      intro: pool_step.intros worker_step.intros AddTask.intros ClosePool.intros internal.inside pc_step_sound)

lemma pool_acts_reach: "pool_acts (tr, p) as = Some (tr', p') \<Longrightarrow> pool_reach num tr p \<Longrightarrow> pool_reach num tr' p'"
proof (induction as arbitrary: tr p)
  case (Cons a as)
  then show ?case
    by (auto split: option.splits prod.splits dest!: pool_act_step simp: pool_reach_def intro: pool_next)
qed simp

lemma pool_schedule: "pool_acts ([], CreateThreadPool num) as = Some (tr, p) \<Longrightarrow> pool_reach num tr p"
  by (erule pool_acts_reach) (simp add: pool_reach_def pool_start)


section \<open>Properties\<close>

text \<open>
  C30. The pool neither loses nor repeats a task: in every state of a run in which no thread has used a
  destroyed mutex, each task that was added (counted with repetitions) has either been started once, or
  waits in the queue, or is in the hands of the thread that adds it or has fetched it.
\<close>
theorem pool_conserves_tasks:
  assumes "pool_reach num tr p" and "\<forall>t. sy_pc (pl_q p) t \<noteq> Undefined"
  shows "\<exists>ds. fifo_run [] (queue_events tr) = Some ds \<and> added tr = started tr + mset ds + hand p \<and>
     started tr \<subseteq># added tr"
  by (rule tasks_conserved [OF assms])

text \<open>A pool with one worker, two tasks, the first of which runs.\<close>

definition two_tasks :: "nat pool_action list" where
  "two_tasks = P_Add 7 # replicate 10 (P_Step 0) @ P_Add 8 # replicate 10 (P_Step 0) @
     P_Fetch 1 # replicate 10 (P_Step 1) @ [P_Run 1]"

lemmas pool_run_simps = CreateThreadPool_def sys0_def NewSafeQueue_def new_node_def link_node_def take_node_def
  free_node_def Let_def pool_simps

lemma two_tasks_run: "\<exists>tr p. pool_acts ([], CreateThreadPool 1) two_tasks = Some (tr, p) \<and>
    (\<forall>t. sy_pc (pl_q p) t \<noteq> Undefined) \<and> pl_worker p 1 = Running 7 \<and> started tr = {#7#} \<and> added tr = {#7, 8#} \<and>
    hand p = {#} \<and> pl_main p = Serving \<and> (\<forall>t. sy_pc (pl_q p) t = Idle)"
  by (simp add: pool_run_simps two_tasks_def numeral_eq_Suc hand_def)

theorem pool_conserves_tasks_witness:
  "\<exists>tr p ds. pool_reach 1 tr (p :: nat ThreadPool) \<and> started tr = {#7#} \<and> fifo_run [] (queue_events tr) = Some ds \<and> mset ds = {#8#}"
proof -
  obtain tr p where p: "pool_acts ([], CreateThreadPool 1) two_tasks = Some (tr, p)"
      "\<forall>t. sy_pc (pl_q p) t \<noteq> Undefined" "started tr = {#7#}" "added tr = {#7, 8#}" "hand p = {#}"
    using two_tasks_run by blast
  obtain ds where ds: "fifo_run [] (queue_events tr) = Some ds" "added tr = started tr + mset ds + hand p"
    using pool_conserves_tasks [OF pool_schedule [OF p(1)] p(2)] by blast
  then have "mset ds = {#8#}" using p by simp
  then show ?thesis using ds(1) p(3) pool_schedule [OF p(1)] by blast
qed

text \<open>
  C31. When \<open>ClosePool\<close> has returned, the queue it frees is out of use: every worker has left its loop
  and no thread is inside an operation of the queue or will ever enter one.
\<close>
theorem closed_pool_is_quiet:
  assumes "pool_reach num tr p" and "pl_main p = Closed" and "\<forall>t. sy_pc (pl_q p) t \<noteq> Undefined"
  shows "(\<forall>t. is_worker p t \<longrightarrow> pl_worker p t = Exited) \<and> sy_pc (pl_q p) 0 = Des_Done \<and>
     (\<forall>t. t \<noteq> 0 \<longrightarrow> sy_pc (pl_q p) t = Idle) \<and> (\<forall>e p'. \<not> pool_step p e p')"
proof -
  note inv = pool_reach_inv [OF assms(1), unfolded pool_inv_def]
  have ex: "\<forall>t. is_worker p t \<longrightarrow> pl_worker p t = Exited" and d: "sy_pc (pl_q p) 0 = Des_Done"
    using inv assms(2) by auto
  have idle: "sy_pc (pl_q p) t = Idle" if "t \<noteq> 0" for t
  proof -
    have "place_ok p t" using inv by blast
    then show ?thesis using that ex assms(3) by (auto simp: place_ok_def split: if_splits)
  qed
  have "\<not> internal (pl_q p) e s" for e s
    using d idle qstep_outside by (metis internal.cases)
  then have "\<not> pool_step p e p'" for e p'
    using ex d idle assms(2)
    by (auto elim!: pool_step.cases worker_step.cases AddTask.cases ClosePool.cases simp: is_worker_def)
  then show ?thesis using ex d idle by blast
qed

definition close_all :: "nat pool_action list" where
  "close_all = two_tasks @ [P_Finish 1, P_Close, P_Step 0, P_Fetch 1, P_Step 1, P_Leave 1] @
     replicate 5 (P_Step 0) @ replicate 3 P_Close"

lemma close_all_run: "\<exists>tr p. pool_acts ([], CreateThreadPool 1) close_all = Some (tr, p) \<and> pl_main p = Closed \<and>
    started tr = {#7#} \<and> added tr = {#7, 8#} \<and> (\<forall>t. sy_pc (pl_q p) t \<noteq> Undefined)"
  by (simp add: pool_run_simps two_tasks_def close_all_def numeral_eq_Suc free_nodes.simps)

theorem closed_pool_is_quiet_witness:
  "\<exists>tr p. pool_reach 1 tr (p :: nat ThreadPool) \<and> pl_main p = Closed \<and> pl_worker p 1 = Exited"
proof -
  obtain tr p where p: "pool_acts ([], CreateThreadPool 1) close_all = Some (tr, p)" "pl_main p = Closed"
      "\<forall>t. sy_pc (pl_q p) t \<noteq> Undefined"
    using close_all_run by blast
  have "pl_num p = 1" using pool_num [of True "CreateThreadPool 1" tr p] pool_schedule [OF p(1)]
    by (simp add: pool_reach_def CreateThreadPool_def)
  then show ?thesis
    using closed_pool_is_quiet [OF pool_schedule [OF p(1)] p(2,3)] p(2) pool_schedule [OF p(1)]
    by (auto simp: is_worker_def)
qed

text \<open>
  \<open>ClosePool\<close> can wait for ever: when a worker has found the queue empty and \<open>SafeDestroy\<close> sets and
  broadcasts \<open>destroyed\<close> before the worker is asleep, the pool is never closed, whatever its threads do,
  unless the system wakes a thread without a signal.
\<close>
theorem close_pool_hangs:
  assumes "pool_reach num tr p" and "lost_wakeup t (pl_q p)" and "pl_main p = Destroying"
    and "pool_run False p tr' p'"
  shows "pl_main p' = Destroying \<and> sy_pc (pl_q p') t = Deq_Sleep"
proof -
  have "(\<exists>qtr. reach qtr (pl_q p')) \<and> lost_wakeup t (pl_q p') \<and> pl_main p' = Destroying"
    using assms(4)
  proof (induction rule: pool_run.induct)
    case pool_start
    show ?case using pool_reach_reach [OF assms(1)] assms(2,3) by blast
  next
    case (pool_next tr' p' e p'')
    then obtain qtr where r: "reach qtr (pl_q p')" and l: "lost_wakeup t (pl_q p')" and m: "pl_main p' = Destroying"
      by blast
    have "sy_pc (pl_q p') 0 \<noteq> Des_Done" using l by (auto simp: lost_wakeup_def)
    then have "pl_main p'' = Destroying"
      using pool_next(2) m by (auto elim!: pool_step.cases worker_step.cases AddTask.cases ClosePool.cases simp: goto_def)
    moreover have "lost_wakeup t (pl_q p'')"
      using pool_step_queue [OF pool_next(2)] lost_internal [OF r l] lost_client [OF _ l] l by auto
    ultimately show ?case using pool_step_reach [OF pool_next(2) r] by blast
  qed simp
  then show ?thesis by (simp add: lost_wakeup_def)
qed

lemma hang_run: "\<exists>tr p. pool_acts ([], CreateThreadPool 1) (P_Fetch 1 # replicate 5 (P_Step 1) @ P_Close # replicate 4 (P_Step 0) @
      [P_Step 1 :: nat pool_action]) = Some (tr, p) \<and> pl_main p = Destroying \<and> q_destroyed (sy_q (pl_q p)) \<and>
    sy_pc (pl_q p) 1 = Deq_Sleep \<and> 1 \<in> q_ready (sy_q (pl_q p)) \<and> sy_pc (pl_q p) 0 = Des_Sleep \<and>
    (\<forall>t. t \<noteq> 0 \<longrightarrow> sy_pc (pl_q p) t \<in> {Idle, Deq_Sleep})"
  by (simp add: pool_run_simps numeral_eq_Suc)

theorem close_pool_hangs_witness:
  "\<exists>tr p. pool_reach 1 tr (p :: nat ThreadPool) \<and> (\<forall>tr' p'. pool_run False p tr' p' \<longrightarrow> pl_main p' = Destroying)"
proof -
  obtain tr p where p: "pool_acts ([], CreateThreadPool 1) (P_Fetch 1 # replicate 5 (P_Step 1) @ P_Close # replicate 4 (P_Step 0) @
      [P_Step 1 :: nat pool_action]) = Some (tr, p)" "pl_main p = Destroying" "q_destroyed (sy_q (pl_q p))"
      "sy_pc (pl_q p) 1 = Deq_Sleep" "1 \<in> q_ready (sy_q (pl_q p))" "sy_pc (pl_q p) 0 = Des_Sleep"
      "\<forall>t. t \<noteq> 0 \<longrightarrow> sy_pc (pl_q p) t \<in> {Idle, Deq_Sleep}"
    using hang_run by blast
  have "sy_pc (pl_q p) u \<in> {Idle, Deq_Sleep, Des_Sleep}" for u using p(6,7) by (cases "u = 0") auto
  then have "sy_pc (pl_q p) u \<noteq> Enq_Link d a \<and> sy_pc (pl_q p) u \<noteq> Enq_Signal" for u d a
    by (metis insertE empty_iff pc.distinct)
  then have "lost_wakeup 1 (pl_q p)" using p by (simp add: lost_wakeup_def)
  from close_pool_hangs [OF pool_schedule [OF p(1)] this p(2)] pool_schedule [OF p(1)] show ?thesis by blast
qed

text \<open>
  \<open>ClosePool\<close> can destroy a mutex under a worker: a worker that asks for its next task passes the
  test of \<open>destroyed\<close>, and before it counts as a user \<open>SafeDestroy\<close> returns; the worker then locks a
  destroyed mutex.
\<close>
theorem close_pool_race:
  "\<exists>tr p. pool_reach 1 tr (p :: nat ThreadPool) \<and> pl_main p = Destroying \<and> sy_pc (pl_q p) 0 = Des_Done \<and>
     sy_pc (pl_q p) 1 = Undefined"
proof -
  have "\<exists>tr p. pool_acts ([], CreateThreadPool 1) (P_Fetch 1 # P_Step 1 # P_Close # replicate 6 (P_Step 0) @
      [P_Step 1 :: nat pool_action]) = Some (tr, p) \<and> pl_main p = Destroying \<and> sy_pc (pl_q p) 0 = Des_Done \<and>
      sy_pc (pl_q p) 1 = Undefined"
    by (simp add: pool_run_simps numeral_eq_Suc free_nodes.simps)
  then show ?thesis using pool_schedule by blast
qed

end
