(* ===== verification/Pool_Order.thy ===== *)
theory Pool_Order
  imports Thread_Pool
begin

text \<open>
  The order in which the pool runs its tasks: they are fetched in the order of \<open>AddTask\<close>, and a
  single worker also runs them in that order, one at a time.
\<close>

section \<open>Histories as lists\<close>

fun links :: "'d event list \<Rightarrow> 'd list" where
  "links [] = []"
| "links (Enqueued d # es) = d # links es"
| "links (e # es) = links es"

fun takes :: "'d event list \<Rightarrow> 'd list" where
  "takes [] = []"
| "takes (Dequeued d # es) = d # takes es"
| "takes (e # es) = takes es"

fun adds :: "'d pool_event list \<Rightarrow> 'd list" where
  "adds [] = []"
| "adds (Added d # es) = d # adds es"
| "adds (e # es) = adds es"

fun starts :: "'d pool_event list \<Rightarrow> 'd list" where
  "starts [] = []"
| "starts (Started d # es) = d # starts es"
| "starts (e # es) = starts es"

lemma histories_append:
  "links (es @ fs) = links es @ links fs" "takes (es @ fs) = takes es @ takes fs"
  "adds (gs @ hs) = adds gs @ adds hs" "starts (gs @ hs) = starts gs @ starts hs"
proof -
  show "links (es @ fs) = links es @ links fs" by (induction es rule: links.induct) auto
  show "takes (es @ fs) = takes es @ takes fs" by (induction es rule: takes.induct) auto
  show "adds (gs @ hs) = adds gs @ adds hs" by (induction gs rule: adds.induct) auto
  show "starts (gs @ hs) = starts gs @ starts hs" by (induction gs rule: starts.induct) auto
qed

lemma histories_mset: "mset (adds es) = added es" "mset (starts es) = started es"
proof -
  show "mset (adds es) = added es" by (induction es rule: adds.induct) auto
  show "mset (starts es) = started es" by (induction es rule: starts.induct) auto
qed

section \<open>The queue as the pool sees it\<close>

text \<open>
  The contract: the history of the queue is one of a first-in first-out list, and no thread crashes
  in it. What the pool says of the order of its tasks rests on nothing else of the queue's reachable
  states.
\<close>

locale fifo_service =
  fixes reached :: "'d event list \<Rightarrow> 'd sys \<Rightarrow> bool"
  assumes history: "reached tr s \<Longrightarrow> fifo_run [] tr \<noteq> None"
    and no_fault: "reached tr s \<Longrightarrow> sy_pc s t \<noteq> Crash x"
    and owner_last: "reached tr s \<Longrightarrow> q_gone (sy_q s) \<Longrightarrow> sy_pc s 0 = Des_Done"
begin

lemma run_links: "fifo_run xs tr = Some ds \<Longrightarrow> xs @ links tr = takes tr @ ds"
  by (induction xs tr rule: fifo_run.induct) (auto split: list.splits if_splits)

lemma taken_in_order: "reached tr s \<Longrightarrow> \<exists>ds. fifo_run [] tr = Some ds \<and> links tr = takes tr @ ds"
  using history run_links by fastforce

end

interpretation sq: fifo_service reach
proof
  fix tr :: "'a event list" and s t x
  assume r: "reach tr s"
  show "fifo_run [] tr \<noteq> None" using reach_invD(6) [OF r] by (auto simp: list_inv_def)
  show "sy_pc s t \<noteq> Crash x" using reach_invD(7) [OF r] by (simp add: no_crash_def)
  show "q_gone (sy_q s) \<Longrightarrow> sy_pc s 0 = Des_Done" using reach_invD(1) [OF r] by (simp add: des_inv_def)
qed

section \<open>Tasks in hand\<close>

fun to_link :: "'d pc \<Rightarrow> 'd list" where
  "to_link (Enq_Start d) = [d]"
| "to_link (Enq_Count d) = [d]"
| "to_link (Enq_Inc d) = [d]"
| "to_link (Enq_Node d) = [d]"
| "to_link (Enq_Lock d a) = [d]"
| "to_link (Enq_Test d a) = [d]"
| "to_link (Enq_Link d a) = [d]"
| "to_link _ = []"

fun to_run :: "'d pc \<Rightarrow> 'd list" where
  "to_run (Deq_Free a d) = [d]"
| "to_run (Deq_Uncount r) = (case r of None \<Rightarrow> [] | Some d \<Rightarrow> [d])"
| "to_run (Deq_Dec r) = (case r of None \<Rightarrow> [] | Some d \<Rightarrow> [d])"
| "to_run (Got r) = (case r of None \<Rightarrow> [] | Some d \<Rightarrow> [d])"
| "to_run _ = []"

text \<open>A step of the queue moves the first task of a hand, or none.\<close>

lemma qstep_enqueue_order:
  assumes "qstep t q p e q' p'" and "enqueues p" and "\<not> q_destroyed q" and "p' \<noteq> Undefined" and "\<And>c. p' \<noteq> Crash c"
  shows "links [e] @ to_link p' = to_link p \<and> takes [e] = []"
  using assms by (cases rule: qstep.cases) auto

lemma qstep_dequeue_order:
  assumes "qstep t q p e q' p'" and "dequeues p" and "p' \<noteq> Undefined" and "\<And>c. p' \<noteq> Crash c"
  shows "to_run p' = to_run p @ takes [e] \<and> links [e] = []"
  using assms by (cases rule: qstep.cases) auto

lemma qstep_destroy_order:
  assumes "qstep t q p e q' p'" and "is_des p" and "p' \<noteq> Undefined" and "\<And>c. p' \<noteq> Crash c"
  shows "links [e] = [] \<and> takes [e] = [] \<and> to_link p' = [] \<and> to_link p = []"
  using assms by (cases rule: qstep.cases) auto

text \<open>
  What was added has been linked or is in the hand of the main thread; what a single worker has
  taken it has started or is about to start.
\<close>

definition in_order :: "'d pool_event list \<Rightarrow> 'd ThreadPool \<Rightarrow> bool" where
  "in_order tr p \<longleftrightarrow> (\<forall>t. sy_pc (pl_q p) t \<noteq> Undefined) \<longrightarrow>
     adds tr = links (queue_events tr) @ to_link (sy_pc (pl_q p) 0) \<and>
     (pl_num p = 1 \<longrightarrow> takes (queue_events tr) = starts tr @ to_run (sy_pc (pl_q p) 1))"


lemma only_worker: "is_worker p t \<Longrightarrow> 0 < t \<and> (pl_num p = Suc 0 \<longrightarrow> t = Suc 0)"
  by (auto simp: is_worker_def)

lemma in_order_queue:
  assumes ord: "in_order tr p" and inv: "pool_inv p" and r: "reach qtr (pl_q p)" and step: "internal (pl_q p) e s"
  shows "in_order (tr @ [Queue_Event e]) (p\<lparr>pl_q := s\<rparr>)"
  using step
proof (cases rule: internal.cases)
  case (inside t q c)
  let ?f = "sy_pc (pl_q p)"
  have crash: "\<And>x. c \<noteq> Crash x"
    using sq.no_fault [OF reach_internal [OF r step], of t] by (simp add: inside(1))
  have ok: "place_ok p t" "pl_main p = Serving \<Longrightarrow> \<not> q_destroyed (sy_q (pl_q p))" using inv by (simp_all add: pool_inv_def)
  note out = qstep_outside [OF inside(2)]
  show ?thesis
    unfolding in_order_def
  proof
    assume u: "\<forall>u. sy_pc (pl_q (p\<lparr>pl_q := s\<rparr>)) u \<noteq> Undefined"
    then have c: "c \<noteq> Undefined" unfolding inside(1) by (auto dest: spec [of _ t])
    have "?f u \<noteq> Undefined" for u
      using u spec [OF u, of u] out unfolding inside(1) by (cases "u = t") auto
    then have b: "adds tr = links (queue_events tr) @ to_link (?f 0)"
        "pl_num p = 1 \<Longrightarrow> takes (queue_events tr) = starts tr @ to_run (?f 1)"
      using ord by (simp_all add: in_order_def)
    consider "t = 0" "enqueues (?f 0)" "\<not> q_destroyed (sy_q (pl_q p))" | "t = 0" "is_des (?f 0)"
      | "is_worker p t" "dequeues (?f t)"
      using ok out by (auto simp: place_ok_def split: if_splits)
    then show "adds (tr @ [Queue_Event e]) = links (queue_events (tr @ [Queue_Event e])) @ to_link (sy_pc (pl_q (p\<lparr>pl_q := s\<rparr>)) 0) \<and>
        (pl_num (p\<lparr>pl_q := s\<rparr>) = 1 \<longrightarrow> takes (queue_events (tr @ [Queue_Event e])) =
           starts (tr @ [Queue_Event e]) @ to_run (sy_pc (pl_q (p\<lparr>pl_q := s\<rparr>)) 1))"
    proof cases
      case 1
      then show ?thesis using b qstep_enqueue_order [OF inside(2) _ _ c crash]
        by (simp add: inside(1) histories_append queue_events_append)
    next
      case 2
      then show ?thesis using b qstep_destroy_order [OF inside(2) _ c crash]
        by (simp add: inside(1) histories_append queue_events_append)
    next
      case 3
      then show ?thesis using b qstep_dequeue_order [OF inside(2) 3(2) c crash]
          only_worker [OF 3(1)] by (auto simp: inside(1) histories_append queue_events_append)
    qed
  qed
qed

text \<open>A step of the pool outside the queue moves one thread.\<close>

lemma in_order_other:
  assumes ord: "in_order tr p" and pc: "sy_pc (pl_q p') = (sy_pc (pl_q p))(t := c)" and num: "pl_num p' = pl_num p"
    and pcs: "sy_pc (pl_q p) t \<noteq> Undefined" and ev: "queue_events [e] = []"
    and link: "t = 0 \<Longrightarrow> to_link c = to_link (sy_pc (pl_q p) 0) @ adds [e]" "t \<noteq> 0 \<Longrightarrow> adds [e] = []"
    and run: "t \<noteq> 0 \<Longrightarrow> to_run (sy_pc (pl_q p) t) = starts [e] @ to_run c" "t = 0 \<Longrightarrow> starts [e] = []"
    and worker: "t \<noteq> 0 \<Longrightarrow> is_worker p t"
  shows "in_order (tr @ [e]) p'"
  unfolding in_order_def
proof
  let ?f = "sy_pc (pl_q p)"
  assume u: "\<forall>u. sy_pc (pl_q p') u \<noteq> Undefined"
  have "?f u \<noteq> Undefined" for u using spec [OF u, of u] pcs pc by (cases "u = t") auto
  then have "adds tr = links (queue_events tr) @ to_link (?f 0)"
      "pl_num p = 1 \<Longrightarrow> takes (queue_events tr) = starts tr @ to_run (?f 1)"
    using ord by (simp_all add: in_order_def)
  then show "adds (tr @ [e]) = links (queue_events (tr @ [e])) @ to_link (sy_pc (pl_q p') 0) \<and>
      (pl_num p' = 1 \<longrightarrow> takes (queue_events (tr @ [e])) = starts (tr @ [e]) @ to_run (sy_pc (pl_q p') 1))"
    using ev link run worker [THEN only_worker] pc num by (cases "t = 0") (auto simp: histories_append queue_events_append)
qed

lemma in_order_step:
  assumes ord: "in_order tr p" and inv: "pool_inv p" and r: "reach qtr (pl_q p)" and step: "pool_step p e p'"
  shows "in_order (tr @ [e]) p'"
  using step
proof (cases rule: pool_step.cases)
  case (p_queue qe s)
  then show ?thesis using in_order_queue [OF ord inv r] by simp
next
  case p_worker
  from p_worker show ?thesis
  proof (cases rule: worker_step.cases)
    case (fetch t)
    then show ?thesis by (intro in_order_other [OF ord, where t = t and c = Deq_Start]) (auto simp: pool_simps)
  next
    case (run t d)
    then show ?thesis by (intro in_order_other [OF ord, where t = t and c = Idle]) (auto simp: pool_simps)
  next
    case (finish t d)
    then show ?thesis using ord by (simp add: in_order_def histories_append queue_events_append)
  next
    case (leave t)
    then show ?thesis by (intro in_order_other [OF ord, where t = t and c = Idle]) (auto simp: pool_simps)
  qed
next
  case (p_add d)
  from p_add(2) show ?thesis
    by (cases rule: AddTask.cases)
      (use p_add(1) in \<open>intro in_order_other [OF ord, where t = 0 and c = "Enq_Start d"], auto simp: pool_simps\<close>)
next
  case p_close
  from p_close(2) show ?thesis
  proof (cases rule: ClosePool.cases)
    case destroy
    then show ?thesis using p_close(1)
      by (intro in_order_other [OF ord, where t = 0 and c = Des_Mark]) (auto simp: pool_simps)
  qed (use ord p_close(1) in \<open>simp_all add: in_order_def histories_append queue_events_append\<close>)
qed

lemma in_order_run: "pool_run b p tr p' \<Longrightarrow> reach [] (pl_q p) \<Longrightarrow> pool_inv p \<Longrightarrow> in_order [] p \<Longrightarrow> in_order tr p'"
proof (induction rule: pool_run.induct)
  case (pool_next tr p' e p'')
  then show ?case
    using in_order_step [OF _ pool_inv_run [OF pool_next(1)] pool_reach_queue [OF pool_next(1)] pool_next(2)] by simp
next
  case (pool_spurious tr p' s)
  then show ?case using spurious_pc [OF pool_spurious(3)] by (simp add: in_order_def)
qed

lemma pool_reach_order: "pool_reach num tr p \<Longrightarrow> in_order tr p"
  unfolding pool_reach_def
proof (erule in_order_run)
  show "reach [] (pl_q (CreateThreadPool num))" by (simp add: CreateThreadPool_def reach_init)
  show "in_order [] (CreateThreadPool num)" by (simp add: CreateThreadPool_def in_order_def sys0_def)
qed (rule pool_inv_init)

text \<open>Tasks are taken in the order of \<open>AddTask\<close>, whatever the number of workers.\<close>

lemma pool_takes_in_order:
  assumes "pool_reach num tr p" and "\<forall>t. sy_pc (pl_q p) t \<noteq> Undefined"
  shows "\<exists>ds. fifo_run [] (queue_events tr) = Some ds \<and>
     adds tr = takes (queue_events tr) @ ds @ to_link (sy_pc (pl_q p) 0)"
  using sq.taken_in_order [OF pool_reach_reach [OF assms(1)]] pool_reach_order [OF assms(1)] assms(2)
  by (auto simp: in_order_def)

text \<open>A single worker starts them in this order, too.\<close>

lemma started_in_order:
  assumes "pool_reach num tr p" and "\<forall>t. sy_pc (pl_q p) t \<noteq> Undefined" and "num = 1"
  shows "\<exists>ds. fifo_run [] (queue_events tr) = Some ds \<and>
     adds tr = starts tr @ to_run (sy_pc (pl_q p) 1) @ ds @ to_link (sy_pc (pl_q p) 0)"
proof -
  have "pl_num p = 1" using pool_num assms(1,3) by (fastforce simp: pool_reach_def CreateThreadPool_def)
  then have "takes (queue_events tr) = starts tr @ to_run (sy_pc (pl_q p) 1)"
    using pool_reach_order [OF assms(1)] assms(2) by (simp add: in_order_def)
  then show ?thesis using pool_takes_in_order [OF assms(1,2)] by auto
qed

end
