(* ===== verification/Pool_Serving.thy ===== *)
theory Pool_Serving
  imports Pool_Order
begin

text \<open>
  The pool while it serves: a task in the queue always has a worker that is awake or about to be
  woken, the work that is left is bounded, and when nothing can move any more every task has run.
\<close>

section \<open>While the pool serves\<close>

text \<open>On the way out of \<open>SafeDeque\<close> without a task.\<close>

fun leaves :: "'d pc \<Rightarrow> bool" where
  "leaves (Deq_Uncount r) \<longleftrightarrow> r = None"
| "leaves (Deq_Dec r) \<longleftrightarrow> r = None"
| "leaves (Got r) \<longleftrightarrow> r = None"
| "leaves _ \<longleftrightarrow> False"

definition asleep :: "'d ThreadPool \<Rightarrow> nat \<Rightarrow> bool" where
  "asleep p t \<longleftrightarrow> sy_pc (pl_q p) t = Deq_Sleep \<and> t \<in> q_ready (sy_q (pl_q p))"

definition has_items :: "'d ThreadPool \<Rightarrow> bool" where
  "has_items p \<longleftrightarrow> q_head (sy_q (pl_q p)) \<noteq> q_tail (sy_q (pl_q p))"

definition served :: "'d ThreadPool \<Rightarrow> bool" where
  "served p \<longleftrightarrow> has_items p \<longrightarrow> sy_pc (pl_q p) 0 = Enq_Signal \<or> (\<exists>t. is_worker p t \<and> \<not> asleep p t)"

definition calls_ok :: "'d ThreadPool \<Rightarrow> bool" where
  "calls_ok p \<longleftrightarrow> (\<forall>t. sy_pc (pl_q p) t \<noteq> Undefined \<and> \<not> leaves (sy_pc (pl_q p) t) \<and>
     (sy_pc (pl_q p) t = Deq_Wait \<longrightarrow> \<not> has_items p) \<and>
     (t \<in> q_ready (sy_q (pl_q p)) \<longrightarrow> sy_pc (pl_q p) t = Deq_Sleep))"

definition serving_inv :: "'d ThreadPool \<Rightarrow> bool" where
  "serving_inv p \<longleftrightarrow> (pl_main p = Serving \<longrightarrow> calls_ok p \<and> served p \<and> (\<forall>t. is_worker p t \<longrightarrow> pl_worker p t \<noteq> Exited))"

section \<open>Steps of the queue\<close>

lemma qstep_leaves: "qstep t q p e q' p' \<Longrightarrow> leaves p' \<Longrightarrow> leaves p \<or> q_destroyed q"
  by (cases rule: qstep.cases) (auto split: if_splits)

lemma qstep_to_wait: "qstep t q p e q' Deq_Wait \<Longrightarrow> q_head q = q_tail q \<and> q' = q"
  by (cases rule: qstep.cases) auto

lemma qstep_sleeps:
  "qstep t q p e q' p' \<Longrightarrow> q_ready q' \<subseteq> q_ready q \<or> p = Deq_Wait \<and> p' = Deq_Sleep \<and> q_ready q' = insert t (q_ready q)"
  by (cases rule: qstep.cases) (auto dest!: list_same simp: same_sync_def signal_def)

lemma qstep_moves_tail:
  "qstep t q p e q' p' \<Longrightarrow> q_tail q' = q_tail q \<or> p' = Enq_Signal \<or> (\<exists>a d. p' = Deq_Free a d)"
  by (cases rule: qstep.cases)
    (auto dest: list_same free_nodes_same(2) simp: same_sync_def same_ends_def new_node_def free_node_def
      split: option.splits)

lemma qstep_wakes:
  assumes "qstep t q Enq_Signal e q' p'" and "\<not> q_gone q"
  shows "q_ready q' \<subseteq> q_ready q \<and> (q_ready q = {} \<or> q_ready q' \<noteq> q_ready q)"
  using assms by (cases rule: qstep.cases) (auto simp: signal_def)

text \<open>While the pool serves the queue exists.\<close>

lemma serving_queue:
  assumes "pool_inv p" and "reach tr (pl_q p)" and "pl_main p = Serving"
  shows "\<not> q_gone (sy_q (pl_q p))" "\<not> q_destroyed (sy_q (pl_q p))" "\<not> is_des (sy_pc (pl_q p) t)"
proof -
  have ok: "place_ok p u" for u using assms(1) by (simp add: pool_inv_def)
  show d: "\<not> is_des (sy_pc (pl_q p) t)" for t
    using ok [of t] assms(3) by (auto simp: place_ok_def split: if_splits elim!: is_des.elims)
  show "\<not> q_gone (sy_q (pl_q p))" using sq.owner_last [OF assms(2)] d [of 0] by auto
  show "\<not> q_destroyed (sy_q (pl_q p))" using assms(1,3) by (simp add: pool_inv_def)
qed

lemma calls_ok_queue:
  assumes inv: "pool_inv p" and r: "reach tr (pl_q p)" and m: "pl_main p = Serving" and ok: "calls_ok p"
    and step: "qstep t (sy_q (pl_q p)) (sy_pc (pl_q p) t) e q c"
  shows "calls_ok (p\<lparr>pl_q := \<lparr>sy_q = q, sy_pc = (sy_pc (pl_q p))(t := c)\<rparr>\<rparr>)"
proof -
  let ?f = "sy_pc (pl_q p)" and ?q = "sy_q (pl_q p)"
  note Q = serving_queue [OF inv r m]
  have "?f t \<noteq> Des_End" using Q(3) [of t] by auto
  then have und: "c \<noteq> Undefined" using qstep_undefined step Q(1) by blast
  have lv: "\<not> leaves c" using qstep_leaves [OF step] Q(2) ok by (auto simp: calls_ok_def)
  have wait: "q_head q = q_tail q" if w: "(?f(t := c)) u = Deq_Wait" for u
  proof (cases "u = t")
    case True
    then show ?thesis using w qstep_to_wait [of t ?q "?f t" e q] step by auto
  next
    case False
    then have n: "q_head ?q = q_tail ?q" "holds_q (?f u)" using w ok by (auto simp: calls_ok_def has_items_def)
    have "\<not> holds_q (?f t)"
      using n(2) reach_invD(2) [OF r] Q(1) False unfolding lock_inv_def by (metis option.inject)
    then show ?thesis using n(1) qstep_tail [OF step] by auto
  qed
  have ready: "(?f(t := c)) u = Deq_Sleep" if u: "u \<in> q_ready q" for u
  proof (cases "u = t")
    case True
    have "\<not> (?f t = Deq_Sleep \<and> t \<in> q_ready ?q)" using qstep_asleep [of t ?q] step Q(1) by metis
    then show ?thesis using qstep_sleeps [OF step] ok u True by (auto simp: calls_ok_def)
  next
    case False
    then show ?thesis using qstep_sleeps [OF step] ok u by (auto simp: calls_ok_def)
  qed
  show ?thesis using ok und lv wait ready by (simp add: calls_ok_def has_items_def)
qed

text \<open>The main thread adds a task, or a worker fetches one.\<close>

lemma serving_mover:
  assumes inv: "pool_inv p" and r: "reach tr (pl_q p)" and m: "pl_main p = Serving"
    and step: "qstep t (sy_q (pl_q p)) (sy_pc (pl_q p) t) e q c"
  obtains (adding) "t = 0" "enqueues (sy_pc (pl_q p) 0)" "enqueues c \<or> c = Idle"
  | (fetching) "is_worker p t" "t \<noteq> 0" "dequeues (sy_pc (pl_q p) t)" "dequeues c" "pl_worker p t = Fetching"
proof -
  note Q = serving_queue [OF inv r m]
  have crash: "c \<noteq> Crash x" for x
    using sq.no_fault [OF reach_internal [OF r internal.inside [OF step]], of t] by simp
  have "sy_pc (pl_q p) t \<noteq> Des_End" using Q(3) [of t] by auto
  then have und: "c \<noteq> Undefined" using qstep_undefined step Q(1) by blast
  have "place_ok p t" using inv by (simp add: pool_inv_def)
  then have "t = 0 \<and> enqueues (sy_pc (pl_q p) 0) \<or>
      is_worker p t \<and> t \<noteq> 0 \<and> dequeues (sy_pc (pl_q p) t) \<and> pl_worker p t = Fetching"
    using m qstep_outside [OF step] by (auto simp: place_ok_def split: if_splits)
  then show ?thesis
    using adding fetching qstep_enqueues [OF step _ Q(1) crash] qstep_dequeues [OF step _ crash] und by auto
qed

text \<open>A signal wakes one of the workers that wait; who is awake stays so while there are items.\<close>

lemma signal_wakes:
  assumes inv: "pool_inv p" and r: "reach tr (pl_q p)" and m: "pl_main p = Serving" and ok: "calls_ok p" and n: "0 < pl_num p"
    and step: "qstep t (sy_q (pl_q p)) Enq_Signal e q c"
  obtains u where "is_worker p u" and "u \<notin> q_ready q"
proof -
  have "q_ready q = {} \<or> (\<exists>u. u \<in> q_ready (sy_q (pl_q p)) \<and> u \<notin> q_ready q)"
    using qstep_wakes [of t "sy_q (pl_q p)" e q c] step serving_queue(1) [OF inv r m] by auto
  moreover have "is_worker p 1" using n by (simp add: is_worker_def)
  moreover have "is_worker p u" if "u \<in> q_ready (sy_q (pl_q p))" for u
  proof -
    have "place_ok p u" using inv by (simp add: pool_inv_def)
    then show ?thesis using that ok by (auto simp: calls_ok_def place_ok_def split: if_splits)
  qed
  ultimately show ?thesis using that by blast
qed

lemma stays_awake:
  assumes ok: "calls_ok p" and items: "has_items p" and step: "qstep t (sy_q (pl_q p)) (sy_pc (pl_q p) t) e q c"
    and sig: "sy_pc (pl_q p) t \<noteq> Enq_Signal" and u: "\<not> asleep p u"
  shows "\<not> asleep (p\<lparr>pl_q := \<lparr>sy_q = q, sy_pc = (sy_pc (pl_q p))(t := c)\<rparr>\<rparr>) u"
proof (cases "u = t")
  case True
  have "sy_pc (pl_q p) t \<noteq> Deq_Wait" using items ok by (auto simp: calls_ok_def)
  then show ?thesis using u True qstep_sleeps [OF step] ok by (auto simp: asleep_def calls_ok_def)
next
  case False
  then show ?thesis using u qstep_sleeps [OF step] by (auto simp: asleep_def)
qed

lemma served_queue:
  assumes inv: "pool_inv p" and r: "reach tr (pl_q p)" and m: "pl_main p = Serving" and ok: "calls_ok p"
    and sv: "served p" and n: "0 < pl_num p"
    and step: "qstep t (sy_q (pl_q p)) (sy_pc (pl_q p) t) e q c"
  shows "served (p\<lparr>pl_q := \<lparr>sy_q = q, sy_pc = (sy_pc (pl_q p))(t := c)\<rparr>\<rparr>)" (is "served ?p")
proof -
  let ?f = "sy_pc (pl_q p)"
  have same: "is_worker ?p u = is_worker p u" for u by (simp add: is_worker_def)
  have main: "t = 0" if "enqueues c \<or> enqueues (?f t)"
    by (rule serving_mover [OF inv r m step]) (use that in \<open>auto elim!: enqueues.elims\<close>)
  show ?thesis
    unfolding served_def
  proof
    assume items: "has_items ?p"
    have "has_items p \<or> c = Enq_Signal \<or> (\<exists>a d. c = Deq_Free a d)"
      using qstep_moves_tail [OF step] qstep_tail [OF step] items by (auto simp: has_items_def)
    then consider (signal) "?f t = Enq_Signal" | (linked) "c = Enq_Signal" | (taken) a d where "c = Deq_Free a d"
      | (kept) "?f t \<noteq> Enq_Signal" "has_items p"
      by blast
    then show "sy_pc (pl_q ?p) 0 = Enq_Signal \<or> (\<exists>u. is_worker ?p u \<and> \<not> asleep ?p u)"
    proof cases
      case signal
      obtain u where "is_worker p u" "u \<notin> q_ready q" by (rule signal_wakes [OF inv r m ok n step [unfolded signal]])
      then have "is_worker ?p u \<and> \<not> asleep ?p u" by (simp add: asleep_def same)
      then show ?thesis by blast
    next
      case (taken a d)
      then have "is_worker p t \<and> \<not> asleep ?p t"
        by (cases rule: serving_mover [OF inv r m step]) (auto simp: asleep_def)
      then show ?thesis unfolding same by blast
    next
      case kept
      then consider "?f 0 = Enq_Signal" "t \<noteq> 0" | u where "is_worker p u" "\<not> asleep p u"
        using sv by (auto simp: served_def)
      then show ?thesis
      proof cases
        case (2 u)
        then show ?thesis using stays_awake [OF ok kept(2) step kept(1)] same by blast
      qed simp
    qed (use main in simp)
  qed
qed


text \<open>The steps of the workers and of the main thread.\<close>

lemma calls_ok_goto: "calls_ok p \<Longrightarrow> c \<noteq> Undefined \<Longrightarrow> \<not> leaves c \<Longrightarrow> c \<noteq> Deq_Wait \<Longrightarrow>
     sy_pc (pl_q p) t \<noteq> Deq_Sleep \<Longrightarrow> calls_ok (goto p t c)"
  by (auto simp: calls_ok_def goto_def has_items_def)

lemma calls_ok_more [simp]:
  "calls_ok (p\<lparr>pl_worker := w\<rparr>) = calls_ok p" "calls_ok (p\<lparr>pl_main := m\<rparr>) = calls_ok p"
  "served (p\<lparr>pl_worker := w\<rparr>) = served p" "served (p\<lparr>pl_main := m\<rparr>) = served p"
  by (simp_all add: calls_ok_def served_def has_items_def asleep_def is_worker_def)

lemma served_goto: "served p \<Longrightarrow> c \<noteq> Deq_Sleep \<Longrightarrow> sy_pc (pl_q p) t \<noteq> Enq_Signal \<Longrightarrow> served (goto p t c)"
  by (cases "t = 0") (auto simp: served_def goto_def has_items_def asleep_def is_worker_def)

lemma serving_inv_worker:
  assumes "serving_inv p" and "worker_step p e p'"
  shows "serving_inv p'"
  using assms(2)
proof (cases rule: worker_step.cases)
  case (fetch t)
  then show ?thesis using assms(1)
    by (auto simp: serving_inv_def is_worker_def goto_def [symmetric] intro!: calls_ok_goto served_goto) (simp_all add: goto_def)
next
  case (run t d)
  then show ?thesis using assms(1)
    by (auto simp: serving_inv_def is_worker_def intro!: calls_ok_goto served_goto) (simp_all add: goto_def)
next
  case (finish t d)
  then show ?thesis using assms(1) by (auto simp: serving_inv_def is_worker_def)
next
  case (leave t)
  have "\<not> calls_ok p" using leave by (auto simp: calls_ok_def intro!: exI [of _ t])
  then show ?thesis using assms(1) leave by (auto simp: serving_inv_def goto_def)
qed

lemma serving_inv_main:
  "serving_inv p \<Longrightarrow> AddTask p d p' \<Longrightarrow> serving_inv p'"
  "ClosePool p p' \<Longrightarrow> serving_inv p'"
proof -
  show "serving_inv p'" if "serving_inv p" "AddTask p d p'"
    using that(2) that(1)
    by (cases rule: AddTask.cases)
      (auto simp: serving_inv_def is_worker_def intro!: calls_ok_goto served_goto, simp_all add: goto_def)
  show "serving_inv p'" if "ClosePool p p'"
    using that by (cases rule: ClosePool.cases) (auto simp: serving_inv_def)
qed

lemma serving_inv_spurious:
  assumes "serving_inv p" and "spurious (pl_q p) s"
  shows "serving_inv (p\<lparr>pl_q := s\<rparr>)"
  using assms(2,1)
  by (cases rule: spurious.cases) (auto simp: serving_inv_def calls_ok_def served_def has_items_def asleep_def is_worker_def)

lemma serving_inv_step:
  assumes sv: "serving_inv p" and inv: "pool_inv p" and r: "reach tr (pl_q p)" and n: "0 < pl_num p" and step: "pool_step p e p'"
  shows "serving_inv p'"
  using step
proof (cases rule: pool_step.cases)
  case (p_queue qe s)
  from p_queue(3) show ?thesis
    using calls_ok_queue [OF inv r] served_queue [OF inv r _ _ _ n] sv p_queue(2)
    by (cases rule: internal.cases) (auto simp: serving_inv_def is_worker_def)
next
  case p_worker
  then show ?thesis using serving_inv_worker [OF sv] by simp
next
  case (p_add d)
  then show ?thesis using serving_inv_main(1) [OF sv] by simp
next
  case p_close
  then show ?thesis using serving_inv_main(2) by blast
qed

lemma serving_inv_run:
  "pool_run b p tr p' \<Longrightarrow> reach [] (pl_q p) \<Longrightarrow> pool_inv p \<Longrightarrow> 0 < pl_num p \<Longrightarrow> serving_inv p \<Longrightarrow> serving_inv p'"
proof (induction rule: pool_run.induct)
  case (pool_next tr p' e p'')
  then show ?case
    using serving_inv_step [OF _ pool_inv_run [OF pool_next(1)] pool_reach_queue [OF pool_next(1)] _ pool_next(2)]
      pool_num [OF pool_next(1)] by simp
qed (simp_all add: serving_inv_spurious)

lemma serving_inv_init: "serving_inv (CreateThreadPool num)"
  by (simp add: serving_inv_def calls_ok_def served_def has_items_def CreateThreadPool_def sys0_def NewSafeQueue_def)

lemma pool_reach_serving: "pool_reach num tr p \<Longrightarrow> 0 < num \<Longrightarrow> serving_inv p"
  unfolding pool_reach_def
  by (erule serving_inv_run) (simp_all add: pool_inv_init serving_inv_init, simp_all add: CreateThreadPool_def reach_init)


section \<open>The work that is left\<close>

text \<open>A step of the workers or inside the queue; nothing is added and no thread wakes without a signal.\<close>

inductive work_step :: "'d ThreadPool \<Rightarrow> 'd pool_event \<Rightarrow> 'd ThreadPool \<Rightarrow> bool" where
  work_queue: "internal (pl_q p) e s \<Longrightarrow> work_step p (Queue_Event e) (p\<lparr>pl_q := s\<rparr>)"
| work_worker: "worker_step p e p' \<Longrightarrow> work_step p e p'"

inductive work_run :: "'d ThreadPool \<Rightarrow> 'd pool_event list \<Rightarrow> 'd ThreadPool \<Rightarrow> bool" for p where
  work_none: "work_run p [] p"
| work_more: "work_run p tr p' \<Longrightarrow> work_step p' e p'' \<Longrightarrow> work_run p (tr @ [e]) p''"

text \<open>
  The steps that a thread can take with what it has in hand: a signal may wake each of the \<open>n\<close> workers
  for a look at the queue, a task that is linked is taken, run, and followed by such a look.
\<close>

fun chore :: "nat \<Rightarrow> bool \<Rightarrow> 'd pc \<Rightarrow> nat" where
  "chore n r (Enq_Start d) = 5 * n + 23"
| "chore n r (Enq_Count d) = 5 * n + 22"
| "chore n r (Enq_Inc d) = 5 * n + 21"
| "chore n r (Enq_Node d) = 5 * n + 20"
| "chore n r (Enq_Lock d a) = 5 * n + 19"
| "chore n r (Enq_Test d a) = 5 * n + 18"
| "chore n r (Enq_Link d a) = 5 * n + 17"
| "chore n r Enq_Signal = 5 * n + 3"
| "chore n r Enq_Uncount = 2"
| "chore n r Enq_Dec = 1"
| "chore n r (Deq_Free a d) = 14"
| "chore n r (Deq_Uncount d) = 13"
| "chore n r (Deq_Dec d) = 12"
| "chore n r (Got d) = 11"
| "chore n r Deq_Start = 8"
| "chore n r Deq_Count = 7"
| "chore n r Deq_Inc = 6"
| "chore n r Deq_Lock = 5"
| "chore n r Deq_Sleep = (if r then 0 else 5)"
| "chore n r Deq_Test = 4"
| "chore n r Deq_Check = 3"
| "chore n r Deq_Take = 2"
| "chore n r Deq_Wait = 1"
| "chore n r _ = 0"

definition effort :: "'d ThreadPool \<Rightarrow> nat \<Rightarrow> nat" where
  "effort p t =
     (if t = 0 then chore (pl_num p) False (sy_pc (pl_q p) 0)
      else case pl_worker p t of
        Running d \<Rightarrow> 10
      | Exited \<Rightarrow> 0
      | Fetching \<Rightarrow>
          if sy_pc (pl_q p) t = Idle then 9
          else chore (pl_num p) (t \<in> q_ready (sy_q (pl_q p))) (sy_pc (pl_q p) t))"

definition waiting :: "'d pool_event list \<Rightarrow> nat" where
  "waiting tr = length (links (queue_events tr)) - length (takes (queue_events tr))"

definition workload :: "'d pool_event list \<Rightarrow> 'd ThreadPool \<Rightarrow> nat" where
  "workload tr p = 13 * waiting tr + (\<Sum>t \<le> pl_num p. effort p t)"

lemma waiting_append:
  assumes "pool_reach num tr p" and "pool_reach num (tr @ [e]) p'"
  shows "waiting (tr @ [e]) + length (takes (queue_events [e])) = waiting tr + length (links (queue_events [e]))"
proof -
  have "\<exists>ds. links (queue_events tr) = takes (queue_events tr) @ ds"
    "\<exists>ds. links (queue_events (tr @ [e])) = takes (queue_events (tr @ [e])) @ ds"
    using sq.taken_in_order pool_reach_reach assms by blast+
  then have "length (takes (queue_events tr)) \<le> length (links (queue_events tr))"
    "length (takes (queue_events (tr @ [e]))) \<le> length (links (queue_events (tr @ [e])))"
    by (metis length_append le_add1)+
  then show ?thesis by (simp add: waiting_def queue_events_append histories_append)
qed

lemma qstep_chore:
  assumes "qstep t q p e q' p'" and "\<not> q_gone q" and "\<not> q_destroyed q" and "enqueues p \<or> dequeues p" and "\<And>x. p' \<noteq> Crash x"
  shows "13 * length (links [e]) + chore n (t \<in> q_ready q') p' + (if p = Enq_Signal then 5 * n else 0) <
     chore n (t \<in> q_ready q) p + 13 * length (takes [e])"
  using assms by (cases rule: qstep.cases) auto


lemma chore_flag: "chore n r' p \<le> chore n r p + 5"
  by (cases p) auto

lemma sum_moved:
  fixes f :: "nat \<Rightarrow> nat"
  assumes "t \<le> n" and "\<And>u. u \<noteq> t \<Longrightarrow> g u \<le> f u + k"
  shows "(\<Sum>u \<le> n. g u) + f t \<le> (\<Sum>u \<le> n. f u) + g t + k * n"
proof -
  have "(\<Sum>u \<le> n. h u) = h t + (\<Sum>u \<in> {..n} - {t}. h u)" for h :: "nat \<Rightarrow> nat"
    by (rule sum.remove) (use assms(1) in auto)
  moreover have "(\<Sum>u \<in> {..n} - {t}. g u) \<le> (\<Sum>u \<in> {..n} - {t}. f u + k)"
    by (rule sum_mono) (use assms(2) in auto)
  ultimately show ?thesis using assms(1) by (simp add: sum.distrib ac_simps)
qed

lemma effort_others:
  assumes "qstep t (sy_q (pl_q p)) (sy_pc (pl_q p) t) e q c" and "sy_pc (pl_q p) t \<noteq> Des_Wake" and "u \<noteq> t"
  shows "effort (p\<lparr>pl_q := \<lparr>sy_q = q, sy_pc = (sy_pc (pl_q p))(t := c)\<rparr>\<rparr>) u \<le>
     effort p u + (if sy_pc (pl_q p) t = Enq_Signal then 5 else 0)"
proof (cases "sy_pc (pl_q p) t = Enq_Signal")
  case True
  then show ?thesis using assms(3) by (auto simp: effort_def chore_flag split: worker.split)
next
  case False
  then have "u \<in> q_ready q \<longleftrightarrow> u \<in> q_ready (sy_q (pl_q p))"
    using qstep_ready [OF assms(1)] qstep_sleeps [OF assms(1)] assms(2,3) by auto
  then show ?thesis using False assms(3) by (simp add: effort_def split: worker.split)
qed

lemma effort_queue:
  assumes r: "pool_reach num tr p" and m: "pl_main p = Serving"
    and step: "qstep t (sy_q (pl_q p)) (sy_pc (pl_q p) t) e q c"
  shows "t \<le> pl_num p" "13 * length (links [e]) + effort (p\<lparr>pl_q := \<lparr>sy_q = q, sy_pc = (sy_pc (pl_q p))(t := c)\<rparr>\<rparr>) t +
     (if sy_pc (pl_q p) t = Enq_Signal then 5 * pl_num p else 0) < effort p t + 13 * length (takes [e])"
proof -
  note R = pool_reach_inv [OF r] pool_reach_reach [OF r]
  note Q = serving_queue [OF R m]
  have crash: "c \<noteq> Crash x" for x
    using sq.no_fault [OF reach_internal [OF R(2) internal.inside [OF step]], of t] by simp
  note C = qstep_chore [OF step Q(1,2) _ crash, of "pl_num p"]
  show "t \<le> pl_num p"
    by (cases rule: serving_mover [OF R m step]) (simp_all add: is_worker_def)
  show "13 * length (links [e]) + effort (p\<lparr>pl_q := \<lparr>sy_q = q, sy_pc = (sy_pc (pl_q p))(t := c)\<rparr>\<rparr>) t +
      (if sy_pc (pl_q p) t = Enq_Signal then 5 * pl_num p else 0) < effort p t + 13 * length (takes [e])"
  proof (cases rule: serving_mover [OF R m step])
    case 1
    have "chore (pl_num p) (0 \<in> q_ready (sy_q (pl_q p))) (sy_pc (pl_q p) 0) = chore (pl_num p) False (sy_pc (pl_q p) 0)"
      "chore (pl_num p) (0 \<in> q_ready q) c = chore (pl_num p) False c"
      using 1(2,3) by (auto elim!: enqueues.elims)
    then show ?thesis using C 1 by (simp add: effort_def)
  next
    case 2
    then have "sy_pc (pl_q p) t \<noteq> Idle" "c \<noteq> Idle" by (auto elim!: dequeues.elims)
    then show ?thesis using C 2 by (auto simp: effort_def)
  qed
qed

lemma effort_worker:
  assumes r: "pool_reach num tr p" and n: "0 < num" and m: "pl_main p = Serving" and step: "worker_step p e p'"
  obtains t where "t \<le> pl_num p" "effort p' t < effort p t" "\<And>u. u \<noteq> t \<Longrightarrow> effort p' u = effort p u"
    "pl_num p' = pl_num p" "queue_events [e] = []"
proof -
  have lv: "\<not> leaves (sy_pc (pl_q p) t)" for t
    using pool_reach_serving [OF r n] m by (simp add: serving_inv_def calls_ok_def)
  have place: "place_ok p t" for t using pool_reach_inv [OF r] by (simp add: pool_inv_def)
  show ?thesis
    using step
  proof (cases rule: worker_step.cases)
    case (fetch t)
    show ?thesis by (rule that [of t]) (use fetch in \<open>auto simp: effort_def goto_def is_worker_def split: worker.split\<close>)
  next
    case (run t d)
    show ?thesis
      by (rule that [of t]) (use run place [of t] in \<open>auto simp: effort_def goto_def is_worker_def place_ok_def split: worker.split\<close>)
  next
    case (finish t d)
    have "sy_pc (pl_q p) t = Idle"
      using finish place [of t] pool_reach_serving [OF r n] m
      by (auto simp: place_ok_def is_worker_def serving_inv_def calls_ok_def)
    then show ?thesis by (intro that [of t]) (use finish in \<open>auto simp: effort_def is_worker_def split: worker.split\<close>)
  next
    case (leave t)
    then show ?thesis using lv [of t] by simp
  qed
qed

lemma work_step_pool:
  assumes "work_step p e p'"
  shows "pool_step p e p'" and "pl_main p' = pl_main p"
proof -
  show "pool_step p e p'" using assms by (cases rule: work_step.cases) (auto intro: pool_step.intros)
  show "pl_main p' = pl_main p"
    using assms by (cases rule: work_step.cases) (auto elim: worker_step.cases simp: goto_def)
qed

lemma workload_decreases:
  assumes r: "pool_reach num tr p" and n: "0 < num" and m: "pl_main p = Serving" and step: "work_step p e p'"
  shows "pool_reach num (tr @ [e]) p'" "workload (tr @ [e]) p' < workload tr p" "pl_main p' = Serving"
proof -
  note ps = work_step_pool [OF step]
  show r': "pool_reach num (tr @ [e]) p'" using r ps(1) by (simp add: pool_reach_def pool_next)
  note W = waiting_append [OF r r']
  show "pl_main p' = Serving" using ps(2) m by simp
  show "workload (tr @ [e]) p' < workload tr p"
    using step
  proof (cases rule: work_step.cases)
    case (work_queue qe s)
    from work_queue(3) show ?thesis
    proof (cases rule: internal.cases)
      case (inside t q c)
      have nw: "sy_pc (pl_q p) t \<noteq> Des_Wake"
        using serving_queue(3) [OF pool_reach_inv [OF r] pool_reach_reach [OF r] m, of t] by auto
      note O = sum_moved [where f = "effort p" and g = "effort p'" and t = t and n = "pl_num p"
          and k = "if sy_pc (pl_q p) t = Enq_Signal then 5 else 0", OF effort_queue(1) [OF r m inside(2)]]
      show ?thesis
        using O effort_others [OF inside(2) nw] effort_queue(2) [OF r m inside(2)] W
        by (simp add: workload_def work_queue(1,2) inside(1) split: if_splits)
    qed
  next
    case work_worker
    obtain t where "t \<le> pl_num p" "effort p' t < effort p t" "\<And>u. u \<noteq> t \<Longrightarrow> effort p' u = effort p u"
        "pl_num p' = pl_num p" "queue_events [e] = []"
      by (rule effort_worker [OF r n m work_worker]) blast
    then show ?thesis
      using W sum_moved [where f = "effort p" and g = "effort p'" and t = t and n = "pl_num p" and k = 0] by (simp add: workload_def)
  qed
qed


section \<open>At rest\<close>

lemma adder_moves: "enqueues p \<Longrightarrow> q_lock q = None \<Longrightarrow> q_numMut q = None \<Longrightarrow> pc_step t q p \<noteq> None"
  by (cases p) (auto split: sum.splits prod.splits)

lemma fetcher_moves:
  "dequeues p \<Longrightarrow> q_lock q = None \<Longrightarrow> q_numMut q = None \<Longrightarrow> pc_step t q p = None \<Longrightarrow>
     p = Deq_Sleep \<and> t \<in> q_ready q \<or> (\<exists>r. p = Got r)"
  by (cases p) (auto split: sum.splits prod.splits if_splits)

text \<open>When no work step is left the main thread is idle, the workers sleep and the queue is empty.\<close>

lemma rest_of_serving:
  assumes r: "pool_reach num tr p" and n: "0 < num" and m: "pl_main p = Serving" and rest: "\<And>e p'. \<not> work_step p e p'"
  shows "sy_pc (pl_q p) 0 = Idle" "is_worker p t \<Longrightarrow> asleep p t" "\<not> has_items p"
proof -
  let ?f = "sy_pc (pl_q p)" and ?q = "sy_q (pl_q p)"
  note R = pool_reach_inv [OF r] pool_reach_reach [OF r]
  have place: "place_ok p t" for t using R(1) by (simp add: pool_inv_def)
  have sv: "calls_ok p" "served p" "\<And>t. is_worker p t \<Longrightarrow> pl_worker p t \<noteq> Exited"
    using pool_reach_serving [OF r n] m by (auto simp: serving_inv_def)
  have "at_rest (pl_q p)" using rest work_queue unfolding at_rest_def by blast
  then have stuck: "pc_step t ?q (?f t) = None" for t by (rule at_rest_pc)
  have no: "\<not> worker_step p e p'" for e p' using rest work_worker by blast
  have free: "q_lock ?q = None" "q_numMut ?q = None"
    using reach_invD(2) [OF R(2)] serving_queue(1) [OF R m] holder_moves stuck
    unfolding lock_inv_def by (metis not_None_eq)+
  show main: "?f 0 = Idle" using place [of 0] m adder_moves [OF _ free, of "?f 0" 0] stuck [of 0] by (auto simp: place_ok_def)
  show worker: "asleep p t" if w: "is_worker p t" for t
  proof -
    have "?f t \<noteq> Idle"
      using no worker_step.fetch [OF w] worker_step.finish [OF w] sv(3) [OF w] by (metis worker.exhaust)
    moreover have "\<not> leaves (?f t)" "?f t \<noteq> Undefined" using sv(1) by (simp_all add: calls_ok_def)
    moreover have "?f t \<noteq> Got (Some d)" for d using no worker_step.run [OF w] by metis
    ultimately show ?thesis
      using place [of t] w fetcher_moves [OF _ free stuck [of t]] by (auto simp: place_ok_def is_worker_def asleep_def)
  qed
  show "\<not> has_items p" using sv(2) main worker by (auto simp: served_def)
qed

text \<open>Then every task has been started.\<close>

lemma rest_all_started:
  assumes r: "pool_reach num tr p" and n: "0 < num" and m: "pl_main p = Serving" and rest: "\<And>e p'. \<not> work_step p e p'"
  shows "started tr = added tr"
proof -
  note R = rest_of_serving [OF r n m rest]
  have place: "place_ok p t" for t using pool_reach_inv [OF r] by (simp add: pool_inv_def)
  have pcs: "sy_pc (pl_q p) t = Idle \<or> sy_pc (pl_q p) t = Deq_Sleep" for t
    using place [of t] R(1) R(2) [of t] by (cases "t = 0") (auto simp: place_ok_def asleep_def split: if_splits)
  then have und: "sy_pc (pl_q p) t \<noteq> Undefined" and hand: "in_hand (sy_pc (pl_q p) t) = {#}" for t
    by (metis pc.distinct in_hand.simps)+
  obtain xs where xs: "fifo_run [] (queue_events tr) = Some (map snd xs)" "q_list (sy_q (pl_q p)) xs"
    using reach_invD(6) [OF pool_reach_reach [OF r]] R(1) by (auto simp: list_inv_def freed_def)
  then have "xs = []" using R(3) by (simp add: has_items_def q_list_empty)
  then show ?thesis using tasks_conserved [OF r] und xs(1) hand by (auto simp: hand_def)
qed

lemma work_run_serving:
  "work_run p tr' p' \<Longrightarrow> pool_reach num tr p \<Longrightarrow> 0 < num \<Longrightarrow> pl_main p = Serving \<Longrightarrow>
     pool_reach num (tr @ tr') p' \<and> pl_main p' = Serving \<and> length tr' + workload (tr @ tr') p' \<le> workload tr p"
proof (induction rule: work_run.induct)
  case (work_more tr' p' e p'')
  then have IH: "pool_reach num (tr @ tr') p'" "pl_main p' = Serving"
      "length tr' + workload (tr @ tr') p' \<le> workload tr p" by blast+
  show ?case using workload_decreases [OF IH(1) work_more.prems(2) IH(2) work_more.hyps(2)] IH(3) by simp
qed simp

lemma work_run_adds: "work_run p tr p' \<Longrightarrow> adds tr = []"
proof (induction rule: work_run.induct)
  case (work_more tr p' e p'')
  from work_more(2) have "adds [e] = []"
    by (cases rule: work_step.cases) (auto elim: worker_step.cases)
  then show ?case using work_more by (simp add: histories_append)
qed simp

lemma pool_finishes:
  assumes "pool_reach num tr p" and "0 < num" and "pl_main p = Serving"
  shows "\<exists>n. \<forall>tr' p'. work_run p tr' p' \<longrightarrow> length tr' \<le> n"
    and "work_run p tr' p' \<Longrightarrow> (\<forall>e p''. \<not> work_step p' e p'') \<Longrightarrow>
       started (tr @ tr') = added tr \<and> \<not> has_items p' \<and> sy_pc (pl_q p') 0 = Idle \<and> (\<forall>t. is_worker p' t \<longrightarrow> asleep p' t)"
proof -
  show "\<exists>n. \<forall>tr' p'. work_run p tr' p' \<longrightarrow> length tr' \<le> n"
    using work_run_serving [OF _ assms] by (metis add_leD1)
  assume w: "work_run p tr' p'" and rest: "\<forall>e p''. \<not> work_step p' e p''"
  have W: "pool_reach num (tr @ tr') p'" "pl_main p' = Serving" using work_run_serving [OF w assms] by blast+
  have r: "\<And>e p''. \<not> work_step p' e p''" using rest by blast
  note R = rest_of_serving [OF W(1) assms(2) W(2) r] rest_all_started [OF W(1) assms(2) W(2) r]
  have "added (tr @ tr') = added tr" using work_run_adds [OF w] histories_mset(1) [of tr'] by (simp add: event_counts_append)
  then show "started (tr @ tr') = added tr \<and> \<not> has_items p' \<and> sy_pc (pl_q p') 0 = Idle \<and> (\<forall>t. is_worker p' t \<longrightarrow> asleep p' t)"
    using R by simp
qed


lemma work_run_more: "work_run p' es p'' \<Longrightarrow> work_run p tr p' \<Longrightarrow> work_run p (tr @ es) p''"
proof (induction rule: work_run.induct)
  case (work_more es p1 e p2)
  then show ?case using work_run.work_more by fastforce
qed simp

lemma work_run_ends:
  "pool_reach num tr p \<Longrightarrow> 0 < num \<Longrightarrow> pl_main p = Serving \<Longrightarrow>
     \<exists>tr' p'. work_run p tr' p' \<and> (\<forall>e p''. \<not> work_step p' e p'')"
proof (induction "workload tr p" arbitrary: tr p rule: less_induct)
  case less
  show ?case
  proof (cases "\<exists>e p'. work_step p e p'")
    case True
    then obtain e p' where s: "work_step p e p'" by blast
    note W = workload_decreases [OF less.prems s]
    obtain tr' p'' where "work_run p' tr' p''" "\<forall>e p3. \<not> work_step p'' e p3"
      using less.hyps [OF W(2,1) less.prems(2) W(3)] by blast
    then show ?thesis using work_run_more [of p' tr' p'' p "[e]"] work_run.work_more [OF work_none s] by auto
  qed (use work_none in blast)
qed

section \<open>Property\<close>

text \<open>
  C29. Every task runs: while the pool serves and nothing new is added, its threads have only a bounded
  number of steps, whatever the schedule, and when none is left, which some schedule reaches,
  every task that was ever added has been started, the queue is empty and all workers sleep.
\<close>
theorem every_task_runs:
  assumes "pool_reach num tr p" and "0 < num" and "pl_main p = Serving"
  shows "(\<exists>n. \<forall>tr' p'. work_run p tr' p' \<longrightarrow> length tr' \<le> n) \<and>
     (\<exists>tr' p'. work_run p tr' p' \<and> (\<forall>e p''. \<not> work_step p' e p'')) \<and>
     (\<forall>tr' p'. work_run p tr' p' \<longrightarrow> (\<forall>e p''. \<not> work_step p' e p'') \<longrightarrow>
        started (tr @ tr') = added tr \<and> \<not> has_items p' \<and> (\<forall>t. is_worker p' t \<longrightarrow> asleep p' t))"
  using pool_finishes [OF assms] work_run_ends [OF assms] by blast

theorem every_task_runs_witness:
  "\<exists>tr p tr' p'. pool_reach 1 tr (p :: nat ThreadPool) \<and> started tr = {#7#} \<and> work_run p tr' p' \<and>
     started (tr @ tr') = {#7, 8#} \<and> asleep p' 1"
proof -
  obtain tr p where p: "pool_acts ([], CreateThreadPool 1) two_tasks = Some (tr, p)" "started tr = {#7#}" "added tr = {#7, 8#}"
      "pl_main p = Serving"
    using two_tasks_run by blast
  note r = pool_schedule [OF p(1)]
  obtain tr' p' where w: "work_run p tr' p'" "\<forall>e p''. \<not> work_step p' e p''" "started (tr @ tr') = added tr"
      "\<forall>t. is_worker p' t \<longrightarrow> asleep p' t"
    using every_task_runs [OF r _ p(4)] by auto
  have "pl_num p' = 1"
    using work_run_serving [OF w(1) r _ p(4)] pool_num [of True "CreateThreadPool 1" "tr @ tr'" p']
    by (simp add: pool_reach_def CreateThreadPool_def)
  then have "asleep p' 1" using w(4) by (simp add: is_worker_def)
  then show ?thesis using w(1,3) p(2,3) r by metis
qed

end
