(* ===== verification/Server_Startup.thy ===== *)
theory Server_Startup
  imports Server_Samples
begin

text \<open>
  The start of the relay: what the options of the command line make of the pool, the port, the
  cache, the host file and the server that requests are relayed to.
\<close>

section \<open>What the options mean\<close>

text \<open>What the options mean: the number of an option, and whether its value starts with a text.\<close>

definition int_option :: "(cstring \<Rightarrow> cstring option) \<Rightarrow> string \<Rightarrow> int" where
  "int_option opts key = (case opts (bytes key) of None \<Rightarrow> 0 | Some s \<Rightarrow> atoi s)"

definition has_option :: "(cstring \<Rightarrow> cstring option) \<Rightarrow> string \<Rightarrow> string \<Rightarrow> bool" where
  "has_option opts key value = (case opts (bytes key) of None \<Rightarrow> False | Some s \<Rightarrow> strncmp_eq s (bytes value))"

text \<open>The level that is set: the first of the six whose name the value of \<open>debug\<close> starts with.\<close>

fun first_level :: "(cstring \<Rightarrow> cstring option) \<Rightarrow> (string \<times> clog_level) list \<Rightarrow> clog_level" where
  "first_level opts [] = CLOG_LEVEL_INFO"
| "first_level opts ((name, level) # ls) = (if has_option opts ''debug'' name then level else first_level opts ls)"

definition levels :: "(string \<times> clog_level) list" where
  "levels = [(''trace'', CLOG_LEVEL_TRACE), (''debug'', CLOG_LEVEL_DEBUG), (''info'', CLOG_LEVEL_INFO),
     (''warn'', CLOG_LEVEL_WARN), (''error'', CLOG_LEVEL_ERROR), (''fatal'', CLOG_LEVEL_FATAL)]"

lemma option_reads:
  assumes "\<And>key. is_cstring key \<Longrightarrow> search (arg_ht arg) key = Inr (opts key)" and "is_cstring (bytes key)"
  shows "getInt arg (bytes key) = Inr (int_option opts key)"
    and "getStr arg (bytes key) = Inr (opts (bytes key))"
    and "matchArg arg (bytes key) (bytes v) = Inr (has_option opts key v)"
  using assms by (simp_all add: getInt_def getStr_def matchArg_def int_option_def has_option_def)

lemma option_names:
  "\<forall>key \<in> {''--help'', ''poolsize'', ''debug'', ''port'', ''cachesize'', ''localfile'', ''dns''}. is_cstring (bytes key)"
  by (simp add: is_cstring_def bytes_def)

lemma debug_level_ok:
  assumes "\<And>key. is_cstring key \<Longrightarrow> search (arg_ht arg) key = Inr (opts key)"
  shows "debug_level arg = Inr (first_level opts levels)"
  using option_reads(3) [where key = "''debug''", OF assms] option_names by (simp add: debug_level_def levels_def)

lemma startup_ok:
  assumes "\<forall>kv \<in> set kvs. option_ok kv" and "length kvs \<le> 2 ^ 29" and "opts = options_of kvs"
    and "\<not> has_option opts ''--help'' ''true''"
    and "opts (bytes ''localfile'') = Some path" and "files path = Some (file_bytes ls)"
    and "\<forall>l \<in> set ls. line_ok l" and "length ls \<le> 2 ^ 29"
    and "opts (bytes ''dns'') = Some addr" and "inet_pton addr = Some ip"
    and "n = int_option opts ''cachesize''" and "n \<noteq> 1" and "n \<le> 2 ^ 28"
  shows "\<exists>cf. main_start files (prog # map option_text kvs) = Inr (Serve cf) \<and>
     cf_poolsize cf = pool_size (int_option opts ''poolsize'') \<and> cf_poolsize cf \<le> 150 \<and>
     cf_port cf = listen_port (int_option opts ''port'') \<and> cf_port cf \<noteq> 0 \<and>
     cf_debug cf = first_level opts levels \<and> cf_dns cf = ip \<and>
     plain_rel (sv_cache (start_state cf)) [] \<and>
     plain_cap (sv_cache (start_state cf)) = (if n \<le> 0 then 1024 else nat n) \<and>
     reader_of ls (sv_reader (start_state cf)) \<and> sv_log (start_state cf) = clog_set_level log_state0 (first_level opts levels)"
proof -
  obtain arg where arg: "NewArg (prog # map option_text kvs) = Inr arg"
      "\<And>key. is_cstring key \<Longrightarrow> search (arg_ht arg) key = Inr (opts key)"
    by (rule NewArg_ok [where prog = prog, OF assms(1,2)]) (rule that, simp_all add: assms(3))
  obtain fr where fr: "file_reader_alloc (file_bytes ls) = Inr fr" "reader_of ls fr"
    by (rule file_reader_alloc_ok [OF assms(7,8)])
  let ?cf = "\<lparr>cf_poolsize = pool_size (int_option opts ''poolsize''), cf_debug = first_level opts levels,
     cf_port = listen_port (int_option opts ''port''), cf_cachesize = cache_size n, cf_reader = fr, cf_dns = ip\<rparr>"
  note read = option_reads [OF arg(2)]
  have "main_start files (prog # map option_text kvs) = Inr (Serve ?cf)"
    using arg(1) read debug_level_ok [OF arg(2)] option_names assms(4-6,9-11) fr(1)
    by (simp add: main_start_def)
  moreover have "2 \<le> cache_size n" "cache_size n \<le> 2 ^ 28" using assms(12,13) by (simp_all add: cache_size_def)
  then have "plain_rel (sv_cache (start_state ?cf)) []"
      "plain_cap (sv_cache (start_state ?cf)) = (if n \<le> 0 then 1024 else nat n)"
    using start_state_ok [of ?cf] by (simp_all add: cache_size_def)
  ultimately show ?thesis
    using fr(2) by (intro exI [of _ ?cf]) (simp add: start_state_def pool_size_def listen_port_def Let_def)
qed

text \<open>A command line: the host file, the DNS server and, if \<open>n\<close> is not empty, the size of the pool.\<close>

definition sample_options :: "string \<Rightarrow> (cstring \<times> cstring option) list" where
  "sample_options n = [(bytes ''localfile'', Some (bytes ''hosts'')), (bytes ''dns'', Some (bytes ''10.3.9.4''))] @
     (if n = [] then [] else [(bytes ''poolsize'', Some (bytes n))])"

lemma sample_options_ok:
  assumes "n \<in> {[], ''1'', ''2''}"
  shows "\<forall>kv \<in> set (sample_options n). option_ok kv" and "length (sample_options n) \<le> 2 ^ 29"
    and "map option_text (sample_options n) =
      [bytes ''localfile=hosts'', bytes ''dns=10.3.9.4''] @ (if n = [] then [] else [bytes (''poolsize='' @ n)])"
  using assms
  by (auto simp: sample_options_def option_ok_def option_text_def good_key_def HASH_KEY_MAX_LEN_def bytes_def is_cstring_def delim_def)

lemma sample_option_values:
  assumes "n \<in> {[], ''1'', ''2''}" and "opts = options_of (sample_options n)"
  shows "\<not> has_option opts ''--help'' ''true''" and "opts (bytes ''localfile'') = Some (bytes ''hosts'')"
    and "opts (bytes ''dns'') = Some (bytes ''10.3.9.4'')" and "int_option opts ''cachesize'' = 0" and "int_option opts ''port'' = 0"
    and "int_option opts ''poolsize'' = (if n = [] then 0 else if n = ''1'' then 1 else 2)"
  using assms
  by (auto simp: sample_options_def options_of_def option_value_def has_option_def int_option_def bytes_def atoi_def
      is_digit_def digits_value_def Let_def)

lemma sample_address: "inet_pton (bytes ''10.3.9.4'') = Some [10, 3, 9, 4]"
  by (simp add: bytes_def inet_pton_def octet_def is_digit_def digits_value_def Let_def)

lemma port_number:
  assumes "port = listen_port n" and "m = (if n = 0 then 53 else n)" and "1 \<le> m" and "m \<le> 65535"
  shows "uint port = m"
proof (cases "n = 0")
  case False
  then have "uint (word_of_int n :: 16 word) = n" using assms(2-4) by (simp add: uint_word_of_int)
  moreover from this have "(word_of_int n :: 16 word) \<noteq> 0" using False by auto
  ultimately show ?thesis using assms(1,2) False by (simp add: listen_port_def Let_def)
qed (use assms in \<open>simp add: listen_port_def\<close>)

text \<open>The value of an option, or the one the manual names for an option that is not given.\<close>

definition option_or :: "(cstring \<Rightarrow> cstring option) \<Rightarrow> string \<Rightarrow> int \<Rightarrow> int" where
  "option_or opts key d = (case opts (bytes key) of None \<Rightarrow> d | Some s \<Rightarrow> atoi s)"

definition named_level :: "(cstring \<Rightarrow> cstring option) \<Rightarrow> clog_level \<Rightarrow> bool" where
  "named_level opts level \<longleftrightarrow>
     (case opts (bytes ''debug'') of
        None \<Rightarrow> level = CLOG_LEVEL_INFO
      | Some v \<Rightarrow> list_all (\<lambda>(name, l). v = bytes name \<longrightarrow> level = l) levels)"

lemma first_level_named: "named_level opts (first_level opts levels)"
  by (cases "opts (bytes ''debug'')")
    (auto simp: named_level_def levels_def has_option_def strncmp_eq_def bytes_def)

lemma option_or_int: "option_or opts key d \<noteq> 0 \<Longrightarrow> option_or opts key d = (if int_option opts key = 0 then d else int_option opts key)"
  by (auto simp: option_or_def int_option_def split: option.splits)

text \<open>
  C13. The start of the relay within its manual (\<open>man.txt\<close>): with a host file, a DNS server, a pool of 1 to
  20 threads, a cache of 2 to 2048 entries and a port of 1 to 65535, the relay starts. The pool has the
  given size, or 10 threads; the port is the given one, or 53; the level is the named one, or info; the
  host file and the DNS server are the named ones; and the handlers start on an empty cache of the
  given size, or of 1024 entries.
\<close>
theorem startup_serves:
  assumes "\<forall>kv \<in> set kvs. option_ok kv" and "length kvs \<le> 2 ^ 29" and "opts = options_of kvs"
    and "\<not> has_option opts ''--help'' ''true''"
    and "opts (bytes ''localfile'') = Some path" and "files path = Some (file_bytes ls)"
    and "\<forall>l \<in> set ls. line_ok l" and "length ls \<le> 2 ^ 29"
    and "opts (bytes ''dns'') = Some addr" and "inet_pton addr = Some ip"
    and "1 \<le> option_or opts ''poolsize'' 10" and "option_or opts ''poolsize'' 10 \<le> 20"
    and "2 \<le> option_or opts ''cachesize'' 1024" and "option_or opts ''cachesize'' 1024 \<le> 2048"
    and "1 \<le> option_or opts ''port'' 53" and "option_or opts ''port'' 53 \<le> 65535"
  shows "\<exists>cf. main_start files (prog # map option_text kvs) = Inr (Serve cf) \<and>
     cf_poolsize cf = option_or opts ''poolsize'' 10 \<and> uint (cf_port cf) = option_or opts ''port'' 53 \<and>
     named_level opts (cf_debug cf) \<and> cf_dns cf = ip \<and>
     plain_rel (sv_cache (start_state cf)) [] \<and> plain_cap (sv_cache (start_state cf)) = nat (option_or opts ''cachesize'' 1024) \<and>
     reader_of ls (sv_reader (start_state cf)) \<and> sv_log (start_state cf) = clog_set_level log_state0 (cf_debug cf)"
proof -
  have int: "option_or opts ''poolsize'' 10 = (if int_option opts ''poolsize'' = 0 then 10 else int_option opts ''poolsize'')"
      "option_or opts ''cachesize'' 1024 = (if int_option opts ''cachesize'' = 0 then 1024 else int_option opts ''cachesize'')"
      "option_or opts ''port'' 53 = (if int_option opts ''port'' = 0 then 53 else int_option opts ''port'')"
    using assms(11,13,15) by (intro option_or_int; simp)+
  have n: "int_option opts ''cachesize'' \<noteq> 1" "int_option opts ''cachesize'' \<le> 2 ^ 28"
    using assms(13,14) int(2) by (auto split: if_splits)
  obtain cf where cf: "main_start files (prog # map option_text kvs) = Inr (Serve cf)"
      "cf_poolsize cf = pool_size (int_option opts ''poolsize'')" "cf_port cf = listen_port (int_option opts ''port'')"
      "cf_debug cf = first_level opts levels" "cf_dns cf = ip" "plain_rel (sv_cache (start_state cf)) []"
      "plain_cap (sv_cache (start_state cf)) =
        (if int_option opts ''cachesize'' \<le> 0 then 1024 else nat (int_option opts ''cachesize''))"
      "reader_of ls (sv_reader (start_state cf))" "sv_log (start_state cf) = clog_set_level log_state0 (first_level opts levels)"
    using startup_ok [where prog = prog and files = files, OF assms(1-10) refl n] by blast
  have "cf_poolsize cf = option_or opts ''poolsize'' 10"
    using cf(2) int(1) assms(12) by (simp add: pool_size_def Let_def split: if_splits)
  moreover have "uint (cf_port cf) = option_or opts ''port'' 53"
    using cf(3) int(3) assms(15,16) by (rule port_number)
  moreover have "plain_cap (sv_cache (start_state cf)) = nat (option_or opts ''cachesize'' 1024)"
    using cf(7) int(2) assms(13) by (simp split: if_splits)
  ultimately show ?thesis using cf(1,4-6,8,9) first_level_named [of opts] by (intro exI [of _ cf]) simp
qed

theorem startup_serves_witness:
  "\<exists>cf. main_start (\<lambda>_. Some (file_bytes blocking_hosts)) [bytes ''relay'', bytes ''localfile=hosts'', bytes ''dns=10.3.9.4''] =
       Inr (Serve cf) \<and> cf_poolsize cf = 10 \<and> uint (cf_port cf) = 53 \<and> cf_debug cf = CLOG_LEVEL_INFO \<and> cf_dns cf = [10, 3, 9, 4] \<and>
     plain_cap (sv_cache (start_state cf)) = 1024"
proof -
  let ?opts = "options_of (sample_options [])"
  note O = sample_options_ok [where n = "[]", OF insertI1] sample_option_values [where n = "[]", OF insertI1 refl]
  have d: "option_or ?opts ''poolsize'' 10 = 10" "option_or ?opts ''cachesize'' 1024 = 1024" "option_or ?opts ''port'' 53 = 53"
      "?opts (bytes ''debug'') = None"
    by (simp_all add: option_or_def sample_options_def options_of_def option_value_def bytes_def)
  from startup_serves [OF O(1,2) refl O(4,5) refl blocking_hosts_ok O(6) sample_address, of "bytes ''relay''"]
  show ?thesis unfolding O(3) d named_level_def by (auto simp: d)
qed

text \<open>
  The manual says that a pool should not have more than 20 threads and a cache not more than 2048
  entries. The program takes more: up to 150 threads, and caches of any size.
\<close>

theorem sizes_beyond_the_manual:
  "\<exists>cf. main_start (\<lambda>_. Some (file_bytes blocking_hosts)) (map bytes [''relay'', ''localfile=hosts'', ''dns=10.3.9.4'',
       ''poolsize=150'', ''cachesize=9999'']) = Inr (Serve cf) \<and> cf_poolsize cf = 150 \<and> plain_cap (sv_cache (start_state cf)) = 9999"
proof -
  let ?kvs = "[(bytes ''localfile'', Some (bytes ''hosts'')), (bytes ''dns'', Some (bytes ''10.3.9.4'')),
    (bytes ''poolsize'', Some (bytes ''150'')), (bytes ''cachesize'', Some (bytes ''9999''))]"
  let ?opts = "options_of ?kvs"
  have ok: "\<forall>kv \<in> set ?kvs. option_ok kv" "length ?kvs \<le> 2 ^ 29"
    by (simp_all add: option_ok_def option_text_def good_key_def HASH_KEY_MAX_LEN_def bytes_def is_cstring_def delim_def)
  have v: "\<not> has_option ?opts ''--help'' ''true''" "?opts (bytes ''localfile'') = Some (bytes ''hosts'')"
      "?opts (bytes ''dns'') = Some (bytes ''10.3.9.4'')" "int_option ?opts ''cachesize'' = 9999" "int_option ?opts ''poolsize'' = 150"
    by (simp_all add: options_of_def option_value_def has_option_def int_option_def bytes_def atoi_def is_digit_def
        digits_value_def Let_def)
  have args: "bytes ''relay'' # map option_text ?kvs = map bytes [''relay'', ''localfile=hosts'', ''dns=10.3.9.4'',
       ''poolsize=150'', ''cachesize=9999'']"
    by (simp add: option_text_def bytes_def delim_def)
  show ?thesis
    using startup_ok [OF ok refl v(1,2) refl blocking_hosts_ok v(3) sample_address refl, of "bytes ''relay''"]
    unfolding args v by (auto simp: pool_size_def)
qed

end
