(* ===== verification/Server_Run.thy ===== *)
theory Server_Run
  imports Server_Properties Server_Startup
begin

text \<open>
  The relay over many requests: an invariant of the whole state, what the handler needs of a
  request and of the servers it asks, and that every request of a run is then answered exactly
  once and leaves the invariant in place.
\<close>

section \<open>The state\<close>

definition rdata_size :: "rdata \<Rightarrow> nat" where
  "rdata_size d = (case d of Rd_Name s \<Rightarrow> length s + 2 | Rd_Bytes bs \<Rightarrow> length bs)"

definition rdata_ok :: "rdata \<Rightarrow> bool" where
  "rdata_ok d \<longleftrightarrow> (case d of Rd_Name s \<Rightarrow> good_name s | Rd_Bytes bs \<Rightarrow> True)"

text \<open>The size that the records of an item take in a packet, at most; two items fit a reply.\<close>

definition item_size :: "item_val \<Rightarrow> nat" where
  "item_size iv = (\<Sum>d \<leftarrow> iv_data iv. length (iv_name iv) + 12 + rdata_size d)"

definition ITEM_MAX :: nat where
  "ITEM_MAX = 478"

text \<open>An entry of the cache: records of one type under the key of their name and that type.\<close>

definition entry_ok :: "item slot_entry \<Rightarrow> bool" where
  "entry_ok e \<longleftrightarrow> (\<exists>iv t. cached_type t \<and> iv_type iv = ucast t \<and> item_is (e_data e) iv \<and> iv_data iv \<noteq> [] \<and>
     e_key e = item_key (iv_name iv) t \<and> good_name (iv_name iv) \<and> (\<forall>d \<in> set (iv_data iv). rdata_ok d) \<and>
     item_size iv \<le> ITEM_MAX)"

text \<open>The lines of the host file: names with room for their key, addresses that \<open>inet_pton\<close> takes.\<close>

definition hosts_ok :: "(cstring \<times> cstring) list \<Rightarrow> bool" where
  "hosts_ok ls \<longleftrightarrow> (\<forall>(s, a) \<in> set (hosts ls). length s + 2 < HASH_KEY_MAX_LEN \<and> inet_pton a \<noteq> None)"

definition server_ok :: "(cstring \<times> cstring) list \<Rightarrow> server \<Rightarrow> bool" where
  "server_ok ls sv \<longleftrightarrow> hosts_ok ls \<and> reader_of ls (sv_reader sv) \<and> 3 \<le> plain_cap (sv_cache sv) \<and>
     (\<exists>es. plain_rel (sv_cache sv) es \<and> (\<forall>e \<in> set es. entry_ok e))"

text \<open>
  The cache does not lose its only entry while the clock reads \<open>clk\<close>: it is empty, or some entry is
  not past its time at any of the readings.
\<close>

definition calm :: "'v lru \<Rightarrow> (nat \<Rightarrow> int) \<Rightarrow> bool" where
  "calm es clk \<longleftrightarrow> es = [] \<or> (\<exists>k e. lru_find k es = Some e \<and> (\<forall>i. clk i - e_saved e \<le> e_ttl e))"

section \<open>Lookups\<close>

lemma lru_find_mem: "lru_find k es = Some e \<Longrightarrow> e \<in> set es \<and> e_key e = k"
  by (auto simp: lru_find_def find_Some_iff)

lemma lru_find_others: "k \<noteq> k' \<Longrightarrow> lru_find k (lru_others k' es) = lru_find k es"
  by (induction es) (auto simp: lru_find_def lru_others_def)

lemma lru_get_calm:
  assumes "calm es clk"
  shows "calm (fst (lru_get (clk i) k es)) clk" and "fst (lru_get (clk i) k es) \<noteq> [] \<or> es = []"
proof -
  have "calm (fst (lru_get (clk i) k es)) clk \<and> (fst (lru_get (clk i) k es) \<noteq> [] \<or> es = [])"
  proof (cases "es = []")
    case True
    then show ?thesis by (simp add: lru_get_def lru_find_def calm_def)
  next
    case False
    then obtain k' e where e: "lru_find k' es = Some e" "\<forall>i. clk i - e_saved e \<le> e_ttl e"
      using assms by (auto simp: calm_def)
    have "lru_find k' (fst (lru_get (clk i) k es)) = Some e"
    proof (cases "k = k'")
      case True
      have "\<not> e_ttl e < clk i - e_saved e" using e(2) by (simp add: not_less)
      then have "lru_get (clk i) k es = (e # lru_others k es, Some (e_data e))" using e(1) True by (simp add: lru_get_def)
      then show ?thesis using lru_find_mem [OF e(1)] by (simp add: lru_find_def)
    next
      case False
      then have "k' \<noteq> k" by simp
      from lru_find_others [OF this, of es] have o: "lru_find k' (lru_others k es) = Some e" using e(1) by simp
      show ?thesis
      proof (cases "lru_find k es")
        case None
        then show ?thesis using e(1) by (simp add: lru_get_def)
      next
        case (Some x)
        then have "lru_find k' (x # lru_others k es) = Some e"
          using o lru_find_mem [OF Some] \<open>k' \<noteq> k\<close> by (simp add: lru_find_def)
        then show ?thesis using Some o by (simp add: lru_get_def)
      qed
    qed
    then show ?thesis using e(2) unfolding calm_def by (metis find.simps(1) lru_find_def option.distinct(1))
  qed
  then show "calm (fst (lru_get (clk i) k es)) clk" "fst (lru_get (clk i) k es) \<noteq> [] \<or> es = []" by simp_all
qed

lemma lru_get_entries:
  "set (fst (lru_get now k es)) \<subseteq> set es"
  "snd (lru_get now k es) = Some d \<Longrightarrow> \<exists>e \<in> set es. e_key e = k \<and> e_data e = d"
  using lru_find_mem [of k es] by (auto simp: lru_get_def lru_others_def split: option.splits if_splits)

lemma get_calm:
  assumes "plain_rel c es" and "is_cstring k" and "calm es clk"
  obtains c' es' r where "CacheGet c k (clk i) = Inr (c', r)" and "plain_rel c' es'" and "calm es' clk"
    and "set es' \<subseteq> set es" and "plain_cap c' = plain_cap c"
    and "\<And>d. r = Some d \<Longrightarrow> \<exists>e \<in> set es. e_key e = k \<and> e_data e = d"
proof -
  obtain c' where "CacheGet c k (clk i) = Inr (c', snd (lru_get (clk i) k es))"
      "plain_rel c' (fst (lru_get (clk i) k es))" "plain_cap c' = plain_cap c"
    using plain.get_ok [OF assms(1,2) lru_get_calm(2) [OF assms(3)]] by blast
  then show ?thesis
    using that lru_get_calm(1) [OF assms(3)] lru_get_entries(1) lru_get_entries(2) by metis
qed

text \<open>What is found under a name and a type.\<close>

definition found :: "item \<Rightarrow> cstring \<Rightarrow> 16 word \<Rightarrow> item_val \<Rightarrow> bool" where
  "found it s t iv \<longleftrightarrow> item_is it iv \<and> iv_type iv = ucast t \<and> iv_name iv = s \<and> iv_data iv \<noteq> [] \<and>
     good_name s \<and> (\<forall>d \<in> set (iv_data iv). rdata_ok d) \<and> item_size iv \<le> ITEM_MAX"

lemma getItem_calm:
  assumes rel: "plain_rel c es" and ok: "\<forall>e \<in> set es. entry_ok e" and calm: "calm es clk"
    and name: "cstr name = Inr s" "length name \<le> 256" and t: "cached_type t"
  obtains c' es' r where "getItem c name (uint t) (clk i) = Inr (c', r)" and "plain_rel c' es'"
    and "\<forall>e \<in> set es'. entry_ok e" and "calm es' clk" and "plain_cap c' = plain_cap c"
    and "\<And>it. r = Some it \<Longrightarrow> \<exists>iv. found it s t iv"
proof -
  have key: "is_cstring (item_key s t)" by (rule is_cstring_key [OF cstr_is_cstring [OF name(1)]])
  obtain c' es' r where g: "CacheGet c (item_key s t) (clk i) = Inr (c', r)" "plain_rel c' es'" "calm es' clk"
      "set es' \<subseteq> set es" "plain_cap c' = plain_cap c"
    and hit: "\<And>d. r = Some d \<Longrightarrow> \<exists>e \<in> set es. e_key e = item_key s t \<and> e_data e = d"
    by (rule get_calm [where i = i, OF rel key calm]) blast
  have "\<exists>iv. found it s t iv" if r: "r = Some it" for it
  proof -
    obtain e where e: "e \<in> set es" "e_key e = item_key s t" "e_data e = it" using hit [OF r] by blast
    then have "entry_ok e" using ok by blast
    then obtain iv t' where iv: "cached_type t'" "iv_type iv = ucast t'" "item_is it iv" "iv_data iv \<noteq> []"
        "item_key s t = item_key (iv_name iv) t'" "good_name (iv_name iv)" "\<forall>d \<in> set (iv_data iv). rdata_ok d"
        "item_size iv \<le> ITEM_MAX"
      unfolding entry_ok_def e(2,3) by blast
    have "s = iv_name iv \<and> t = t'" using iv(5) t iv(1) by simp
    then show ?thesis using iv by (auto simp: found_def)
  qed
  moreover have "\<forall>e \<in> set es'. entry_ok e" using g(4) ok by blast
  moreover have "getItem c name (uint t) (clk i) = Inr (c', r)" using g(1) by (simp add: getItem_eq [OF name t])
  ultimately show ?thesis using that g(2,3,5) by blast
qed

section \<open>Replies\<close>

text \<open>A reply to a request: its identifier and questions, marked as a response.\<close>

definition is_reply :: "packet \<Rightarrow> packet \<Rightarrow> bool" where
  "is_reply pk r \<longleftrightarrow> pk_ID r = pk_ID pk \<and> pk_ques r = pk_ques pk \<and> bit (pk_flag r) 0"

text \<open>A reply that has room for another \<open>n\<close> records of \<open>sz\<close> bytes.\<close>

definition room_for :: "packet \<Rightarrow> nat \<Rightarrow> nat \<Rightarrow> bool" where
  "room_for pk n sz \<longleftrightarrow> length (pk_rrs pk) = 3 \<and> packet_ok pk \<and> length (pk_rrs pk ! 0) + n \<le> MAX_SIZE \<and>
     packet_size pk + sz \<le> BUFF_LEN"

lemma item_rr_size: "sum_list (map rr_size (map (item_rr iv now) (iv_data iv))) = item_size iv"
  by (simp add: item_size_def rr_size_def item_rr_def rdata_size_def comp_def)

lemma item_rr_ok:
  assumes "found it s t iv" and "cached_type t" and "d \<in> set (iv_data iv)"
  shows "rr_ok (item_rr iv now d)"
proof -
  obtain i where i: "i < length (iv_data iv)" "d = iv_data iv ! i" using assms(3) by (metis in_set_conv_nth)
  then have "slot_is it i d" "it_type it = ucast t" using assms(1) by (auto simp: found_def item_is_def)
  moreover have "ucast (ucast t :: byte) = t" using assms(2) by (auto simp: TYPE_A_def TYPE_NS_def TYPE_CNAME_def)
  moreover have "ucast t = (1 :: byte) \<longleftrightarrow> t = TYPE_A" using assms(2) by (auto simp: TYPE_A_def TYPE_NS_def TYPE_CNAME_def)
  ultimately show ?thesis
    using assms by (auto simp: found_def rr_ok_def item_rr_def slot_is_def rdata_ok_def TYPE_A_def TYPE_NS_def
        TYPE_CNAME_def split: rdata.splits)
qed

lemma found_short: "found it s t iv \<Longrightarrow> length (iv_data iv) \<le> MAX_NUM"
  by (simp add: found_def item_is_def)

lemma with_answers_size:
  "length (pk_rrs pk) = 3 \<Longrightarrow> packet_size (with_answers pk ws) = packet_size pk + sum_list (map rr_size ws)"
  by (auto simp: packet_size_def with_answers_def dest!: three_lists)

lemma with_answers_ok:
  "length (pk_rrs pk) = 3 \<Longrightarrow> packet_ok pk \<Longrightarrow> (\<forall>w \<in> set ws. rr_ok w) \<Longrightarrow> packet_ok (with_answers pk ws)"
  by (auto simp: packet_ok_def with_answers_def dest!: three_lists)

lemma answered_reply:
  assumes "found it s t iv" and "cached_type t" and "is_reply pk0 pk" and "room_for pk (n + MAX_NUM) (sz + ITEM_MAX)"
  shows "is_reply pk0 (answered pk iv now)" and "room_for (answered pk iv now) n sz"
proof -
  have sz: "item_size iv \<le> ITEM_MAX" "length (iv_data iv) \<le> MAX_NUM" using assms(1) found_short by (auto simp: found_def)
  have pk: "length (pk_rrs pk) = 3" "packet_ok pk" using assms(4) by (auto simp: room_for_def)
  show "is_reply pk0 (answered pk iv now)"
    using assms(3) by (simp add: is_reply_def answered_def name_error_def with_answers_def bit_or_iff bit_push_bit_iff)
  have "room_for (with_answers pk (map (item_rr iv now) (iv_data iv))) n sz"
    using assms(4) sz pk with_answers_size [OF pk(1)] with_answers_ok [OF pk] item_rr_ok [OF assms(1,2)] item_rr_size [of iv now]
    by (simp add: room_for_def) (simp add: with_answers_def)
  moreover have "room_for (name_error pk) n sz"
    using assms(4) by (simp add: room_for_def name_error_def packet_ok_def packet_size_def)
  ultimately show "room_for (answered pk iv now) n sz" by (simp add: answered_def)
qed

lemma put_item:
  assumes "found it s t iv" and "cached_type t" and "msg_shape msg" and "message_view msg = Inr pk"
    and "is_reply pk0 pk" and "room_for pk (n + MAX_NUM) (sz + ITEM_MAX)"
  obtains msg' pk' where "Item2Msg msg it (it_name it) now = Inr msg'" and "msg_shape msg'"
    and "message_view msg' = Inr pk'" and "is_reply pk0 pk'" and "room_for pk' n sz"
proof -
  have it: "item_is it iv" "iv_data iv \<noteq> []" using assms(1) by (auto simp: found_def)
  have "length (pk_rrs pk ! 0) + length (iv_data iv) \<le> MAX_SIZE"
    using assms(6) found_short [OF assms(1)] by (simp add: room_for_def)
  then obtain msg' where "Item2Msg msg it (it_name it) now = Inr msg'" "msg_shape msg'"
      "message_view msg' = Inr (answered pk iv now)"
    by (rule Item2Msg_ok [OF it assms(3,4)])
  then show ?thesis using that answered_reply [OF assms(1,2,5,6)] by blast
qed

section \<open>The three sources of an answer\<close>

lemma alias_target:
  assumes "found it s TYPE_CNAME iv"
  obtains target where "cstr (it_strVal it ! 0) = Inr target" and "length (it_strVal it ! 0) \<le> 256"
proof -
  obtain d ds where d: "iv_data iv = d # ds" using assms by (cases "iv_data iv") (auto simp: found_def)
  have it: "item_is it iv" "iv_type iv = 5" using assms by (simp_all add: found_def TYPE_CNAME_def)
  then have "slot_is it 0 d" "it_type it = 5" using d by (auto simp: item_is_def)
  then obtain target where "d = Rd_Name target" by (auto simp: slot_is_def split: rdata.splits)
  then show ?thesis using that cname_target [OF it] d by metis
qed

text \<open>What the cache part of the handler leaves: a sound cache, and a reply if it has one.\<close>

definition cache_serves :: "item Cache \<Rightarrow> packet \<Rightarrow> (item Cache \<times> message option) res \<Rightarrow> bool" where
  "cache_serves c pk0 x \<longleftrightarrow> (\<exists>c' es' r. x = Inr (c', r) \<and> plain_rel c' es' \<and> (\<forall>e \<in> set es'. entry_ok e) \<and>
     plain_cap c' = plain_cap c \<and> (\<forall>msg'. r = Some msg' \<longrightarrow>
       (\<exists>pk'. msg_shape msg' \<and> message_view msg' = Inr pk' \<and> is_reply pk0 pk' \<and> room_for pk' 0 0)))"

lemma cache_servesI:
  "x = Inr (c', r) \<Longrightarrow> plain_rel c' es' \<Longrightarrow> \<forall>e \<in> set es'. entry_ok e \<Longrightarrow> plain_cap c' = plain_cap c \<Longrightarrow>
     (\<And>msg'. r = Some msg' \<Longrightarrow> \<exists>pk'. msg_shape msg' \<and> message_view msg' = Inr pk' \<and> is_reply pk0 pk' \<and> room_for pk' 0 0) \<Longrightarrow>
     cache_serves c pk0 x"
  unfolding cache_serves_def by blast

lemma alias_serves:
  assumes miss: "getItem c name (uint TYPE_A) (clk 0) = Inr (c1, None)"
    and rel: "plain_rel c1 es" and ok: "\<forall>e \<in> set es. entry_ok e" and calm: "calm es clk" and cap: "plain_cap c1 = plain_cap c"
    and name: "cstr name = Inr s" "length name \<le> 256"
    and sh: "msg_shape msg" and v: "message_view msg = Inr pk" and rp: "is_reply pk0 pk"
    and room: "room_for pk (MAX_NUM + MAX_NUM) (ITEM_MAX + ITEM_MAX)"
  shows "cache_serves c pk0 (answer_from_cache clk c msg name TYPE_A)"
proof -
  obtain c2 es2 r2 where g2: "getItem c1 name (uint TYPE_CNAME) (clk 1) = Inr (c2, r2)" "plain_rel c2 es2"
      "\<forall>e \<in> set es2. entry_ok e" "calm es2 clk" "plain_cap c2 = plain_cap c1"
      "\<And>it. r2 = Some it \<Longrightarrow> \<exists>iv. found it s TYPE_CNAME iv"
    by (rule getItem_calm [where i = 1, OF rel ok calm name, of TYPE_CNAME]) blast+
  show ?thesis
  proof (cases r2)
    case None
    have "answer_from_cache clk c msg name TYPE_A = Inr (c2, None)"
      using miss g2(1) None by (simp add: answer_from_cache_def)
    then show ?thesis by (rule cache_servesI [OF _ g2(2,3)]) (simp_all add: g2(5) cap)
  next
    case (Some it)
    then obtain iv where f: "found it s TYPE_CNAME iv" using g2(6) by blast
    obtain target where tg: "cstr (it_strVal it ! 0) = Inr target" "length (it_strVal it ! 0) \<le> 256"
      by (rule alias_target [OF f])
    obtain c3 es3 r3 where g3: "getItem c2 (it_strVal it ! 0) (uint TYPE_A) (clk 2) = Inr (c3, r3)" "plain_rel c3 es3"
        "\<forall>e \<in> set es3. entry_ok e" "plain_cap c3 = plain_cap c2" "\<And>it. r3 = Some it \<Longrightarrow> \<exists>iv. found it target TYPE_A iv"
      by (rule getItem_calm [where i = 2, OF g2(2,3,4) tg, of TYPE_A]) blast+
    have cap3: "plain_cap c3 = plain_cap c" using g3(4) g2(5) cap by simp
    show ?thesis
    proof (cases r3)
      case None
      have "answer_from_cache clk c msg name TYPE_A = Inr (c3, None)"
        using miss g2(1) g3(1) Some None by (simp add: answer_from_cache_def)
      then show ?thesis by (rule cache_servesI [OF _ g3(2,3) cap3]) simp
    next
      case (Some tit)
      then obtain tiv where tf: "found tit target TYPE_A tiv" using g3(5) by blast
      obtain m1 pk1 where m1: "Item2Msg msg it (it_name it) (clk 3) = Inr m1" "msg_shape m1"
          "message_view m1 = Inr pk1" "is_reply pk0 pk1" "room_for pk1 MAX_NUM ITEM_MAX"
        by (rule put_item [where now = "clk 3", OF f _ sh v rp room]) simp_all
      have r0: "room_for pk1 (0 + MAX_NUM) (0 + ITEM_MAX)" using m1(5) by simp
      obtain m2 pk2 where m2: "Item2Msg m1 tit (it_name tit) (clk 4) = Inr m2" "msg_shape m2"
          "message_view m2 = Inr pk2" "is_reply pk0 pk2" "room_for pk2 0 0"
        by (rule put_item [where now = "clk 4", OF tf _ m1(2-4) r0]) simp_all
      have "answer_from_cache clk c msg name TYPE_A = Inr (c3, Some m2)"
        using miss g2(1) g3(1) m1(1) m2(1) \<open>r2 = Some it\<close> Some by (simp add: answer_from_cache_def)
      then show ?thesis by (rule cache_servesI [OF _ g3(2,3) cap3]) (use m2 in auto)
    qed
  qed
qed

lemma answer_from_cache_serves:
  assumes rel: "plain_rel c es" and ok: "\<forall>e \<in> set es. entry_ok e" and calm: "calm es clk"
    and name: "cstr name = Inr s" "length name \<le> 256"
    and sh: "msg_shape msg" and v: "message_view msg = Inr pk" and rp: "is_reply pk0 pk"
    and room: "room_for pk (2 * MAX_NUM) (2 * ITEM_MAX)"
  shows "cache_serves c pk0 (answer_from_cache clk c msg name t)"
proof (cases "cached_type t")
  case False
  then have "answer_from_cache clk c msg name t = Inr (c, None)" by (simp add: answer_from_cache_def)
  then show ?thesis by (rule cache_servesI [OF _ rel ok]) simp_all
next
  case True
  have room1: "room_for pk (MAX_NUM + MAX_NUM) (ITEM_MAX + ITEM_MAX)" "room_for pk (0 + MAX_NUM) (0 + ITEM_MAX)"
    using room by (auto simp: room_for_def)
  obtain c1 es1 r1 where g1: "getItem c name (uint t) (clk 0) = Inr (c1, r1)" "plain_rel c1 es1"
      "\<forall>e \<in> set es1. entry_ok e" "calm es1 clk" "plain_cap c1 = plain_cap c"
      "\<And>it. r1 = Some it \<Longrightarrow> \<exists>iv. found it s t iv"
    by (rule getItem_calm [where i = 0, OF rel ok calm name True]) blast
  show ?thesis
  proof (cases r1)
    case (Some it)
    then obtain iv where f: "found it s t iv" using g1(6) by blast
    obtain msg' pk' where m: "Item2Msg msg it (it_name it) (clk 1) = Inr msg'" "msg_shape msg'"
        "message_view msg' = Inr pk'" "is_reply pk0 pk'" "room_for pk' 0 0"
      by (rule put_item [where now = "clk 1", OF f True sh v rp room1(2)])
    have "answer_from_cache clk c msg name t = Inr (c1, Some msg')"
      using g1(1) m(1) Some True by (auto simp: answer_from_cache_def)
    then show ?thesis by (rule cache_servesI [OF _ g1(2,3,5)]) (use m in auto)
  next
    case None
    show ?thesis
    proof (cases "t = TYPE_A")
      case False
      then have "answer_from_cache clk c msg name t = Inr (c1, None)"
        using g1(1) None True by (auto simp: answer_from_cache_def)
      then show ?thesis by (rule cache_servesI [OF _ g1(2,3,5)]) simp
    next
      case True
      then show ?thesis using alias_serves [OF _ g1(2-5) name sh v rp room1(1)] g1(1) None by simp
    qed
  qed
qed

text \<open>The host file.\<close>

definition serves :: "(cstring \<times> cstring) list \<Rightarrow> packet \<Rightarrow> (server \<times> message option) res \<Rightarrow> bool" where
  "serves ls pk0 x \<longleftrightarrow> (\<exists>sv r. x = Inr (sv, r) \<and> server_ok ls sv \<and> (\<forall>msg'. r = Some msg' \<longrightarrow>
     (\<exists>pk'. msg_shape msg' \<and> message_view msg' = Inr pk' \<and> is_reply pk0 pk' \<and> room_for pk' 0 0)))"

lemma file_item_found:
  assumes "item_is it (file_item s bs now)" and "good_name s" and "length bs = 4"
  shows "found it s TYPE_A (file_item s bs now)"
proof -
  have "length s < 50" using assms(2) by (simp add: good_name_def good_key_def HASH_KEY_MAX_LEN_def)
  then show ?thesis
    using assms by (simp add: found_def file_item_def TYPE_A_def rdata_ok_def item_size_def rdata_size_def ITEM_MAX_def)
qed

lemma found_entry:
  "found it s t iv \<Longrightarrow> cached_type t \<Longrightarrow> entry_ok \<lparr>e_key = item_key s t, e_saved = a, e_ttl = b, e_data = it\<rparr>"
  unfolding entry_ok_def found_def by auto

lemma file_serves:
  assumes sv: "server_ok ls sv" and name: "cstr name = Inr s" and good: "good_name s"
    and sh: "msg_shape msg" and v: "message_view msg = Inr pk" and rp: "is_reply pk0 pk"
    and room: "room_for pk (0 + MAX_NUM) (0 + ITEM_MAX)"
  shows "serves ls pk0 (answer_from_file clk sv msg name t)"
proof (cases "t \<noteq> TYPE_A \<or> map_of (rev (hosts ls)) s = None")
  case True
  have "reader_of ls (sv_reader sv)" using sv by (simp add: server_ok_def)
  from no_file [OF this name True] sv show ?thesis by (simp add: serves_def)
next
  case False
  then obtain a where a: "map_of (rev (hosts ls)) s = Some a" and t: "t = TYPE_A" by blast
  obtain es where sv': "hosts_ok ls" "reader_of ls (sv_reader sv)" "3 \<le> plain_cap (sv_cache sv)"
      "plain_rel (sv_cache sv) es" "\<forall>e \<in> set es. entry_ok e" using sv by (auto simp: server_ok_def)
  have "(s, a) \<in> set (hosts ls)" using map_of_SomeD [OF a] by simp
  then have h: "length s + 2 < HASH_KEY_MAX_LEN" "inet_pton a \<noteq> None" using sv'(1) by (auto simp: hosts_ok_def)
  then obtain bs where bs: "inet_pton a = Some bs" by blast
  have "length (pk_rrs pk ! 0) < MAX_SIZE" using room by (simp add: room_for_def MAX_NUM_def)
  then obtain sv1 it msg' where f: "answer_from_file clk sv msg name TYPE_A = Inr (sv1, Some msg')"
      "item_is it (file_item s bs (clk 5))"
      "plain_rel (sv_cache sv1) (lru_put (plain_cap (sv_cache sv)) (clk 7) (item_key s TYPE_A) it (600000 + clk 5 - clk 6) es)"
      "plain_cap (sv_cache sv1) = plain_cap (sv_cache sv)" "reader_of ls (sv_reader sv1)" "msg_shape msg'"
      "message_view msg' = Inr (answered pk (file_item s bs (clk 5)) (clk 8))"
    by (rule file_hit [where clk = clk, OF sv'(4) name h(1) sv'(2) a bs sh v]) metis
  note found = file_item_found [OF f(2) good inet_pton_length [OF bs]]
  have "entry_ok \<lparr>e_key = item_key s TYPE_A, e_saved = clk 7, e_ttl = 600000 + clk 5 - clk 6, e_data = it\<rparr>"
    using found_entry [OF found] by simp
  then have "server_ok ls sv1" using f(3-5) sv'(1,3,5) set_lru_put by (fastforce simp: server_ok_def)
  then show ?thesis
    using f(1,6,7) t answered_reply [OF found _ rp room] by (simp add: serves_def)
qed

text \<open>The DNS server: what its answers must be like, and the three ways it can end.\<close>

definition fits_items :: "rr_val list \<Rightarrow> bool" where
  "fits_items ws \<longleftrightarrow> cachable ws \<and> (\<forall>w \<in> set ws. cached_type (rv_type w) \<longrightarrow> good_name (rv_name w) \<and> rdata_ok (rv_data w) \<and>
     (\<Sum>v \<leftarrow> filter (\<lambda>v. rv_type v = rv_type w) ws. length (rv_name w) + 12 + rdata_size (rv_data v)) \<le> ITEM_MAX)"

definition good_answer :: "cstring \<Rightarrow> bool" where
  "good_answer ans \<longleftrightarrow> (\<exists>r pk. decode (answer_buff ans) = Some (Inr r) \<and> message_view r = Inr pk \<and> fits_items (pk_rrs pk ! 0))"

lemma collected_ok:
  assumes "fits_items ws" and "cached_type t" and "collected_entry clk ws t e"
  shows "entry_ok e"
proof -
  let ?iv = "collect (\<lambda>i. clk (15 + i)) t ws (length ws)" and ?vs = "filter (\<lambda>w. rv_type w = t) ws"
  have iv: "iv_data ?iv \<noteq> []" "item_is (e_data e) ?iv" "e_key e = item_key (iv_name ?iv) t"
    using assms(3) by (simp_all add: collected_entry_def Let_def)
  have data: "iv_data ?iv = map rv_data ?vs" by (simp add: collect_data)
  obtain w where w: "w \<in> set ws" "rv_type w = t" "iv_name ?iv = rv_name w"
    using collect_name [of "length ws" ws _ t] iv(1) by blast
  then have "good_name (iv_name ?iv)" "item_size ?iv \<le> ITEM_MAX"
    using assms(1,2) by (auto simp: fits_items_def item_size_def data comp_def)
  moreover have "\<forall>d \<in> set (iv_data ?iv). rdata_ok d" using assms(1,2) by (auto simp: fits_items_def data)
  moreover have "iv_type ?iv = ucast t" using collect_type iv(1) by simp
  ultimately show ?thesis using iv assms(2) unfolding entry_ok_def by blast
qed

text \<open>What the client gets of a request with the packet \<open>pk\<close>, sent on as \<open>req\<close>.\<close>

definition answered_once :: "(carr \<Rightarrow> net_result) \<Rightarrow> carr \<Rightarrow> sockaddr_in \<Rightarrow> packet \<Rightarrow> event list \<Rightarrow> bool" where
  "answered_once net req cli pk evs \<longleftrightarrow>
     (\<exists>ans. net req = Answer ans \<and>
        evs = [Socket_Open, To_Server req, Socket_Close, To_Client (map Some (take BUFF_LEN ans)) cli]) \<or>
     (\<exists>d reply. client_sees d reply \<and> is_reply pk reply \<and>
        (evs = [To_Client d cli] \<or>
         net req = No_Answer \<and> evs = [Socket_Open, To_Server req, To_Client d cli] \<or>
         net req = Send_Failed \<and> evs = [Socket_Open, To_Client d cli]))"

lemma relay_serves:
  assumes sv: "server_ok ls sv" and sh: "msg_shape msg" and v: "message_view msg = Inr pk" and rp: "is_reply pk0 pk"
    and room: "room_for pk 0 0" and q: "pk_ques pk \<noteq> []" "qv_type (hd (pk_ques pk)) < 50"
    and net: "\<And>ans. net (map Some (take BUFF_LEN dgram)) = Answer ans \<Longrightarrow> good_answer ans"
  shows "\<exists>sv' evs. relay net clk sv (receive dgram cli) msg = Some (Inr (sv', evs)) \<and> server_ok ls sv' \<and>
     answered_once net (map Some (take BUFF_LEN dgram)) cli pk0 evs"
proof -
  have ok: "packet_ok pk" "packet_size pk \<le> BUFF_LEN" using room by (simp_all add: room_for_def)
  obtain d where d: "fail_reply msg cli = Inr (To_Client d cli)" "client_sees d (server_failure pk)"
    by (rule fail_reply_ok [OF sh v ok])
  have fail: "is_reply pk0 (server_failure pk)"
    using rp by (simp add: is_reply_def server_failure_def bit_or_iff)
  have cli: "a_cliAddr (receive dgram cli) = cli" by (simp add: receive_def Let_def)
  show ?thesis
  proof (cases "net (map Some (take BUFF_LEN dgram))")
    case Send_Failed
    have "\<exists>s. showRequest (sv_log sv) msg CLOG_LEVEL_INFO = Inr s" by (rule showRequest_runs [OF v q])
    then have "relay net clk sv (receive dgram cli) msg = Some (Inr (sv, [Socket_Open, To_Client d cli]))"
      unfolding relay_def receive_request cli using Send_Failed d(1) by auto
    then show ?thesis using sv d(2) fail Send_Failed unfolding answered_once_def by blast
  next
    case No_Answer
    then have "relay net clk sv (receive dgram cli) msg =
        Some (Inr (sv, [Socket_Open, To_Server (map Some (take BUFF_LEN dgram)), To_Client d cli]))"
      unfolding relay_def receive_request cli using d(1) by simp
    then show ?thesis using sv d(2) fail No_Answer unfolding answered_once_def by blast
  next
    case (Answer ans)
    obtain r rpk where r: "decode (answer_buff ans) = Some (Inr r)" "message_view r = Inr rpk" "fits_items (pk_rrs rpk ! 0)"
      using net [OF Answer] by (auto simp: good_answer_def)
    obtain es where s: "hosts_ok ls" "reader_of ls (sv_reader sv)" "3 \<le> plain_cap (sv_cache sv)" "plain_rel (sv_cache sv) es"
        "\<forall>e \<in> set es. entry_ok e" using sv by (auto simp: server_ok_def)
    have rsh: "msg_shape r" using decode_decoded [OF r(1)] by (simp add: decoded_def)
    have cach: "cachable (pk_rrs rpk ! 0)" using r(3) by (simp add: fits_items_def)
    obtain c' es' where c': "cache_answer clk (sv_cache sv) r = Inr c'" "plain_rel c' es'" "plain_cap c' = plain_cap (sv_cache sv)"
        "\<And>e. e \<in> set es' \<Longrightarrow> e \<in> set es \<or> (\<exists>t. cached_type t \<and> collected_entry clk (pk_rrs rpk ! 0) t e)"
      by (rule cache_answer_ok [where clk = clk, OF s(4,3) rsh r(2) refl cach]) metis
    have "\<forall>e \<in> set es'. entry_ok e" using c'(4) s(5) collected_ok [OF r(3)] by blast
    then have "server_ok ls (sv\<lparr>sv_cache := c'\<rparr>)" using s c' by (auto simp: server_ok_def)
    then show ?thesis
      using relay_runs [where net = net, OF Answer r(1) sh v, of clk sv cli] c'(1) Answer
      unfolding answered_once_def by auto
  qed
qed

section \<open>One request\<close>

definition request_ok :: "cstring \<Rightarrow> packet \<Rightarrow> bool" where
  "request_ok dgram pk \<longleftrightarrow> (\<exists>q. (\<forall>cli. query_of (receive dgram cli) pk q) \<and> pk_ques pk = [q] \<and> good_name (qv_name q) \<and>
     qv_type q < 50) \<and> pk_rrs pk ! 0 = [] \<and> pk_rrs pk ! 1 = []"

lemma reply_to_room:
  assumes "request_ok dgram pk" and "length (pk_rrs pk) = 3"
  shows "is_reply pk (reply_to pk)" and "room_for (reply_to pk) (2 * MAX_NUM) (2 * ITEM_MAX)"
proof -
  obtain q where q: "pk_ques pk = [q]" "good_name (qv_name q)" using assms(1) by (auto simp: request_ok_def)
  have rrs: "(pk_rrs pk)[2 := []] = [[], [], []]"
    using assms three_lists [OF assms(2)] by (auto simp: request_ok_def)
  have "length (qv_name q) < 50" using q(2) by (simp add: good_name_def good_key_def HASH_KEY_MAX_LEN_def)
  then show "room_for (reply_to pk) (2 * MAX_NUM) (2 * ITEM_MAX)"
    using q by (simp add: room_for_def reply_to_def rrs packet_ok_def packet_size_def ques_size_def MAX_NUM_def MAX_SIZE_def
        ITEM_MAX_def BUFF_LEN_def)
  have "bit (1 :: 16 word) 0" by simp
  then show "is_reply pk (reply_to pk)" by (simp add: is_reply_def reply_to_def bit_or_iff)
qed

definition calm_server :: "server \<Rightarrow> (nat \<Rightarrow> int) \<Rightarrow> bool" where
  "calm_server sv clk \<longleftrightarrow> (\<exists>es. plain_rel (sv_cache sv) es \<and> calm es clk)"

text \<open>A handler that has a reply sends it.\<close>

definition has_reply :: "packet \<Rightarrow> message \<Rightarrow> bool" where
  "has_reply pk0 msg \<longleftrightarrow> (\<exists>pk. msg_shape msg \<and> message_view msg = Inr pk \<and> is_reply pk0 pk \<and> room_for pk 0 0)"

lemma reply_sent:
  assumes "has_reply pk msg"
  obtains d where "send_reply msg cli = Inr (To_Client d cli)" and "answered_once net req cli pk [To_Client d cli]"
proof -
  obtain pk' where pk': "msg_shape msg" "message_view msg = Inr pk'" "is_reply pk pk'" "packet_ok pk'" "packet_size pk' \<le> BUFF_LEN"
    using assms by (auto simp: has_reply_def room_for_def)
  obtain d where "send_reply msg cli = Inr (To_Client d cli)" "client_sees d pk'"
    by (rule send_reply_ok [OF pk'(1,2,4,5)])
  then show ?thesis using that pk'(3) unfolding answered_once_def by blast
qed

lemma handle_query_serves:
  assumes sv: "server_ok ls sv" and calm: "calm_server sv clk"
    and name: "cstr name = Inr s" "length name = STR_LEN" and good: "good_name s"
    and sh: "msg_shape msg" and v: "message_view msg = Inr pk" and rp: "is_reply pk0 pk" 
    and room: "room_for pk (2 * MAX_NUM) (2 * ITEM_MAX)" and q: "pk_ques pk \<noteq> []" "qv_type (hd (pk_ques pk)) < 50"
    and net: "\<And>ans. net (map Some (take BUFF_LEN dgram)) = Answer ans \<Longrightarrow> good_answer ans"
  shows "\<exists>sv' evs. handle_query net clk sv (receive dgram cli) msg name t = Some (Inr (sv', evs)) \<and> server_ok ls sv' \<and>
     answered_once net (map Some (take BUFF_LEN dgram)) cli pk0 evs"
proof -
  obtain es where es: "plain_rel (sv_cache sv) es" "\<forall>e \<in> set es. entry_ok e" "calm es clk"
    using sv calm plain_rel_unique unfolding server_ok_def calm_server_def by blast
  have cli: "a_cliAddr (receive dgram cli) = cli" by (simp add: receive_def Let_def)
  have rooms: "room_for pk (0 + MAX_NUM) (0 + ITEM_MAX)" "room_for pk 0 0" using room by (auto simp: room_for_def)
  obtain c' es' r where c: "answer_from_cache clk (sv_cache sv) msg name t = Inr (c', r)" "plain_rel c' es'"
      "\<forall>e \<in> set es'. entry_ok e" "plain_cap c' = plain_cap (sv_cache sv)" "\<And>msg'. r = Some msg' \<Longrightarrow> has_reply pk0 msg'"
    using answer_from_cache_serves [OF es name(1) STR_LEN_256 [OF name(2)] sh v rp room, of t]
    unfolding cache_serves_def has_reply_def by blast
  let ?sv = "sv\<lparr>sv_cache := c'\<rparr>"
  have sv1: "server_ok ls ?sv" using sv c(2-4) by (auto simp: server_ok_def)
  show ?thesis
  proof (cases r)
    case (Some msg')
    obtain d where d: "send_reply msg' cli = Inr (To_Client d cli)"
        "answered_once net (map Some (take BUFF_LEN dgram)) cli pk0 [To_Client d cli]"
      by (rule reply_sent [OF c(5) [OF Some]])
    then have "handle_query net clk sv (receive dgram cli) msg name t = Some (Inr (?sv, [To_Client d cli]))"
      using c(1) Some by (simp add: handle_query_def cli)
    then show ?thesis using sv1 d(2) by blast
  next
    case None
    obtain sv2 r2 where f: "answer_from_file clk ?sv msg name t = Inr (sv2, r2)" "server_ok ls sv2"
        "\<And>msg'. r2 = Some msg' \<Longrightarrow> has_reply pk0 msg'"
      using file_serves [OF sv1 name(1) good sh v rp rooms(1), of clk t] unfolding serves_def has_reply_def by blast
    show ?thesis
    proof (cases r2)
      case (Some msg')
      obtain d where d: "send_reply msg' cli = Inr (To_Client d cli)"
          "answered_once net (map Some (take BUFF_LEN dgram)) cli pk0 [To_Client d cli]"
        by (rule reply_sent [OF f(3) [OF Some]])
      then have "handle_query net clk sv (receive dgram cli) msg name t = Some (Inr (sv2, [To_Client d cli]))"
        using c(1) f(1) None Some by (simp add: handle_query_def cli)
      then show ?thesis using f(2) d(2) by blast
    next
      case None
      from relay_serves [where net = net and clk = clk, OF f(2) sh v rp rooms(2) q net]
      show ?thesis using c(1) f(1) \<open>r = None\<close> None by (simp add: handle_query_def)
    qed
  qed
qed

lemma handler_serves:
  assumes sv: "server_ok ls sv" and calm: "calm_server sv clk" and req: "request_ok dgram pk"
    and net: "\<And>ans. net (map Some (take BUFF_LEN dgram)) = Answer ans \<Longrightarrow> good_answer ans"
  shows "\<exists>sv' evs. handler net clk sv (receive dgram cli) = Some (Inr (sv', evs)) \<and> server_ok ls sv' \<and>
     answered_once net (map Some (take BUFF_LEN dgram)) cli pk evs"
proof -
  obtain q where q: "query_of (receive dgram cli) pk q" "pk_ques pk = [q]" "good_name (qv_name q)" "qv_type q < 50"
    using req by (auto simp: request_ok_def)
  have short: "length (qv_name q) < STR_LEN"
    using q(3) by (simp add: good_name_def good_key_def HASH_KEY_MAX_LEN_def STR_LEN_def)
  obtain msg name where h: "handler net clk sv (receive dgram cli) =
        handle_query net clk sv (receive dgram cli) msg name (qv_type q)"
      "msg_shape msg" "message_view msg = Inr (reply_to pk)" "cstr name = Inr (qv_name q)" "length name = STR_LEN"
    by (rule handler_query [OF q(1,4) short])
  have l3: "length (pk_rrs pk) = 3" using h(3) by (simp add: message_view_iff reply_to_def)
  have "pk_ques (reply_to pk) \<noteq> []" "qv_type (hd (pk_ques (reply_to pk))) < 50" using q(2,4) by (simp_all add: reply_to_def)
  from handle_query_serves [where net = net and clk = clk, OF sv calm h(4,5) q(3) h(2,3) reply_to_room [OF req l3] this net]
  show ?thesis unfolding h(1) .
qed

section \<open>A run\<close>

text \<open>
  A request and its circumstances. One worker runs the tasks that the loop of \<open>main\<close> makes of the
  datagrams, in their order.
\<close>

record job =
  j_dgram :: cstring
  j_cli :: sockaddr_in
  j_net :: "carr \<Rightarrow> net_result"
  j_clk :: "nat \<Rightarrow> int"

fun server_run :: "job list \<Rightarrow> server \<Rightarrow> (server \<times> event list list) run" where
  "server_run [] sv = Some (Inr (sv, []))"
| "server_run (j # js) sv =
     bindR (handler (j_net j) (j_clk j) sv (receive (j_dgram j) (j_cli j))) (\<lambda>(sv, evs).
     bindR (server_run js sv) (\<lambda>(sv, evss). Some (Inr (sv, evs # evss))))"

definition sent_on :: "job \<Rightarrow> carr" where
  "sent_on j = map Some (take BUFF_LEN (j_dgram j))"

definition job_ok :: "job \<Rightarrow> packet \<Rightarrow> bool" where
  "job_ok j pk \<longleftrightarrow> request_ok (j_dgram j) pk \<and> (\<forall>ans. j_net j (sent_on j) = Answer ans \<longrightarrow> good_answer ans)"

text \<open>At every request the cache is calm.\<close>

fun calm_run :: "job list \<Rightarrow> server \<Rightarrow> bool" where
  "calm_run [] sv \<longleftrightarrow> True"
| "calm_run (j # js) sv \<longleftrightarrow> calm_server sv (j_clk j) \<and>
     (\<forall>sv' evs. handler (j_net j) (j_clk j) sv (receive (j_dgram j) (j_cli j)) = Some (Inr (sv', evs)) \<longrightarrow> calm_run js sv')"

definition job_answered :: "job \<times> packet \<Rightarrow> event list \<Rightarrow> bool" where
  "job_answered = (\<lambda>(j, pk) evs. answered_once (j_net j) (sent_on j) (j_cli j) pk evs)"

lemma run_serves:
  assumes "server_ok ls sv" and "list_all2 job_ok js pks" and "calm_run js sv"
  shows "\<exists>sv' evss. server_run js sv = Some (Inr (sv', evss)) \<and> server_ok ls sv' \<and>
     list_all2 job_answered (zip js pks) evss"
  using assms
proof (induction js arbitrary: sv pks)
  case (Cons j js)
  obtain pk pks' where pks: "pks = pk # pks'" "job_ok j pk" "list_all2 job_ok js pks'"
    using Cons.prems(2) by (cases pks) auto
  have net: "good_answer ans" if "j_net j (map Some (take BUFF_LEN (j_dgram j))) = Answer ans" for ans
    using pks(2) that by (simp add: job_ok_def sent_on_def)
  have "calm_server sv (j_clk j)" "request_ok (j_dgram j) pk" using Cons.prems(3) pks(2) by (simp_all add: job_ok_def)
  then obtain sv1 evs where h: "handler (j_net j) (j_clk j) sv (receive (j_dgram j) (j_cli j)) = Some (Inr (sv1, evs))"
      "server_ok ls sv1" "answered_once (j_net j) (sent_on j) (j_cli j) pk evs"
    using handler_serves [where net = "j_net j" and cli = "j_cli j", OF Cons.prems(1) _ _ net] unfolding sent_on_def by blast
  have "calm_run js sv1" using Cons.prems(3) h(1) by simp
  from Cons.IH [OF h(2) pks(3) this] show ?case
    using h(1,3) pks(1) by (auto simp: job_answered_def)
qed simp

section \<open>Properties\<close>



definition second_job :: job where
  "second_job = \<lparr>j_dgram = sample_query 1, j_cli = sample_cli, j_net = \<lambda>_. No_Answer, j_clk = \<lambda>_. 1030\<rparr>"


lemma sample_request_ok: "t < 50 \<Longrightarrow> request_ok (sample_query t) (sample_packet 0x80 t 0)"
proof -
  assume t: "t < 50"
  then have "(ucast t :: 16 word) < 50" by (simp add: word_less_nat_alt unsigned_ucast_eq take_bit_eq_mod)
  then show ?thesis
    using sample_query_of sample_name_ok
    by (auto simp: request_ok_def sample_packet_def sample_ques_def intro!: exI [of _ "sample_ques t"])
qed


lemma sample_hosts_ok: "hosts_ok blocking_hosts"
  by (simp add: hosts_ok_def blocking_hosts_def hosts_def HASH_KEY_MAX_LEN_def bytes_def sample_name_def
      inet_pton_def octet_def is_digit_def digits_value_def Let_def)



text \<open>
  The program from its command line on: started with a host file, a DNS server and room for at
  least three entries, the relay serves with an empty cache, and from then on answers every request of every sequence
  as above.
\<close>
theorem program_answers_requests:
  assumes "\<forall>kv \<in> set kvs. option_ok kv" and "length kvs \<le> 2 ^ 29" and "opts = options_of kvs"
    and "\<not> has_option opts ''--help'' ''true''"
    and "opts (bytes ''localfile'') = Some path" and "files path = Some (file_bytes ls)"
    and "\<forall>l \<in> set ls. line_ok l" and "length ls \<le> 2 ^ 29" and "hosts_ok ls"
    and "opts (bytes ''dns'') = Some addr" and "inet_pton addr = Some ip"
    and "n = int_option opts ''cachesize''" and "n \<le> 0 \<or> 3 \<le> n" and "n \<le> 2 ^ 28"
  shows "\<exists>cf. main_start files (prog # map option_text kvs) = Inr (Serve cf) \<and>
     plain_rel (sv_cache (start_state cf)) [] \<and> (\<forall>js pks. list_all2 job_ok js pks \<longrightarrow> calm_run js (start_state cf) \<longrightarrow>
        (\<exists>sv' evss. server_run js (start_state cf) = Some (Inr (sv', evss)) \<and> server_ok ls sv' \<and>
           list_all2 job_answered (zip js pks) evss))"
proof -
  have "n \<noteq> 1" using assms(13) by auto
  then obtain cf where cf: "main_start files (prog # map option_text kvs) = Inr (Serve cf)"
      "plain_rel (sv_cache (start_state cf)) []" "plain_cap (sv_cache (start_state cf)) = (if n \<le> 0 then 1024 else nat n)"
      "reader_of ls (sv_reader (start_state cf))"
    using startup_ok [where prog = prog and files = files, OF assms(1-8,10-12) _ assms(14)] by blast
  have "server_ok ls (start_state cf)"
    using cf(2-4) assms(9,13) by (auto simp: server_ok_def)
  then show ?thesis using cf(1,2) run_serves by blast
qed

theorem program_answers_requests_witness:
  "\<exists>cf sv' evs. main_start (\<lambda>_. Some (file_bytes blocking_hosts)) [bytes ''relay'', bytes ''localfile=hosts'', bytes ''dns=10.3.9.4''] =
       Inr (Serve cf) \<and> server_run [second_job] (start_state cf) = Some (Inr (sv', [evs])) \<and>
     answered_once (\<lambda>_. No_Answer) (sent_on second_job) sample_cli (sample_packet 0x80 1 0) evs"
proof -
  let ?opts = "options_of (sample_options [])"
  note O = sample_options_ok [where n = "[]", OF insertI1] sample_option_values [where n = "[]", OF insertI1 refl]
  obtain cf where cf: "main_start (\<lambda>_. Some (file_bytes blocking_hosts)) (bytes ''relay'' # map option_text (sample_options [])) = Inr (Serve cf)"
      "plain_rel (sv_cache (start_state cf)) []" "\<And>js pks. list_all2 job_ok js pks \<Longrightarrow> calm_run js (start_state cf) \<Longrightarrow>
        \<exists>sv' evss. server_run js (start_state cf) = Some (Inr (sv', evss)) \<and> server_ok blocking_hosts sv' \<and>
          list_all2 job_answered (zip js pks) evss"
    using program_answers_requests [OF O(1,2) refl O(4,5) refl blocking_hosts_ok sample_hosts_ok O(6) sample_address refl, of "bytes ''relay''"]
    by (auto simp: O)
  have "list_all2 job_ok [second_job] [sample_packet 0x80 1 0]"
    using sample_request_ok [of 1] by (simp add: job_ok_def second_job_def)
  moreover have "calm_run [second_job] (start_state cf)"
    using cf(2) by (auto simp: calm_server_def calm_def)
  ultimately show ?thesis
    using cf(3) [of "[second_job]" "[sample_packet 0x80 1 0]"] cf(1) unfolding O(3)
    by (fastforce simp: list_all2_Cons1 job_answered_def second_job_def)
qed

end
