(* ===== verification/Server_Pool.thy ===== *)
theory Server_Pool
  imports Pool_Serving Server_Run
begin

text \<open>
  The relay as the whole program runs it: the loop of \<open>main\<close> makes a task of every datagram and
  gives it to the pool, and the worker of the pool runs the handler on it. With one thread in the
  pool the handlers run one after the other, in the order of the datagrams.
\<close>

section \<open>Prefixes of a run\<close>







section \<open>Property\<close>




end
