(* ===== verification/Server_Tasks.thy ===== *)
theory Server_Tasks
  imports Server
begin

text \<open>
  The handler of \<open>server.c\<close> as one of many threads. What a handler does with the state it shares with
  the others is one step each: the two critical sections of \<open>CacheGet\<close>, \<open>CachePut\<close>, the seek and the
  scan of a lookup in the host file; so are its calls of the socket library. Between two steps the
  other threads may make theirs. A handler that has got so far is a \<open>task\<close>: its next step, and what
  it does with the outcome.
\<close>

section \<open>Tasks\<close>

datatype task =
    Cache_Find cstring int "item option \<Rightarrow> task"
  | Cache_Copy cstring ptr "item option \<Rightarrow> task"
  | Cache_Put cstring item int int task
  | File_Seek carr "carr option \<Rightarrow> task"
  | File_Scan nat "carr option \<Rightarrow> task"
  | Does event task
  | Returns
  | Faults fault
  | Diverges

text \<open>Code between two steps, which touches only the thread's own memory.\<close>

definition locally :: "'a res \<Rightarrow> ('a \<Rightarrow> task) \<Rightarrow> task" where
  "locally x k = (case x of Inl f \<Rightarrow> Faults f | Inr a \<Rightarrow> k a)"

definition locally_run :: "'a run \<Rightarrow> ('a \<Rightarrow> task) \<Rightarrow> task" where
  "locally_run x k = (case x of None \<Rightarrow> Diverges | Some r \<Rightarrow> locally r k)"

section \<open>The handler\<close>

definition getItem_task :: "carr \<Rightarrow> int \<Rightarrow> int \<Rightarrow> (item option \<Rightarrow> task) \<Rightarrow> task" where
  "getItem_task name type now k =
     locally (calcKey name type (uninit 501)) (\<lambda>(key, _).
     locally (cstr key) (\<lambda>s. Cache_Find s now k))"

definition putItem_task :: "carr \<Rightarrow> int \<Rightarrow> item \<Rightarrow> int \<Rightarrow> int \<Rightarrow> task \<Rightarrow> task" where
  "putItem_task name type it now now' t =
     (if it_type it = 0 then t
      else
        locally (calcKey name type (uninit 501)) (\<lambda>(key, _).
        locally (cstr key) (\<lambda>s. Cache_Put s it (it_ddl it - now) now' t)))"

text \<open>A branch that answers by itself and returns.\<close>

definition reply_task :: "message \<Rightarrow> sockaddr_in \<Rightarrow> task" where
  "reply_task msg cli = locally (send_reply msg cli) (\<lambda>e. Does e Returns)"

definition fail_task :: "message \<Rightarrow> sockaddr_in \<Rightarrow> task" where
  "fail_task msg cli = locally (fail_reply msg cli) (\<lambda>e. Does e Returns)"

text \<open>The lookups in the cache; \<open>other\<close> is the rest of the handler, for a name that is not there.\<close>

definition alias_task ::
  "(nat \<Rightarrow> int) \<Rightarrow> message \<Rightarrow> carr \<Rightarrow> sockaddr_in \<Rightarrow> task \<Rightarrow> task" where
  "alias_task clk msg name cli other =
     getItem_task name (uint TYPE_CNAME) (clk 1) (\<lambda>r. case r of
       None \<Rightarrow> other
     | Some it \<Rightarrow>
         getItem_task (it_strVal it ! 0) (uint TYPE_A) (clk 2) (\<lambda>r. case r of
           None \<Rightarrow> other
         | Some tit \<Rightarrow>
             locally (Item2Msg msg it (it_name it) (clk 3)) (\<lambda>msg.
             locally (Item2Msg msg tit (it_name tit) (clk 4)) (\<lambda>msg. reply_task msg cli))))"

definition cache_task ::
  "(nat \<Rightarrow> int) \<Rightarrow> message \<Rightarrow> carr \<Rightarrow> 16 word \<Rightarrow> sockaddr_in \<Rightarrow> task \<Rightarrow> task" where
  "cache_task clk msg name qtype cli other =
     (if qtype = TYPE_A \<or> qtype = TYPE_NS \<or> qtype = TYPE_CNAME then
        getItem_task name (uint qtype) (clk 0) (\<lambda>r. case r of
          Some it \<Rightarrow> locally (Item2Msg msg it (it_name it) (clk 1)) (\<lambda>msg. reply_task msg cli)
        | None \<Rightarrow> if qtype = TYPE_A then alias_task clk msg name cli other else other)
      else other)"

text \<open>The lookup in the host file.\<close>

definition file_task ::
  "(nat \<Rightarrow> int) \<Rightarrow> message \<Rightarrow> carr \<Rightarrow> 16 word \<Rightarrow> sockaddr_in \<Rightarrow> task \<Rightarrow> task" where
  "file_task clk msg name qtype cli other =
     (if qtype = TYPE_A then
        File_Seek name (\<lambda>r. case r of
          None \<Rightarrow> other
        | Some ip \<Rightarrow>
            locally (local_RR name ip) (\<lambda>r.
            locally (addRR2Item item0 r (clk 5)) (\<lambda>tmp.
            putItem_task (it_name tmp) (uint TYPE_A) tmp (clk 6) (clk 7)
              (locally (Item2Msg msg tmp (it_name tmp) (clk 8)) (\<lambda>msg. reply_task msg cli)))))
      else other)"

text \<open>The items of an answer go into the cache one after the other.\<close>

definition store_task :: "(nat \<Rightarrow> int) \<Rightarrow> message \<Rightarrow> task" where
  "store_task clk msg =
     locally (foldE (sort_answer (\<lambda>i. clk (15 + i)) msg) (item0, item0, item0)
                [0..<unat (msg_RR_count msg ! ANSWER)]) (\<lambda>(Ait, Nit, Cit).
     locally (destroyMsg msg) (\<lambda>_.
     putItem_task (it_name Ait) (uint (it_type Ait)) Ait (clk 9) (clk 10)
       (putItem_task (it_name Nit) (uint (it_type Nit)) Nit (clk 11) (clk 12)
          (putItem_task (it_name Cit) (uint (it_type Cit)) Cit (clk 13) (clk 14) Returns))))"

text \<open>The relay: the two error paths, and the datagram handed on.\<close>

definition relay_task ::
  "(carr \<Rightarrow> net_result) \<Rightarrow> (nat \<Rightarrow> int) \<Rightarrow> log_state \<Rightarrow> arg \<Rightarrow> message \<Rightarrow> task" where
  "relay_task net clk lg parg msg =
     Does Socket_Open
       (locally (rd_block (a_buff parg) 0 (a_n parg)) (\<lambda>req.
        case net req of
          Send_Failed \<Rightarrow>
            locally (showRequest lg msg CLOG_LEVEL_INFO) (\<lambda>_. fail_task msg (a_cliAddr parg))
        | No_Answer \<Rightarrow> Does (To_Server req) (fail_task msg (a_cliAddr parg))
        | Answer ans \<Rightarrow>
            let n = min BUFF_LEN (length ans);
                buff = map Some (take n ans) @ uninit (BUFF_LEN - n)
            in Does (To_Server req)
                 (Does Socket_Close
                    (locally (rd_block buff 0 n) (\<lambda>d.
                     Does (To_Client d (a_cliAddr parg))
                       (locally (destroyMsg msg) (\<lambda>_.
                        locally_run (decode buff) (store_task clk))))))))"

definition handler_task ::
  "(carr \<Rightarrow> net_result) \<Rightarrow> (nat \<Rightarrow> int) \<Rightarrow> log_state \<Rightarrow> arg \<Rightarrow> task" where
  "handler_task net clk lg parg =
     locally_run (start_reply lg (a_buff parg)) (\<lambda>msg.
     locally (ques_at msg 0) (\<lambda>q.
     locally (strncpy_arr (uninit STR_LEN) (q_name q) STR_LEN) (\<lambda>name.
     cache_task clk msg name (q_type q) (a_cliAddr parg)
       (file_task clk msg name (q_type q) (a_cliAddr parg) (relay_task net clk lg parg msg)))))"

section \<open>The steps of a thread\<close>

text \<open>
  One step of a thread on the shared state: the state after it, the call it makes, and how it goes
  on. A thread that has returned or has met a fault stays where it is.
\<close>

fun task_step :: "server \<Rightarrow> task \<Rightarrow> server \<times> event list \<times> task" where
  "task_step sv (Cache_Find key now k) =
     (case CacheGet_find (sv_cache sv) key now of
        Inl f \<Rightarrow> (sv, [], Faults f)
      | Inr (c, None) \<Rightarrow> (sv\<lparr>sv_cache := c\<rparr>, [], k None)
      | Inr (c, Some p) \<Rightarrow> (sv\<lparr>sv_cache := c\<rparr>, [], Cache_Copy key p k))"
| "task_step sv (Cache_Copy key p k) =
     (case CacheGet_copy (sv_cache sv) p of
        Inl f \<Rightarrow> (sv, [], Faults f)
      | Inr d \<Rightarrow> (sv, [], k (Some d)))"
| "task_step sv (Cache_Put key it TTL now t) =
     (case CachePut (sv_cache sv) key it SIZEOF_ITEM TTL now of
        Inl f \<Rightarrow> (sv, [], Faults f)
      | Inr c \<Rightarrow> (sv\<lparr>sv_cache := c\<rparr>, [], t))"
| "task_step sv (File_Seek name k) =
     (case get_a_record_seek (sv_reader sv) name of
        Inl f \<Rightarrow> (sv, [], Faults f)
      | Inr None \<Rightarrow> (sv, [], k None)
      | Inr (Some fr) \<Rightarrow> (sv\<lparr>sv_reader := fr\<rparr>, [], File_Scan (st_pos (fr_fd fr)) k))"
| "task_step sv (File_Scan pos k) =
     (case get_a_record_scan (sv_reader sv) (uninit 17) of
        Inl f \<Rightarrow> (sv, [], Faults f)
      | Inr (fr, ip) \<Rightarrow> (sv\<lparr>sv_reader := fr\<rparr>, [], k (Some ip)))"
| "task_step sv (Does e t) = (sv, [e], t)"
| "task_step sv Returns = (sv, [], Returns)"
| "task_step sv (Faults f) = (sv, [], Faults f)"
| "task_step sv Diverges = (sv, [], Diverges)"

section \<open>A thread without others\<close>

text \<open>\<open>turns n\<close>: the thread makes \<open>n\<close> steps, and nobody else any.\<close>

fun turns :: "nat \<Rightarrow> server \<times> event list \<times> task \<Rightarrow> server \<times> event list \<times> task" where
  "turns 0 x = x"
| "turns (Suc n) (sv, evs, t) = (case task_step sv t of (sv', es, t') \<Rightarrow> turns n (sv', evs @ es, t'))"

text \<open>The outcome of a task that nobody interrupts.\<close>

primrec alone :: "task \<Rightarrow> server \<Rightarrow> (server \<times> event list) run" where
  "alone (Cache_Find key now k) = (\<lambda>sv.
     bindR (Some (CacheGet (sv_cache sv) key now)) (\<lambda>(c, r). alone (k r) (sv\<lparr>sv_cache := c\<rparr>)))"
| "alone (Cache_Copy key p k) = (\<lambda>sv.
     bindR (Some (CacheGet_copy (sv_cache sv) p)) (\<lambda>d. alone (k (Some d)) sv))"
| "alone (Cache_Put key it TTL now t) = (\<lambda>sv.
     bindR (Some (CachePut (sv_cache sv) key it SIZEOF_ITEM TTL now)) (\<lambda>c. alone t (sv\<lparr>sv_cache := c\<rparr>)))"
| "alone (File_Seek name k) = (\<lambda>sv.
     bindR (Some (file_reader_get_a_record (sv_reader sv) name (uninit 17))) (\<lambda>x. case x of
       None \<Rightarrow> alone (k None) sv
     | Some (fr, ip) \<Rightarrow> alone (k (Some ip)) (sv\<lparr>sv_reader := fr\<rparr>)))"
| "alone (File_Scan pos k) = (\<lambda>sv.
     bindR (Some (get_a_record_scan (sv_reader sv) (uninit 17))) (\<lambda>(fr, ip). alone (k (Some ip)) (sv\<lparr>sv_reader := fr\<rparr>)))"
| "alone (Does e t) = (\<lambda>sv. bindR (alone t sv) (\<lambda>(sv, evs). Some (Inr (sv, e # evs))))"
| "alone Returns = (\<lambda>sv. Some (Inr (sv, [])))"
| "alone (Faults f) = (\<lambda>sv. Some (Inl f))"
| "alone Diverges = (\<lambda>sv. None)"

lemma bindR_bindE: "bindR (Some (bindE m f)) g = bindR (Some m) (\<lambda>x. bindR (Some (f x)) g)"
  by (cases m) simp_all

lemma alone_locally [simp]: "alone (locally x k) sv = bindR (Some x) (\<lambda>a. alone (k a) sv)"
  by (cases x) (simp_all add: locally_def)

lemma alone_locally_run [simp]: "alone (locally_run x k) sv = bindR x (\<lambda>a. alone (k a) sv)"
  by (cases x) (simp_all add: locally_run_def)

lemma alone_getItem:
  "alone (getItem_task name type now k) sv =
     bindR (Some (getItem (sv_cache sv) name type now)) (\<lambda>(c, r). alone (k r) (sv\<lparr>sv_cache := c\<rparr>))"
  by (simp add: getItem_task_def getItem_def bindR_bindE case_prod_unfold)

lemma alone_putItem:
  "alone (putItem_task name type it now now' t) sv =
     bindR (Some (putItem (sv_cache sv) name type it now now')) (\<lambda>c. alone t (sv\<lparr>sv_cache := c\<rparr>))"
  by (simp add: putItem_task_def putItem_def bindR_bindE case_prod_unfold)

lemma alone_reply:
  "alone (reply_task msg cli) sv = bindR (Some (send_reply msg cli)) (\<lambda>e. Some (Inr (sv, [e])))"
  "alone (fail_task msg cli) sv = bindR (Some (fail_reply msg cli)) (\<lambda>e. Some (Inr (sv, [e])))"
  by (simp_all add: reply_task_def fail_task_def)

lemma alone_cache:
  "alone (cache_task clk msg name t cli other) sv =
     bindR (Some (answer_from_cache clk (sv_cache sv) msg name t)) (\<lambda>(c, r). case r of
       Some msg \<Rightarrow> bindR (Some (send_reply msg cli)) (\<lambda>e. Some (Inr (sv\<lparr>sv_cache := c\<rparr>, [e])))
     | None \<Rightarrow> alone other (sv\<lparr>sv_cache := c\<rparr>))"
  by (auto simp: cache_task_def alias_task_def answer_from_cache_def alone_getItem alone_reply bindR_bindE bindR_assoc
      intro!: bindR_cong split: option.splits)

lemma alone_file:
  "alone (file_task clk msg name t cli other) sv =
     bindR (Some (answer_from_file clk sv msg name t)) (\<lambda>(sv, r). case r of
       Some msg \<Rightarrow> bindR (Some (send_reply msg cli)) (\<lambda>e. Some (Inr (sv, [e])))
     | None \<Rightarrow> alone other sv)"
  by (auto simp: file_task_def answer_from_file_def alone_putItem alone_reply bindR_bindE bindR_assoc
      intro!: bindR_cong split: option.splits)

lemma alone_store:
  "alone (store_task clk msg) sv =
     bindR (Some (cache_answer clk (sv_cache sv) msg)) (\<lambda>c. Some (Inr (sv\<lparr>sv_cache := c\<rparr>, [])))"
  by (auto simp: store_task_def cache_answer_def alone_putItem bindR_bindE case_prod_unfold intro!: bindR_cong)

lemma alone_relay: "alone (relay_task net clk (sv_log sv) parg msg) sv = relay net clk sv parg msg"
  by (auto simp: relay_task_def relay_def alone_reply alone_store Let_def bindR_assoc intro!: bindR_cong
      split: net_result.splits)

lemma file_keeps_log: "answer_from_file clk sv msg name t = Inr (sv', r) \<Longrightarrow> sv_log sv' = sv_log sv"
  by (auto simp: answer_from_file_def bindE_Inr_iff split: if_splits option.splits)

lemma alone_handler: "alone (handler_task net clk (sv_log sv) parg) sv = handler net clk sv parg"
  by (auto simp: handler_task_def handler_def handle_query_def alone_cache alone_file alone_relay [symmetric] Let_def
      dest!: file_keeps_log intro!: bindR_cong split: option.splits)

section \<open>Steps and outcome\<close>

lemma turns_add: "turns (m + n) x = turns n (turns m x)"
  by (induction m x rule: turns.induct) (auto split: prod.splits)

lemma turns_ends [simp]:
  "turns n (sv, evs, Returns) = (sv, evs, Returns)"
  "turns n (sv, evs, Faults f) = (sv, evs, Faults f)"
  "turns n (sv, evs, Diverges) = (sv, evs, Diverges)"
  by (induction n) simp_all

definition ends_as :: "server \<times> event list \<times> task \<Rightarrow> (server \<times> event list) run \<Rightarrow> bool" where
  "ends_as x r \<longleftrightarrow> (case r of
       Some (Inr (sv, evs)) \<Rightarrow> \<exists>n. turns n x = (sv, fst (snd x) @ evs, Returns)
     | Some (Inl f) \<Rightarrow> \<exists>n sv evs. turns n x = (sv, evs, Faults f)
     | None \<Rightarrow> \<exists>n sv evs. turns n x = (sv, evs, Diverges))"

lemma ends_as_quiet:
  assumes "task_step sv t = (sv', [], t')" and "ends_as (sv', evs, t') r"
  shows "ends_as (sv, evs, t) r"
proof -
  have "turns (Suc n) (sv, evs, t) = turns n (sv', evs, t')" for n using assms(1) by simp
  then show ?thesis
    using assms(2) unfolding ends_as_def by (auto split: option.splits sum.splits simp del: turns.simps) metis+
qed

lemma ends_as_does:
  assumes "ends_as (sv, evs @ [e], t) r"
  shows "ends_as (sv, evs, Does e t) (bindR r (\<lambda>(sv, evs). Some (Inr (sv, e # evs))))"
proof -
  have "turns (Suc n) (sv, evs, Does e t) = turns n (sv, evs @ [e], t)" for n by simp
  then show ?thesis
    using assms unfolding ends_as_def by (auto split: option.splits sum.splits simp del: turns.simps) metis+
qed

lemma ends_as_ended [simp]:
  "ends_as (sv, evs, Returns) (Some (Inr (sv, [])))" "ends_as (sv, evs, Faults f) (Some (Inl f))"
  "ends_as (sv, evs, Diverges) None"
  by (auto simp: ends_as_def)

lemma ends_as_copy:
  assumes "\<And>d evs. ends_as (sv, evs, k (Some d)) (alone (k (Some d)) sv)"
  shows "ends_as (sv, evs, Cache_Copy key p k) (alone (Cache_Copy key p k) sv)"
proof (cases "CacheGet_copy (sv_cache sv) p")
  case (Inl f)
  then show ?thesis by - (rule ends_as_quiet [of sv _ sv "Faults f"], simp_all)
next
  case (Inr d)
  then show ?thesis using assms by - (rule ends_as_quiet [of sv _ sv "k (Some d)"], simp_all)
qed

lemma ends_as_scan:
  assumes "\<And>sv ip evs. ends_as (sv, evs, k (Some ip)) (alone (k (Some ip)) sv)"
  shows "ends_as (sv, evs, File_Scan pos k) (alone (File_Scan pos k) sv)"
proof (cases "get_a_record_scan (sv_reader sv) (uninit 17)")
  case (Inl f)
  then show ?thesis by - (rule ends_as_quiet [of sv _ sv "Faults f"], simp_all)
next
  case (Inr x)
  then show ?thesis using assms
    by - (rule ends_as_quiet [of sv _ "sv\<lparr>sv_reader := fst x\<rparr>" "k (Some (snd x))"], simp_all add: case_prod_unfold)
qed

lemma ends_as_find:
  assumes k: "\<And>r sv evs. ends_as (sv, evs, k r) (alone (k r) sv)"
  shows "ends_as (sv, evs, Cache_Find key now k) (alone (Cache_Find key now k) sv)"
proof (cases "CacheGet_find (sv_cache sv) key now")
  case (Inl f)
  then show ?thesis by - (rule ends_as_quiet [of sv _ sv "Faults f"], simp_all add: CacheGet_def)
next
  case (Inr x)
  obtain c r where x: "x = (c, r)" by (cases x)
  let ?sv = "sv\<lparr>sv_cache := c\<rparr>"
  show ?thesis
  proof (cases r)
    case None
    then show ?thesis using Inr x k by - (rule ends_as_quiet [of sv _ ?sv "k None"], simp_all add: CacheGet_def)
  next
    case (Some p)
    have "ends_as (?sv, evs, Cache_Copy key p k) (alone (Cache_Copy key p k) ?sv)" using k by (intro ends_as_copy) simp
    then show ?thesis using Inr x Some
      by - (rule ends_as_quiet [of sv _ ?sv "Cache_Copy key p k"], simp_all add: CacheGet_def bindR_bindE)
  qed
qed

lemma ends_as_put:
  assumes "\<And>sv evs. ends_as (sv, evs, t) (alone t sv)"
  shows "ends_as (sv, evs, Cache_Put key it TTL now t) (alone (Cache_Put key it TTL now t) sv)"
proof (cases "CachePut (sv_cache sv) key it SIZEOF_ITEM TTL now")
  case (Inl f)
  then show ?thesis by - (rule ends_as_quiet [of sv _ sv "Faults f"], simp_all)
next
  case (Inr c)
  then show ?thesis using assms by - (rule ends_as_quiet [of sv _ "sv\<lparr>sv_cache := c\<rparr>" t], simp_all)
qed

lemma ends_as_seek:
  assumes k: "\<And>r sv evs. ends_as (sv, evs, k r) (alone (k r) sv)"
  shows "ends_as (sv, evs, File_Seek name k) (alone (File_Seek name k) sv)"
proof (cases "get_a_record_seek (sv_reader sv) name")
  case (Inl f)
  then show ?thesis by - (rule ends_as_quiet [of sv _ sv "Faults f"], simp_all add: file_reader_get_a_record_def)
next
  case (Inr x)
  show ?thesis
  proof (cases x)
    case None
    then show ?thesis using Inr k
      by - (rule ends_as_quiet [of sv _ sv "k None"], simp_all add: file_reader_get_a_record_def)
  next
    case (Some fr)
    let ?sv = "sv\<lparr>sv_reader := fr\<rparr>" and ?pos = "st_pos (fr_fd fr)"
    have "ends_as (?sv, evs, File_Scan ?pos k) (alone (File_Scan ?pos k) ?sv)" using k by (intro ends_as_scan) simp
    then show ?thesis using Inr Some
      by - (rule ends_as_quiet [of sv _ ?sv "File_Scan ?pos k"],
        simp_all add: file_reader_get_a_record_def bindR_bindE case_prod_unfold)
  qed
qed

lemma alone_ends: "ends_as (sv, evs, t) (alone t sv)"
proof (induction t arbitrary: sv evs)
  case (Cache_Find key now k)
  then show ?case by (intro ends_as_find) simp
next
  case (Cache_Copy key p k)
  then show ?case by (intro ends_as_copy) simp
next
  case (Cache_Put key it TTL now t)
  then show ?case by (intro ends_as_put) simp
next
  case (File_Seek name k)
  then show ?case by (intro ends_as_seek) simp
next
  case (File_Scan pos k)
  then show ?case by (intro ends_as_scan) simp
qed (simp_all add: ends_as_does)

section \<open>Property\<close>

text \<open>
  C7. The handler as a thread is the handler: when no other thread makes a step, a thread running it
  ends in the same state with the same calls as \<open>handler\<close>, meets the same fault, or runs for ever as it does.
\<close>
theorem handler_alone:
  "case handler net clk sv parg of
     Some (Inr (sv', evs)) \<Rightarrow> \<exists>n. turns n (sv, [], handler_task net clk (sv_log sv) parg) = (sv', evs, Returns)
   | Some (Inl f) \<Rightarrow> \<exists>n sv' evs. turns n (sv, [], handler_task net clk (sv_log sv) parg) = (sv', evs, Faults f)
   | None \<Rightarrow> \<exists>n sv' evs. turns n (sv, [], handler_task net clk (sv_log sv) parg) = (sv', evs, Diverges)"
  using alone_ends [of sv "[]" "handler_task net clk (sv_log sv) parg"]
  by (simp add: alone_handler ends_as_def split: option.splits sum.splits prod.splits)

end
