(* ===== verification/Server_Threads.thy ===== *)
theory Server_Threads
  imports Server_Tasks Server_Run
begin

text \<open>
  Any number of handlers at once, their steps interleaved in any order. Two lookups of the code can
  be overtaken: another thread can remove the unit that a \<open>CacheGet\<close> has found before it is copied,
  and can move the stream of the host file before the address is read. The theory shows that these
  are the only ways in which the handlers disturb each other.
\<close>

section \<open>Threads\<close>

record world =
  w_server :: server
  w_threads :: "(event list \<times> task) list"

text \<open>One step of the thread \<open>i\<close>, and a schedule of such steps.\<close>

definition turn :: "nat \<Rightarrow> world \<Rightarrow> world" where
  "turn i w =
     (if i < length (w_threads w)
      then let (evs, t) = w_threads w ! i; (sv, es, t') = task_step (w_server w) t
           in \<lparr>w_server = sv, w_threads = (w_threads w)[i := (evs @ es, t')]\<rparr>
      else w)"

fun schedule_run :: "nat list \<Rightarrow> world \<Rightarrow> world" where
  "schedule_run [] w = w"
| "schedule_run (i # is) w = schedule_run is (turn i w)"

text \<open>A handler for every request, none of which has made a step.\<close>

definition job_task :: "log_state \<Rightarrow> job \<Rightarrow> task" where
  "job_task lg j = handler_task (j_net j) (j_clk j) lg (receive (j_dgram j) (j_cli j))"

definition start_world :: "server \<Rightarrow> job list \<Rightarrow> world" where
  "start_world sv js = \<lparr>w_server = sv, w_threads = map (\<lambda>j. ([], job_task (sv_log sv) j)) js\<rparr>"

text \<open>
  The step of a thread is not overtaken: the unit to be copied is still the one of its key, the
  stream is where the thread has put it. And the cache does not lose its only entry.
\<close>

definition past_its_time :: "item Cache \<Rightarrow> cstring \<Rightarrow> int \<Rightarrow> bool" where
  "past_its_time c key now =
     (case search (c_hTab c) key of
        Inr (Some p) \<Rightarrow> (case get_data (c_heap c) p of Inr ui \<Rightarrow> su_TTL ui < now - su_saveTime ui | Inl _ \<Rightarrow> False)
      | _ \<Rightarrow> False)"

fun undisturbed :: "server \<Rightarrow> task \<Rightarrow> bool" where
  "undisturbed sv (Cache_Find key now k) \<longleftrightarrow> \<not> (c_len (sv_cache sv) = 1 \<and> past_its_time (sv_cache sv) key now)"
| "undisturbed sv (Cache_Copy key p k) \<longleftrightarrow> search (c_hTab (sv_cache sv)) key = Inr (Some p)"
| "undisturbed sv (File_Scan pos k) \<longleftrightarrow> st_pos (fr_fd (sv_reader sv)) = pos"
| "undisturbed sv t \<longleftrightarrow> True"

fun undisturbed_run :: "nat list \<Rightarrow> world \<Rightarrow> bool" where
  "undisturbed_run [] w \<longleftrightarrow> True"
| "undisturbed_run (i # is) w \<longleftrightarrow>
     (i < length (w_threads w) \<longrightarrow> undisturbed (w_server w) (snd (w_threads w ! i))) \<and> undisturbed_run is (turn i w)"

section \<open>The critical sections of the cache\<close>

lemma lru_others_Nil:
  assumes "lru_find k es = Some e" and "lru_others k es = []" and "distinct (map e_key es)"
  shows "length es = 1"
proof -
  have "set (map e_key es) \<subseteq> {k}" using assms(2) by (auto simp: lru_others_def filter_empty_conv)
  then have "card (set (map e_key es)) \<le> 1" using card_mono [of "{k}"] by simp
  moreover have "es \<noteq> []" using assms(1) by (auto simp: lru_find_def)
  ultimately show ?thesis using distinct_card [OF assms(3)] by (cases es) auto
qed

lemma find_section:
  assumes rel: "plain_rel c es" and k: "is_cstring k" and keep: "\<not> (c_len c = 1 \<and> past_its_time c k now)"
  obtains c' r es' where "CacheGet_find c k now = Inr (c', r)" and "plain_rel c' es'" and "set es' \<subseteq> set es"
    and "plain_cap c' = plain_cap c"
proof -
  obtain xs where xs: "cache_inv c xs" "entries c xs = es" using rel by (auto simp: plain_rel_def cache_rel_def)
  have "fst (lru_get now k es) \<noteq> [] \<or> es = []"
  proof (rule ccontr)
    assume "\<not> ?thesis"
    then have none: "fst (lru_get now k es) = []" "es \<noteq> []" by simp_all
    then obtain e where e: "lru_find k es = Some e" "lru_others k es = []" "e_ttl e < now - e_saved e"
      by (auto simp: lru_get_def split: option.splits if_splits)
    have "length es = 1"
      using lru_others_Nil [OF e(1,2)] cache_invD(4) [OF xs(1)] by (simp flip: xs(2))
    then have "c_len c = 1" using cache_invD(6) [OF xs(1)] by (simp flip: xs(2))
    moreover have "past_its_time c k now"
      using xs(1) k
    proof (cases rule: cache_lookup)
      case (hit a)
      then show ?thesis using e(1,3) xs(2) cache_unit(1) [OF xs(1)] by (auto simp: past_its_time_def)
    qed (use e(1) xs(2) in simp)
    ultimately show False using keep by simp
  qed
  then obtain c' where c': "CacheGet c k now = Inr (c', snd (lru_get now k es))"
      "plain_rel c' (fst (lru_get now k es))" "plain_cap c' = plain_cap c"
    using plain.get_ok [OF rel k] by blast
  from c'(1) obtain r where "CacheGet_find c k now = Inr (c', r)"
    by (auto simp: CacheGet_def bindE_Inr_iff split: option.splits)
  then show ?thesis using that c'(2,3) lru_get_entries(1) by blast
qed

lemma copy_section:
  assumes rel: "plain_rel c es" and k: "is_cstring k" and p: "search (c_hTab c) k = Inr (Some p)"
  obtains e where "e \<in> set es" and "e_key e = k" and "CacheGet_copy c p = Inr (e_data e)"
proof -
  obtain xs where xs: "cache_inv c xs" "entries c xs = es" "c_copy c = None"
    using rel by (auto simp: plain_rel_def cache_rel_def)
  show ?thesis using xs(1) k
  proof (cases rule: cache_lookup)
    case (hit a)
    then have "CacheGet_copy c p = Inr (e_data (view (unit_at c a)))"
      using p cache_unit(1) [OF xs(1)] xs(3) by (auto simp: CacheGet_copy_def copied_def)
    moreover have "view (unit_at c a) \<in> set es \<and> e_key (view (unit_at c a)) = k"
      using hit xs(2) by (intro lru_find_mem) auto
    ultimately show ?thesis using that by blast
  qed (use p in simp)
qed

lemma scan_same:
  "fr_fd fr2 = fr_fd fr \<Longrightarrow>
     get_a_record_scan fr2 ip = bindE (get_a_record_scan fr ip) (\<lambda>(fr', ip). Inr (fr2\<lparr>fr_fd := fr_fd fr'\<rparr>, ip))"
  by (cases "scan_word (fr_fd fr) ip") (auto simp: get_a_record_scan_def split: option.splits)

lemma scan_section:
  assumes "reader_of ls fr" and "cstr name = Inr s"
  shows "map_of (rev (hosts ls)) s = None \<Longrightarrow> get_a_record_seek fr name = Inr None"
    and "map_of (rev (hosts ls)) s = Some a \<Longrightarrow> \<exists>fr'. get_a_record_seek fr name = Inr (Some fr') \<and> reader_of ls fr' \<and>
      (\<forall>fr2. reader_of ls fr2 \<longrightarrow> st_pos (fr_fd fr2) = st_pos (fr_fd fr') \<longrightarrow>
         (\<exists>fr3 ip. get_a_record_scan fr2 (uninit 17) = Inr (fr3, ip) \<and> cstr ip = Inr a \<and> reader_of ls fr3))"
proof -
  show "get_a_record_seek fr name = Inr None" if "map_of (rev (hosts ls)) s = None"
    by (rule get_a_record_parts(1) [OF assms that])
  assume "map_of (rev (hosts ls)) s = Some a"
  from get_a_record_parts(2) [OF assms this] obtain fr' where fr: "get_a_record_seek fr name = Inr (Some fr')" "reader_of ls fr'"
      "\<forall>arr. 16 \<le> length arr \<longrightarrow> (\<exists>fr'' arr'. get_a_record_scan fr' arr = Inr (fr'', arr') \<and> cstr arr' = Inr a \<and>
         length arr' = length arr \<and> reader_of ls fr'')"
    by blast
  then have "\<exists>fr'' ip. get_a_record_scan fr' (uninit 17) = Inr (fr'', ip) \<and> cstr ip = Inr a \<and> reader_of ls fr''"
    using fr(3) [rule_format, of "uninit 17"] by auto
  note fr' = fr(1,2) this
  have "\<exists>fr3 ip. get_a_record_scan fr2 (uninit 17) = Inr (fr3, ip) \<and> cstr ip = Inr a \<and> reader_of ls fr3"
    if r: "reader_of ls fr2" "st_pos (fr_fd fr2) = st_pos (fr_fd fr')" for fr2
  proof -
    obtain fr'' ip where x: "get_a_record_scan fr' (uninit 17) = Inr (fr'', ip)" "cstr ip = Inr a" "reader_of ls fr''"
      using fr'(3) by blast
    have "fr_fd fr2 = fr_fd fr'" using r fr'(2) by (simp add: reader_of_def)
    then have "get_a_record_scan fr2 (uninit 17) = Inr (fr2\<lparr>fr_fd := fr_fd fr''\<rparr>, ip)"
      using scan_same [of fr2 fr' "uninit 17"] x(1) by simp
    moreover have "reader_of ls (fr2\<lparr>fr_fd := fr_fd fr''\<rparr>)" using r(1) x(3) by (simp add: reader_of_def)
    ultimately show ?thesis using x(2) by blast
  qed
  then show "\<exists>fr'. get_a_record_seek fr name = Inr (Some fr') \<and> reader_of ls fr' \<and>
      (\<forall>fr2. reader_of ls fr2 \<longrightarrow> st_pos (fr_fd fr2) = st_pos (fr_fd fr') \<longrightarrow>
         (\<exists>fr3 ip. get_a_record_scan fr2 (uninit 17) = Inr (fr3, ip) \<and> cstr ip = Inr a \<and> reader_of ls fr3))"
    using fr'(1,2) by (intro exI [of _ fr']) simp
qed

section \<open>What a thread does, whatever the others do\<close>

text \<open>
  \<open>will_answer ls j pk n evs t\<close>: a thread that has made the calls \<open>evs\<close> and goes on with \<open>t\<close> answers the
  request \<open>j\<close> within \<open>n\<close> of its steps, whatever sound entries of the cache and positions of the
  stream it finds. What it puts into the cache is sound, so it never spoils that for the others.
\<close>

definition finds :: "cstring \<Rightarrow> 16 word \<Rightarrow> item option \<Rightarrow> bool" where
  "finds s t r \<longleftrightarrow> (\<forall>it. r = Some it \<longrightarrow> (\<exists>iv. found it s t iv))"

inductive will_answer ::
  "(cstring \<times> cstring) list \<Rightarrow> job \<Rightarrow> packet \<Rightarrow> nat \<Rightarrow> event list \<Rightarrow> task \<Rightarrow> bool" for ls j pk where
  will_answer_Returns: "answered_once (j_net j) (sent_on j) (j_cli j) pk evs \<Longrightarrow> will_answer ls j pk n evs Returns"
| will_answer_Does: "will_answer ls j pk n (evs @ [e]) t \<Longrightarrow> \<exists>more. answered_once (j_net j) (sent_on j) (j_cli j) pk (evs @ e # more) \<Longrightarrow>
    will_answer ls j pk (Suc n) evs (Does e t)"
| will_answer_Find: "cached_type t \<Longrightarrow> is_cstring (item_key s t) \<Longrightarrow>
    (\<And>r. finds s t r \<Longrightarrow> will_answer ls j pk n evs (k r)) \<Longrightarrow> will_answer ls j pk (Suc (Suc n)) evs (Cache_Find (item_key s t) now k)"
| will_answer_Copy: "cached_type t \<Longrightarrow> is_cstring (item_key s t) \<Longrightarrow>
    (\<And>r. finds s t r \<Longrightarrow> will_answer ls j pk n evs (k r)) \<Longrightarrow> will_answer ls j pk (Suc n) evs (Cache_Copy (item_key s t) p k)"
| will_answer_Put: "good_key key \<Longrightarrow> entry_ok \<lparr>e_key = key, e_saved = now, e_ttl = TTL, e_data = it\<rparr> \<Longrightarrow>
    will_answer ls j pk n evs t \<Longrightarrow> will_answer ls j pk (Suc n) evs (Cache_Put key it TTL now t)"
| will_answer_Seek: "cstr name = Inr s \<Longrightarrow> (map_of (rev (hosts ls)) s = None \<Longrightarrow> will_answer ls j pk (Suc n) evs (k None)) \<Longrightarrow>
    (\<And>a ip. map_of (rev (hosts ls)) s = Some a \<Longrightarrow> cstr ip = Inr a \<Longrightarrow> will_answer ls j pk n evs (k (Some ip))) \<Longrightarrow>
    will_answer ls j pk (Suc (Suc n)) evs (File_Seek name k)"
| will_answer_Scan: "(\<And>fr. reader_of ls fr \<Longrightarrow> st_pos (fr_fd fr) = pos \<Longrightarrow>
      \<exists>fr' ip. get_a_record_scan fr (uninit 17) = Inr (fr', ip) \<and> reader_of ls fr' \<and> will_answer ls j pk n evs (k (Some ip))) \<Longrightarrow>
    will_answer ls j pk (Suc n) evs (File_Scan pos k)"

inductive_cases will_answer_0: "will_answer ls j pk 0 evs t"

inductive_cases will_answer_ends: "will_answer ls j pk n evs (Faults f)" "will_answer ls j pk n evs Diverges"

lemma will_answer_weaken: "will_answer ls j pk n evs t \<Longrightarrow> will_answer ls j pk (Suc n) evs t"
proof (induction rule: will_answer.induct)
  case (will_answer_Scan pos n evs k)
  then show ?case by (intro will_answer.will_answer_Scan) blast
qed (auto intro: will_answer.intros)

text \<open>One step of a thread keeps the server sound and itself on its way, unless it is overtaken.\<close>

definition goes_on :: "(cstring \<times> cstring) list \<Rightarrow> job \<Rightarrow> packet \<Rightarrow> nat \<Rightarrow> event list \<Rightarrow> server \<times> event list \<times> task \<Rightarrow> bool" where
  "goes_on ls j pk n evs = (\<lambda>(sv, es, t). server_ok ls sv \<and> will_answer ls j pk n (evs @ es) t \<and>
     (es \<noteq> [] \<longrightarrow> (\<exists>more. answered_once (j_net j) (sent_on j) (j_cli j) pk (evs @ es @ more))))"

lemma server_ok_cache:
  "server_ok ls sv \<Longrightarrow> plain_rel c es \<Longrightarrow> \<forall>e \<in> set es. entry_ok e \<Longrightarrow> plain_cap c = plain_cap (sv_cache sv) \<Longrightarrow>
     server_ok ls (sv\<lparr>sv_cache := c\<rparr>)"
  by (auto simp: server_ok_def)

lemma entry_found:
  assumes "entry_ok e" and "e_key e = item_key s t" and "cached_type t"
  shows "\<exists>iv. found (e_data e) s t iv"
proof -
  obtain iv t' where iv: "cached_type t'" "iv_type iv = ucast t'" "item_is (e_data e) iv" "iv_data iv \<noteq> []"
      "item_key s t = item_key (iv_name iv) t'" "good_name (iv_name iv)" "\<forall>d \<in> set (iv_data iv). rdata_ok d"
      "item_size iv \<le> ITEM_MAX"
    using assms(1) unfolding entry_ok_def assms(2) by blast
  have "s = iv_name iv \<and> t = t'" using iv(5) assms(3) iv(1) by simp
  then show ?thesis using iv by (auto simp: found_def)
qed

lemma step_find:
  assumes sv: "server_ok ls sv" and t: "cached_type t" "is_cstring (item_key s t)"
    and k: "\<And>r. finds s t r \<Longrightarrow> will_answer ls j pk n evs (k r)" and u: "undisturbed sv (Cache_Find (item_key s t) now k)"
  shows "goes_on ls j pk (Suc n) evs (task_step sv (Cache_Find (item_key s t) now k))"
proof -
  obtain es where es: "plain_rel (sv_cache sv) es" "\<forall>e \<in> set es. entry_ok e" using sv by (auto simp: server_ok_def)
  have keep: "\<not> (c_len (sv_cache sv) = 1 \<and> past_its_time (sv_cache sv) (item_key s t) now)" using u by simp
  obtain c r es' where c: "CacheGet_find (sv_cache sv) (item_key s t) now = Inr (c, r)" "plain_rel c es'"
      "set es' \<subseteq> set es" "plain_cap c = plain_cap (sv_cache sv)"
    by (rule find_section [OF es(1) t(2) keep])
  have ok: "server_ok ls (sv\<lparr>sv_cache := c\<rparr>)" using server_ok_cache [OF sv c(2) _ c(4)] c(3) es(2) by blast
  have "will_answer ls j pk (Suc n) evs (Cache_Copy (item_key s t) p k)" for p by (rule will_answer_Copy [OF t k])
  moreover have "will_answer ls j pk (Suc n) evs (k None)" using k [of None] will_answer_weaken by (simp add: finds_def)
  ultimately show ?thesis using ok c(1) by (cases r) (simp_all add: goes_on_def)
qed

lemma step_copy:
  assumes sv: "server_ok ls sv" and t: "cached_type t" "is_cstring (item_key s t)"
    and k: "\<And>r. finds s t r \<Longrightarrow> will_answer ls j pk n evs (k r)" and u: "undisturbed sv (Cache_Copy (item_key s t) p k)"
  shows "goes_on ls j pk n evs (task_step sv (Cache_Copy (item_key s t) p k))"
proof -
  obtain es where es: "plain_rel (sv_cache sv) es" "\<forall>e \<in> set es. entry_ok e" using sv by (auto simp: server_ok_def)
  have p: "search (c_hTab (sv_cache sv)) (item_key s t) = Inr (Some p)" using u by simp
  obtain e where e: "e \<in> set es" "e_key e = item_key s t" "CacheGet_copy (sv_cache sv) p = Inr (e_data e)"
    by (rule copy_section [OF es(1) t(2) p])
  have "finds s t (Some (e_data e))" using entry_found [OF _ e(2) t(1)] es(2) e(1) by (simp add: finds_def)
  then show ?thesis using sv e(3) k by (simp add: goes_on_def)
qed

lemma step_put:
  assumes sv: "server_ok ls sv" and key: "good_key key" and e: "entry_ok \<lparr>e_key = key, e_saved = now, e_ttl = TTL, e_data = it\<rparr>"
    and k: "will_answer ls j pk n evs t"
  shows "goes_on ls j pk n evs (task_step sv (Cache_Put key it TTL now t))"
proof -
  obtain es where es: "plain_rel (sv_cache sv) es" "\<forall>e \<in> set es. entry_ok e" using sv by (auto simp: server_ok_def)
  obtain c where c: "CachePut (sv_cache sv) key it SIZEOF_ITEM TTL now = Inr c"
      "plain_rel c (lru_put (plain_cap (sv_cache sv)) now key it TTL es)" "plain_cap c = plain_cap (sv_cache sv)"
    using plain.put_ok [OF es(1) key] by blast
  have "\<forall>x \<in> set (lru_put (plain_cap (sv_cache sv)) now key it TTL es). entry_ok x"
    using es(2) e by (auto dest!: set_lru_put)
  from server_ok_cache [OF sv c(2) this c(3)] show ?thesis using c(1) k by (simp add: goes_on_def)
qed

lemma step_seek:
  assumes sv: "server_ok ls sv" and name: "cstr name = Inr s"
    and miss: "map_of (rev (hosts ls)) s = None \<Longrightarrow> will_answer ls j pk (Suc n) evs (k None)"
    and hit: "\<And>a ip. map_of (rev (hosts ls)) s = Some a \<Longrightarrow> cstr ip = Inr a \<Longrightarrow> will_answer ls j pk n evs (k (Some ip))"
  shows "goes_on ls j pk (Suc n) evs (task_step sv (File_Seek name k))"
proof -
  have r: "reader_of ls (sv_reader sv)" using sv by (simp add: server_ok_def)
  show ?thesis
  proof (cases "map_of (rev (hosts ls)) s")
    case None
    then show ?thesis using scan_section(1) [OF r name None] miss sv by (simp add: goes_on_def)
  next
    case (Some a)
    obtain fr where fr: "get_a_record_seek (sv_reader sv) name = Inr (Some fr)" "reader_of ls fr"
        "\<forall>fr2. reader_of ls fr2 \<longrightarrow> st_pos (fr_fd fr2) = st_pos (fr_fd fr) \<longrightarrow>
           (\<exists>fr3 ip. get_a_record_scan fr2 (uninit 17) = Inr (fr3, ip) \<and> cstr ip = Inr a \<and> reader_of ls fr3)"
      using scan_section(2) [OF r name Some] by blast
    have "will_answer ls j pk (Suc n) evs (File_Scan (st_pos (fr_fd fr)) k)"
      by (rule will_answer_Scan) (use fr(3) hit [OF Some] in blast)
    moreover have "server_ok ls (sv\<lparr>sv_reader := fr\<rparr>)" using sv fr(2) by (simp add: server_ok_def)
    ultimately show ?thesis using fr(1) by (simp add: goes_on_def)
  qed
qed

lemma step_scan:
  assumes sv: "server_ok ls sv" and u: "undisturbed sv (File_Scan pos k)"
    and k: "\<And>fr. reader_of ls fr \<Longrightarrow> st_pos (fr_fd fr) = pos \<Longrightarrow>
      \<exists>fr' ip. get_a_record_scan fr (uninit 17) = Inr (fr', ip) \<and> reader_of ls fr' \<and> will_answer ls j pk n evs (k (Some ip))"
  shows "goes_on ls j pk n evs (task_step sv (File_Scan pos k))"
proof -
  have r: "reader_of ls (sv_reader sv)" "st_pos (fr_fd (sv_reader sv)) = pos" using sv u by (simp_all add: server_ok_def)
  obtain fr ip where fr: "get_a_record_scan (sv_reader sv) (uninit 17) = Inr (fr, ip)" "reader_of ls fr"
      "will_answer ls j pk n evs (k (Some ip))"
    using k [OF r] by blast
  moreover have "server_ok ls (sv\<lparr>sv_reader := fr\<rparr>)" using sv fr(2) by (simp add: server_ok_def)
  ultimately show ?thesis by (simp add: goes_on_def)
qed

lemma will_answer_step:
  assumes "will_answer ls j pk n evs t" and sv: "server_ok ls sv" and u: "undisturbed sv t"
  shows "goes_on ls j pk (n - 1) evs (task_step sv t)"
  using assms(1)
proof cases
  case will_answer_Returns
  then show ?thesis using sv will_answer.will_answer_Returns by (simp add: goes_on_def)
next
  case (will_answer_Does m e t')
  then show ?thesis using sv by (simp add: goes_on_def)
next
  case (will_answer_Find t' s m k now)
  then show ?thesis using step_find [where k = k, OF sv will_answer_Find(3-5)] u by simp
next
  case (will_answer_Copy t' s m k p)
  then show ?thesis using step_copy [where k = k, OF sv will_answer_Copy(3-5)] u by simp
next
  case (will_answer_Put key now TTL it m t')
  then show ?thesis using step_put [OF sv will_answer_Put(3-5)] by simp
next
  case (will_answer_Seek name s m k)
  then show ?thesis using step_seek [OF sv will_answer_Seek(3-5)] by simp
next
  case (will_answer_Scan pos m k)
  then show ?thesis using step_scan [OF sv _ will_answer_Scan(3)] u by simp
qed


section \<open>The handler answers, whatever the others do\<close>

lemma locally_simps [simp]:
  "locally (Inr a) k = k a" "locally_run (Some (Inr a)) k = k a" "locally (bindE x f) k = locally x (\<lambda>a. locally (f a) k)"
  by (simp_all add: locally_def locally_run_def) (cases x; simp add: locally_def)

lemma getItem_answers:
  assumes "cstr name = Inr s" and "length name \<le> 256" and "cached_type t"
    and "\<And>r. finds s t r \<Longrightarrow> will_answer ls j pk n evs (k r)"
  shows "will_answer ls j pk (Suc (Suc n)) evs (getItem_task name (uint t) now k)"
proof -
  obtain key where "calcKey name (uint t) (uninit 501) = Inr (key, True)" "cstr key = Inr (item_key s t)"
    by (rule calcKey_ok [OF assms(1-3)])
  moreover have "is_cstring (item_key s t)" by (rule is_cstring_key [OF cstr_is_cstring [OF assms(1)]])
  ultimately show ?thesis using will_answer_Find [OF assms(3) _ assms(4)] by (simp add: getItem_task_def)
qed

lemma putItem_answers:
  assumes "cstr name = Inr s" and "length name \<le> 256" and "cached_type t" and "good_key (item_key s t)"
    and "entry_ok \<lparr>e_key = item_key s t, e_saved = now', e_ttl = it_ddl it - now, e_data = it\<rparr>"
    and "will_answer ls j pk n evs k"
  shows "will_answer ls j pk (Suc n) evs (putItem_task name (uint t) it now now' k)"
proof -
  obtain key where "calcKey name (uint t) (uninit 501) = Inr (key, True)" "cstr key = Inr (item_key s t)"
    by (rule calcKey_ok [OF assms(1-3)])
  then show ?thesis using will_answer_weaken [OF assms(6)] will_answer_Put [OF assms(4-6)] by (simp add: putItem_task_def)
qed

lemma reply_answers:
  assumes "has_reply pk msg"
  shows "will_answer ls j pk (Suc n) [] (reply_task msg (j_cli j))"
proof -
  obtain d where d: "send_reply msg (j_cli j) = Inr (To_Client d (j_cli j))"
      "answered_once (j_net j) (sent_on j) (j_cli j) pk [To_Client d (j_cli j)]"
    by (rule reply_sent [OF assms])
  have "will_answer ls j pk (Suc n) [] (Does (To_Client d (j_cli j)) Returns)"
    by (rule will_answer_Does) (use d(2) in \<open>auto intro: will_answer_Returns exI [of _ "[]"]\<close>)
  then show ?thesis using d(1) by (simp add: reply_task_def)
qed

text \<open>A message that the items of up to \<open>n\<close> lookups can still be added to.\<close>

definition open_reply :: "packet \<Rightarrow> nat \<Rightarrow> message \<Rightarrow> bool" where
  "open_reply pk0 n msg \<longleftrightarrow> (\<exists>pk. msg_shape msg \<and> message_view msg = Inr pk \<and> is_reply pk0 pk \<and>
     room_for pk (n * MAX_NUM) (n * ITEM_MAX))"

lemma open_reply_item:
  assumes "open_reply pk0 (Suc n) msg" and "found it s t iv" and "cached_type t"
  obtains msg' where "Item2Msg msg it (it_name it) now = Inr msg'" and "open_reply pk0 n msg'"
proof -
  obtain pk where pk: "msg_shape msg" "message_view msg = Inr pk" "is_reply pk0 pk"
      "room_for pk (n * MAX_NUM + MAX_NUM) (n * ITEM_MAX + ITEM_MAX)"
    using assms(1) by (auto simp: open_reply_def add.commute)
  show ?thesis
    by (rule put_item [where now = now, OF assms(2,3) pk]) (use that in \<open>auto simp: open_reply_def\<close>)
qed

lemma open_reply_0: "open_reply pk 0 msg \<Longrightarrow> has_reply pk msg"
  by (simp add: open_reply_def has_reply_def)

lemma open_reply_less: "open_reply pk n msg \<Longrightarrow> m \<le> n \<Longrightarrow> open_reply pk m msg"
  unfolding open_reply_def room_for_def by (meson add_left_mono mult_le_mono1 order_trans)

lemma alias_answers:
  assumes "open_reply pk 2 msg" and "cstr name = Inr s" and "length name \<le> 256"
    and other: "will_answer ls j pk (Suc n) [] other"
  shows "will_answer ls j pk (Suc n + 4) [] (alias_task clk msg name (j_cli j) other)"
proof -
  have "will_answer ls j pk (Suc (Suc (Suc (Suc (Suc n))))) [] (alias_task clk msg name (j_cli j) other)"
    unfolding alias_task_def
  proof (rule getItem_answers [OF assms(2,3)])
    fix r assume r: "finds s TYPE_CNAME r"
    show "will_answer ls j pk (Suc (Suc (Suc n))) [] (case r of None \<Rightarrow> other | Some it \<Rightarrow>
        getItem_task (it_strVal it ! 0) (uint TYPE_A) (clk 2) (\<lambda>r. case r of None \<Rightarrow> other | Some tit \<Rightarrow>
          locally (Item2Msg msg it (it_name it) (clk 3)) (\<lambda>msg.
          locally (Item2Msg msg tit (it_name tit) (clk 4)) (\<lambda>msg. reply_task msg (j_cli j)))))"
    proof (cases r)
      case None
      then show ?thesis using other will_answer_weaken by simp
    next
      case (Some it)
      then obtain iv where f: "found it s TYPE_CNAME iv" using r by (auto simp: finds_def)
      obtain target where tg: "cstr (it_strVal it ! 0) = Inr target" "length (it_strVal it ! 0) \<le> 256"
        by (rule alias_target [OF f])
      obtain m1 where m1: "Item2Msg msg it (it_name it) (clk 3) = Inr m1" "open_reply pk 1 m1"
        by (rule open_reply_item [where now = "clk 3", OF _ f, of pk 1 msg]) (use assms(1) in \<open>simp_all add: numeral_2_eq_2\<close>)
      have "will_answer ls j pk (Suc n) [] (case r' of None \<Rightarrow> other | Some tit \<Rightarrow>
          locally (Item2Msg msg it (it_name it) (clk 3)) (\<lambda>msg.
          locally (Item2Msg msg tit (it_name tit) (clk 4)) (\<lambda>msg. reply_task msg (j_cli j))))"
        if r': "finds target TYPE_A r'" for r'
      proof (cases r')
        case None
        then show ?thesis using other by simp
      next
        case (Some tit)
        then obtain tiv where tf: "found tit target TYPE_A tiv" using r' by (auto simp: finds_def)
        obtain m2 where "Item2Msg m1 tit (it_name tit) (clk 4) = Inr m2" "open_reply pk 0 m2"
          by (rule open_reply_item [where now = "clk 4", OF _ tf, of pk 0 m1]) (use m1(2) in simp_all)
        then show ?thesis using m1(1) Some reply_answers open_reply_0 by simp
      qed
      then show ?thesis using Some getItem_answers [OF tg] by simp
    qed
  qed simp
  then show ?thesis by (simp add: numeral_eq_Suc)
qed

lemma cache_answers:
  assumes rp: "open_reply pk 2 msg" and name: "cstr name = Inr s" "length name \<le> 256"
    and other: "will_answer ls j pk (Suc n) [] other"
  shows "will_answer ls j pk (Suc n + 6) [] (cache_task clk msg name t (j_cli j) other)"
proof -
  have weak: "will_answer ls j pk (Suc n + m) [] other" for m
    using other by (induction m) (auto intro: will_answer_weaken)
  show ?thesis
  proof (cases "cached_type t")
    case False
    then show ?thesis using weak [of 6] by (simp add: cache_task_def)
  next
    case True
    have "will_answer ls j pk (Suc n + 4) [] (case r of
        Some it \<Rightarrow> locally (Item2Msg msg it (it_name it) (clk 1)) (\<lambda>msg. reply_task msg (j_cli j))
      | None \<Rightarrow> if t = TYPE_A then alias_task clk msg name (j_cli j) other else other)"
      if r: "finds s t r" for r
    proof (cases r)
      case None
      then show ?thesis using weak [of 4] alias_answers [OF rp name other] by simp
    next
      case (Some it)
      then obtain iv where f: "found it s t iv" using r by (auto simp: finds_def)
      obtain m1 where "Item2Msg msg it (it_name it) (clk 1) = Inr m1" "open_reply pk 0 m1"
        by (rule open_reply_item [where now = "clk 1", OF _ f True, of pk 0 msg]) (use open_reply_less [OF rp] in simp_all)
      then show ?thesis using Some reply_answers [OF open_reply_0, of pk m1 ls j "n + 4"] by simp
    qed
    moreover have eq: "Suc n + 6 = Suc (Suc (Suc n + 4))" by simp
    ultimately show ?thesis
      unfolding eq cache_task_def if_P [OF True] by (intro getItem_answers [OF name True])
  qed
qed

lemma file_answers:
  assumes hosts: "hosts_ok ls" and name: "cstr name = Inr s" and good: "good_name s" and rp: "open_reply pk 1 msg"
    and other: "will_answer ls j pk (Suc (Suc (Suc n))) [] other"
  shows "will_answer ls j pk (Suc n + 3) [] (file_task clk msg name t (j_cli j) other)"
proof (cases "t = TYPE_A")
  case False
  then show ?thesis using other will_answer_weaken by (simp add: file_task_def numeral_eq_Suc)
next
  case True
  have "will_answer ls j pk (Suc (Suc (Suc (Suc n)))) [] (file_task clk msg name TYPE_A (j_cli j) other)"
    unfolding file_task_def if_True simp_thms
  proof (rule will_answer_Seek [OF name])
    fix a ip assume a: "map_of (rev (hosts ls)) s = Some a" and ip: "cstr ip = Inr a"
    have "(s, a) \<in> set (hosts ls)" using map_of_SomeD [OF a] by simp
    then have h: "length s + 2 < HASH_KEY_MAX_LEN" "inet_pton a \<noteq> None" using hosts by (auto simp: hosts_ok_def)
    then obtain bs where bs: "inet_pton a = Some bs" by blast
    obtain r it where it: "local_RR name ip = Inr r" "addRR2Item item0 r (clk 5) = Inr it" "item_is it (file_item s bs (clk 5))"
        "cstr (it_name it) = Inr s" "length (it_name it) \<le> 256" "good_key (item_key s TYPE_A)"
      by (rule local_item [where now = "clk 5", OF name h(1) ip bs]) metis
    note f = file_item_found [OF it(3) good inet_pton_length [OF bs]]
    obtain m where m: "Item2Msg msg it (it_name it) (clk 8) = Inr m" "open_reply pk 0 m"
      by (rule open_reply_item [where now = "clk 8", OF _ f, of pk 0 msg]) (use rp in simp_all)
    have "will_answer ls j pk (Suc (Suc n)) [] (putItem_task (it_name it) (uint TYPE_A) it (clk 6) (clk 7)
        (locally (Item2Msg msg it (it_name it) (clk 8)) (\<lambda>msg. reply_task msg (j_cli j))))"
      using m reply_answers [OF open_reply_0] found_entry [OF f] by (intro putItem_answers [OF it(4,5) _ it(6)]) simp_all
    then show "will_answer ls j pk (Suc (Suc n)) [] (case Some ip of None \<Rightarrow> other | Some ip \<Rightarrow>
        locally (local_RR name ip) (\<lambda>r. locally (addRR2Item item0 r (clk 5)) (\<lambda>tmp.
          putItem_task (it_name tmp) (uint TYPE_A) tmp (clk 6) (clk 7)
            (locally (Item2Msg msg tmp (it_name tmp) (clk 8)) (\<lambda>msg. reply_task msg (j_cli j))))))"
      using it(1,2) by simp
  qed (use other in simp)
  then show ?thesis using True by (simp add: numeral_eq_Suc)
qed

text \<open>What the relay does.\<close>

lemma fail_answers:
  assumes "has_reply pk msg"
    and "j_net j (sent_on j) = Send_Failed \<and> evs = [Socket_Open] \<or>
      j_net j (sent_on j) = No_Answer \<and> evs = [Socket_Open, To_Server (sent_on j)]"
  shows "will_answer ls j pk (Suc n) evs (fail_task msg (j_cli j))"
    and "\<exists>more. answered_once (j_net j) (sent_on j) (j_cli j) pk (evs @ more)"
proof -
  obtain pk' where pk': "msg_shape msg" "message_view msg = Inr pk'" "is_reply pk pk'" "packet_ok pk'" "packet_size pk' \<le> BUFF_LEN"
    using assms(1) by (auto simp: has_reply_def room_for_def)
  obtain d where d: "fail_reply msg (j_cli j) = Inr (To_Client d (j_cli j))" "client_sees d (server_failure pk')"
    by (rule fail_reply_ok [OF pk'(1,2,4,5)])
  have "is_reply pk (server_failure pk')" using pk'(3) by (simp add: is_reply_def server_failure_def bit_or_iff)
  then have a: "answered_once (j_net j) (sent_on j) (j_cli j) pk (evs @ [To_Client d (j_cli j)])"
    using d(2) assms(2) unfolding answered_once_def by auto
  then show "\<exists>more. answered_once (j_net j) (sent_on j) (j_cli j) pk (evs @ more)" by blast
  have "will_answer ls j pk (Suc n) evs (Does (To_Client d (j_cli j)) Returns)"
    by (rule will_answer_Does) (use a in \<open>auto intro: will_answer_Returns exI [of _ "[]"]\<close>)
  then show "will_answer ls j pk (Suc n) evs (fail_task msg (j_cli j))" using d(1) by (simp add: fail_task_def)
qed

lemma collected_answers:
  assumes it: "item_is it (collect (\<lambda>i. clk (15 + i)) t ws (length ws))" and ws: "fits_items ws" and t: "cached_type t"
    and k: "will_answer ls j pk n evs k"
  shows "will_answer ls j pk (Suc n) evs (putItem_task (it_name it) (uint (it_type it)) it now now' k)"
proof -
  let ?iv = "collect (\<lambda>i. clk (15 + i)) t ws (length ws)"
  have "cachable ws" using ws by (simp add: fits_items_def)
  note c = collected_item [OF it refl this t]
  show ?thesis
  proof (cases "iv_data ?iv = []")
    case True
    then show ?thesis using c(1) will_answer_weaken [OF k] by (simp add: putItem_task_def)
  next
    case False
    note f = c(2) [OF False]
    have "entry_ok \<lparr>e_key = item_key (iv_name ?iv) t, e_saved = now', e_ttl = it_ddl it - now, e_data = it\<rparr>"
      by (rule collected_ok [OF ws t, of clk]) (use False it in \<open>simp add: collected_entry_def Let_def\<close>)
    then have "will_answer ls j pk (Suc n) evs (putItem_task (it_name it) (uint t) it now now' k)"
      using f k by (intro putItem_answers [OF c(3,4) t]) simp_all
    then show ?thesis using f by simp
  qed
qed

lemma store_answers:
  assumes r: "decode buff = Some (Inr r)" "message_view r = Inr rpk" and ws: "fits_items (pk_rrs rpk ! 0)"
    and a: "answered_once (j_net j) (sent_on j) (j_cli j) pk evs"
  shows "will_answer ls j pk (Suc (Suc (Suc 0))) evs (store_task clk r)"
proof -
  let ?ws = "pk_rrs rpk ! 0"
  have n: "unat (msg_RR_count r ! 0) = length ?ws" using r(2) by (simp add: message_view_iff)
  have sh: "msg_shape r" using decode_decoded [OF r(1)] by (simp add: decoded_def)
  have c: "cachable (take (length ?ws) ?ws)" using ws by (simp add: fits_items_def)
  obtain A N C where s: "foldE (sort_answer (\<lambda>i. clk (15 + i)) r) (item0, item0, item0) [0..<length ?ws] = Inr (A, N, C)"
      "item_is A (collect (\<lambda>i. clk (15 + i)) TYPE_A ?ws (length ?ws))"
      "item_is N (collect (\<lambda>i. clk (15 + i)) TYPE_NS ?ws (length ?ws))"
      "item_is C (collect (\<lambda>i. clk (15 + i)) TYPE_CNAME ?ws (length ?ws))"
    using sort_answer_ok [OF r(2) refl c order_refl, of "\<lambda>i. clk (15 + i)"] by blast
  have "will_answer ls j pk (Suc (Suc (Suc 0))) evs
      (putItem_task (it_name A) (uint (it_type A)) A (clk 9) (clk 10)
        (putItem_task (it_name N) (uint (it_type N)) N (clk 11) (clk 12)
          (putItem_task (it_name C) (uint (it_type C)) C (clk 13) (clk 14) Returns)))"
    by (intro collected_answers [OF s(2) ws] collected_answers [OF s(3) ws] collected_answers [OF s(4) ws]
        will_answer_Returns a) simp_all
  then show ?thesis using s(1) n destroyMsg_ok [OF sh r(2)] by (simp add: store_task_def ANSWER_def)
qed

lemma relay_task_answer:
  assumes "j_net j (sent_on j) = Answer ans" and "decode (answer_buff ans) = Some (Inr r)" and "destroyMsg msg = Inr ()"
  shows "relay_task (j_net j) clk lg (receive (j_dgram j) (j_cli j)) msg =
    Does Socket_Open (Does (To_Server (sent_on j)) (Does Socket_Close
      (Does (To_Client (map Some (take BUFF_LEN ans)) (j_cli j)) (store_task clk r))))"
  unfolding relay_task_def receive_request sent_on_def [symmetric] Let_def answer_received(1)
  using assms answer_received(2) by (simp add: receive_def Let_def)

lemma relay_answers:
  assumes rp: "has_reply pk msg" and lg: "\<exists>s. showRequest lg msg CLOG_LEVEL_INFO = Inr s"
    and net: "\<And>ans. j_net j (sent_on j) = Answer ans \<Longrightarrow> good_answer ans"
  shows "will_answer ls j pk 7 [] (relay_task (j_net j) (j_clk j) lg (receive (j_dgram j) (j_cli j)) msg)"
proof -
  let ?a = "answered_once (j_net j) (sent_on j) (j_cli j) pk"
  have cli: "a_cliAddr (receive (j_dgram j) (j_cli j)) = j_cli j" by (simp add: receive_def Let_def)
  note req = receive_request [of "j_dgram j" "j_cli j", folded sent_on_def]
  have "will_answer ls j pk (Suc (Suc (Suc (Suc (Suc (Suc (Suc 0))))))) []
      (relay_task (j_net j) (j_clk j) lg (receive (j_dgram j) (j_cli j)) msg)"
  proof (cases "j_net j (sent_on j)")
    case Send_Failed
    note f = fail_answers [OF rp, of j "[Socket_Open]"]
    have "will_answer ls j pk (Suc (Suc (Suc (Suc (Suc (Suc (Suc 0))))))) [] (Does Socket_Open (fail_task msg (j_cli j)))"
      by (rule will_answer_Does) (use f Send_Failed in auto)
    then show ?thesis using lg Send_Failed by (auto simp: relay_task_def req cli)
  next
    case No_Answer
    note f = fail_answers [OF rp, of j "[Socket_Open, To_Server (sent_on j)]"]
    have "will_answer ls j pk (Suc (Suc (Suc (Suc (Suc (Suc (Suc 0))))))) []
        (Does Socket_Open (Does (To_Server (sent_on j)) (fail_task msg (j_cli j))))"
      by (intro will_answer_Does) (use f No_Answer in auto)
    then show ?thesis using No_Answer by (simp add: relay_task_def req cli)
  next
    case (Answer ans)
    obtain r rpk where r: "decode (answer_buff ans) = Some (Inr r)" "message_view r = Inr rpk" "fits_items (pk_rrs rpk ! 0)"
      using net [OF Answer] by (auto simp: good_answer_def)
    obtain pk' where "msg_shape msg" "message_view msg = Inr pk'" using rp by (auto simp: has_reply_def)
    then have d: "destroyMsg msg = Inr ()" by (rule destroyMsg_ok)
    let ?c = "To_Client (map Some (take BUFF_LEN ans)) (j_cli j)"
    have a: "?a [Socket_Open, To_Server (sent_on j), Socket_Close, ?c]" using Answer by (simp add: answered_once_def)
    have "will_answer ls j pk (Suc (Suc (Suc (Suc (Suc (Suc (Suc 0))))))) []
        (Does Socket_Open (Does (To_Server (sent_on j)) (Does Socket_Close (Does ?c (store_task (j_clk j) r)))))"
      by (intro will_answer_Does) (use store_answers [where pk = pk and j = j and ls = ls, OF r] a in auto)
    then show ?thesis unfolding relay_task_answer [OF Answer r(1) d] .
  qed
  then show ?thesis by (simp add: numeral_eq_Suc)
qed

lemma job_task_starts:
  assumes j: "job_ok j pk"
  obtains msg name q where "job_task lg j = cache_task (j_clk j) msg name (qv_type q) (j_cli j)
      (file_task (j_clk j) msg name (qv_type q) (j_cli j) (relay_task (j_net j) (j_clk j) lg (receive (j_dgram j) (j_cli j)) msg))"
    and "pk_ques pk = [q]" and "good_name (qv_name q)" and "cstr name = Inr (qv_name q)" and "length name \<le> 256"
    and "open_reply pk 2 msg" and "\<exists>s. showRequest lg msg CLOG_LEVEL_INFO = Inr s"
proof -
  let ?p = "receive (j_dgram j) (j_cli j)"
  have req: "request_ok (j_dgram j) pk" using j by (simp add: job_ok_def)
  then obtain q where q: "query_of ?p pk q" "pk_ques pk = [q]" "good_name (qv_name q)" "qv_type q < 50"
    by (auto simp: request_ok_def)
  have short: "length (qv_name q) < STR_LEN"
    using q(3) by (simp add: good_name_def good_key_def HASH_KEY_MAX_LEN_def STR_LEN_def)
  obtain msg q0 name where m: "start_reply lg (a_buff ?p) = Some (Inr msg)" "ques_at msg 0 = Inr q0"
      "strncpy_arr (uninit STR_LEN) (q_name q0) STR_LEN = Inr name" "q_type q0 = qv_type q" "msg_shape msg"
      "message_view msg = Inr (reply_to pk)" "cstr name = Inr (qv_name q)" "length name = STR_LEN"
    by (rule handler_start [OF q(1,4) short])
  have l3: "length (pk_rrs pk) = 3" using m(6) by (simp add: message_view_iff reply_to_def)
  have "pk_ques (reply_to pk) \<noteq> []" "qv_type (hd (pk_ques (reply_to pk))) < 50" using q(2,4) by (simp_all add: reply_to_def)
  then have lg: "\<exists>s. showRequest lg msg CLOG_LEVEL_INFO = Inr s" by (rule showRequest_runs [OF m(6)])
  have "a_cliAddr ?p = j_cli j" by (simp add: receive_def Let_def)
  then show ?thesis
    using m(1-5,7) q(2,3) STR_LEN_256 [OF m(8)] lg m(6) reply_to_room [OF req l3]
    by (intro that [of msg name q]) (auto simp: job_task_def handler_task_def open_reply_def)
qed

lemma handler_answers:
  assumes hosts: "hosts_ok ls" and j: "job_ok j pk"
  shows "will_answer ls j pk 14 [] (job_task lg j)" and "\<exists>evs. answered_once (j_net j) (sent_on j) (j_cli j) pk evs"
proof -
  obtain msg name q where h: "job_task lg j = cache_task (j_clk j) msg name (qv_type q) (j_cli j)
      (file_task (j_clk j) msg name (qv_type q) (j_cli j) (relay_task (j_net j) (j_clk j) lg (receive (j_dgram j) (j_cli j)) msg))"
      "pk_ques pk = [q]" "good_name (qv_name q)" "cstr name = Inr (qv_name q)" "length name \<le> 256" "open_reply pk 2 msg"
      "\<exists>s. showRequest lg msg CLOG_LEVEL_INFO = Inr s"
    by (rule job_task_starts [OF j])
  have rp: "open_reply pk 1 msg" "has_reply pk msg" using open_reply_less [OF h(6)] open_reply_0 by simp_all
  show "\<exists>evs. answered_once (j_net j) (sent_on j) (j_cli j) pk evs"
    by (rule reply_sent [OF rp(2)]) blast
  have "will_answer ls j pk 7 [] (relay_task (j_net j) (j_clk j) lg (receive (j_dgram j) (j_cli j)) msg)"
    by (rule relay_answers [OF rp(2) h(7)]) (use j in \<open>simp add: job_ok_def\<close>)
  then have "will_answer ls j pk (Suc (Suc (Suc 4))) [] (relay_task (j_net j) (j_clk j) lg (receive (j_dgram j) (j_cli j)) msg)"
    by (simp add: numeral_eq_Suc)
  note f = file_answers [OF hosts h(4,3) rp(1) this, of "j_clk j" "qv_type q"]
  have "Suc 4 + 3 = Suc (7::nat)" by simp
  from cache_answers [OF h(6,4,5) f [unfolded this], of "j_clk j" "qv_type q"]
  show "will_answer ls j pk 14 [] (job_task lg j)" by (simp add: h(1))
qed

section \<open>Any number of handlers\<close>

text \<open>What holds of every thread after \<open>n\<close> of its steps.\<close>

definition on_its_way :: "(cstring \<times> cstring) list \<Rightarrow> job \<Rightarrow> packet \<Rightarrow> nat \<Rightarrow> event list \<times> task \<Rightarrow> bool" where
  "on_its_way ls j pk n = (\<lambda>(evs, t). will_answer ls j pk (14 - n) evs t \<and>
     (\<exists>more. answered_once (j_net j) (sent_on j) (j_cli j) pk (evs @ more)))"

definition world_ok :: "(cstring \<times> cstring) list \<Rightarrow> job list \<Rightarrow> packet list \<Rightarrow> (nat \<Rightarrow> nat) \<Rightarrow> world \<Rightarrow> bool" where
  "world_ok ls js pks n w \<longleftrightarrow> server_ok ls (w_server w) \<and> length (w_threads w) = length js \<and>
     (\<forall>i < length js. on_its_way ls (js ! i) (pks ! i) (n i) (w_threads w ! i))"

lemma on_its_way_step:
  assumes "on_its_way ls j pk n (evs, t)" and "server_ok ls sv" and "undisturbed sv t" and "task_step sv t = (sv', es, t')"
  shows "server_ok ls sv'" and "on_its_way ls j pk (Suc n) (evs @ es, t')"
proof -
  have "goes_on ls j pk (14 - n - 1) evs (sv', es, t')"
    using will_answer_step [OF _ assms(2,3), of j pk "14 - n" evs] assms(1,4) by (simp add: on_its_way_def)
  then show "server_ok ls sv'" "on_its_way ls j pk (Suc n) (evs @ es, t')"
    using assms(1) by (auto simp: goes_on_def on_its_way_def)
qed

lemma world_turn:
  assumes "world_ok ls js pks n w" and "i < length (w_threads w) \<Longrightarrow> undisturbed (w_server w) (snd (w_threads w ! i))"
  shows "world_ok ls js pks (n(i := Suc (n i))) (turn i w)"
proof (cases "i < length (w_threads w)")
  case False
  then show ?thesis using assms(1) by (auto simp: turn_def world_ok_def)
next
  case True
  obtain evs t where th: "w_threads w ! i = (evs, t)" by fastforce
  obtain sv es t' where st: "task_step (w_server w) t = (sv, es, t')" by (metis prod_cases3)
  have ok: "on_its_way ls (js ! i) (pks ! i) (n i) (evs, t)" "server_ok ls (w_server w)" "length (w_threads w) = length js"
    using assms(1) True th by (auto simp: world_ok_def dest: spec [of _ i])
  have "undisturbed (w_server w) t" using assms(2) True th by simp
  from on_its_way_step [OF ok(1,2) this st] show ?thesis
    using assms(1) True th st by (auto simp: world_ok_def turn_def nth_list_update)
qed

lemma world_run:
  "world_ok ls js pks n w \<Longrightarrow> undisturbed_run sched w \<Longrightarrow>
     world_ok ls js pks (\<lambda>i. n i + count_list sched i) (schedule_run sched w)"
proof (induction sched arbitrary: n w)
  case (Cons i sched)
  have "world_ok ls js pks (n(i := Suc (n i))) (turn i w)" using Cons.prems by (intro world_turn) simp_all
  from Cons.IH [OF this] have "world_ok ls js pks (\<lambda>l. (n(i := Suc (n i))) l + count_list sched l) (schedule_run sched (turn i w))"
    using Cons.prems by simp
  moreover have "(\<lambda>l. (n(i := Suc (n i))) l + count_list sched l) = (\<lambda>l. n l + count_list (i # sched) l)" by (auto simp: fun_eq_iff)
  ultimately show ?case by simp
qed simp

lemma world_start:
  assumes "server_ok ls sv" and "list_all2 job_ok js pks"
  shows "world_ok ls js pks (\<lambda>_. 0) (start_world sv js)"
proof -
  have "on_its_way ls (js ! i) (pks ! i) 0 ([], job_task (sv_log sv) (js ! i))" if "i < length js" for i
    using handler_answers [of ls "js ! i" "pks ! i"] assms that by (simp add: on_its_way_def server_ok_def list_all2_nthD)
  then show ?thesis using assms(1) by (simp add: world_ok_def start_world_def)
qed

lemma on_its_way_ends:
  assumes "on_its_way ls j pk n (evs, t)"
  shows "t \<noteq> Diverges" and "t \<noteq> Faults f" and "t = Returns \<Longrightarrow> answered_once (j_net j) (sent_on j) (j_cli j) pk evs"
    and "14 \<le> n \<Longrightarrow> t = Returns"
proof -
  have w: "will_answer ls j pk (14 - n) evs t" using assms by (simp add: on_its_way_def)
  show "t \<noteq> Diverges" "t \<noteq> Faults f" using w will_answer_ends by auto
  show "t = Returns \<Longrightarrow> answered_once (j_net j) (sent_on j) (j_cli j) pk evs" using w by (auto elim: will_answer.cases)
  show "14 \<le> n \<Longrightarrow> t = Returns" using w by (auto elim: will_answer_0)
qed

text \<open>A handler that looks nothing up cannot be overtaken.\<close>

primrec no_lookup :: "task \<Rightarrow> bool" where
  "no_lookup (Cache_Find key now k) \<longleftrightarrow> False"
| "no_lookup (Cache_Copy key p k) \<longleftrightarrow> False"
| "no_lookup (Cache_Put key it TTL now t) \<longleftrightarrow> no_lookup t"
| "no_lookup (File_Seek name k) \<longleftrightarrow> False"
| "no_lookup (File_Scan pos k) \<longleftrightarrow> False"
| "no_lookup (Does e t) \<longleftrightarrow> no_lookup t"
| "no_lookup Returns \<longleftrightarrow> True"
| "no_lookup (Faults f) \<longleftrightarrow> True"
| "no_lookup Diverges \<longleftrightarrow> True"

lemma no_lookup_step: "no_lookup t \<Longrightarrow> undisturbed sv t \<and> no_lookup (snd (snd (task_step sv t)))"
  by (cases t) (auto split: sum.splits)

lemma no_lookup_locally:
  "(\<And>a. x = Inr a \<Longrightarrow> no_lookup (k a)) \<Longrightarrow> no_lookup (locally x k)"
  by (cases x) (simp_all add: locally_def)

lemma no_lookup_locally_run:
  "(\<And>a. x = Some (Inr a) \<Longrightarrow> no_lookup (k a)) \<Longrightarrow> no_lookup (locally_run x k)"
  by (cases x) (auto simp: locally_run_def intro: no_lookup_locally)

lemma no_lookup_put: "no_lookup t \<Longrightarrow> no_lookup (putItem_task name type it now now' t)"
  by (auto simp: putItem_task_def intro!: no_lookup_locally)

lemma no_lookup_relay: "no_lookup (relay_task net clk lg parg msg)"
  by (auto simp: relay_task_def fail_task_def store_task_def Let_def
      intro!: no_lookup_locally no_lookup_locally_run no_lookup_put split: net_result.splits)

lemma no_lookup_run:
  "\<forall>th \<in> set (w_threads w). no_lookup (snd th) \<Longrightarrow> undisturbed_run sched w"
proof (induction sched arbitrary: w)
  case (Cons i sched)
  have "undisturbed (w_server w) (snd (w_threads w ! i))" if "i < length (w_threads w)"
    using Cons.prems that no_lookup_step by simp
  moreover have "\<forall>th \<in> set (w_threads (turn i w)). no_lookup (snd th)"
  proof (cases "i < length (w_threads w)")
    case True
    then have "no_lookup (snd (snd (task_step (w_server w) (snd (w_threads w ! i)))))" using Cons.prems no_lookup_step by simp
    then show ?thesis
      using Cons.prems True by (auto simp: turn_def case_prod_unfold Let_def dest!: set_update_subset_insert [THEN subsetD])
  qed (use Cons.prems in \<open>simp add: turn_def\<close>)
  ultimately show ?case using Cons.IH by simp
qed simp

text \<open>So handlers of other record types than the cached ones run in any order.\<close>

lemma other_type_no_lookup:
  assumes "job_ok j pk" and "\<not> cached_type (qv_type (hd (pk_ques pk)))"
  shows "no_lookup (job_task lg j)"
proof -
  obtain msg name q where "job_task lg j = cache_task (j_clk j) msg name (qv_type q) (j_cli j)
      (file_task (j_clk j) msg name (qv_type q) (j_cli j)
        (relay_task (j_net j) (j_clk j) lg (receive (j_dgram j) (j_cli j)) msg))" "pk_ques pk = [q]"
    by (rule job_task_starts [OF assms(1)])
  then show ?thesis using assms(2) no_lookup_relay by (auto simp: cache_task_def file_task_def)
qed

lemma other_types_undisturbed:
  assumes "list_all2 job_ok js pks" and "\<forall>pk \<in> set pks. \<not> cached_type (qv_type (hd (pk_ques pk)))"
  shows "undisturbed_run sched (start_world sv js)"
proof (rule no_lookup_run)
  have "\<forall>j \<in> set js. no_lookup (job_task (sv_log sv) j)"
    using assms other_type_no_lookup by (metis in_set_conv_nth list_all2_conv_all_nth nth_mem)
  then show "\<forall>th \<in> set (w_threads (start_world sv js)). no_lookup (snd th)" by (simp add: start_world_def)
qed

end
