(* ===== verification/Server_Schedules.thy ===== *)
theory Server_Schedules
  imports Server_Threads
begin

text \<open>
  Handlers that ask for the addresses of one name: they look it up in the cache and in the host file,
  and put what they are answered into the cache, but as long as no entry expires and the host file
  does not have the name, no lookup of theirs is overtaken, whatever the schedule.
\<close>

section \<open>Requests for one name\<close>




definition units_stay :: "cstring \<Rightarrow> server \<Rightarrow> server \<Rightarrow> bool" where
  "units_stay s sv sv' \<longleftrightarrow> (\<forall>p. search (c_hTab (sv_cache sv)) (item_key s TYPE_A) = Inr (Some p) \<longrightarrow>
     search (c_hTab (sv_cache sv')) (item_key s TYPE_A) = Inr (Some p))"







lemma units_stay_refl [simp]: "units_stay s sv sv"
  by (simp add: units_stay_def)






section \<open>The handlers\<close>










section \<open>Every schedule\<close>




section \<open>Property\<close>








end
