(* ===== verification/Server_Workers.thy ===== *)
theory Server_Workers
  imports Pool_Serving Server_Schedules
begin

text \<open>
  The relay on a pool of any number of threads: the loop of \<open>main\<close> makes a task of every datagram,
  and each worker of the pool runs the handler of the task it has fetched step by step, while the
  others run theirs.
\<close>

section \<open>The machine\<close>









section \<open>The pool of the machine\<close>





section \<open>What the workers do\<close>














section \<open>Steps and their number\<close>








section \<open>Runs\<close>










section \<open>Property\<close>


section \<open>A program with two workers\<close>












end
