(* ===== verification/Message_Show.thy ===== *)
theory Message_Show
  imports Message_Codec
begin

text \<open>
  The debugging output of \<open>message.c\<close>, which the client \<open>cli.c\<close> shows its user: a message field by
  field and a dump of memory. The functions return what they print. The names of types and classes
  come from tables of local pointers, of which only some are initialised; an index without name is
  a fault of its own kind. What \<open>inet_ntop\<close> makes of an IPv6 address is a parameter \<open>ntop6\<close>.
\<close>

section \<open>Numbers in text\<close>

definition digit :: "nat \<Rightarrow> char" where
  "digit d = char_of (if d < 10 then 48 + d else 87 + d)"

fun numeral_in :: "nat \<Rightarrow> nat \<Rightarrow> string" where
  "numeral_in b n = (if b < 2 \<or> n < b then [digit n] else numeral_in b (n div b) @ [digit (n mod b)])"

declare numeral_in.simps [simp del]

definition dec :: "nat \<Rightarrow> string" where
  "dec n = numeral_in 10 n"

text \<open>\<open>%04x\<close> and \<open>%02x\<close>: at least so many digits, with leading zeros.\<close>

definition hex :: "nat \<Rightarrow> nat \<Rightarrow> string" where
  "hex w n = (let s = numeral_in 16 n in replicate (w - length s) (CHR ''0'') @ s)"

definition newline :: string where
  "newline = [CHR 0x0A]"

section \<open>Messages\<close>

definition showFlag :: "16 word \<Rightarrow> string" where
  "showFlag flag = concat (map (\<lambda>i. if and flag (push_bit i 1) \<noteq> 0 then ''1 '' else ''0 '') [0..<16])"

definition type_str :: "16 word \<Rightarrow> string res" where
  "type_str t =
     (if 29 \<le> t then Inl Out_Of_Bounds
      else if t = 1 then Inr ''A'' else if t = 2 then Inr ''NS''
      else if t = 5 then Inr ''CNAME'' else if t = 28 then Inr ''AAAA''
      else Inl Uninit_Read)"

definition class_str :: "16 word \<Rightarrow> string res" where
  "class_str c =
     (if 5 \<le> c then Inl Out_Of_Bounds
      else if c = 0 then Inl Bad_Pointer
      else Inr ([''IN'', ''CS'', ''CH'', ''HS''] ! (unat c - 1)))"

definition rr_t :: "string list" where
  "rr_t = [''ANSWER'', ''AUTHORITY'', ''ADDITIONAL'']"

definition show_ques :: "question \<Rightarrow> string res" where
  "show_ques q =
     bindE (cstr (q_name q)) (\<lambda>name.
     bindE (type_str (q_type q)) (\<lambda>type.
     bindE (class_str (q_class q)) (\<lambda>class.
     Inr (''name:'' @ chars name @ ''  type:'' @ type @ ''  class:'' @ class @ newline))))"

text \<open>\<open>inet_ntop\<close> with a result of 39 bytes at most; a longer one leaves \<open>str\<close> as it was, uninitialised.\<close>

definition ntop4 :: "byte list \<Rightarrow> string" where
  "ntop4 bs = dec (unat (bs ! 0)) @ ''.'' @ dec (unat (bs ! 1)) @ ''.'' @ dec (unat (bs ! 2)) @ ''.'' @ dec (unat (bs ! 3))"

definition load_bytes :: "carr option \<Rightarrow> nat \<Rightarrow> byte list res" where
  "load_bytes data n =
     (case data of
        None \<Rightarrow> Inl Bad_Pointer
      | Some d \<Rightarrow> bindE (rd_block d 0 n)
          (mapE (\<lambda>b. case b of None \<Rightarrow> Inl Uninit_Read | Some b \<Rightarrow> Inr b)))"

definition in_39 :: "string \<Rightarrow> string res" where
  "in_39 s = (if length s < 39 then Inr s else Inl Uninit_Read)"

definition show_address :: "(byte list \<Rightarrow> string) \<Rightarrow> RR \<Rightarrow> string res" where
  "show_address ntop6 rr =
     (if rr_type rr = TYPE_AAAA then bindE (load_bytes (rr_data rr) 16) (\<lambda>bs. in_39 (ntop6 bs))
      else bindE (load_bytes (rr_data rr) 4) (\<lambda>bs. in_39 (ntop4 bs)))"

definition show_rr_data :: "(byte list \<Rightarrow> string) \<Rightarrow> RR \<Rightarrow> string res" where
  "show_rr_data ntop6 rr =
     (if rr_data_type rr = STRING_TYPE then bindE (cstr (rr_string_data rr)) (\<lambda>s. Inr (chars s))
      else show_address ntop6 rr)"

definition show_rr :: "(byte list \<Rightarrow> string) \<Rightarrow> RR \<Rightarrow> string res" where
  "show_rr ntop6 rr =
     bindE (show_rr_data ntop6 rr) (\<lambda>data.
     bindE (cstr (rr_name rr)) (\<lambda>name.
     bindE (type_str (rr_type rr)) (\<lambda>type.
     bindE (class_str (rr_class rr)) (\<lambda>class.
     Inr (''name:'' @ chars name @ ''  type:'' @ type @ '' class:'' @ class @ '' TTL:'' @ dec (unat (rr_TTL rr)) @
          '' len:'' @ dec (unat (rr_data_length rr)) @ '' data:'' @ data @ newline)))))"

definition show_section :: "(byte list \<Rightarrow> string) \<Rightarrow> message \<Rightarrow> nat \<Rightarrow> string res" where
  "show_section ntop6 msg i =
     bindE (mapE (\<lambda>j. bindE (rr_at msg i j) (show_rr ntop6)) [0..<unat (msg_RR_count msg ! i)]) (\<lambda>rrs.
     Inr (''-----------------'' @ rr_t ! i @ ''---------------'' @ newline @ concat rrs @
          ''-----------------end of '' @ rr_t ! i @ ''---------------'' @ newline))"

definition showMsg :: "(byte list \<Rightarrow> string) \<Rightarrow> message \<Rightarrow> string res" where
  "showMsg ntop6 msg =
     bindE (mapE (\<lambda>i. bindE (ques_at msg i) show_ques) [0..<unat (msg_q_count msg)]) (\<lambda>qs.
     bindE (mapE (show_section ntop6 msg) [0..<3]) (\<lambda>sections.
     Inr (''ID:'' @ hex 4 (unat (msg_ID msg)) @ ''  '' @ ''flag:'' @ showFlag (msg_flag msg) @ newline @
       ''q_count:'' @ dec (unat (msg_q_count msg)) @ '' ans_count:'' @ dec (unat (msg_RR_count msg ! 0)) @
       '' auth_count:'' @ dec (unat (msg_RR_count msg ! 1)) @ '' add_count:'' @ dec (unat (msg_RR_count msg ! 2)) @ newline @
       ''----------questions--------------'' @ newline @ concat qs @
       ''--------------end of question ----------------'' @ newline @ concat sections)))"

section \<open>Memory\<close>

text \<open>
  \<open>check\<close>: letters, digits and some punctuation. A byte from 128 on is a negative \<open>char\<close>, which is
  taken not to be alphanumeric, as in the C locale.
\<close>

definition check :: "byte \<Rightarrow> bool" where
  "check c \<longleftrightarrow> 48 \<le> c \<and> c \<le> 57 \<or> 65 \<le> c \<and> c \<le> 90 \<or> 97 \<le> c \<and> c \<le> 122 \<or>
     c \<in> set (bytes (''!@#$%^&*()_+-=,./?'' @ [CHR 0x27, CHR 0x22, CHR 0x5C]))"

text \<open>A row of sixteen places: the first loop prints numbers, the second one characters.\<close>

definition row :: "(nat \<Rightarrow> string) \<Rightarrow> string" where
  "row f = concat (map (\<lambda>i. f i @ (if i = 7 then ''  '' else [])) [0..<16])"

definition show_row :: "byte list \<Rightarrow> nat \<Rightarrow> string" where
  "show_row bs p =
     hex 4 p @ ''  '' @
     row (\<lambda>i. if p + i < length bs then hex 2 (unat (bs ! (p + i))) @ '' '' else ''!! '') @ ''  '' @
     row (\<lambda>i. if p + i < length bs then [if check (bs ! (p + i)) then char_of (unat (bs ! (p + i))) else CHR ''.'']
              else ''?'') @ newline"

definition showMem :: "carr \<Rightarrow> nat \<Rightarrow> string res" where
  "showMem mem len =
     bindE (load_bytes (Some mem) len) (\<lambda>bs.
     Inr (concat (map (\<lambda>k. show_row bs (16 * k)) [0..<(len + 15) div 16])))"

section \<open>Properties\<close>

text \<open>The values with a name in the tables, and an address that fits.\<close>

definition named :: "16 word \<Rightarrow> 16 word \<Rightarrow> bool" where
  "named t c \<longleftrightarrow> t \<in> {TYPE_A, TYPE_NS, TYPE_CNAME, TYPE_AAAA} \<and> c \<in> {1, 2, 3, 4}"

definition rr_printable :: "(byte list \<Rightarrow> string) \<Rightarrow> rr_val \<Rightarrow> bool" where
  "rr_printable ntop6 r \<longleftrightarrow> named (rv_type r) (rv_class r) \<and>
     (case rv_data r of Rd_Name s \<Rightarrow> True
      | Rd_Bytes bs \<Rightarrow> rv_type r = TYPE_AAAA \<longrightarrow> length (ntop6 (take 16 bs)) < 39)"

definition printable :: "(byte list \<Rightarrow> string) \<Rightarrow> packet \<Rightarrow> bool" where
  "printable ntop6 pk \<longleftrightarrow> (\<forall>q \<in> set (pk_ques pk). named (qv_type q) (qv_class q)) \<and>
     (\<forall>rs \<in> set (pk_rrs pk). \<forall>r \<in> set rs. rr_printable ntop6 r)"

text \<open>Enough data for the address that is read of it.\<close>

definition data_long :: "rr_val \<Rightarrow> bool" where
  "data_long r \<longleftrightarrow> (case rv_data r of Rd_Name s \<Rightarrow> True
     | Rd_Bytes bs \<Rightarrow> (if rv_type r = TYPE_AAAA then 16 else 4) \<le> length bs)"

lemma type_str_named: "(\<exists>s. type_str t = Inr s) \<longleftrightarrow> t \<in> {TYPE_A, TYPE_NS, TYPE_CNAME, TYPE_AAAA}"
  by (auto simp: type_str_def const_defs word_le_nat_alt)

lemma class_str_named: "(\<exists>s. class_str c = Inr s) \<longleftrightarrow> c \<in> {1, 2, 3, 4}"
proof -
  have "5 \<le> c \<longleftrightarrow> 5 \<le> unat c" by (simp add: word_le_nat_alt)
  moreover have "c \<in> {1, 2, 3, 4} \<longleftrightarrow> unat c = 1 \<or> unat c = 2 \<or> unat c = 3 \<or> unat c = 4"
    by (simp add: word_unat_eq_iff)
  moreover have "c = 0 \<longleftrightarrow> unat c = 0" by (simp add: unat_eq_0)
  ultimately show ?thesis unfolding class_str_def by (simp only:) force
qed

lemma show_ques_ok:
  assumes "ques_view q = Inr v"
  shows "(\<exists>s. show_ques q = Inr s) \<longleftrightarrow> named (qv_type v) (qv_class v)"
proof -
  have "cstr (q_name q) = Inr (qv_name v)" "q_type q = qv_type v" "q_class q = qv_class v"
    using assms by (auto simp: ques_view_def bindE_Inr_iff)
  then show ?thesis
    using type_str_named [of "q_type q"] class_str_named [of "q_class q"]
    by (auto simp: show_ques_def bindE_Inr_iff named_def)
qed

text \<open>A prefix of bytes that are all written.\<close>

lemma load_bytes_ok:
  assumes "take n d = map Some bs" and "n \<le> length d" and "k \<le> n"
  shows "load_bytes (Some d) k = Inr (take k bs)"
proof -
  have k: "take k d = map Some (take k bs)" "k \<le> length d"
    using arg_cong [OF assms(1), of "take k"] assms(2,3) by (simp_all add: min_absorb1 take_map)
  have "mapE (\<lambda>b. case b of None \<Rightarrow> Inl Uninit_Read | Some b \<Rightarrow> Inr b) (map Some xs) = Inr xs" for xs :: "byte list"
    by (induction xs) auto
  then show ?thesis using k by (simp add: load_bytes_def rd_block_def)
qed

lemma data_view_bytes:
  assumes "data_view r = Inr (Rd_Bytes bs)"
  obtains d where "rr_data r = Some d" and "rr_data_type r = BINARY_TYPE"
    and "take (length bs) d = map Some bs" and "length bs \<le> length d"
proof -
  obtain d x where d: "rr_data r = Some d" "rr_data_type r = BINARY_TYPE" "rd_block d 0 (unat (rr_data_length r)) = Inr x"
      "mapE (\<lambda>b. case b of None \<Rightarrow> Inl Uninit_Read | Some b \<Rightarrow> Inr b) x = Inr bs"
    using assms by (auto simp: data_view_def bindE_Inr_iff split: data_type.splits option.splits)
  have "list_all2 (\<lambda>b y. (case b of None \<Rightarrow> Inl Uninit_Read | Some b \<Rightarrow> Inr b) = (Inr y :: byte res)) x bs"
    using d(4) by (simp add: mapE_iff)
  then have "x = map Some bs" by (induction rule: list_all2_induct) (auto split: option.splits)
  moreover have "unat (rr_data_length r) \<le> length d" "x = take (unat (rr_data_length r)) d"
    using d(3) by (auto simp: rd_block_def split: if_splits)
  ultimately have "unat (rr_data_length r) = length bs" by (metis length_map length_take min_absorb2)
  then show ?thesis using that [OF d(1,2)] \<open>x = map Some bs\<close> \<open>x = take _ d\<close> \<open>_ \<le> length d\<close> by simp
qed

lemma dec_byte: "n < 256 \<Longrightarrow> length (dec n) \<le> 3"
  by (simp add: dec_def numeral_in.simps [of 10 n] numeral_in.simps [of 10 "n div 10"]
      numeral_in.simps [of 10 "n div 10 div 10"])

lemma unat_byte: "unat (b :: byte) < 256"
  using unsigned_less [of b] by simp

lemma ntop4_short: "length (ntop4 bs) < 39"
proof -
  have "length (dec (unat b)) \<le> 3" for b :: byte using dec_byte unat_byte by blast
  from this [of "bs ! 0"] this [of "bs ! 1"] this [of "bs ! 2"] this [of "bs ! 3"]
  show ?thesis by (simp add: ntop4_def)
qed

lemma show_rr_data_ok:
  assumes "data_view r = Inr (rv_data v)" and "rr_type r = rv_type v" and "data_long v"
  shows "(\<exists>s. show_rr_data ntop6 r = Inr s) \<longleftrightarrow>
     (case rv_data v of Rd_Name s \<Rightarrow> True | Rd_Bytes bs \<Rightarrow> rv_type v = TYPE_AAAA \<longrightarrow> length (ntop6 (take 16 bs)) < 39)"
proof (cases "rv_data v")
  case (Rd_Name s)
  then show ?thesis
    using assms(1) by (auto simp: data_view_def bindE_Inr_iff show_rr_data_def split: data_type.splits option.splits)
next
  case (Rd_Bytes bs)
  obtain d where d: "rr_data r = Some d" "rr_data_type r = BINARY_TYPE" "take (length bs) d = map Some bs" "length bs \<le> length d"
    using data_view_bytes assms(1) Rd_Bytes by metis
  have loaded: "load_bytes (rr_data r) k = Inr (take k bs)" if "k \<le> length bs" for k
    using load_bytes_ok [OF d(3,4) that] d(1) by simp
  then have "load_bytes (rr_data r) 16 = Inr (take 16 bs)" if "rv_type v = TYPE_AAAA"
    using assms(3) that Rd_Bytes by (simp add: data_long_def)
  moreover have "load_bytes (rr_data r) 4 = Inr (take 4 bs)" if "rv_type v \<noteq> TYPE_AAAA"
    using loaded assms(3) that Rd_Bytes by (simp add: data_long_def)
  ultimately show ?thesis
    using assms(2) Rd_Bytes d(2) ntop4_short
    by (cases "rv_type v = TYPE_AAAA") (simp_all add: show_rr_data_def show_address_def in_39_def)
qed

lemma show_rr_ok:
  assumes "rr_view r = Inr v" and "data_long v"
  shows "(\<exists>s. show_rr ntop6 r = Inr s) \<longleftrightarrow> rr_printable ntop6 v"
proof -
  have f: "cstr (rr_name r) = Inr (rv_name v)" "data_view r = Inr (rv_data v)" "rr_type r = rv_type v" "rr_class r = rv_class v"
    using assms(1) by (auto simp: rr_view_def bindE_Inr_iff)
  have "(\<exists>s. show_rr ntop6 r = Inr s) \<longleftrightarrow> (\<exists>s. show_rr_data ntop6 r = Inr s) \<and>
      (\<exists>s. type_str (rr_type r) = Inr s) \<and> (\<exists>s. class_str (rr_class r) = Inr s)"
    by (auto simp: show_rr_def bindE_Inr_iff f(1))
  then show ?thesis
    unfolding show_rr_data_ok [OF f(2,3) assms(2)] type_str_named class_str_named f(3,4) rr_printable_def named_def
    by blast
qed

lemma mapE_defined: "(\<exists>ys. mapE f xs = Inr ys) \<longleftrightarrow> (\<forall>x \<in> set xs. \<exists>y. f x = Inr y)"
  by (induction xs) (auto simp: bindE_Inr_iff)

lemma bindE_mapE_defined: "(\<exists>z. bindE (mapE f xs) (\<lambda>ys. Inr (g ys)) = Inr z) \<longleftrightarrow> (\<forall>x \<in> set xs. \<exists>y. f x = Inr y)"
  using mapE_defined [of f xs] by (auto simp: bindE_Inr_iff)

lemma show_msg_iff:
  assumes "message_view msg = Inr pk" and "\<forall>rs \<in> set (pk_rrs pk). \<forall>r \<in> set rs. data_long r"
  shows "(\<exists>s. showMsg ntop6 msg = Inr s) \<longleftrightarrow> printable ntop6 pk"
proof -
  note pv = assms(1) [unfolded message_view_iff]
  have ques: "(\<exists>s. bindE (ques_at msg i) show_ques = Inr s) \<longleftrightarrow> named (qv_type (pk_ques pk ! i)) (qv_class (pk_ques pk ! i))"
    if i: "i < length (pk_ques pk)" for i
  proof -
    obtain q where "ques_at msg i = Inr q" "ques_view q = Inr (pk_ques pk ! i)" using pv i by (auto simp: bindE_Inr_iff)
    then show ?thesis using show_ques_ok by simp
  qed
  have pv_rr: "\<forall>i. i < 3 \<longrightarrow> (\<forall>j < length (pk_rrs pk ! i). bindE (rr_at msg i j) rr_view = Inr (pk_rrs pk ! i ! j))"
    using pv by simp
  have rr: "(\<exists>s. bindE (rr_at msg i j) (show_rr ntop6) = Inr s) \<longleftrightarrow> rr_printable ntop6 (pk_rrs pk ! i ! j)"
    if ij: "i < 3" "j < length (pk_rrs pk ! i)" for i j
  proof -
    obtain r where r: "rr_at msg i j = Inr r" "rr_view r = Inr (pk_rrs pk ! i ! j)"
      using spec [OF pv_rr, of i] ij by (auto simp: bindE_Inr_iff)
    have "pk_rrs pk ! i \<in> set (pk_rrs pk)" "pk_rrs pk ! i ! j \<in> set (pk_rrs pk ! i)" using pv ij by simp_all
    then have "data_long (pk_rrs pk ! i ! j)" using assms(2) by blast
    then show ?thesis using show_rr_ok [OF r(2)] r(1) by simp
  qed
  have sec: "(\<exists>s. show_section ntop6 msg i = Inr s) \<longleftrightarrow> (\<forall>r \<in> set (pk_rrs pk ! i). rr_printable ntop6 r)" if i: "i < 3" for i
  proof -
    have "(\<exists>s. show_section ntop6 msg i = Inr s) \<longleftrightarrow>
        (\<forall>j < length (pk_rrs pk ! i). \<exists>s. bindE (rr_at msg i j) (show_rr ntop6) = Inr s)"
      using pv i unfolding show_section_def bindE_mapE_defined by (simp add: Ball_def)
    then show ?thesis using rr [OF i] by (simp add: all_set_conv_all_nth)
  qed
  have "(\<exists>s. showMsg ntop6 msg = Inr s) \<longleftrightarrow>
      (\<forall>i < length (pk_ques pk). \<exists>s. bindE (ques_at msg i) show_ques = Inr s) \<and>
      (\<forall>i < 3. \<exists>s. show_section ntop6 msg i = Inr s)"
    using pv mapE_defined [of "\<lambda>i. bindE (ques_at msg i) show_ques" "[0..<unat (msg_q_count msg)]"]
      mapE_defined [of "show_section ntop6 msg" "[0..<3]"]
    by (auto simp: showMsg_def bindE_Inr_iff)
  then show ?thesis
    using pv ques sec by (simp add: printable_def all_set_conv_all_nth)
qed

text \<open>
  \<open>showMsg\<close> prints a message whose records have as much data as their addresses take exactly when
  every type in it is \<open>A\<close>, \<open>NS\<close>, \<open>CNAME\<close> or \<open>AAAA\<close>, every class is one of the four of the table and
  every IPv6 address takes fewer than 39 characters; any other message makes it read a pointer that
  was never set, is null or is outside of its table, or an address that was never written.
\<close>
theorem show_msg_defined:
  assumes "message_view msg = Inr pk" and "\<forall>rs \<in> set (pk_rrs pk). \<forall>r \<in> set rs. data_long r"
  shows "(\<exists>s. showMsg ntop6 msg = Inr s) \<longleftrightarrow> printable ntop6 pk"
  by (rule show_msg_iff [OF assms])

theorem show_msg_defined_witness: "\<exists>s. showMsg (\<lambda>bs. []) query_example = Inr s"
  using show_msg_defined [OF query_example_view]
  by (simp add: printable_def query_packet_def named_def const_defs)

text \<open>\<open>showMem\<close> prints a row of 77 characters for every sixteen bytes or part of it.\<close>

lemma numeral_in_length: "1 < b \<Longrightarrow> 0 < w \<Longrightarrow> n < b ^ w \<Longrightarrow> length (numeral_in b n) \<le> w"
proof (induction w arbitrary: n)
  case (Suc w)
  show ?case
  proof (cases "n < b")
    case False
    then have "0 < w" using Suc.prems by (cases w) auto
    moreover have "n div b < b ^ w" using Suc.prems by (simp add: less_mult_imp_div_less mult.commute)
    ultimately show ?thesis using Suc.IH [of "n div b"] Suc.prems(1) False by (simp add: numeral_in.simps [of b n])
  qed (use Suc.prems in \<open>simp add: numeral_in.simps [of b n]\<close>)
qed simp

lemma hex_length: "0 < w \<Longrightarrow> n < 16 ^ w \<Longrightarrow> length (hex w n) = w"
  using numeral_in_length [of 16 w n] by (simp add: hex_def Let_def)

lemma row_length: "(\<And>i. i < 16 \<Longrightarrow> length (f i) = k) \<Longrightarrow> length (row f) = 16 * k + 2"
  by (simp add: row_def length_concat upt_rec)

lemma show_row_length: "p < 65536 \<Longrightarrow> length (show_row bs p) = 77"
proof -
  assume p: "p < 65536"
  have h2: "length (hex 2 (unat b)) = 2" for b :: byte using hex_length [of 2 "unat b"] unat_byte [of b] by simp
  have "length (row (\<lambda>i. if p + i < length bs then hex 2 (unat (bs ! (p + i))) @ '' '' else ''!! '')) = 50"
    by (subst row_length [of _ 3]) (simp_all add: h2)
  moreover have "length (row (\<lambda>i. if p + i < length bs then [if check (bs ! (p + i)) then char_of (unat (bs ! (p + i)))
      else CHR ''.''] else ''?'')) = 18"
    by (subst row_length [of _ 1]) simp_all
  ultimately show ?thesis using p hex_length [of 4 p] by (simp add: show_row_def newline_def)
qed

lemma show_mem_ok:
  assumes "take n mem = map Some bs" and "n \<le> length mem" and "n \<le> 65536"
  shows "\<exists>s. showMem mem n = Inr s \<and> length s = 77 * ((n + 15) div 16)"
proof -
  have l: "length bs = n" using arg_cong [OF assms(1), of length] assms(2) by simp
  have "load_bytes (Some mem) n = Inr bs" using load_bytes_ok [OF assms(1,2), of n] l by simp
  moreover have "length (concat (map (\<lambda>k. show_row bs (16 * k)) [0..<m])) = 77 * m" if "m \<le> 4096" for m
    using that by (induction m) (simp_all add: show_row_length)
  moreover have "(n + 15) div 16 \<le> 4096" using assms(3) by simp
  ultimately show ?thesis by (simp add: showMem_def)
qed

end
