(* ===== verification/Server_Show.thy ===== *)
theory Server_Show
  imports Server_Startup Message_Show
begin

text \<open>
  What \<open>server.c\<close> prints beside its log lines: \<open>showHelp\<close> for the option \<open>--help\<close>, and the two functions
  for debugging, \<open>checkItem\<close> and \<open>tmpSend\<close>, that are compiled but called only with \<open>DEBUG\<close> set. As in
  Message_Show a function returns what it prints.
\<close>

section \<open>checkItem\<close>

text \<open>The static table has a name for three of its six types; \<open>%s\<close> of the others reads a null pointer.\<close>

definition item_type_name :: "byte \<Rightarrow> string res" where
  "item_type_name t =
     (if 6 \<le> t then Inl Out_Of_Bounds
      else if t = 1 then Inr ''A'' else if t = 2 then Inr ''NS'' else if t = 5 then Inr ''CNAME''
      else Inl Bad_Pointer)"

text \<open>\<open>%d\<close> reads the low 32 bits of the difference of two times.\<close>

definition dec_int :: "int \<Rightarrow> string" where
  "dec_int i = (let v = sint (word_of_int i :: 32 word) in if v < 0 then ''-'' @ dec (nat (- v)) else dec (nat v))"

definition check_entry :: "item \<Rightarrow> nat \<Rightarrow> string res" where
  "check_entry it i =
     (if it_type it = 1 then
        (if length (it_ipv4 it) \<le> i then Inl Out_Of_Bounds
         else bindE (load_bytes (Some (it_ipv4 it ! i)) 4) (\<lambda>bs. Inr (''ipv4:'' @ ntop4 bs)))
      else
        (if length (it_strVal it) \<le> i then Inl Out_Of_Bounds
         else bindE (cstr (it_strVal it ! i)) (\<lambda>s. Inr (''data:'' @ chars s))))"

text \<open>The messages given to \<open>log_debug\<close>, in their order.\<close>

definition checkItem :: "item \<Rightarrow> int \<Rightarrow> string list res" where
  "checkItem it now =
     bindE (item_type_name (it_type it)) (\<lambda>type.
     bindE (cstr (it_name it)) (\<lambda>name.
     bindE (mapE (check_entry it) [0..<unat (it_num it)]) (\<lambda>entries.
     Inr ([''item type:'' @ type, ''item name:'' @ chars name, ''item TTL:'' @ dec_int (it_ddl it - now),
           ''num:'' @ dec (unat (it_num it))] @ entries))))"

fun rdata_text :: "rdata \<Rightarrow> string" where
  "rdata_text (Rd_Bytes bs) = ''ipv4:'' @ ntop4 bs"
| "rdata_text (Rd_Name s) = ''data:'' @ chars s"

lemma check_entry_ok:
  assumes it: "item_is it iv" and i: "i < length (iv_data iv)"
  shows "check_entry it i = Inr (rdata_text (iv_data iv ! i))"
proof (cases "iv_data iv ! i")
  case (Rd_Bytes bs)
  then have "it_type it = 1" "length bs = 4" "it_ipv4 it ! i = map Some bs" "i < length (it_ipv4 it)"
    using it i by (auto simp: item_is_def slot_is_def)
  then show ?thesis
    using load_bytes_ok [of 4 "map Some bs" bs 4] Rd_Bytes by (simp add: check_entry_def)
next
  case (Rd_Name s)
  then show ?thesis using it i by (auto simp: item_is_def slot_is_def check_entry_def)
qed

text \<open>An item of the cache, of one of the three types, is printed in full.\<close>

lemma checkItem_ok:
  assumes it: "item_is it iv" and t: "iv_type iv \<in> {1, 2, 5}"
  shows "\<exists>type. item_type_name (iv_type iv) = Inr type \<and> checkItem it now =
     Inr ([''item type:'' @ type, ''item name:'' @ chars (iv_name iv), ''item TTL:'' @ dec_int (iv_ddl iv - now),
       ''num:'' @ dec (length (iv_data iv))] @ map rdata_text (iv_data iv))"
proof -
  have "mapE (check_entry it) [0..<length (iv_data iv)] = Inr (map rdata_text (iv_data iv))"
    by (simp add: mapE_upt_iff check_entry_ok [OF it])
  moreover have "\<exists>type. item_type_name (iv_type iv) = Inr type" using t by (auto simp: item_type_name_def word_le_nat_alt)
  ultimately show ?thesis using it by (auto simp: checkItem_def item_is_def)
qed

section \<open>tmpSend\<close>

text \<open>A datagram to a fixed server, through a socket of its own.\<close>

definition tmpSend :: "carr \<Rightarrow> nat \<Rightarrow> (byte list \<times> event list) option res" where
  "tmpSend buff n =
     (case inet_pton (bytes ''192.168.43.1'') of
        None \<Rightarrow> Inr None
      | Some ip \<Rightarrow> bindE (rd_block buff 0 n) (\<lambda>d. Inr (Some (ip, [Socket_Open, To_Server d, Socket_Close]))))"

lemma tmpSend_ok: "n \<le> length buff \<Longrightarrow>
    tmpSend buff n = Inr (Some ([192, 168, 43, 1], [Socket_Open, To_Server (take n buff), Socket_Close]))"
  by (simp add: tmpSend_def rd_block_def bytes_def inet_pton_def octet_def is_digit_def digits_value_def Let_def)

section \<open>showHelp\<close>

text \<open>What goes to the standard output, and what to the standard error.\<close>

definition showHelp :: "(cstring \<Rightarrow> cstring option) \<Rightarrow> cstring \<times> string" where
  "showHelp files =
     (case files (bytes ''./man.txt'') of
        None \<Rightarrow> ([], ''error:fail to open man.txt.can not show mannuals'' @ newline @
                     ''please check if man.txt exists!'' @ newline)
      | Some text \<Rightarrow> (text, []))"

text \<open>With \<open>--help\<close> the program shows its manual, whatever the other options are.\<close>

lemma help_shown:
  assumes "\<forall>kv \<in> set kvs. option_ok kv" and "length kvs \<le> 2 ^ 29"
    and "has_option (options_of kvs) ''--help'' ''true''"
  shows "main_start files (prog # map option_text kvs) = Inr Show_Help"
proof -
  obtain arg where arg: "NewArg (prog # map option_text kvs) = Inr arg"
      "\<And>key. is_cstring key \<Longrightarrow> search (arg_ht arg) key = Inr (options_of kvs key)"
    by (rule NewArg_ok [where prog = prog, OF assms(1,2)]) (rule that, simp_all)
  then show ?thesis
    using option_reads(3) [OF arg(2)] option_names assms(3) by (simp add: main_start_def)
qed

lemma help_option: "has_option (options_of [(bytes ''--help'', None)]) ''--help'' ''true''"
  by (simp add: has_option_def options_of_def option_value_def strncmp_eq_def bytes_def)

end
