(* ===== verification/Wrap.thy ===== *)
theory Wrap
  imports Main
begin

text \<open>
  The wrappers of the socket calls, \<open>tool/wrap.c\<close>. What the system answers to a call is a
  parameter: a value, or an error number. A wrapper that repeats its call takes the answers to all
  calls from the \<open>k\<close>-th on and is a partial function: it never returns if the system interrupts it
  for ever. \<open>perr_exit\<close> prints a message and ends the process.
\<close>

section \<open>Wrappers\<close>

datatype errno = ECONNABORTED | EINTR | E_Other nat

type_synonym 'a sysres = "errno + 'a"

datatype 'a proc = Returns 'a | Exits

definition or_exit :: "'a sysres \<Rightarrow> 'a proc" where
  "or_exit r = (case r of Inl e \<Rightarrow> Exits | Inr x \<Rightarrow> Returns x)"

definition Socket :: "int sysres \<Rightarrow> int proc" where "Socket = or_exit"

definition Bind :: "unit sysres \<Rightarrow> unit proc" where "Bind = or_exit"

definition Connect :: "unit sysres \<Rightarrow> unit proc" where "Connect = or_exit"

definition Listen :: "unit sysres \<Rightarrow> unit proc" where "Listen = or_exit"

definition Close :: "unit sysres \<Rightarrow> unit proc" where "Close = or_exit"

text \<open>The loop of the label \<open>again\<close>: the answer that ends it, and the number of the next call.\<close>

partial_function (option) retry :: "(errno \<Rightarrow> bool) \<Rightarrow> (nat \<Rightarrow> 'a sysres) \<Rightarrow> nat \<Rightarrow> ('a sysres \<times> nat) option" where
  "retry again sys k =
     (case sys k of
        Inr n \<Rightarrow> Some (Inr n, Suc k)
      | Inl e \<Rightarrow> if again e then retry again sys (Suc k) else Some (Inl e, Suc k))"

definition Accept :: "(nat \<Rightarrow> int sysres) \<Rightarrow> nat \<Rightarrow> (int proc \<times> nat) option" where
  "Accept sys k =
     map_option (\<lambda>(r, k). (or_exit r, k)) (retry (\<lambda>e. e = ECONNABORTED \<or> e = EINTR) sys k)"

definition Read :: "(nat \<Rightarrow> int sysres) \<Rightarrow> nat \<Rightarrow> (int \<times> nat) option" where
  "Read sys k =
     map_option (\<lambda>(r, k). (case r of Inl e \<Rightarrow> - 1 | Inr n \<Rightarrow> n, k)) (retry (\<lambda>e. e = EINTR) sys k)"

definition Write :: "(nat \<Rightarrow> int sysres) \<Rightarrow> nat \<Rightarrow> (int \<times> nat) option" where
  "Write sys k =
     map_option (\<lambda>(r, k). (case r of Inl e \<Rightarrow> - 1 | Inr n \<Rightarrow> n, k)) (retry (\<lambda>e. e = EINTR) sys k)"

section \<open>Repeated calls\<close>

definition ends_loop :: "(errno \<Rightarrow> bool) \<Rightarrow> 'a sysres \<Rightarrow> bool" where
  "ends_loop again r \<longleftrightarrow> (case r of Inl e \<Rightarrow> \<not> again e | Inr n \<Rightarrow> True)"

lemma retry_step:
  "retry again sys k = (if ends_loop again (sys k) then Some (sys k, Suc k) else retry again sys (Suc k))"
  by (subst retry.simps) (auto simp: ends_loop_def split: sum.splits)

lemma retry_skip:
  assumes "\<And>i. k \<le> i \<Longrightarrow> i < k + d \<Longrightarrow> \<not> ends_loop again (sys i)"
  shows "retry again sys k = retry again sys (k + d)"
  using assms
proof (induction d)
  case (Suc d)
  have "retry again sys (k + d) = retry again sys (k + Suc d)"
    using Suc.prems [of "k + d"] by (subst retry_step) simp
  then show ?case using Suc by simp
qed simp

lemma retry_found:
  assumes "\<And>i. k \<le> i \<Longrightarrow> i < j \<Longrightarrow> \<not> ends_loop again (sys i)" and "k \<le> j" and "ends_loop again (sys j)"
  shows "retry again sys k = Some (sys j, Suc j)"
  using retry_skip [of k "j - k" again sys] assms retry_step [of again sys j] by simp

lemma retry_first:
  assumes "retry again sys k = Some x"
  obtains j where "k \<le> j" and "x = (sys j, Suc j)" and "ends_loop again (sys j)"
    and "\<And>i. k \<le> i \<Longrightarrow> i < j \<Longrightarrow> \<not> ends_loop again (sys i)"
proof -
  have "\<exists>j \<ge> k. x = (sys j, Suc j) \<and> ends_loop again (sys j) \<and> (\<forall>i. k \<le> i \<and> i < j \<longrightarrow> \<not> ends_loop again (sys i))"
  proof (rule retry.raw_induct [OF _ assms, where P = "\<lambda>again sys k x. \<exists>j \<ge> k. x = (sys j, Suc j) \<and>
      ends_loop again (sys j) \<and> (\<forall>i. k \<le> i \<and> i < j \<longrightarrow> \<not> ends_loop again (sys i))"])
    fix rec again sys k x
    assume IH: "\<And>again sys k x. rec again sys k = Some x \<Longrightarrow> \<exists>j \<ge> k. x = (sys j, Suc j) \<and>
        ends_loop again (sys j) \<and> (\<forall>i. k \<le> i \<and> i < j \<longrightarrow> \<not> ends_loop again (sys i))"
      and run: "(case sys k of Inr n \<Rightarrow> Some (Inr n, Suc k)
        | Inl e \<Rightarrow> if again e then rec again sys (Suc k) else Some (Inl e, Suc k)) = Some x"
    show "\<exists>j \<ge> k. x = (sys j, Suc j) \<and> ends_loop again (sys j) \<and> (\<forall>i. k \<le> i \<and> i < j \<longrightarrow> \<not> ends_loop again (sys i))"
    proof (cases "ends_loop again (sys k)")
      case True
      then show ?thesis using run by (intro exI [of _ k]) (auto simp: ends_loop_def split: sum.splits)
    next
      case False
      then have "rec again sys (Suc k) = Some x" using run by (auto simp: ends_loop_def split: sum.splits)
      from IH [OF this] obtain j where j: "Suc k \<le> j" "x = (sys j, Suc j)" "ends_loop again (sys j)"
          "\<forall>i. Suc k \<le> i \<and> i < j \<longrightarrow> \<not> ends_loop again (sys i)" by blast
      have "\<not> ends_loop again (sys i)" if "k \<le> i" "i < j" for i
        using j(4) False that by (cases "i = k") auto
      then show ?thesis using j by (intro exI [of _ j]) auto
    qed
  qed
  with that show ?thesis by blast
qed

lemma retry_None_iff: "retry again sys k = None \<longleftrightarrow> (\<forall>i \<ge> k. \<not> ends_loop again (sys i))"
proof
  assume none: "retry again sys k = None"
  show "\<forall>i \<ge> k. \<not> ends_loop again (sys i)"
  proof (rule ccontr)
    assume "\<not> ?thesis"
    then have ex: "\<exists>i. k \<le> i \<and> ends_loop again (sys i)" by blast
    let ?j = "LEAST i. k \<le> i \<and> ends_loop again (sys i)"
    have "k \<le> ?j \<and> ends_loop again (sys ?j)" using ex by (rule LeastI_ex)
    moreover have "\<not> ends_loop again (sys i)" if "k \<le> i" "i < ?j" for i
      using not_less_Least [OF that(2)] that(1) by blast
    ultimately have "retry again sys k = Some (sys ?j, Suc ?j)" by (intro retry_found) auto
    then show False using none by simp
  qed
next
  assume "\<forall>i \<ge> k. \<not> ends_loop again (sys i)"
  then show "retry again sys k = None" by (cases "retry again sys k") (auto elim: retry_first)
qed

section \<open>Properties\<close>

text \<open>
  \<open>Read\<close> hides interruptions and nothing else: it returns exactly when some call is not
  interrupted, with the answer to the first such call, \<open>-1\<close> for an error; no call is made after it.
\<close>
theorem read_skips_interrupts:
  "(Read sys k = None \<longleftrightarrow> (\<forall>i \<ge> k. sys i = Inl EINTR)) \<and>
   (\<forall>j \<ge> k. sys j \<noteq> Inl EINTR \<and> (\<forall>i. k \<le> i \<and> i < j \<longrightarrow> sys i = Inl EINTR) \<longrightarrow>
      Read sys k = Some (case sys j of Inl e \<Rightarrow> - 1 | Inr n \<Rightarrow> n, Suc j))"
proof -
  have e: "ends_loop (\<lambda>e. e = EINTR) r \<longleftrightarrow> r \<noteq> Inl EINTR" for r :: "int sysres"
    by (auto simp: ends_loop_def split: sum.splits)
  have "Read sys k = Some (case sys j of Inl e \<Rightarrow> - 1 | Inr n \<Rightarrow> n, Suc j)"
    if "k \<le> j" "sys j \<noteq> Inl EINTR" "\<forall>i. k \<le> i \<and> i < j \<longrightarrow> sys i = Inl EINTR" for j
    using retry_found [of k j "\<lambda>e. e = EINTR" sys] that by (simp add: Read_def e)
  then show ?thesis using retry_None_iff [of "\<lambda>e. e = EINTR" sys k] by (auto simp: Read_def e)
qed

theorem read_skips_interrupts_witness:
  "Read (\<lambda>i. if i < 3 then Inl EINTR else Inr 42) 1 = Some (42, 4)"
  using read_skips_interrupts [of "\<lambda>i. if i < 3 then Inl EINTR else Inr 42" 1] by (auto dest: spec [of _ 3])

text \<open>
  \<open>Accept\<close> also hides connections that were given up, and ends the process at any other error.
\<close>
lemma accept_first:
  assumes "Accept sys k = Some (r, k')"
  shows "\<exists>j \<ge> k. k' = Suc j \<and> r = or_exit (sys j) \<and> sys j \<notin> {Inl EINTR, Inl ECONNABORTED} \<and>
     (\<forall>i. k \<le> i \<and> i < j \<longrightarrow> sys i \<in> {Inl EINTR, Inl ECONNABORTED})"
proof -
  have e: "ends_loop (\<lambda>e. e = ECONNABORTED \<or> e = EINTR) r \<longleftrightarrow> r \<notin> {Inl EINTR, Inl ECONNABORTED}" for r :: "int sysres"
    by (auto simp: ends_loop_def split: sum.splits)
  obtain x where "retry (\<lambda>e. e = ECONNABORTED \<or> e = EINTR) sys k = Some x" "(r, k') = (or_exit (fst x), snd x)"
    using assms by (auto simp: Accept_def split: prod.splits)
  then show ?thesis by (elim retry_first [where k = k]) (auto simp: e)
qed

end
