(* ===== verification/Relayer.thy ===== *)
theory Relayer
  imports Server_Samples Wrap
begin

text \<open>
  The plain relay without a cache, \<open>relayer.c\<close>: its loop, which turns every datagram into a task of
  the pool, and the handler that runs a task. Sockets are \<open>wrap.c\<close>'s; what the system and the DNS
  server answer is a parameter. An address is the struct of 16 bytes that \<open>recvfrom\<close> fills in up
  to the length it is given.
\<close>

section \<open>One task\<close>

record relay_calls =
  rc_socket :: "int sysres"
  rc_net :: "carr \<Rightarrow> net_result"
  rc_close :: "unit sysres"

datatype relay_event = R_Open | R_To_Server carr | R_To_Client carr carr | R_Close

text \<open>
  How the handler ends: it returns with everything freed and closed, it returns before that, or it
  ends the process.
\<close>

datatype relay_end = Finished | Gave_Up | Process_Exit

definition DNS_IP :: cstring where
  "DNS_IP = bytes ''192.168.43.1''"

text \<open>From \<open>sendto\<close> on, with the encoded request in the buffer that takes the answer.\<close>

definition relayer_exchange ::
  "relay_calls \<Rightarrow> message \<Rightarrow> carr \<Rightarrow> carr \<Rightarrow> carr \<Rightarrow> (relay_event list \<times> relay_end) res" where
  "relayer_exchange rc msg cliAddr buff req =
     (case rc_net rc req of
        Send_Failed \<Rightarrow> Inr ([R_Open], Process_Exit)
      | No_Answer \<Rightarrow> Inr ([R_Open, R_To_Server req], Gave_Up)
      | Answer ans \<Rightarrow>
          let n = min 1024 (length ans);
              buff = map Some (take n ans) @ drop n buff
          in bindE (rd_block buff 0 n) (\<lambda>d.
             bindE (destroyMsg msg) (\<lambda>_.
             case Close (rc_close rc) of
               Exits \<Rightarrow> Inr ([R_Open, R_To_Server req, R_To_Client d cliAddr], Process_Exit)
             | Returns _ \<Rightarrow> Inr ([R_Open, R_To_Server req, R_To_Client d cliAddr, R_Close], Finished))))"

definition relayer_handler :: "relay_calls \<Rightarrow> message \<Rightarrow> carr \<Rightarrow> (relay_event list \<times> relay_end) res" where
  "relayer_handler rc msg cliAddr =
     bindE (encode msg (uninit 1024)) (\<lambda>(msg, buff, n).
     case Socket (rc_socket rc) of
       Exits \<Rightarrow> Inr ([], Process_Exit)
     | Returns sockfd \<Rightarrow>
         (case inet_pton DNS_IP of
            None \<Rightarrow> Inr ([R_Open], Gave_Up)
          | Some servaddr \<Rightarrow> bindE (rd_block buff 0 n) (relayer_exchange rc msg cliAddr buff)))"

section \<open>The loop\<close>

text \<open>A datagram and the address it comes from, or an error.\<close>

type_synonym receipt = "(cstring \<times> cstring) sysres"

definition SIZEOF_SOCKLEN :: nat where
  "SIZEOF_SOCKLEN = 4"

text \<open>
  The loop keeps one buffer and one address, and \<open>recvfrom\<close> overwrites a prefix of each. The
  result is the tasks given to the pool, in order, and whether the process still runs and waits for
  the next datagram.
\<close>

fun relayer_loop :: "carr \<Rightarrow> carr \<Rightarrow> receipt list \<Rightarrow> ((message \<times> carr) list \<times> bool) run" where
  "relayer_loop buff cliAddr [] = Some (Inr ([], True))"
| "relayer_loop buff cliAddr (Inl e # rs) = Some (Inr ([], False))"
| "relayer_loop buff cliAddr (Inr (dgram, peer) # rs) =
     (let n = min 1024 (length dgram);
          buff = map Some (take n dgram) @ drop n buff;
          cliLen = SIZEOF_SOCKLEN;
          cliAddr = map Some (take cliLen peer) @ drop (min cliLen (length peer)) cliAddr
      in bindR (decode buff) (\<lambda>msg.
         bindR (relayer_loop buff cliAddr rs) (\<lambda>(tasks, running).
         Some (Inr ((msg, cliAddr) # tasks, running)))))"

definition relayer_main :: "int sysres \<Rightarrow> unit sysres \<Rightarrow> receipt list \<Rightarrow> ((message \<times> carr) list \<times> bool) run" where
  "relayer_main sock bnd rs =
     (case Socket sock of
        Exits \<Rightarrow> Some (Inr ([], False))
      | Returns globalSocket \<Rightarrow>
          (case Bind bnd of
             Exits \<Rightarrow> Some (Inr ([], False))
           | Returns _ \<Rightarrow> relayer_loop (uninit 1024) (uninit 16) rs))"

lemmas wrap_defs = Socket_def Bind_def Close_def or_exit_def

section \<open>Properties\<close>

lemma DNS_IP_parsed: "inet_pton DNS_IP = Some [192, 168, 43, 1]"
  by code_simp

lemma handler_sends:
  assumes "msg_shape msg" and "message_view msg = Inr pk" and "packet_ok pk" and "packet_size pk \<le> 1024"
    and "rc_socket rc = Inr fd"
  obtains m b req where "datagram_of req pk" and "length b = 1024" and "destroyMsg m = Inr ()"
    and "relayer_handler rc msg cliAddr = relayer_exchange rc m cliAddr b req"
proof -
  have size: "packet_size pk \<le> BUFF_LEN" using assms(4) by (simp add: BUFF_LEN_def)
  obtain m b n where e: "encode msg (uninit BUFF_LEN) = Inr (m, b, n)" "rd_block b 0 n = Inr (take n b)"
      "datagram_of (take n b) pk" "n \<le> packet_size pk" "length b = BUFF_LEN" "destroyMsg m = Inr ()"
    by (rule encode_seen [OF assms(1-3) size])
  show ?thesis
    by (rule that [OF e(3) _ e(6)]) (use e in \<open>simp_all add: BUFF_LEN_def relayer_handler_def wrap_defs assms(5) DNS_IP_parsed\<close>)
qed

text \<open>
  C36. The handler of \<open>relayer.c\<close> relays: the DNS server gets a datagram that decodes to the packet
  of the task, its answer goes to the client byte for byte, and the socket is closed.
\<close>
theorem relayer_forwards:
  assumes "msg_shape msg" and "message_view msg = Inr pk" and "packet_ok pk" and "packet_size pk \<le> 1024"
    and "rc_socket rc = Inr fd" and "rc_close rc = Inr ()"
    and "\<forall>req. datagram_of req pk \<longrightarrow> rc_net rc req = Answer ans" and "length ans \<le> 1024"
  shows "\<exists>req. datagram_of req pk \<and> relayer_handler rc msg cliAddr =
     Inr ([R_Open, R_To_Server req, R_To_Client (map Some ans) cliAddr, R_Close], Finished)"
proof -
  obtain m b req where h: "datagram_of req pk" "length b = 1024" "destroyMsg m = Inr ()"
      "relayer_handler rc msg cliAddr = relayer_exchange rc m cliAddr b req"
    by (rule handler_sends [OF assms(1-5)])
  moreover have "rc_net rc req = Answer ans" using assms(7) h(1) by blast
  ultimately show ?thesis
    using assms(6,8) by (auto simp: relayer_exchange_def Let_def rd_block_def wrap_defs)
qed

definition sample_calls :: relay_calls where
  "sample_calls = \<lparr>rc_socket = Inr 3, rc_net = \<lambda>req. Answer (sample_answer 1), rc_close = Inr ()\<rparr>"

lemma sample_packet_ok: "packet_ok (sample_packet flag t 0)"
  by (auto simp: packet_ok_def sample_packet_def sample_ques_def sample_name_ok)

theorem relayer_forwards_witness:
  "\<exists>req. datagram_of req (sample_packet 0x80 1 0) \<and>
     relayer_handler sample_calls (sample_message 0x80 1 0) (uninit 16) =
     Inr ([R_Open, R_To_Server req, R_To_Client (map Some (sample_answer 1)) (uninit 16), R_Close], Finished)"
proof -
  have "packet_size (sample_packet 0x80 1 0) \<le> 1024" "length (sample_answer 1) \<le> 1024"
    using length_sample [of "[0x81, 0x80]" 1 1]
    by (simp_all add: packet_size_def sample_packet_def ques_size_def sample_ques_def sample_name_def sample_answer_def)
  then show ?thesis
    using relayer_forwards [of "sample_message 0x80 1 0" "sample_packet 0x80 1 0" sample_calls 3]
      sample_message_shape [of 0] sample_message_view [of 0] sample_packet_ok
    by (simp add: sample_calls_def)
qed

text \<open>
  When the DNS server does not answer, the client gets nothing, and the message, the task and the
  socket are left; when the request cannot be sent, the whole process ends.
\<close>
lemma relayer_gives_up:
  assumes "msg_shape msg" and "message_view msg = Inr pk" and "packet_ok pk" and "packet_size pk \<le> 1024"
    and "rc_socket rc = Inr fd" and "\<forall>req. datagram_of req pk \<longrightarrow> rc_net rc req = r" and "r = Send_Failed \<or> r = No_Answer"
  shows "\<exists>req. datagram_of req pk \<and> relayer_handler rc msg cliAddr =
     Inr (if r = Send_Failed then ([R_Open], Process_Exit) else ([R_Open, R_To_Server req], Gave_Up))"
proof -
  obtain m b req where h: "datagram_of req pk" "relayer_handler rc msg cliAddr = relayer_exchange rc m cliAddr b req"
    by (rule handler_sends [OF assms(1-5)])
  moreover have "rc_net rc req = r" using assms(6) h(1) by blast
  ultimately show ?thesis using assms(7) by (auto simp: relayer_exchange_def)
qed

text \<open>
  The tasks of the loop: one for each datagram, in the order of arrival, with the packet that was
  sent. Of the address only the first four bytes are the sender's, its family and its port: the
  length that \<open>recvfrom\<close> gets is that of the length, and the bytes of the IP address are never written.
\<close>

definition task_for :: "message \<times> carr \<Rightarrow> packet \<times> cstring \<Rightarrow> bool" where
  "task_for = (\<lambda>(msg, adr) (pk, peer). message_view msg = Inr pk \<and> msg_shape msg \<and>
     adr = map Some (take 4 peer) @ uninit 12)"

lemma datagram_received:
  assumes "datagram_of (map Some d) pk" and "length buff = 1024"
  obtains m where "decode (map Some (take (min 1024 (length d)) d) @ drop (min 1024 (length d)) buff) = Some (Inr m)"
    and "message_view m = Inr pk" and "msg_shape m" and "length d \<le> 1024"
proof -
  have len: "length d \<le> 1024" using assms(1) by (simp add: datagram_of_def BUFF_LEN_def)
  let ?rest = "drop (length d) buff"
  have "length (map Some d) + length ?rest = BUFF_LEN" using len assms(2) by (simp add: BUFF_LEN_def)
  then have "\<exists>m. decode (map Some d @ ?rest) = Some (Inr m) \<and> message_view m = Inr pk \<and> msg_shape m"
    using assms(1) unfolding datagram_of_def by blast
  then show ?thesis using that len by auto
qed

definition receipt_of :: "receipt \<Rightarrow> packet \<times> cstring \<Rightarrow> bool" where
  "receipt_of r = (\<lambda>(pk, peer). \<exists>dgram. r = Inr (dgram, peer) \<and> datagram_of (map Some dgram) pk \<and> length peer = 16)"

lemma loop_tasks:
  assumes "list_all2 receipt_of rs reqs" and "length buff = 1024" and "length adr = 16" and "drop 4 adr = uninit 12"
  shows "\<exists>tasks. relayer_loop buff adr rs = Some (Inr (tasks, True)) \<and> list_all2 task_for tasks reqs"
  using assms
proof (induction rs arbitrary: buff adr reqs)
  case (Cons r rs)
  then obtain pk peer reqs' where reqs: "reqs = (pk, peer) # reqs'" and rest: "list_all2 receipt_of rs reqs'"
    and r: "receipt_of r (pk, peer)"
    by (cases reqs) auto
  obtain dgram where d: "r = Inr (dgram, peer)" "datagram_of (map Some dgram) pk" "length peer = 16"
    using r by (auto simp: receipt_of_def)
  let ?n = "min 1024 (length dgram)"
  let ?buff = "map Some (take ?n dgram) @ drop ?n buff" and ?adr = "map Some (take 4 peer) @ drop 4 adr"
  obtain m where m: "decode ?buff = Some (Inr m)" "message_view m = Inr pk" "msg_shape m" and len: "length dgram \<le> 1024"
    by (rule datagram_received [OF d(2) Cons.prems(2)])
  obtain tasks where "relayer_loop ?buff ?adr rs = Some (Inr (tasks, True))" "list_all2 task_for tasks reqs'"
    using Cons.IH [OF rest, of ?buff ?adr] len Cons.prems(2-4) d(3) by auto
  then show ?case
    using m Cons.prems(4) d(3) reqs unfolding d(1)
    by (auto simp: Let_def task_for_def SIZEOF_SOCKLEN_def)
qed simp

text \<open>
  The loop of \<open>relayer.c\<close> makes one task of every datagram, in the order of arrival and with the
  packet that was sent, but the client's IP address in it is uninitialised.
\<close>
theorem relayer_tasks:
  assumes "list_all2 receipt_of rs reqs"
  shows "\<exists>tasks. relayer_main (Inr fd) (Inr ()) rs = Some (Inr (tasks, True)) \<and> list_all2 task_for tasks reqs"
proof -
  have "drop 4 (uninit 16) = uninit 12" by (simp add: uninit_def)
  with loop_tasks [OF assms, of "uninit 1024" "uninit 16"] show ?thesis
    by (simp add: relayer_main_def wrap_defs)
qed

lemma sample_datagram: "datagram_of (map Some (sample_query t)) (sample_packet 0x80 t 0)"
  unfolding datagram_of_def
proof (intro conjI allI impI)
  show "length (map Some (sample_query t)) \<le> BUFF_LEN" by (simp add: sample_query_def length_sample BUFF_LEN_def)
  fix rest :: carr
  obtain m where m: "decode (map Some (sample_query t) @ rest) = Some (Inr m)" "message_view m = Inr (sample_packet 0x80 t 0)"
    by (rule sample_decode [where buf = "map Some (sample_query t) @ rest" and rest = rest and flags = "[1, 0]" and
          t = t and n = 0 and flag = "0x80"]) (simp_all add: sample_query_def reverse8_def)
  then show "\<exists>m. decode (map Some (sample_query t) @ rest) = Some (Inr m) \<and>
      message_view m = Inr (sample_packet 0x80 t 0) \<and> msg_shape m"
    using decode_decoded [OF m(1)] by (auto simp: decoded_def)
qed

definition sample_peer :: cstring where
  "sample_peer = [2, 0, 0xd4, 0x31, 10, 0, 0, 7] @ replicate 8 0"

theorem relayer_tasks_witness:
  "\<exists>t1 t2. relayer_main (Inr 3) (Inr ()) [Inr (sample_query 1, sample_peer), Inr (sample_query 28, sample_peer)] =
       Some (Inr ([t1, t2], True)) \<and>
     message_view (fst t1) = Inr (sample_packet 0x80 1 0) \<and> message_view (fst t2) = Inr (sample_packet 0x80 28 0) \<and>
     snd t1 = map Some [2, 0, 0xd4, 0x31] @ uninit 12"
proof -
  have "list_all2 receipt_of [Inr (sample_query 1, sample_peer), Inr (sample_query 28, sample_peer)]
      [(sample_packet 0x80 1 0, sample_peer), (sample_packet 0x80 28 0, sample_peer)]"
    using sample_datagram by (simp add: receipt_of_def sample_peer_def)
  from relayer_tasks [OF this, of 3] show ?thesis
    by (auto simp: list_all2_Cons2 task_for_def sample_peer_def)
qed

text \<open>
  The buffer is not cleared: a datagram without a byte, after a request, is taken for the same
  request once more.
\<close>
lemma empty_datagram_repeats_request:
  assumes "datagram_of (map Some dgram) pk" and "length peer = 16" and "length peer' = 16"
  shows "\<exists>m adr adr'. relayer_main (Inr fd) (Inr ()) [Inr (dgram, peer), Inr ([], peer')] =
     Some (Inr ([(m, adr), (m, adr')], True)) \<and> message_view m = Inr pk"
proof -
  have "length (uninit 1024) = 1024" by simp
  then obtain m where "decode (map Some (take (min 1024 (length dgram)) dgram) @ drop (min 1024 (length dgram)) (uninit 1024)) = Some (Inr m)"
      "message_view m = Inr pk" and len: "length dgram \<le> 1024"
    by (rule datagram_received [OF assms(1)])
  then show ?thesis using assms(2,3) by (simp add: relayer_main_def wrap_defs Let_def)
qed

end
