(* ===== verification/Cli.thy ===== *)
theory Cli
  imports Relayer Message_Show
begin

text \<open>
  The client, \<open>cli.c\<close>: it asks a DNS server for the address of a name and shows the answer. The two
  words it reads from its user are parameters, \<open>None\<close> at the end of the input, which leaves their
  arrays unwritten. What the server at an address answers to a datagram is a parameter as well.
\<close>

section \<open>The client\<close>

definition QUERY :: "16 word" where "QUERY = 0"

definition cli_request :: "carr \<Rightarrow> (carr \<times> nat) res" where
  "cli_request hostName =
     (let msg = setQuery newMsg;
          msg = msg\<lparr>msg_ID := 0x1234\<rparr>;
          msg = setFlag (setOpcode msg QUERY) FLAG_RD
      in bindE (setQNAME \<lparr>q_name = uninit MAX_LEN, q_type = 0, q_class = 0\<rparr> hostName) (\<lambda>q.
         let q = q\<lparr>q_type := TYPE_A, q_class := CLASS_IN\<rparr>;
             msg = fst (addQuestion msg q)
         in bindE (encode msg (uninit 1024)) (\<lambda>(msg, buff, n).
            bindE (destroyMsg msg) (\<lambda>_. Inr (buff, n)))))"

definition scanned :: "nat \<Rightarrow> cstring option \<Rightarrow> carr res" where
  "scanned n w = (case w of None \<Rightarrow> Inr (uninit n) | Some w \<Rightarrow> store_word (uninit n) w)"

text \<open>What is shown of an answer, which \<open>recvfrom\<close> puts into the buffer of the request.\<close>

definition cli_show :: "(byte list \<Rightarrow> string) \<Rightarrow> carr \<Rightarrow> cstring \<Rightarrow> string run" where
  "cli_show ntop6 buff ans =
     (let n = min 1024 (length ans);
          buff = map Some (take n ans) @ drop n buff
      in bindR (decode buff) (\<lambda>msg.
         bindR (Some (showMsg ntop6 msg)) (\<lambda>s.
         bindR (Some (showMem buff n)) (\<lambda>s'.
         bindR (Some (destroyMsg msg)) (\<lambda>_.
         Some (Inr (newline @ newline @ ''recv message!!'' @ newline @ s @
           newline @ newline @ ''memory:'' @ newline @ s')))))))"

text \<open>The datagrams sent, and what is shown if the client does not end before.\<close>

definition cli_main ::
  "(byte list \<Rightarrow> string) \<Rightarrow> int sysres \<Rightarrow> (byte list \<Rightarrow> carr \<Rightarrow> net_result) \<Rightarrow> cstring option \<Rightarrow> cstring option \<Rightarrow>
     (carr list \<times> string option) run" where
  "cli_main ntop6 sock net ip host =
     bindR (Some (scanned 51 ip)) (\<lambda>dnsIp.
     bindR (Some (scanned 101 host)) (\<lambda>hostName.
     bindR (Some (cli_request hostName)) (\<lambda>(buff, n).
     case Socket sock of
       Exits \<Rightarrow> Some (Inr ([], None))
     | Returns sockfd \<Rightarrow>
         bindR (Some (cstr dnsIp)) (\<lambda>s.
         case inet_pton s of
           None \<Rightarrow> Some (Inr ([], None))
         | Some addr \<Rightarrow>
             bindR (Some (rd_block buff 0 n)) (\<lambda>req.
             case net addr req of
               Send_Failed \<Rightarrow> Some (Inr ([], None))
             | No_Answer \<Rightarrow> Some (Inr ([req], None))
             | Answer ans \<Rightarrow> bindR (cli_show ntop6 buff ans) (\<lambda>s. Some (Inr ([req], Some s))))))))"

section \<open>Properties\<close>

definition cli_packet :: "cstring \<Rightarrow> packet" where
  "cli_packet host = \<lparr>pk_ID = 0x1234, pk_flag = 0x80,
     pk_ques = [\<lparr>qv_name = host, qv_type = TYPE_A, qv_class = CLASS_IN\<rparr>], pk_rrs = [[], [], []]\<rparr>"

lemma scanned_ok: "length w < n \<Longrightarrow> is_cstring w \<Longrightarrow> \<exists>a. scanned n (Some w) = Inr a \<and> cstr a = Inr w"
  using cstr_map_Some [of w "[]"] by (simp add: scanned_def store_word_def)

lemma cli_request_ok:
  assumes "cstr hostName = Inr host" and "good_name host"
  obtains b n where "cli_request hostName = Inr (b, n)" and "rd_block b 0 n = Inr (take n b)"
    and "datagram_of (take n b) (cli_packet host)" and "length b = 1024"
proof -
  have g: "length host < 50" using assms(2) by (simp add: good_name_def good_key_def HASH_KEY_MAX_LEN_def)
  obtain a where a: "strncpy_arr (uninit MAX_LEN) hostName MAX_LEN = Inr a" "length a = length (uninit MAX_LEN)" "cstr a = Inr host"
    by (rule strncpy_arr_ok [OF assms(1), of MAX_LEN "uninit MAX_LEN"]) (use g in \<open>simp_all add: MAX_LEN_def\<close>)
  let ?q = "\<lparr>q_name = a, q_type = TYPE_A, q_class = CLASS_IN\<rparr>"
  let ?m = "newMsg\<lparr>msg_ID := 0x1234, msg_flag := 0x80, msg_q_count := 1, msg_ques := (msg_ques newMsg)[0 := Some ?q]\<rparr>"
  have v: "message_view ?m = Inr (cli_packet host)"
    by (simp add: message_view_def cli_packet_def newMsg_def upt_rec ques_at_def MAX_SIZE_def ques_view_def a(3))
  have sh: "msg_shape ?m" by (simp add: msg_shape_def newMsg_def)
  have ok: "packet_ok (cli_packet host)" using assms(2) by (simp add: packet_ok_def cli_packet_def)
  have size: "packet_size (cli_packet host) \<le> BUFF_LEN"
    using g by (simp add: packet_size_def cli_packet_def ques_size_def BUFF_LEN_def)
  obtain m b n where e: "encode ?m (uninit BUFF_LEN) = Inr (m, b, n)" "rd_block b 0 n = Inr (take n b)"
      "datagram_of (take n b) (cli_packet host)" "length b = BUFF_LEN" "destroyMsg m = Inr ()"
    by (rule encode_seen [OF sh v ok size])
  have "cli_request hostName = Inr (b, n)"
    using a(1) e(1,5)
    by (simp add: cli_request_def setQNAME_def Let_def addQuestion_def setFlag_def setOpcode_def setQuery_def newMsg_def
        FLAG_RD_def QUERY_def MAX_SIZE_def BUFF_LEN_def)
  then show ?thesis using that e by (simp add: BUFF_LEN_def)
qed

lemma cli_show_ok:
  assumes "datagram_of (map Some ans) pk" and "length buff = 1024" and "printable ntop6 pk"
    and "\<forall>rs \<in> set (pk_rrs pk). \<forall>r \<in> set rs. data_long r"
  shows "\<exists>s. cli_show ntop6 buff ans = Some (Inr s)"
proof -
  let ?n = "min 1024 (length ans)" let ?b = "map Some (take ?n ans) @ drop ?n buff"
  obtain m where m: "decode ?b = Some (Inr m)" "message_view m = Inr pk" "msg_shape m"
    by (rule datagram_received [OF assms(1,2)])
  obtain s where "showMsg ntop6 m = Inr s" using show_msg_iff [OF m(2) assms(4)] assms(3) by blast
  moreover obtain s' where "showMem ?b ?n = Inr s'"
    using show_mem_ok [of ?n ?b "take ?n ans"] assms(2) by (auto simp: min_le_iff_disj)
  moreover have "destroyMsg m = Inr ()" by (rule destroyMsg_ok [OF m(3,2)])
  ultimately show ?thesis using m(1) by (simp add: cli_show_def Let_def)
qed

text \<open>
  C37. The client asks for what it is told and shows what it gets: the server at the address given
  receives one datagram, with the ID \<open>0x1234\<close>, recursion desired and one question for the address
  of the name, and an answer that can be printed is shown.
\<close>
theorem cli_asks_and_shows:
  assumes "good_name host" and "inet_pton ip = Some addr" and "length ip < 51" and "is_cstring ip"
    and "\<forall>req. datagram_of req (cli_packet host) \<longrightarrow> net addr req = Answer ans"
    and "datagram_of (map Some ans) pk" and "printable ntop6 pk" and "\<forall>rs \<in> set (pk_rrs pk). \<forall>r \<in> set rs. data_long r"
  shows "\<exists>req s. cli_main ntop6 (Inr fd) net (Some ip) (Some host) = Some (Inr ([req], Some s)) \<and>
     datagram_of req (cli_packet host)"
proof -
  obtain dnsIp where ip: "scanned 51 (Some ip) = Inr dnsIp" "cstr dnsIp = Inr ip"
    using scanned_ok [OF assms(3,4)] by blast
  have "length host < 101" "is_cstring host"
    using assms(1) by (simp_all add: good_name_def good_key_def HASH_KEY_MAX_LEN_def)
  then obtain hostName where host: "scanned 101 (Some host) = Inr hostName" "cstr hostName = Inr host"
    using scanned_ok by blast
  obtain b n where b: "cli_request hostName = Inr (b, n)" "rd_block b 0 n = Inr (take n b)"
      "datagram_of (take n b) (cli_packet host)" "length b = 1024"
    by (rule cli_request_ok [OF host(2) assms(1)])
  obtain s where "cli_show ntop6 b ans = Some (Inr s)"
    using cli_show_ok [OF assms(6) b(4) assms(7,8)] by blast
  moreover have "net addr (take n b) = Answer ans" using assms(5) b(3) by blast
  ultimately show ?thesis
    using ip host b assms(2) by (simp add: cli_main_def Socket_def or_exit_def)
qed

theorem cli_asks_and_shows_witness:
  "\<exists>req s. cli_main (\<lambda>bs. []) (Inr 3) (\<lambda>addr req. Answer (sample_query 1)) (Some DNS_IP) (Some sample_name) =
     Some (Inr ([req], Some s)) \<and> datagram_of req (cli_packet sample_name)"
proof -
  have "length DNS_IP < 51" "is_cstring DNS_IP" by (simp_all add: DNS_IP_def bytes_def is_cstring_def)
  moreover have "printable (\<lambda>bs. []) (sample_packet 0x80 1 0)" "\<forall>rs \<in> set (pk_rrs (sample_packet 0x80 1 0)). \<forall>r \<in> set rs. data_long r"
    by (simp_all add: printable_def sample_packet_def sample_ques_def named_def const_defs)
  ultimately show ?thesis
    using cli_asks_and_shows [OF sample_name_ok DNS_IP_parsed, of "\<lambda>addr req. Answer (sample_query 1)" "sample_query 1"
        "sample_packet 0x80 1 0" "\<lambda>bs. []" 3] sample_datagram [of 1]
    by simp
qed

end
