(* ===== verification/Hash_Heap.thy ===== *)
theory Hash_Heap
  imports Hash
begin

text \<open>
  The hash table of \<open>cache/hash.c\<close> on the heap: nodes linked by pointers, each owning a block for
  its data. The operations are those of the code statement by statement; the theory shows that they
  do to the heap what the operations of Hash do to lists, never use a block that is freed, and leave
  no block behind.
\<close>

section \<open>The heap\<close>

record hnode =
  hn_name :: carr
  hn_data :: nat
  hn_next :: "nat option"

record 'v hheap =
  hh_node :: "nat \<Rightarrow> hnode option"
  hh_data :: "nat \<Rightarrow> 'v option"
  hh_brk :: nat

record htable =
  pt_h :: "nat option list"
  pt_len :: "32 word"
  pt_num :: "32 word"

definition malloc_data :: "'v hheap \<Rightarrow> 'v \<Rightarrow> 'v hheap \<times> nat" where
  "malloc_data hp v = (hp\<lparr>hh_data := (hh_data hp)(hh_brk hp \<mapsto> v), hh_brk := Suc (hh_brk hp)\<rparr>, hh_brk hp)"

definition malloc_hnode :: "'v hheap \<Rightarrow> hnode \<Rightarrow> 'v hheap \<times> nat" where
  "malloc_hnode hp n = (hp\<lparr>hh_node := (hh_node hp)(hh_brk hp \<mapsto> n), hh_brk := Suc (hh_brk hp)\<rparr>, hh_brk hp)"

definition hnode_at :: "'v hheap \<Rightarrow> nat \<Rightarrow> hnode res" where
  "hnode_at hp a = (case hh_node hp a of None \<Rightarrow> Inl Bad_Pointer | Some n \<Rightarrow> Inr n)"

definition set_hnode :: "'v hheap \<Rightarrow> nat \<Rightarrow> hnode \<Rightarrow> 'v hheap" where
  "set_hnode hp a n = hp\<lparr>hh_node := (hh_node hp)(a \<mapsto> n)\<rparr>"

definition free_data :: "'v hheap \<Rightarrow> nat \<Rightarrow> 'v hheap res" where
  "free_data hp b = (case hh_data hp b of None \<Rightarrow> Inl Bad_Pointer | Some _ \<Rightarrow> Inr (hp\<lparr>hh_data := (hh_data hp)(b := None)\<rparr>))"

definition free_hnode :: "'v hheap \<Rightarrow> nat \<Rightarrow> 'v hheap res" where
  "free_hnode hp a = (case hh_node hp a of None \<Rightarrow> Inl Bad_Pointer | Some _ \<Rightarrow> Inr (hp\<lparr>hh_node := (hh_node hp)(a := None)\<rparr>))"

section \<open>Operations\<close>

definition NewHashTab_at :: htable where
  "NewHashTab_at = \<lparr>pt_h = replicate (unat INIT_SIZE) None, pt_len = INIT_SIZE, pt_num = 0\<rparr>"

definition newNode_at :: "'v hheap \<Rightarrow> cstring \<Rightarrow> nat \<Rightarrow> ('v hheap \<times> nat) res" where
  "newNode_at hp name b =
     bindE (strncpy (uninit (HASH_KEY_MAX_LEN + 1)) name HASH_KEY_MAX_LEN)
       (\<lambda>a. Inr (malloc_hnode hp \<lparr>hn_name = a, hn_data = b, hn_next = None\<rparr>))"

text \<open>The loops go along a chain of pointers; on a heap with a cycle they would not return.\<close>

partial_function (option) find_node :: "'v hheap \<Rightarrow> nat option \<Rightarrow> cstring \<Rightarrow> nat option run" where
  "find_node hp t name =
     (case t of
        None \<Rightarrow> Some (Inr None)
      | Some a \<Rightarrow>
          bindR (Some (hnode_at hp a)) (\<lambda>n.
          bindR (Some (streq (hn_name n) name)) (\<lambda>eq.
          if eq then Some (Inr (Some a)) else find_node hp (hn_next n) name)))"

partial_function (option) move_chain ::
  "'v hheap \<Rightarrow> nat \<Rightarrow> nat option \<Rightarrow> nat option list \<Rightarrow> ('v hheap \<times> nat option list) run" where
  "move_chain hp sz t h =
     (case t of
        None \<Rightarrow> Some (Inr (hp, h))
      | Some a \<Rightarrow>
          bindR (Some (hnode_at hp a)) (\<lambda>n.
          bindR (Some (cstr (hn_name n))) (\<lambda>s.
          if sz = 0 then Some (Inl Div_By_Zero)
          else let hs = unat (hash s) mod sz
               in move_chain (set_hnode hp a (n\<lparr>hn_next := h ! hs\<rparr>)) sz (hn_next n) (h[hs := Some a]))))"

definition rescale_at :: "'v hheap \<Rightarrow> htable \<Rightarrow> 32 word \<Rightarrow> ('v hheap \<times> htable) run" where
  "rescale_at hp pt sz =
     bindR (foldR (\<lambda>(hp, h) t. move_chain hp (unat sz) t h) (hp, replicate (unat sz) None) (pt_h pt))
       (\<lambda>(hp, h). Some (Inr (hp, pt\<lparr>pt_h := h, pt_len := sz\<rparr>)))"

definition slot_at :: "htable \<Rightarrow> cstring \<Rightarrow> nat res" where
  "slot_at pt name =
     (if pt_len pt = 0 then Inl Div_By_Zero else Inr (unat (hash name) mod unat (pt_len pt)))"

text \<open>The two ends of \<open>insert\<close>: the node \<open>tmp\<close> gets the data \<open>t\<close>, or a new node does, in front of its chain.\<close>

definition put_found :: "'v hheap \<Rightarrow> htable \<Rightarrow> nat \<Rightarrow> nat \<Rightarrow> ('v hheap \<times> htable \<times> nat) run" where
  "put_found hp pt tmp t =
     bindR (Some (hnode_at hp tmp)) (\<lambda>n.
     bindR (Some (free_data hp (hn_data n))) (\<lambda>hp.
     Some (Inr (set_hnode hp tmp (n\<lparr>hn_data := t\<rparr>), pt, t))))"

definition put_new :: "'v hheap \<Rightarrow> htable \<Rightarrow> nat \<Rightarrow> cstring \<Rightarrow> nat \<Rightarrow> ('v hheap \<times> htable \<times> nat) run" where
  "put_new hp pt ha name t =
     bindR (Some (newNode_at hp name t)) (\<lambda>(hp, a).
     bindR (Some (hnode_at hp a)) (\<lambda>n.
     let hp = set_hnode hp a (n\<lparr>hn_next := pt_h pt ! ha\<rparr>);
         pt = pt\<lparr>pt_h := (pt_h pt)[ha := Some a], pt_num := pt_num pt + 1\<rparr>
     in if pt_len pt * 2 \<le> pt_num pt
        then bindR (rescale_at hp pt (push_bit 1 (pt_len pt))) (\<lambda>(hp, pt). Some (Inr (hp, pt, t)))
        else Some (Inr (hp, pt, t))))"

definition insert_at :: "'v hheap \<Rightarrow> htable \<Rightarrow> cstring \<Rightarrow> 'v \<Rightarrow> ('v hheap \<times> htable \<times> nat) run" where
  "insert_at hp pt name v =
     (let (hp, t) = malloc_data hp v in
      bindR (Some (slot_at pt name)) (\<lambda>ha.
      bindR (find_node hp (pt_h pt ! ha) name) (\<lambda>r. case r of
        Some tmp \<Rightarrow> put_found hp pt tmp t
      | None \<Rightarrow> put_new hp pt ha name t)))"

definition search_at :: "'v hheap \<Rightarrow> htable \<Rightarrow> cstring \<Rightarrow> nat option run" where
  "search_at hp pt name =
     bindR (Some (slot_at pt name)) (\<lambda>hs.
     bindR (find_node hp (pt_h pt ! hs) name) (\<lambda>r. case r of
       None \<Rightarrow> Some (Inr None)
     | Some t \<Rightarrow> bindR (Some (hnode_at hp t)) (\<lambda>n. Some (Inr (Some (hn_data n))))))"

text \<open>The loop of \<open>deleteNode\<close>, with the node before the current one.\<close>

partial_function (option) find_prev :: "'v hheap \<Rightarrow> nat option \<Rightarrow> nat option \<Rightarrow> cstring \<Rightarrow> (nat option \<times> nat option) run" where
  "find_prev hp pre cur name =
     (case cur of
        None \<Rightarrow> Some (Inr (pre, None))
      | Some a \<Rightarrow>
          bindR (Some (hnode_at hp a)) (\<lambda>n.
          bindR (Some (streq (hn_name n) name)) (\<lambda>eq.
          if eq then Some (Inr (pre, Some a)) else find_prev hp (Some a) (hn_next n) name)))"

definition deleteNode_at :: "'v hheap \<Rightarrow> nat option \<Rightarrow> cstring \<Rightarrow> ('v hheap \<times> nat option) run" where
  "deleteNode_at hp head name =
     bindR (find_prev hp None head name) (\<lambda>(pre, cur). case cur of
       None \<Rightarrow> Some (Inr (hp, head))
     | Some a \<Rightarrow>
         bindR (Some (hnode_at hp a)) (\<lambda>n.
         bindR (Some (case pre of
             None \<Rightarrow> Inr (hp, hn_next n)
           | Some c \<Rightarrow> bindE (hnode_at hp c) (\<lambda>m. Inr (set_hnode hp c (m\<lparr>hn_next := hn_next n\<rparr>), head)))) (\<lambda>(hp, head).
         bindR (Some (free_data hp (hn_data n))) (\<lambda>hp.
         bindR (Some (free_hnode hp a)) (\<lambda>hp. Some (Inr (hp, head)))))))"

definition delete_at :: "'v hheap \<Rightarrow> htable \<Rightarrow> cstring \<Rightarrow> ('v hheap \<times> htable) run" where
  "delete_at hp pt name =
     bindR (Some (slot_at pt name)) (\<lambda>hs.
     bindR (deleteNode_at hp (pt_h pt ! hs) name) (\<lambda>(hp, c).
     let pt = pt\<lparr>pt_h := (pt_h pt)[hs := c], pt_num := pt_num pt - 1\<rparr>
     in if pt_num pt * 2 < pt_len pt then rescale_at hp pt (drop_bit 1 (pt_len pt))
        else Some (Inr (hp, pt))))"

partial_function (option) destroy_chain :: "'v hheap \<Rightarrow> nat option \<Rightarrow> 'v hheap run" where
  "destroy_chain hp t =
     (case t of
        None \<Rightarrow> Some (Inr hp)
      | Some a \<Rightarrow>
          bindR (Some (hnode_at hp a)) (\<lambda>n.
          bindR (Some (free_data hp (hn_data n))) (\<lambda>hp.
          bindR (Some (free_hnode hp a)) (\<lambda>hp. destroy_chain hp (hn_next n)))))"

text \<open>\<open>DestroyHashTab\<close> ends the table itself with its array, too.\<close>

definition DestroyHashTab_at :: "'v hheap \<Rightarrow> htable \<Rightarrow> 'v hheap run" where
  "DestroyHashTab_at hp pt = foldR destroy_chain hp (pt_h pt)"

section \<open>Chains\<close>

text \<open>
  A cell: the address of a node, that of its data, and the node as a value. \<open>chain m d p xs q\<close>: from
  the pointer \<open>p\<close> the nodes of \<open>xs\<close> are linked up to the pointer \<open>q\<close>.
\<close>

type_synonym 'v cell = "nat \<times> nat \<times> 'v node"

fun chain :: "(nat \<Rightarrow> hnode option) \<Rightarrow> (nat \<Rightarrow> 'v option) \<Rightarrow> nat option \<Rightarrow> 'v cell list \<Rightarrow> nat option \<Rightarrow> bool" where
  "chain m d p [] q \<longleftrightarrow> p = q"
| "chain m d p ((a, b, nd) # xs) q \<longleftrightarrow> p = Some a \<and> d b = Some (nd_data nd) \<and>
     (\<exists>r. m a = Some \<lparr>hn_name = nd_name nd, hn_data = b, hn_next = r\<rparr> \<and> chain m d r xs q)"

definition nodes_of :: "'v cell list \<Rightarrow> 'v node list" where
  "nodes_of xs = map (snd \<circ> snd) xs"

lemma nodes_of_simps [simp]:
  "nodes_of [] = []" "nodes_of (c # xs) = snd (snd c) # nodes_of xs" "nodes_of (xs @ ys) = nodes_of xs @ nodes_of ys"
  by (simp_all add: nodes_of_def)

lemma chain_frame:
  "\<forall>c \<in> set xs. m' (fst c) = m (fst c) \<and> d' (fst (snd c)) = d (fst (snd c)) \<Longrightarrow> chain m' d' p xs q = chain m d p xs q"
  by (induction xs arbitrary: p) auto

lemma chain_append: "chain m d p (xs @ ys) q \<longleftrightarrow> (\<exists>r. chain m d p xs r \<and> chain m d r ys q)"
  by (induction xs arbitrary: p) fastforce+

lemma chain_upd:
  "a \<notin> fst ` set xs \<Longrightarrow> chain (m(a := n)) d p xs q = chain m d p xs q"
  "b \<notin> (fst \<circ> snd) ` set xs \<Longrightarrow> chain m (d(b := v)) p xs q = chain m d p xs q"
  by (rule chain_frame, force)+

lemma chain_node:
  assumes "chain m d p xs q" and "(a, b, nd) \<in> set xs"
  shows "d b = Some (nd_data nd) \<and> (\<exists>r. m a = Some \<lparr>hn_name = nd_name nd, hn_data = b, hn_next = r\<rparr>)"
  using assms by (induction xs arbitrary: p) auto

section \<open>The first node of a name\<close>

fun find_cell :: "'v cell list \<Rightarrow> cstring \<Rightarrow> ('v cell list \<times> 'v cell \<times> 'v cell list) option res" where
  "find_cell [] name = Inr None"
| "find_cell (c # xs) name =
     bindE (streq (nd_name (snd (snd c))) name) (\<lambda>eq.
       if eq then Inr (Some ([], c, xs))
       else bindE (find_cell xs name) (\<lambda>r. Inr (map_option (\<lambda>(ys, c', zs). (c # ys, c', zs)) r)))"

lemma find_cell_split: "find_cell xs name = Inr (Some (ys, c, zs)) \<Longrightarrow> xs = ys @ c # zs"
  by (induction xs arbitrary: ys) (auto simp: c_simps split: if_splits)

text \<open>What the lists of Hash do with it.\<close>

lemma find_data_cell: "find_data (nodes_of xs) name =
    bindE (find_cell xs name) (\<lambda>r. Inr (map_option (\<lambda>(ys, c, zs). nd_data (snd (snd c))) r))"
proof (induction xs)
  case (Cons c xs)
  then show ?case
    by (cases "streq (nd_name (snd (snd c))) name"; cases "find_cell xs name") (auto simp: option.map_comp comp_def case_prod_unfold)
qed simp

lemma replace_data_cell: "replace_data (nodes_of xs) name v =
    bindE (find_cell xs name) (\<lambda>r. Inr (map_option (\<lambda>(ys, c, zs). nodes_of ys @ (snd (snd c))\<lparr>nd_data := v\<rparr> # nodes_of zs) r))"
proof (induction xs)
  case (Cons c xs)
  then show ?case
    by (cases "streq (nd_name (snd (snd c))) name"; cases "find_cell xs name") (auto simp: option.map_comp comp_def case_prod_unfold)
qed simp

lemma deleteNode_cell: "deleteNode (nodes_of xs) name =
    bindE (find_cell xs name) (\<lambda>r. Inr (case r of None \<Rightarrow> nodes_of xs | Some (ys, c, zs) \<Rightarrow> nodes_of (ys @ zs)))"
proof (induction xs)
  case (Cons c xs)
  then show ?case
    by (cases "streq (nd_name (snd (snd c))) name"; cases "find_cell xs name") (auto split: option.splits)
qed simp

text \<open>What the loops along the pointers do.\<close>

lemma find_node_cell:
  "chain (hh_node hp) (hh_data hp) p xs None \<Longrightarrow>
     find_node hp p name = Some (bindE (find_cell xs name) (\<lambda>r. Inr (map_option (\<lambda>(ys, c, zs). fst c) r)))"
proof (induction xs arbitrary: p)
  case Nil
  then show ?case by (simp add: find_node.simps)
next
  case (Cons c xs)
  obtain a b nd where c: "c = (a, b, nd)" by (cases c) auto
  obtain r where r: "p = Some a" "hh_node hp a = Some \<lparr>hn_name = nd_name nd, hn_data = b, hn_next = r\<rparr>"
      "chain (hh_node hp) (hh_data hp) r xs None" using Cons.prems c by auto
  from Cons.IH [OF r(3)] show ?case
    by (subst find_node.simps, cases "streq (nd_name nd) name"; cases "find_cell xs name")
      (auto simp: r c hnode_at_def option.map_comp comp_def case_prod_unfold)
qed

lemma find_prev_cell:
  "chain (hh_node hp) (hh_data hp) p xs None \<Longrightarrow>
     find_prev hp pre p name = Some (bindE (find_cell xs name) (\<lambda>r. Inr (case r of
        None \<Rightarrow> (if xs = [] then pre else Some (fst (last xs)), None)
      | Some (ys, c, zs) \<Rightarrow> (if ys = [] then pre else Some (fst (last ys)), Some (fst c)))))"
proof (induction xs arbitrary: p pre)
  case Nil
  then show ?case by (simp add: find_prev.simps)
next
  case (Cons c xs)
  obtain a b nd where c: "c = (a, b, nd)" by (cases c) auto
  obtain r where r: "p = Some a" "hh_node hp a = Some \<lparr>hn_name = nd_name nd, hn_data = b, hn_next = r\<rparr>"
      "chain (hh_node hp) (hh_data hp) r xs None" using Cons.prems c by auto
  from Cons.IH [OF r(3), of "Some a"] show ?case
    by (subst find_prev.simps, cases "streq (nd_name nd) name"; cases "find_cell xs name")
      (auto simp: r c hnode_at_def split: option.splits)
qed


section \<open>Moving the nodes to new chains\<close>

abbreviation chains :: "'v hheap \<Rightarrow> nat option list \<Rightarrow> 'v cell list list \<Rightarrow> bool" where
  "chains hp \<equiv> list_all2 (\<lambda>p xs. chain (hh_node hp) (hh_data hp) p xs None)"

lemma nodes_of_concat: "nodes_of (concat X) = concat (map nodes_of X)"
  by (induction X) auto

lemma mset_update_Cons: "i < length Y \<Longrightarrow> mset (concat (Y[i := c # Y ! i])) = add_mset c (mset (concat Y))"
  by (simp add: concat_split_at [of i Y] concat_update_at)

lemma chains_frame:
  assumes "chains hp ps X" and "\<And>c. c \<in> set (concat X) \<Longrightarrow> hh_node hp' (fst c) = hh_node hp (fst c) \<and>
      hh_data hp' (fst (snd c)) = hh_data hp (fst (snd c))"
  shows "chains hp' ps X"
  using assms(1)
proof (rule list.rel_mono_strong)
  fix p xs
  assume x: "xs \<in> set X" and c: "chain (hh_node hp) (hh_data hp) p xs None"
  have "\<forall>c \<in> set xs. hh_node hp' (fst c) = hh_node hp (fst c) \<and> hh_data hp' (fst (snd c)) = hh_data hp (fst (snd c))"
    using assms(2) x by auto
  from chain_frame [OF this] show "chain (hh_node hp') (hh_data hp') p xs None" using c by simp
qed

lemma chains_push:
  assumes "chains hp h Y" and "i < length Y" and "hh_node hp a = Some n" and "hn_name n = nd_name nd" and "hn_data n = b"
    and "hh_data hp b = Some (nd_data nd)" and "a \<notin> fst ` set (concat Y)"
  shows "chains (set_hnode hp a (n\<lparr>hn_next := h ! i\<rparr>)) (h[i := Some a]) (Y[i := (a, b, nd) # Y ! i])"
proof -
  let ?hp = "set_hnode hp a (n\<lparr>hn_next := h ! i\<rparr>)"
  have "chains ?hp h Y"
    by (rule chains_frame [OF assms(1)]) (use assms(7) in \<open>auto simp: set_hnode_def image_iff\<close>)
  moreover have "i < length h" using assms(1,2) by (simp add: list_all2_lengthD)
  moreover have "n\<lparr>hn_next := h ! i\<rparr> = \<lparr>hn_name = nd_name nd, hn_data = b, hn_next = h ! i\<rparr>"
    using assms(4,5) by (cases n) simp
  ultimately show ?thesis
    using assms(2,3,6) by (auto simp: list_all2_conv_all_nth nth_list_update set_hnode_def)
qed

text \<open>The result of moving: the same cells, in chains that agree with the lists.\<close>

definition moved :: "'v hheap \<Rightarrow> 'v cell list \<Rightarrow> 'v cell list list \<Rightarrow> 'v node list list \<Rightarrow> 'v hheap \<times> nat option list \<Rightarrow> bool" where
  "moved hp xs Y l = (\<lambda>(hp', h'). \<exists>Y'. chains hp' h' Y' \<and> l = map nodes_of Y' \<and> length Y' = length Y \<and>
     mset (concat Y') = mset xs + mset (concat Y) \<and> hh_data hp' = hh_data hp \<and> hh_brk hp' = hh_brk hp \<and>
     dom (hh_node hp') = dom (hh_node hp) \<and> (\<forall>a. a \<notin> fst ` set xs \<longrightarrow> hh_node hp' a = hh_node hp a))"

lemma moved_none: "chains hp h Y \<Longrightarrow> moved hp [] Y (map nodes_of Y) (hp, h)"
  unfolding moved_def by (auto intro: exI [of _ Y])

lemma moved_first:
  assumes "moved (set_hnode hp a n) xs Y' l r" and "hh_node hp a \<noteq> None" and "fst c = a"
    and "length Y' = length Y" and "mset (concat Y') = add_mset c (mset (concat Y))"
  shows "moved hp (c # xs) Y l r"
proof -
  have "insert a (dom (hh_node hp)) = dom (hh_node hp)" using assms(2) by auto
  then show ?thesis
    using assms(1,3-5) unfolding moved_def by (cases r) (auto simp: set_hnode_def)
qed

lemma moved_append:
  assumes "moved hp1 ys Y1 l r" and "length Y1 = length Y" and "mset (concat Y1) = mset xs + mset (concat Y)"
    and "hh_data hp1 = hh_data hp" and "hh_brk hp1 = hh_brk hp" and "dom (hh_node hp1) = dom (hh_node hp)"
    and "\<And>a. a \<notin> fst ` set xs \<Longrightarrow> hh_node hp1 a = hh_node hp a"
  shows "moved hp (xs @ ys) Y l r"
proof -
  obtain hp' h' Y' where r: "r = (hp', h')" "chains hp' h' Y'" "l = map nodes_of Y'" "length Y' = length Y1"
      "mset (concat Y') = mset ys + mset (concat Y1)" "hh_data hp' = hh_data hp1" "hh_brk hp' = hh_brk hp1"
      "dom (hh_node hp') = dom (hh_node hp1)" "\<And>a. a \<notin> fst ` set ys \<Longrightarrow> hh_node hp' a = hh_node hp1 a"
    using assms(1) unfolding moved_def by (cases r) auto
  show ?thesis
    unfolding moved_def r(1) prod.case
    by (intro exI [of _ Y'] conjI allI impI)
      (use r(2-9) assms(2-7) in \<open>simp_all add: ac_simps image_Un\<close>)
qed

lemma move_chain_ok:
  assumes "chain (hh_node hp) (hh_data hp) t xs None" and "chains hp h Y" and "distinct (map fst (xs @ concat Y))"
  shows "case move_nodes (length Y) (map nodes_of Y) (nodes_of xs) of
     Inl e \<Rightarrow> move_chain hp (length Y) t h = Some (Inl e)
   | Inr l \<Rightarrow> \<exists>r. move_chain hp (length Y) t h = Some (Inr r) \<and> moved hp xs Y l r"
  using assms
proof (induction xs arbitrary: hp t h Y)
  case Nil
  then show ?case using moved_none [of hp h Y] by (auto simp: move_chain.simps)
next
  case (Cons c xs)
  obtain a b nd where c: "c = (a, b, nd)" by (cases c) auto
  let ?n = "\<lambda>r. \<lparr>hn_name = nd_name nd, hn_data = b, hn_next = r\<rparr>"
  obtain r where r: "t = Some a" "hh_node hp a = Some (?n r)" "hh_data hp b = Some (nd_data nd)"
      "chain (hh_node hp) (hh_data hp) r xs None" using Cons.prems c by auto
  show ?case
  proof (cases "cstr (nd_name nd)")
    case (Inl e)
    then show ?thesis by (simp add: c r(1,2) move_chain.simps hnode_at_def)
  next
    case (Inr s)
    show ?thesis
    proof (cases "Y = []")
      case True
      then show ?thesis using Inr by (simp add: c r(1,2) move_chain.simps hnode_at_def)
    next
      case False
      let ?i = "unat (hash s) mod length Y"
      let ?hp = "set_hnode hp a (?n (h ! ?i))" and ?h = "h[?i := Some a]" and ?Y = "Y[?i := (a, b, nd) # Y ! ?i]"
      have i: "?i < length Y" using False by simp
      have a: "a \<notin> fst ` set xs" "a \<notin> fst ` set (concat Y)" using Cons.prems(3) c by auto
      have chs: "chains ?hp ?h ?Y"
        using chains_push [OF Cons.prems(2) i r(2) _ _ r(3) a(2)] by simp
      have ch: "chain (hh_node ?hp) (hh_data ?hp) r xs None"
        using chain_upd(1) [OF a(1)] r(4) by (simp add: set_hnode_def)
      have "mset (map fst (xs @ concat ?Y)) = mset (map fst (c # xs @ concat Y))"
        using mset_update_Cons [OF i, of "(a, b, nd)"] by (simp add: c)
      then have dist: "distinct (map fst (xs @ concat ?Y))"
        using mset_eq_imp_distinct_iff Cons.prems(3) by (metis append_Cons)
      note IH = Cons.IH [OF ch chs dist]
      have l: "move_nodes (length Y) (map nodes_of Y) (nodes_of (c # xs)) = move_nodes (length ?Y) (map nodes_of ?Y) (nodes_of xs)"
        using False i by (simp add: c Inr map_update Let_def)
      have p: "move_chain hp (length Y) t h = move_chain ?hp (length ?Y) r ?h"
        using False by (simp add: r(1,2) Inr move_chain.simps [of hp] hnode_at_def Let_def)
      have "moved hp (c # xs) Y k r'" if "moved ?hp xs ?Y k r'" for k r'
        by (rule moved_first [OF that]) (use mset_update_Cons [OF i, of "(a, b, nd)"] r(2) c in auto)
      then show ?thesis using IH unfolding l p by (auto split: sum.splits)
    qed
  qed
qed


lemma move_nodes_append: "move_nodes sz h (ts @ us) = bindE (move_nodes sz h ts) (\<lambda>h. move_nodes sz h us)"
proof (induction ts arbitrary: h)
  case (Cons t ts)
  then show ?case by (cases "cstr (nd_name t)") (simp_all add: Let_def)
qed simp

text \<open>The outer loop of \<open>rescale\<close>.\<close>

lemma move_chains_ok:
  assumes "chains hp ps X" and "chains hp h Y" and "distinct (map fst (concat X @ concat Y))"
  shows "case move_nodes (length Y) (map nodes_of Y) (nodes_of (concat X)) of
     Inl e \<Rightarrow> foldR (\<lambda>(hp, h) t. move_chain hp (length Y) t h) (hp, h) ps = Some (Inl e)
   | Inr l \<Rightarrow> \<exists>r. foldR (\<lambda>(hp, h) t. move_chain hp (length Y) t h) (hp, h) ps = Some (Inr r) \<and> moved hp (concat X) Y l r"
  using assms
proof (induction X arbitrary: hp ps h Y rule: list.induct)
  case Nil
  have "ps = []" using Nil.prems(1) by simp
  then show ?case using Nil.prems(2) moved_none [of hp h Y] by auto
next
  case (Cons xs X)
  obtain t ps' where ps: "ps = t # ps'" "chain (hh_node hp) (hh_data hp) t xs None" "chains hp ps' X"
    using Cons.prems(1) by (cases ps) auto
  have "distinct (map fst (xs @ concat Y))"
    using Cons.prems(3) unfolding concat.simps map_append distinct_append set_append by blast
  note M = move_chain_ok [OF ps(2) Cons.prems(2) this]
  show ?case
  proof (cases "move_nodes (length Y) (map nodes_of Y) (nodes_of xs)")
    case (Inl e)
    then show ?thesis using M by (simp add: ps(1) move_nodes_append)
  next
    case (Inr l)
    then obtain hp1 h1 where m: "move_chain hp (length Y) t h = Some (Inr (hp1, h1))" "moved hp xs Y l (hp1, h1)"
      using M by auto
    then obtain Y1 where Y1: "chains hp1 h1 Y1" "l = map nodes_of Y1" "length Y1 = length Y"
        "mset (concat Y1) = mset xs + mset (concat Y)" "hh_data hp1 = hh_data hp" "hh_brk hp1 = hh_brk hp"
        "dom (hh_node hp1) = dom (hh_node hp)" "\<And>a. a \<notin> fst ` set xs \<Longrightarrow> hh_node hp1 a = hh_node hp a"
      unfolding moved_def by auto
    have "fst c \<notin> fst ` set xs" if "c \<in> set (concat X)" for c
    proof -
      have "fst ` set xs \<inter> fst ` set (concat X) = {}"
        using Cons.prems(3) unfolding concat.simps map_append distinct_append set_append set_map by blast
      then show ?thesis using that by blast
    qed
    then have "chains hp1 ps' X" using Y1(5,8) by (intro chains_frame [OF ps(3)]) simp
    moreover have "mset (map fst (concat X @ concat Y1)) = mset (map fst (concat (xs # X) @ concat Y))"
      using Y1(4) by simp
    then have "distinct (map fst (concat X @ concat Y1))" using mset_eq_imp_distinct_iff Cons.prems(3) by metis
    ultimately have IH: "case move_nodes (length Y1) (map nodes_of Y1) (nodes_of (concat X)) of
        Inl e \<Rightarrow> foldR (\<lambda>(hp, h) t. move_chain hp (length Y1) t h) (hp1, h1) ps' = Some (Inl e)
      | Inr l \<Rightarrow> \<exists>r. foldR (\<lambda>(hp, h) t. move_chain hp (length Y1) t h) (hp1, h1) ps' = Some (Inr r) \<and> moved hp1 (concat X) Y1 l r"
      using Cons.IH [OF _ Y1(1)] by blast
    have "moved hp (concat (xs # X)) Y k r" if "moved hp1 (concat X) Y1 k r" for k r
      using moved_append [OF that Y1(3-8)] by simp
    then show ?thesis using IH Inr m(1) Y1(2,3) by (auto simp: ps(1) move_nodes_append split: sum.splits)
  qed
qed

section \<open>A table on the heap\<close>

text \<open>The blocks of the heap are the nodes of the table and their data, each once.\<close>

definition owns :: "'v hheap \<Rightarrow> 'v cell list \<Rightarrow> bool" where
  "owns hp cs \<longleftrightarrow> distinct (map fst cs) \<and> distinct (map (fst \<circ> snd) cs) \<and>
     dom (hh_node hp) = fst ` set cs \<and> dom (hh_data hp) = (fst \<circ> snd) ` set cs \<and>
     (\<forall>c \<in> set cs. fst c < hh_brk hp \<and> fst (snd c) < hh_brk hp)"

definition heap_table :: "'v hheap \<Rightarrow> htable \<Rightarrow> 'v HashTab \<Rightarrow> bool" where
  "heap_table hp pt ht \<longleftrightarrow> (\<exists>X. chains hp (pt_h pt) X \<and> ht_h ht = map nodes_of X \<and> pt_len pt = ht_len ht \<and>
     pt_num pt = ht_num ht \<and> length X = unat (ht_len ht) \<and> owns hp (concat X))"

lemma owns_mset: "mset cs = mset cs' \<Longrightarrow> owns hp cs = owns hp cs'"
proof -
  assume m: "mset cs = mset cs'"
  have "mset (map f cs) = mset (map f cs')" for f :: "'a cell \<Rightarrow> nat" using m by simp
  then have "distinct (map f cs) = distinct (map f cs')" for f :: "'a cell \<Rightarrow> nat"
    using mset_eq_imp_distinct_iff by blast
  then show ?thesis using mset_eq_setD [OF m] by (simp add: owns_def)
qed

lemma rescale_at_ok:
  assumes "heap_table hp pt ht"
  shows "case rescale ht sz of
     Inl e \<Rightarrow> rescale_at hp pt sz = Some (Inl e)
   | Inr ht' \<Rightarrow> \<exists>hp' pt'. rescale_at hp pt sz = Some (Inr (hp', pt')) \<and> heap_table hp' pt' ht' \<and> hh_data hp' = hh_data hp"
proof -
  obtain X where X: "chains hp (pt_h pt) X" "ht_h ht = map nodes_of X" "pt_len pt = ht_len ht" "pt_num pt = ht_num ht"
      "length X = unat (ht_len ht)" "owns hp (concat X)"
    using assms by (auto simp: heap_table_def)
  let ?Y = "replicate (unat sz) [] :: 'a cell list list"
  have "chains hp (replicate (unat sz) None) ?Y" by (simp add: list_all2_conv_all_nth)
  moreover have "distinct (map fst (concat X @ concat ?Y))" using X(6) by (simp add: owns_def)
  moreover have "concat (ht_h ht) = nodes_of (concat X)" using X(2) by (simp add: nodes_of_concat)
  ultimately have M: "case move_nodes (unat sz) (replicate (unat sz) []) (concat (ht_h ht)) of
      Inl e \<Rightarrow> foldR (\<lambda>(hp, h) t. move_chain hp (unat sz) t h) (hp, replicate (unat sz) None) (pt_h pt) = Some (Inl e)
    | Inr l \<Rightarrow> \<exists>r. foldR (\<lambda>(hp, h) t. move_chain hp (unat sz) t h) (hp, replicate (unat sz) None) (pt_h pt) = Some (Inr r) \<and>
        moved hp (concat X) ?Y l r"
    using move_chains_ok [OF X(1), of "replicate (unat sz) None" ?Y] unfolding length_replicate by simp
  have "heap_table hp' (pt\<lparr>pt_h := h', pt_len := sz\<rparr>) (ht\<lparr>ht_h := l, ht_len := sz\<rparr>) \<and> hh_data hp' = hh_data hp"
    if "moved hp (concat X) ?Y l (hp', h')" for l hp' h'
  proof -
    obtain Y' where Y': "chains hp' h' Y'" "l = map nodes_of Y'" "length Y' = unat sz" "mset (concat Y') = mset (concat X)"
        "hh_data hp' = hh_data hp" "hh_brk hp' = hh_brk hp" "dom (hh_node hp') = dom (hh_node hp)"
      using \<open>moved hp (concat X) ?Y l (hp', h')\<close> unfolding moved_def by auto
    have "owns hp' (concat Y')"
      using X(6) owns_mset [OF Y'(4), of hp'] Y'(5-7) by (simp add: owns_def)
    then show ?thesis using Y' X(4) by (auto simp: heap_table_def)
  qed
  then show ?thesis
    using M by (cases "move_nodes (unat sz) (replicate (unat sz) []) (concat (ht_h ht))")
      (auto simp: rescale_def rescale_at_def)
qed

end
