(* ===== verification/Hash_Refinement.thy ===== *)
theory Hash_Refinement
  imports Hash_Heap
begin

text \<open>
  The operations of the hash table on the heap do what the operations of Hash do to lists: a table on
  the heap stands for one of lists, every operation keeps that, returns, and has the same result or
  the same fault; at the end every block is freed.
\<close>

section \<open>One bucket changes\<close>

text \<open>The cells of the other buckets.\<close>

definition others :: "'v cell list list \<Rightarrow> nat \<Rightarrow> 'v cell list" where
  "others X i = concat (take i X) @ concat (drop (Suc i) X)"

lemma others_mset: "i < length X \<Longrightarrow> mset (concat (X[i := xs])) = mset (xs @ others X i)"
  by (simp add: others_def concat_update_at)

lemma others_same: "i < length X \<Longrightarrow> mset (concat X) = mset (X ! i @ others X i)"
  using others_mset [of i X "X ! i"] by simp

lemma others_mem: "j < length X \<Longrightarrow> j \<noteq> i \<Longrightarrow> c \<in> set (X ! j) \<Longrightarrow> c \<in> set (others X i)"
proof -
  assume j: "j < length X" "j \<noteq> i" and c: "c \<in> set (X ! j)"
  have "X ! j \<in> set (take i X) \<or> X ! j \<in> set (drop (Suc i) X)"
  proof (cases "j < i")
    case True
    then have "take i X ! j = X ! j" "j < length (take i X)" using j by simp_all
    then show ?thesis by (metis nth_mem)
  next
    case False
    then have "drop (Suc i) X ! (j - Suc i) = X ! j" "j - Suc i < length (drop (Suc i) X)" using j by simp_all
    then show ?thesis by (metis nth_mem)
  qed
  then show ?thesis using c by (auto simp: others_def)
qed

lemma chains_bucket:
  assumes "chains hp ps X" and "i < length X" and "chain (hh_node hp') (hh_data hp') p xs None"
    and "\<And>c. c \<in> set (others X i) \<Longrightarrow> hh_node hp' (fst c) = hh_node hp (fst c) \<and> hh_data hp' (fst (snd c)) = hh_data hp (fst (snd c))"
  shows "chains hp' (ps[i := p]) (X[i := xs])"
proof -
  have len: "length ps = length X" using assms(1) by (rule list_all2_lengthD)
  have "chain (hh_node hp') (hh_data hp') (ps[i := p] ! j) (X[i := xs] ! j) None" if j: "j < length X" for j
  proof (cases "j = i")
    case True
    then show ?thesis using assms(3) j len by simp
  next
    case False
    have "\<forall>c \<in> set (X ! j). hh_node hp' (fst c) = hh_node hp (fst c) \<and> hh_data hp' (fst (snd c)) = hh_data hp (fst (snd c))"
      using assms(4) others_mem [OF j False] by blast
    moreover have "chain (hh_node hp) (hh_data hp) (ps ! j) (X ! j) None" using assms(1) j by (simp add: list_all2_conv_all_nth)
    ultimately show ?thesis using chain_frame False by (metis nth_list_update_neq)
  qed
  then show ?thesis using len by (simp add: list_all2_conv_all_nth)
qed

lemma owns_append:
  assumes "owns hp (cs @ cs')"
  shows "distinct (map fst cs)" "distinct (map (fst \<circ> snd) cs)"
    "fst ` set cs \<inter> fst ` set cs' = {}" "(fst \<circ> snd) ` set cs \<inter> (fst \<circ> snd) ` set cs' = {}"
  using assms by (simp_all add: owns_def)

lemma owns_fresh:
  assumes "owns hp cs" and "hh_brk hp \<le> t"
  shows "t \<notin> fst ` set cs" "t \<notin> (fst \<circ> snd) ` set cs"
  using assms by (fastforce simp: owns_def)+

text \<open>Ownership when a cell comes, goes, or gets a new block for its data.\<close>

lemma owns_new:
  assumes "owns hp cs" and "dom (hh_node hp') = Set.insert a (dom (hh_node hp))" and "dom (hh_data hp') = Set.insert b (dom (hh_data hp))"
    and "hh_brk hp \<le> a" and "hh_brk hp \<le> b" and "a < hh_brk hp'" and "b < hh_brk hp'" and "hh_brk hp \<le> hh_brk hp'"
  shows "owns hp' ((a, b, nd) # cs)"
proof -
  have old: "fst c < hh_brk hp \<and> fst (snd c) < hh_brk hp" if "c \<in> set cs" for c using assms(1) that by (simp add: owns_def)
  then have "a \<notin> fst ` set cs" "b \<notin> (fst \<circ> snd) ` set cs" using assms(4,5) by fastforce+
  moreover have "fst c < hh_brk hp' \<and> fst (snd c) < hh_brk hp'" if "c \<in> set cs" for c using old [OF that] assms(8) by simp
  ultimately show ?thesis using assms(1-3,6,7) by (simp add: owns_def)
qed

lemma owns_drop:
  assumes "owns hp ((a, b, nd) # cs)" and "dom (hh_node hp') = dom (hh_node hp) - {a}" and "dom (hh_data hp') = dom (hh_data hp) - {b}"
    and "hh_brk hp' = hh_brk hp"
  shows "owns hp' cs"
proof -
  have "a \<notin> fst ` set cs" "b \<notin> (fst \<circ> snd) ` set cs" using assms(1) by (simp_all add: owns_def)
  then show ?thesis using assms by (simp add: owns_def)
qed

lemma owns_swap:
  assumes "owns hp ((a, b, nd) # cs)" and "dom (hh_node hp') = dom (hh_node hp)"
    and "dom (hh_data hp') = Set.insert t (dom (hh_data hp) - {b})" and "t = hh_brk hp" and "hh_brk hp' = Suc (hh_brk hp)"
  shows "owns hp' ((a, t, nd') # cs)"
proof -
  have old: "fst c < hh_brk hp \<and> fst (snd c) < hh_brk hp" if "c \<in> set cs" for c using assms(1) that by (simp add: owns_def)
  then have "t \<notin> (fst \<circ> snd) ` set cs" using assms(4) by fastforce
  moreover have "fst c < hh_brk hp' \<and> fst (snd c) < hh_brk hp'" if "c \<in> set cs" for c using old [OF that] assms(5) by simp
  moreover have "b \<notin> (fst \<circ> snd) ` set cs" "a < hh_brk hp'" using assms(1,5) by (simp_all add: owns_def)
  ultimately show ?thesis using assms(1-4) by (simp add: owns_def assms(5))
qed


section \<open>The operations do what those on lists do\<close>

lemma heap_tableE:
  assumes "heap_table hp pt ht"
  obtains X where "chains hp (pt_h pt) X" "ht_h ht = map nodes_of X" "pt_len pt = ht_len ht" "pt_num pt = ht_num ht"
    "length X = unat (ht_len ht)" "owns hp (concat X)"
  using assms by (auto simp: heap_table_def)

lemma slot_at_same: "pt_len pt = ht_len ht \<Longrightarrow> slot_at pt name = slot ht name"
  by (simp add: slot_at_def slot_def)

lemma slot_less: "slot ht name = Inr i \<Longrightarrow> i < unat (ht_len ht)"
  by (auto simp: slot_def unat_gt_0 split: if_splits)

lemma chains_nth: "chains hp ps X \<Longrightarrow> i < length X \<Longrightarrow> chain (hh_node hp) (hh_data hp) (ps ! i) (X ! i) None"
  by (simp add: list_all2_conv_all_nth)

lemma chain_cell:
  "chain (hh_node hp) (hh_data hp) p (ys @ (a, b, nd) # zs) None \<Longrightarrow>
     \<exists>r. hnode_at hp a = Inr \<lparr>hn_name = nd_name nd, hn_data = b, hn_next = r\<rparr> \<and> hh_data hp b = Some (nd_data nd)"
  by (auto simp: chain_append hnode_at_def)

lemma search_at_ok:
  assumes "heap_table hp pt ht"
  shows "case search ht name of
     Inl e \<Rightarrow> search_at hp pt name = Some (Inl e)
   | Inr r \<Rightarrow> \<exists>b. search_at hp pt name = Some (Inr b) \<and> map_option (hh_data hp) b = map_option Some r"
proof -
  obtain X where X: "chains hp (pt_h pt) X" "ht_h ht = map nodes_of X" "pt_len pt = ht_len ht" "pt_num pt = ht_num ht"
      "length X = unat (ht_len ht)" "owns hp (concat X)"
    using assms by (rule heap_tableE)
  show ?thesis
  proof (cases "slot ht name")
    case (Inl e)
    then show ?thesis by (simp add: search_at_def search_def slot_at_same [OF X(3)])
  next
    case (Inr i)
    then have i: "i < length X" using slot_less X(5) by metis
    note ch = chains_nth [OF X(1) i]
    note F = find_node_cell [OF ch, of name] find_data_cell [of "X ! i" name]
    have h: "ht_h ht ! i = nodes_of (X ! i)" using X(2) i by simp
    show ?thesis
    proof (cases "find_cell (X ! i) name")
      case (Inl e)
      then show ?thesis using Inr F by (simp add: search_at_def search_def slot_at_same [OF X(3)] h)
    next
      case found: (Inr r)
      show ?thesis
      proof (cases r)
        case None
        then show ?thesis using Inr F found by (simp add: search_at_def search_def slot_at_same [OF X(3)] h)
      next
        case (Some k)
        obtain ys a b nd zs where k: "k = (ys, (a, b, nd), zs)" by (cases k) auto
        then have "X ! i = ys @ (a, b, nd) # zs" using find_cell_split found Some by blast
        then obtain q where "hnode_at hp a = Inr \<lparr>hn_name = nd_name nd, hn_data = b, hn_next = q\<rparr>" "hh_data hp b = Some (nd_data nd)"
          using chain_cell ch by metis
        then show ?thesis
          using Inr F found Some k by (simp add: search_at_def search_def slot_at_same [OF X(3)] h)
      qed
    qed
  qed
qed

text \<open>The node that is found gets the new data, whose block is fresh, and the old block is freed.\<close>

lemma chain_swap:
  assumes "chain m d p (ys @ (a, b, nd) # zs) None" and "distinct (map fst (ys @ (a, b, nd) # zs))"
    and "distinct (map (fst \<circ> snd) (ys @ (a, b, nd) # zs))" and "t \<notin> (fst \<circ> snd) ` set (ys @ (a, b, nd) # zs)"
    and "m a = Some n"
  shows "chain (m(a \<mapsto> n\<lparr>hn_data := t\<rparr>)) (d(t \<mapsto> v, b := None)) p (ys @ (a, t, nd\<lparr>nd_data := v\<rparr>) # zs) None"
proof -
  obtain r where r: "chain m d p ys (Some a)" "m a = Some \<lparr>hn_name = nd_name nd, hn_data = b, hn_next = r\<rparr>" "chain m d r zs None"
    using assms(1) by (auto simp: chain_append)
  have same: "\<forall>c \<in> set cs. (m(a \<mapsto> n\<lparr>hn_data := t\<rparr>)) (fst c) = m (fst c) \<and> (d(t \<mapsto> v, b := None)) (fst (snd c)) = d (fst (snd c))"
    if "cs = ys \<or> cs = zs" for cs
    using that assms(2-4) by (auto simp: image_iff)
  have "chain (m(a \<mapsto> n\<lparr>hn_data := t\<rparr>)) (d(t \<mapsto> v, b := None)) p ys (Some a)"
    using chain_frame [OF same [of ys]] r(1) by blast
  moreover have "chain (m(a \<mapsto> n\<lparr>hn_data := t\<rparr>)) (d(t \<mapsto> v, b := None)) r zs None"
    using chain_frame [OF same [of zs]] r(3) by blast
  moreover have "t \<noteq> b" using assms(4) by auto
  ultimately show ?thesis using r(2) assms(5) unfolding chain_append by (intro exI [of _ "Some a"]) simp
qed


lemma others_apart:
  assumes "owns hp (concat X)" and "i < length X" and "c \<in> set (others X i)"
  shows "fst c \<notin> fst ` set (X ! i)" "fst (snd c) \<notin> (fst \<circ> snd) ` set (X ! i)" "fst c < hh_brk hp" "fst (snd c) < hh_brk hp"
proof -
  have o: "owns hp (X ! i @ others X i)" using assms(1) owns_mset [OF others_same [OF assms(2)], of hp] by simp
  then have "fst ` set (X ! i) \<inter> fst ` set (others X i) = {}" "(fst \<circ> snd) ` set (X ! i) \<inter> (fst \<circ> snd) ` set (others X i) = {}"
    by (rule owns_append)+
  moreover have "fst c \<in> fst ` set (others X i)" using assms(3) by simp
  moreover have "fst (snd c) \<in> (fst \<circ> snd) ` set (others X i)" using assms(3) by force
  ultimately show "fst c \<notin> fst ` set (X ! i)" "fst (snd c) \<notin> (fst \<circ> snd) ` set (X ! i)" by blast+
  show "fst c < hh_brk hp" "fst (snd c) < hh_brk hp" using o assms(3) by (simp_all add: owns_def)
qed

lemma table_bucket:
  assumes "chains hp (pt_h pt) X" "ht_h ht = map nodes_of X" "pt_len pt = ht_len ht" "length X = unat (ht_len ht)"
    and "i < length X" and "chain (hh_node hp') (hh_data hp') p xs None"
    and "\<And>c. c \<in> set (others X i) \<Longrightarrow> hh_node hp' (fst c) = hh_node hp (fst c) \<and> hh_data hp' (fst (snd c)) = hh_data hp (fst (snd c))"
    and "owns hp' (xs @ others X i)"
  shows "heap_table hp' (pt\<lparr>pt_h := (pt_h pt)[i := p], pt_num := n\<rparr>) (ht\<lparr>ht_h := (ht_h ht)[i := nodes_of xs], ht_num := n\<rparr>)"
proof -
  have "owns hp' (concat (X[i := xs]))" using assms(8) owns_mset [OF others_mset [OF assms(5)], of hp' xs] by simp
  moreover have "(ht_h ht)[i := nodes_of xs] = map nodes_of (X[i := xs])" using assms(2) by (simp add: map_update)
  ultimately show ?thesis
    using chains_bucket [OF assms(1,5,6,7)] assms(3,4) unfolding heap_table_def by (intro exI [of _ "X[i := xs]"]) simp
qed

text \<open>A new block leaves the table as it is.\<close>

lemma chains_malloc:
  assumes "chains hp ps X" and "owns hp (concat X)"
  shows "chains (fst (malloc_data hp v)) ps X"
proof (rule chains_frame [OF assms(1)])
  fix c
  assume c: "c \<in> set (concat X)"
  then have "fst (snd c) \<noteq> hh_brk hp" using assms(2) by (auto simp: owns_def simp del: set_concat)
  then show "hh_node (fst (malloc_data hp v)) (fst c) = hh_node hp (fst c) \<and>
      hh_data (fst (malloc_data hp v)) (fst (snd c)) = hh_data hp (fst (snd c))"
    by (simp add: malloc_data_def)
qed

lemma insert_found:
  fixes hp :: "'v hheap" and v :: 'v
  assumes X: "chains hp (pt_h pt) X" "ht_h ht = map nodes_of X" "pt_len pt = ht_len ht" "pt_num pt = ht_num ht"
      "length X = unat (ht_len ht)" "owns hp (concat X)"
    and i: "i < length X" and x: "X ! i = ys @ (a, b, nd) # zs"
  defines "hp1 \<equiv> fst (malloc_data hp v)" and "t \<equiv> hh_brk hp"
  obtains n hp2 where "hnode_at hp1 a = Inr n" "free_data hp1 (hn_data n) = Inr hp2"
    "heap_table (set_hnode hp2 a (n\<lparr>hn_data := t\<rparr>)) pt (ht\<lparr>ht_h := (ht_h ht)[i := nodes_of ys @ nd\<lparr>nd_data := v\<rparr> # nodes_of zs]\<rparr>)"
    "hh_data (set_hnode hp2 a (n\<lparr>hn_data := t\<rparr>)) t = Some v"
proof -
  have o1: "owns hp ((ys @ (a, b, nd) # zs) @ others X i)" using X(6) owns_mset [OF others_same [OF i], of hp] by (simp add: x)
  then have o: "owns hp ((a, b, nd) # ys @ zs @ others X i)"
    using owns_mset [of "(ys @ (a, b, nd) # zs) @ others X i" "(a, b, nd) # ys @ zs @ others X i" hp] by simp
  have ch: "chain (hh_node hp) (hh_data hp) (pt_h pt ! i) (ys @ (a, b, nd) # zs) None" using chains_nth [OF X(1) i] x by simp
  obtain q where q: "hh_node hp a = Some \<lparr>hn_name = nd_name nd, hn_data = b, hn_next = q\<rparr>" "hh_data hp b = Some (nd_data nd)"
    using chain_node [OF ch, of a b nd] by auto
  let ?n = "\<lparr>hn_name = nd_name nd, hn_data = b, hn_next = q\<rparr>"
  let ?hp2 = "hp1\<lparr>hh_data := (hh_data hp1)(b := None)\<rparr>"
  let ?hp3 = "set_hnode ?hp2 a (?n\<lparr>hn_data := t\<rparr>)"
  have tb: "t \<noteq> b" using o by (auto simp: owns_def t_def)
  have n: "hnode_at hp1 a = Inr ?n" "free_data hp1 (hn_data ?n) = Inr ?hp2"
    using q tb by (simp_all add: hnode_at_def free_data_def hp1_def malloc_data_def t_def)
  have heap: "hh_node ?hp3 = (hh_node hp)(a \<mapsto> ?n\<lparr>hn_data := t\<rparr>)" "hh_data ?hp3 = (hh_data hp)(t \<mapsto> v, b := None)"
      "hh_brk ?hp3 = Suc (hh_brk hp)"
    by (simp_all add: set_hnode_def hp1_def malloc_data_def t_def)
  have dist: "distinct (map fst (ys @ (a, b, nd) # zs))" "distinct (map (fst \<circ> snd) (ys @ (a, b, nd) # zs))"
    using owns_append(1,2) [OF o1] by blast+
  have fresh: "t \<notin> (fst \<circ> snd) ` set (ys @ (a, b, nd) # zs)"
    using owns_fresh(2) [OF o1, of t] unfolding t_def by auto
  have "owns ?hp3 ((a, t, nd\<lparr>nd_data := v\<rparr>) # ys @ zs @ others X i)"
    by (rule owns_swap [OF o]) (use q tb heap in \<open>auto simp: t_def\<close>)
  then have "owns ?hp3 ((ys @ (a, t, nd\<lparr>nd_data := v\<rparr>) # zs) @ others X i)"
    using owns_mset [of "(ys @ (a, t, nd\<lparr>nd_data := v\<rparr>) # zs) @ others X i" "(a, t, nd\<lparr>nd_data := v\<rparr>) # ys @ zs @ others X i" ?hp3] by simp
  moreover have "chain (hh_node ?hp3) (hh_data ?hp3) (pt_h pt ! i) (ys @ (a, t, nd\<lparr>nd_data := v\<rparr>) # zs) None"
    unfolding heap by (rule chain_swap [OF ch dist fresh q(1)])
  moreover have "hh_node ?hp3 (fst c) = hh_node hp (fst c) \<and> hh_data ?hp3 (fst (snd c)) = hh_data hp (fst (snd c))"
    if "c \<in> set (others X i)" for c
    using others_apart [OF X(6) i that] unfolding heap x by (auto simp: t_def)
  ultimately have "heap_table ?hp3 (pt\<lparr>pt_h := (pt_h pt)[i := pt_h pt ! i], pt_num := pt_num pt\<rparr>)
      (ht\<lparr>ht_h := (ht_h ht)[i := nodes_of (ys @ (a, t, nd\<lparr>nd_data := v\<rparr>) # zs)], ht_num := pt_num pt\<rparr>)"
    by (intro table_bucket [OF X(1,2,3,5) i]) auto
  then have "heap_table ?hp3 pt (ht\<lparr>ht_h := (ht_h ht)[i := nodes_of ys @ nd\<lparr>nd_data := v\<rparr> # nodes_of zs]\<rparr>)"
    using X(4) by (cases pt) simp
  moreover have "hh_data ?hp3 t = Some v" using tb unfolding heap by simp
  ultimately show ?thesis using that n by blast
qed


text \<open>A new node goes to the front of its chain.\<close>

lemma insert_new:
  fixes hp :: "'v hheap" and v :: 'v and s :: carr
  assumes X: "chains hp (pt_h pt) X" "ht_h ht = map nodes_of X" "pt_len pt = ht_len ht" "pt_num pt = ht_num ht"
      "length X = unat (ht_len ht)" "owns hp (concat X)"
    and i: "i < length X"
  defines "t \<equiv> hh_brk hp" and "a \<equiv> Suc (hh_brk hp)" and "hp1 \<equiv> fst (malloc_data hp v)"
  defines "hp2 \<equiv> fst (malloc_hnode hp1 \<lparr>hn_name = s, hn_data = t, hn_next = None\<rparr>)"
  defines "hp3 \<equiv> set_hnode hp2 a \<lparr>hn_name = s, hn_data = t, hn_next = pt_h pt ! i\<rparr>"
  shows "heap_table hp3 (pt\<lparr>pt_h := (pt_h pt)[i := Some a], pt_num := pt_num pt + 1\<rparr>)
      (ht\<lparr>ht_h := (ht_h ht)[i := \<lparr>nd_name = s, nd_data = v\<rparr> # ht_h ht ! i], ht_num := ht_num ht + 1\<rparr>)"
    and "hh_data hp3 t = Some v"
proof -
  let ?c = "(a, t, \<lparr>nd_name = s, nd_data = v\<rparr>)"
  have heap: "hh_node hp3 = (hh_node hp)(a \<mapsto> \<lparr>hn_name = s, hn_data = t, hn_next = pt_h pt ! i\<rparr>)"
      "hh_data hp3 = (hh_data hp)(t \<mapsto> v)" "hh_brk hp3 = Suc (Suc (hh_brk hp))"
    by (simp_all add: hp3_def hp2_def hp1_def a_def t_def set_hnode_def malloc_hnode_def malloc_data_def)
  have o: "owns hp (X ! i @ others X i)" using X(6) owns_mset [OF others_same [OF i], of hp] by simp
  have "owns hp3 ((?c # X ! i) @ others X i)"
    unfolding append_Cons by (rule owns_new [OF o]) (simp_all add: heap, simp_all add: a_def t_def)
  moreover have fresh: "a \<notin> fst ` set (X ! i @ others X i)" "t \<notin> (fst \<circ> snd) ` set (X ! i @ others X i)"
    using owns_fresh [OF o] by (simp_all add: a_def t_def)
  have "chain (hh_node hp3) (hh_data hp3) (pt_h pt ! i) (X ! i) None"
    using chains_nth [OF X(1) i] chain_upd fresh unfolding heap set_append image_Un by (metis UnI1)
  then have "chain (hh_node hp3) (hh_data hp3) (Some a) (?c # X ! i) None" by (simp add: heap)
  moreover have "hh_node hp3 (fst c) = hh_node hp (fst c) \<and> hh_data hp3 (fst (snd c)) = hh_data hp (fst (snd c))"
    if "c \<in> set (others X i)" for c
    using others_apart(3,4) [OF X(6) i that] unfolding heap by (auto simp: a_def t_def)
  ultimately have "heap_table hp3 (pt\<lparr>pt_h := (pt_h pt)[i := Some a], pt_num := pt_num pt + 1\<rparr>)
      (ht\<lparr>ht_h := (ht_h ht)[i := nodes_of (?c # X ! i)], ht_num := pt_num pt + 1\<rparr>)"
    by (intro table_bucket [OF X(1,2,3,5) i]) auto
  then show "heap_table hp3 (pt\<lparr>pt_h := (pt_h pt)[i := Some a], pt_num := pt_num pt + 1\<rparr>)
      (ht\<lparr>ht_h := (ht_h ht)[i := \<lparr>nd_name = s, nd_data = v\<rparr> # ht_h ht ! i], ht_num := ht_num ht + 1\<rparr>)"
    using X(2,4) i by simp
  show "hh_data hp3 t = Some v" by (simp add: heap)
qed


text \<open>
  How an operation of the heap follows one of the lists: the same fault, or both return and \<open>P\<close>
  relates what they return. The heap's always returns.
\<close>

definition follows :: "'a run \<Rightarrow> 'b res \<Rightarrow> ('a \<Rightarrow> 'b \<Rightarrow> bool) \<Rightarrow> bool" where
  "follows r l P \<longleftrightarrow> (case l of Inl e \<Rightarrow> r = Some (Inl e) | Inr y \<Rightarrow> \<exists>x. r = Some (Inr x) \<and> P x y)"

lemma follows_simps [simp]:
  "follows r (Inl e) P \<longleftrightarrow> r = Some (Inl e)" "follows r (Inr y) P \<longleftrightarrow> (\<exists>x. r = Some (Inr x) \<and> P x y)"
  by (simp_all add: follows_def)

lemma rescale_follows:
  "heap_table hp pt ht \<Longrightarrow> follows (rescale_at hp pt sz) (rescale ht sz)
     (\<lambda>(hp', pt') ht'. heap_table hp' pt' ht' \<and> hh_data hp' = hh_data hp)"
  using rescale_at_ok [of hp pt ht sz] by (cases "rescale ht sz") auto

lemma put_new_follows:
  assumes X: "chains hp (pt_h pt) X" "ht_h ht = map nodes_of X" "pt_len pt = ht_len ht" "pt_num pt = ht_num ht"
      "length X = unat (ht_len ht)" "owns hp (concat X)"
    and i: "i < length X" and hp1: "malloc_data hp v = (hp1, t)"
  shows "follows (put_new hp1 pt i name t)
     (bindE (newNode name v) (\<lambda>n.
        let ht' = ht\<lparr>ht_h := (ht_h ht)[i := n # ht_h ht ! i], ht_num := ht_num ht + 1\<rparr>
        in if ht_len ht' * 2 \<le> ht_num ht' then rescale ht' (push_bit 1 (ht_len ht')) else Inr ht'))
     (\<lambda>(hp', pt', t') ht'. heap_table hp' pt' ht' \<and> hh_data hp' t' = Some v)"
proof (cases "strncpy (uninit (HASH_KEY_MAX_LEN + 1)) name HASH_KEY_MAX_LEN")
  case (Inl e)
  then show ?thesis by (simp add: put_new_def newNode_at_def newNode_def)
next
  case (Inr s)
  have t: "t = hh_brk hp" "hp1 = fst (malloc_data hp v)" using hp1 by (auto simp: malloc_data_def)
  let ?a = "Suc t"
  let ?hp2 = "fst (malloc_hnode hp1 \<lparr>hn_name = s, hn_data = t, hn_next = None\<rparr>)"
  let ?hp3 = "set_hnode ?hp2 ?a \<lparr>hn_name = s, hn_data = t, hn_next = pt_h pt ! i\<rparr>"
  let ?pt = "pt\<lparr>pt_h := (pt_h pt)[i := Some ?a], pt_num := pt_num pt + 1\<rparr>"
  let ?ht = "ht\<lparr>ht_h := (ht_h ht)[i := \<lparr>nd_name = s, nd_data = v\<rparr> # ht_h ht ! i], ht_num := ht_num ht + 1\<rparr>"
  note new = insert_new [OF X i, where s = s and v = v, folded t]
  have new_node: "newNode_at hp1 name t = Inr (?hp2, ?a)"
    "hnode_at ?hp2 ?a = Inr \<lparr>hn_name = s, hn_data = t, hn_next = None\<rparr>"
    unfolding newNode_at_def Inr bindE.simps by (simp_all add: t malloc_hnode_def malloc_data_def hnode_at_def)
  have p: "put_new hp1 pt i name t = (if pt_len ?pt * 2 \<le> pt_num ?pt
      then bindR (rescale_at ?hp3 ?pt (push_bit 1 (pt_len ?pt))) (\<lambda>(hp, pt). Some (Inr (hp, pt, t))) else Some (Inr (?hp3, ?pt, t)))"
    unfolding put_new_def new_node bindR_simps prod.case Let_def by simp
  have l: "bindE (newNode name v) (\<lambda>n.
        let ht' = ht\<lparr>ht_h := (ht_h ht)[i := n # ht_h ht ! i], ht_num := ht_num ht + 1\<rparr>
        in if ht_len ht' * 2 \<le> ht_num ht' then rescale ht' (push_bit 1 (ht_len ht')) else Inr ht') =
      (if pt_len ?pt * 2 \<le> pt_num ?pt then rescale ?ht (push_bit 1 (pt_len ?pt)) else Inr ?ht)"
    using X(3,4) unfolding newNode_def Inr bindE.simps Let_def by simp
  show ?thesis
  proof (cases "pt_len ?pt * 2 \<le> pt_num ?pt")
    case True
    then show ?thesis
      unfolding p l using rescale_follows [OF new(1), of "push_bit 1 (pt_len ?pt)"] new(2)
      by (cases "rescale ?ht (push_bit 1 (pt_len ?pt))") auto
  next
    case False
    then show ?thesis unfolding p l using new by simp
  qed
qed


lemma insert_follows:
  assumes "heap_table hp pt ht"
  shows "follows (insert_at hp pt name v) (insert_ht ht name v)
     (\<lambda>(hp', pt', t) ht'. heap_table hp' pt' ht' \<and> hh_data hp' t = Some v)"
proof -
  obtain X where X: "chains hp (pt_h pt) X" "ht_h ht = map nodes_of X" "pt_len pt = ht_len ht" "pt_num pt = ht_num ht"
      "length X = unat (ht_len ht)" "owns hp (concat X)"
    using assms by (rule heap_tableE)
  obtain hp1 where hp1: "malloc_data hp v = (hp1, hh_brk hp)" "hp1 = fst (malloc_data hp v)" by (simp add: malloc_data_def)
  show ?thesis
  proof (cases "slot ht name")
    case (Inl e)
    then show ?thesis by (simp add: insert_at_def insert_ht_def hp1(1) slot_at_same [OF X(3)])
  next
    case (Inr i)
    then have i: "i < length X" using slot_less X(5) by metis
    have h: "ht_h ht ! i = nodes_of (X ! i)" using X(2) i by simp
    note F = find_node_cell [OF chains_nth [OF chains_malloc [OF X(1,6), of v] i], of name, folded hp1(2)]
    note R = replace_data_cell [of "X ! i" name v]
    show ?thesis
    proof (cases "find_cell (X ! i) name")
      case (Inl e)
      then show ?thesis using Inr by (simp add: insert_at_def insert_ht_def hp1(1) slot_at_same [OF X(3)] h F R)
    next
      case found: (Inr r)
      show ?thesis
      proof (cases r)
        case None
        have "insert_at hp pt name v = put_new hp1 pt i name (hh_brk hp)"
          using Inr found None by (simp add: insert_at_def hp1(1) slot_at_same [OF X(3)] F)
        moreover have "insert_ht ht name v = bindE (newNode name v) (\<lambda>n.
            let ht' = ht\<lparr>ht_h := (ht_h ht)[i := n # ht_h ht ! i], ht_num := ht_num ht + 1\<rparr>
            in if ht_len ht' * 2 \<le> ht_num ht' then rescale ht' (push_bit 1 (ht_len ht')) else Inr ht')"
          using Inr found None by (simp add: insert_ht_def h R)
        ultimately show ?thesis using put_new_follows [OF X i hp1(1)] by simp
      next
        case (Some k)
        obtain ys a b nd zs where k: "k = (ys, (a, b, nd), zs)" by (cases k) auto
        then have "X ! i = ys @ (a, b, nd) # zs" using find_cell_split found Some by blast
        then obtain n hp2 where "hnode_at hp1 a = Inr n" "free_data hp1 (hn_data n) = Inr hp2"
            "heap_table (set_hnode hp2 a (n\<lparr>hn_data := hh_brk hp\<rparr>)) pt (ht\<lparr>ht_h := (ht_h ht)[i := nodes_of ys @ nd\<lparr>nd_data := v\<rparr> # nodes_of zs]\<rparr>)"
            "hh_data (set_hnode hp2 a (n\<lparr>hn_data := hh_brk hp\<rparr>)) (hh_brk hp) = Some v"
          using insert_found [OF X i, of ys a b nd zs v, folded hp1(2)] by blast
        then show ?thesis
          using Inr found Some k
          by (simp add: insert_at_def insert_ht_def hp1(1) slot_at_same [OF X(3)] h F R put_found_def)
      qed
    qed
  qed
qed


text \<open>A node is cut out of its chain: the head moves on, or the node before it does.\<close>

lemma chain_relink:
  assumes "chain m d p (ys @ [(c, e, md)]) r" and "c \<notin> fst ` set ys" and "m c = Some n"
  shows "chain (m(c \<mapsto> n\<lparr>hn_next := q\<rparr>)) d p (ys @ [(c, e, md)]) q"
proof -
  have "chain m d p ys (Some c)" "d e = Some (nd_data md)" "m c = Some \<lparr>hn_name = nd_name md, hn_data = e, hn_next = r\<rparr>"
    using assms(1) by (auto simp: chain_append)
  then show ?thesis using assms(3) chain_upd(1) [OF assms(2)] unfolding chain_append by (intro exI [of _ "Some c"]) simp
qed

lemma chain_free:
  assumes "chain m d p xs None" and "a \<notin> fst ` set xs" and "b \<notin> (fst \<circ> snd) ` set xs"
  shows "chain (m(a := None)) (d(b := None)) p xs None"
  using assms chain_upd by blast

lemma deleteNode_found:
  assumes ch: "chain (hh_node hp) (hh_data hp) p (ys @ (a, b, nd) # zs) None"
    and dist: "distinct (map fst (ys @ (a, b, nd) # zs))" "distinct (map (fst \<circ> snd) (ys @ (a, b, nd) # zs))"
    and find: "find_cell (ys @ (a, b, nd) # zs) name = Inr (Some (ys, (a, b, nd), zs))"
  obtains hp' p' where "deleteNode_at hp p name = Some (Inr (hp', p'))" "chain (hh_node hp') (hh_data hp') p' (ys @ zs) None"
    "dom (hh_node hp') = dom (hh_node hp) - {a}" "dom (hh_data hp') = dom (hh_data hp) - {b}" "hh_brk hp' = hh_brk hp"
    "\<And>x. x \<notin> fst ` set (ys @ (a, b, nd) # zs) \<Longrightarrow> hh_node hp' x = hh_node hp x" "\<And>x. x \<noteq> b \<Longrightarrow> hh_data hp' x = hh_data hp x"
proof -
  obtain q where q: "hh_node hp a = Some \<lparr>hn_name = nd_name nd, hn_data = b, hn_next = q\<rparr>" "hh_data hp b = Some (nd_data nd)"
      "chain (hh_node hp) (hh_data hp) p ys (Some a)" "chain (hh_node hp) (hh_data hp) q zs None"
    using ch by (auto simp: chain_append)
  let ?free = "\<lambda>m. hp\<lparr>hh_node := m(a := None), hh_data := (hh_data hp)(b := None)\<rparr>"
  have apart: "a \<notin> fst ` set (ys @ zs)" "b \<notin> (fst \<circ> snd) ` set (ys @ zs)" using dist by auto
  note prev = find_prev_cell [OF ch, of None name, unfolded find bindE.simps option.case prod.case]
  show ?thesis
  proof (cases ys rule: rev_cases)
    case Nil
    have "deleteNode_at hp p name = Some (Inr (?free (hh_node hp), q))"
      using q(1,2) by (simp add: deleteNode_at_def prev Nil hnode_at_def free_data_def free_hnode_def)
    moreover have "chain ((hh_node hp)(a := None)) ((hh_data hp)(b := None)) q (ys @ zs) None"
      using chain_free q(4) apart by (simp add: Nil)
    ultimately show ?thesis using that [of "?free (hh_node hp)" q] by auto
  next
    case (snoc ys' k)
    obtain c e md where k: "k = (c, e, md)" by (cases k) auto
    obtain r where r: "hh_node hp c = Some \<lparr>hn_name = nd_name md, hn_data = e, hn_next = r\<rparr>"
      using chain_node [OF ch, of c e md] by (auto simp: snoc k)
    let ?m = "(hh_node hp)(c \<mapsto> \<lparr>hn_name = nd_name md, hn_data = e, hn_next = q\<rparr>)"
    have ca: "c \<noteq> a" "c \<notin> fst ` set ys'" "c \<notin> fst ` set zs" using dist by (auto simp: snoc k)
    have "deleteNode_at hp p name = Some (Inr (?free ?m, p))"
      using q(1,2) r ca by (simp add: deleteNode_at_def prev snoc k hnode_at_def set_hnode_def free_data_def free_hnode_def)
    moreover have "chain ?m (hh_data hp) p ys q"
      using chain_relink [OF q(3) [unfolded snoc k] ca(2) r, of q] by (simp add: snoc k)
    moreover have "chain ?m (hh_data hp) q zs None" using chain_upd(1) [OF ca(3)] q(4) by blast
    ultimately have d: "deleteNode_at hp p name = Some (Inr (?free ?m, p))" and "chain ?m (hh_data hp) p (ys @ zs) None"
      unfolding chain_append by blast+
    then have "chain (?m(a := None)) ((hh_data hp)(b := None)) p (ys @ zs) None" by (intro chain_free [OF _ apart])
    moreover have "dom (?m(a := None)) = dom (hh_node hp) - {a}" using r ca(1) by auto
    moreover have "(?m(a := None)) x = hh_node hp x" if "x \<notin> fst ` set (ys @ (a, b, nd) # zs)" for x
      using that by (auto simp: snoc k)
    ultimately show ?thesis using d that [of "?free ?m" p] by simp
  qed
qed

lemma delete_bucket:
  assumes X: "chains hp (pt_h pt) X" "ht_h ht = map nodes_of X" "pt_len pt = ht_len ht" "pt_num pt = ht_num ht"
      "length X = unat (ht_len ht)" "owns hp (concat X)"
    and i: "i < length X"
  shows "follows (deleteNode_at hp (pt_h pt ! i) name) (deleteNode (ht_h ht ! i) name)
     (\<lambda>(hp', p') c. \<forall>n. heap_table hp' (pt\<lparr>pt_h := (pt_h pt)[i := p'], pt_num := n\<rparr>) (ht\<lparr>ht_h := (ht_h ht)[i := c], ht_num := n\<rparr>))"
proof -
  have h: "ht_h ht ! i = nodes_of (X ! i)" using X(2) i by simp
  note ch = chains_nth [OF X(1) i]
  note D = deleteNode_cell [of "X ! i" name, folded h] find_prev_cell [OF ch, of None name]
  have o: "owns hp (X ! i @ others X i)" using X(6) owns_mset [OF others_same [OF i], of hp] by simp
  show ?thesis
  proof (cases "find_cell (X ! i) name")
    case (Inl e)
    then show ?thesis by (simp add: deleteNode_at_def D)
  next
    case (Inr r)
    show ?thesis
    proof (cases r)
      case None
      have "heap_table hp (pt\<lparr>pt_h := (pt_h pt)[i := pt_h pt ! i], pt_num := n\<rparr>) (ht\<lparr>ht_h := (ht_h ht)[i := ht_h ht ! i], ht_num := n\<rparr>)" for n
        unfolding h by (rule table_bucket [OF X(1,2,3,5) i ch _ o]) simp
      then show ?thesis using Inr None by (simp add: deleteNode_at_def D)
    next
      case (Some k)
      obtain ys a b nd zs where k: "k = (ys, (a, b, nd), zs)" by (cases k) auto
      then have x: "X ! i = ys @ (a, b, nd) # zs" using find_cell_split Inr Some by blast
      obtain hp' p' where d: "deleteNode_at hp (pt_h pt ! i) name = Some (Inr (hp', p'))"
          "chain (hh_node hp') (hh_data hp') p' (ys @ zs) None" "dom (hh_node hp') = dom (hh_node hp) - {a}"
          "dom (hh_data hp') = dom (hh_data hp) - {b}" "hh_brk hp' = hh_brk hp"
          "\<And>x. x \<notin> fst ` set (X ! i) \<Longrightarrow> hh_node hp' x = hh_node hp x" "\<And>x. x \<noteq> b \<Longrightarrow> hh_data hp' x = hh_data hp x"
        by (rule deleteNode_found [OF ch [unfolded x] owns_append(1,2) [OF o [unfolded x]], of name]) (use Inr Some k x in auto)
      have "owns hp ((a, b, nd) # (ys @ zs) @ others X i)"
        using o owns_mset [of "(ys @ (a, b, nd) # zs) @ others X i" "(a, b, nd) # (ys @ zs) @ others X i" hp] by (simp add: x)
      then have o': "owns hp' ((ys @ zs) @ others X i)" by (rule owns_drop) (use d in auto)
      have "b \<in> (fst \<circ> snd) ` set (X ! i)" by (auto simp: x)
      then have "hh_node hp' (fst c) = hh_node hp (fst c) \<and> hh_data hp' (fst (snd c)) = hh_data hp (fst (snd c))"
        if "c \<in> set (others X i)" for c
        using d(6,7) others_apart(1,2) [OF X(6) i that] by metis
      then have "heap_table hp' (pt\<lparr>pt_h := (pt_h pt)[i := p'], pt_num := n\<rparr>) (ht\<lparr>ht_h := (ht_h ht)[i := nodes_of (ys @ zs)], ht_num := n\<rparr>)" for n
        by (rule table_bucket [OF X(1,2,3,5) i d(2) _ o'])
      then show ?thesis using Inr Some k d(1) by (simp add: D(1))
    qed
  qed
qed

lemma delete_follows:
  assumes "heap_table hp pt ht"
  shows "follows (delete_at hp pt name) (delete_ht ht name) (\<lambda>(hp', pt') ht'. heap_table hp' pt' ht')"
proof -
  obtain X where X: "chains hp (pt_h pt) X" "ht_h ht = map nodes_of X" "pt_len pt = ht_len ht" "pt_num pt = ht_num ht"
      "length X = unat (ht_len ht)" "owns hp (concat X)"
    using assms by (rule heap_tableE)
  show ?thesis
  proof (cases "slot ht name")
    case (Inl e)
    then show ?thesis by (simp add: delete_at_def delete_ht_def slot_at_same [OF X(3)])
  next
    case (Inr i)
    then have i: "i < length X" using slot_less X(5) by metis
    note B = delete_bucket [OF X i, of name]
    show ?thesis
    proof (cases "deleteNode (ht_h ht ! i) name")
      case (Inl e)
      then show ?thesis using Inr B by (simp add: delete_at_def delete_ht_def slot_at_same [OF X(3)])
    next
      case c: (Inr c)
      obtain hp' p' where d: "deleteNode_at hp (pt_h pt ! i) name = Some (Inr (hp', p'))"
          "heap_table hp' (pt\<lparr>pt_h := (pt_h pt)[i := p'], pt_num := pt_num pt - 1\<rparr>) (ht\<lparr>ht_h := (ht_h ht)[i := c], ht_num := pt_num pt - 1\<rparr>)"
        using B c by auto
      then show ?thesis
        using Inr c rescale_follows [OF d(2), of "drop_bit 1 (pt_len pt)"] X(3,4)
        by (cases "rescale (ht\<lparr>ht_h := (ht_h ht)[i := c], ht_num := ht_num ht - 1\<rparr>) (drop_bit 1 (ht_len ht))")
          (auto simp: delete_at_def delete_ht_def slot_at_same [OF X(3)] Let_def)
    qed
  qed
qed

section \<open>The end of a table\<close>

lemma destroy_chain_ok:
  assumes "chain (hh_node hp) (hh_data hp) t xs None" and "distinct (map fst xs)" and "distinct (map (fst \<circ> snd) xs)"
  shows "destroy_chain hp t = Some (Inr (hp\<lparr>hh_node := hh_node hp |` (- fst ` set xs), hh_data := hh_data hp |` (- (fst \<circ> snd) ` set xs)\<rparr>))"
  using assms
proof (induction xs arbitrary: hp t)
  case Nil
  then show ?case by (simp add: destroy_chain.simps restrict_map_def)
next
  case (Cons c xs)
  obtain a b nd where c: "c = (a, b, nd)" by (cases c) auto
  obtain r where r: "t = Some a" "hh_node hp a = Some \<lparr>hn_name = nd_name nd, hn_data = b, hn_next = r\<rparr>" "hh_data hp b = Some (nd_data nd)"
      "chain (hh_node hp) (hh_data hp) r xs None" using Cons.prems c by auto
  let ?hp = "hp\<lparr>hh_data := (hh_data hp)(b := None), hh_node := (hh_node hp)(a := None)\<rparr>"
  have ch: "chain (hh_node ?hp) (hh_data ?hp) r xs None"
    using chain_free [OF r(4), of a b] Cons.prems(2,3) by (simp add: c)
  have dist: "distinct (map fst xs)" "distinct (map (fst \<circ> snd) xs)" using Cons.prems(2,3) by (simp_all add: comp_def)
  have step: "destroy_chain hp t = destroy_chain ?hp r"
    using r by (simp add: destroy_chain.simps [of hp] hnode_at_def free_data_def free_hnode_def)
  have less: "hh_node ?hp |` (- fst ` set xs) = hh_node hp |` (- fst ` set (c # xs))"
    "hh_data ?hp |` (- (fst \<circ> snd) ` set xs) = hh_data hp |` (- (fst \<circ> snd) ` set (c # xs))"
    by (auto simp: restrict_map_def c)
  show ?case unfolding step Cons.IH [OF ch dist] less by simp
qed


lemma destroy_chains_ok:
  assumes "chains hp ps X" and "distinct (map fst (concat X))" and "distinct (map (fst \<circ> snd) (concat X))"
  shows "foldR destroy_chain hp ps =
     Some (Inr (hp\<lparr>hh_node := hh_node hp |` (- fst ` set (concat X)), hh_data := hh_data hp |` (- (fst \<circ> snd) ` set (concat X))\<rparr>))"
  using assms
proof (induction X arbitrary: hp ps rule: list.induct)
  case Nil
  have "ps = []" using Nil.prems(1) by simp
  then show ?case by (simp add: restrict_map_def)
next
  case (Cons xs X)
  obtain t ps' where ps: "ps = t # ps'" "chain (hh_node hp) (hh_data hp) t xs None" "chains hp ps' X"
    using Cons.prems(1) by (cases ps) auto
  have dist: "distinct (map fst xs)" "distinct (map (fst \<circ> snd) xs)" "distinct (map fst (concat X))" "distinct (map (fst \<circ> snd) (concat X))"
    using Cons.prems(2,3) by (simp_all add: comp_def)
  let ?hp = "hp\<lparr>hh_node := hh_node hp |` (- fst ` set xs), hh_data := hh_data hp |` (- (fst \<circ> snd) ` set xs)\<rparr>"
  have "fst ` set xs \<inter> fst ` set (concat X) = {}" "(fst \<circ> snd) ` set xs \<inter> (fst \<circ> snd) ` set (concat X) = {}"
    using Cons.prems(2,3) unfolding concat.simps map_append distinct_append set_map by blast+
  then have "fst c \<notin> fst ` set xs" "fst (snd c) \<notin> (fst \<circ> snd) ` set xs" if "c \<in> set (concat X)" for c
    using that by (auto simp: disjoint_iff image_iff simp del: set_concat)
  then have ch: "chains ?hp ps' X" by (intro chains_frame [OF ps(3)]) (simp del: set_concat)
  have less: "hh_node ?hp |` (- fst ` set (concat X)) = hh_node hp |` (- fst ` set (concat (xs # X)))"
    "hh_data ?hp |` (- (fst \<circ> snd) ` set (concat X)) = hh_data hp |` (- (fst \<circ> snd) ` set (concat (xs # X)))"
    by (auto simp: image_Un Int_commute)
  show ?case
    unfolding ps(1) foldR.simps destroy_chain_ok [OF ps(2) dist(1,2)] bindR_simps Cons.IH [OF ch dist(3,4)] less by simp
qed

lemma destroy_frees_all:
  assumes "heap_table hp pt ht"
  shows "\<exists>hp'. DestroyHashTab_at hp pt = Some (Inr hp') \<and> hh_node hp' = Map.empty \<and> hh_data hp' = Map.empty"
proof -
  obtain X where X: "chains hp (pt_h pt) X" "ht_h ht = map nodes_of X" "pt_len pt = ht_len ht" "pt_num pt = ht_num ht"
      "length X = unat (ht_len ht)" "owns hp (concat X)"
    using assms by (rule heap_tableE)
  have "hh_node hp |` (- fst ` set (concat X)) = Map.empty" "hh_data hp |` (- (fst \<circ> snd) ` set (concat X)) = Map.empty"
    using X(6) by (auto simp: owns_def restrict_map_def fun_eq_iff domIff simp del: set_concat dest: equalityD1)
  then show ?thesis using destroy_chains_ok [OF X(1)] X(6) by (simp add: DestroyHashTab_at_def owns_def)
qed


section \<open>The life of a table\<close>

datatype 'v hash_op = Op_Insert cstring 'v | Op_Search cstring | Op_Delete cstring

text \<open>A sequence of calls on the heap; a caller of \<open>search\<close> reads the data through the pointer it gets.\<close>

fun heap_run :: "'v hash_op list \<Rightarrow> 'v hheap \<Rightarrow> htable \<Rightarrow> ('v hheap \<times> htable \<times> 'v option list) run" where
  "heap_run [] hp pt = Some (Inr (hp, pt, []))"
| "heap_run (Op_Insert k v # ops) hp pt =
     bindR (insert_at hp pt k v) (\<lambda>(hp, pt, t). heap_run ops hp pt)"
| "heap_run (Op_Search k # ops) hp pt =
     bindR (search_at hp pt k) (\<lambda>r.
     bindR (Some (case r of None \<Rightarrow> Inr None | Some b \<Rightarrow> (case hh_data hp b of None \<Rightarrow> Inl Bad_Pointer | Some v \<Rightarrow> Inr (Some v)))) (\<lambda>v.
     bindR (heap_run ops hp pt) (\<lambda>(hp, pt, vs). Some (Inr (hp, pt, v # vs)))))"
| "heap_run (Op_Delete k # ops) hp pt = bindR (delete_at hp pt k) (\<lambda>(hp, pt). heap_run ops hp pt)"

text \<open>The same calls on the table as lists.\<close>

fun list_run :: "'v hash_op list \<Rightarrow> 'v HashTab \<Rightarrow> ('v HashTab \<times> 'v option list) res" where
  "list_run [] ht = Inr (ht, [])"
| "list_run (Op_Insert k v # ops) ht = bindE (insert_ht ht k v) (list_run ops)"
| "list_run (Op_Search k # ops) ht =
     bindE (search ht k) (\<lambda>v. bindE (list_run ops ht) (\<lambda>(ht, vs). Inr (ht, v # vs)))"
| "list_run (Op_Delete k # ops) ht = bindE (delete_ht ht k) (list_run ops)"

definition no_blocks :: "'v hheap" where
  "no_blocks = \<lparr>hh_node = Map.empty, hh_data = Map.empty, hh_brk = 0\<rparr>"

lemma new_table: "heap_table no_blocks NewHashTab_at NewHashTab"
  unfolding heap_table_def
  by (rule exI [of _ "replicate (unat INIT_SIZE) []"])
    (simp add: NewHashTab_at_def NewHashTab_def list_all2_conv_all_nth owns_def no_blocks_def)

lemma follows_bindE:
  assumes "follows r l Q" and "\<And>x y. Q x y \<Longrightarrow> follows (f x) (g y) P"
  shows "follows (bindR r f) (bindE l g) P"
  using assms by (cases l) auto

lemma heap_run_follows:
  "heap_table hp pt ht \<Longrightarrow> follows (heap_run ops hp pt) (list_run ops ht) (\<lambda>(hp', pt', vs) (ht', vs'). heap_table hp' pt' ht' \<and> vs = vs')"
proof (induction ops arbitrary: hp pt ht)
  case (Cons op ops)
  show ?case
  proof (cases op)
    case (Op_Insert k v)
    show ?thesis
      unfolding Op_Insert heap_run.simps list_run.simps
      by (rule follows_bindE [OF insert_follows [OF Cons.prems]]) (use Cons.IH in auto)
  next
    case (Op_Search k)
    have IH: "follows (heap_run ops hp pt) (list_run ops ht) (\<lambda>(hp', pt', vs) (ht', vs'). heap_table hp' pt' ht' \<and> vs = vs')"
      by (rule Cons.IH [OF Cons.prems])
    show ?thesis
    proof (cases "search ht k")
      case (Inl e)
      then show ?thesis using search_at_ok [OF Cons.prems, of k] by (simp add: Op_Search)
    next
      case (Inr r)
      then obtain b where "search_at hp pt k = Some (Inr b)" "map_option (hh_data hp) b = map_option Some r"
        using search_at_ok [OF Cons.prems, of k] by auto
      then have "heap_run (op # ops) hp pt = bindR (heap_run ops hp pt) (\<lambda>(hp, pt, vs). Some (Inr (hp, pt, r # vs)))"
        by (cases b; cases r) (auto simp: Op_Search)
      moreover have "list_run (op # ops) ht = bindE (list_run ops ht) (\<lambda>(ht, vs). Inr (ht, r # vs))" by (simp add: Op_Search Inr)
      ultimately show ?thesis using IH by (cases "list_run ops ht") auto
    qed
  next
    case (Op_Delete k)
    show ?thesis
      unfolding Op_Delete heap_run.simps list_run.simps
      by (rule follows_bindE [OF delete_follows [OF Cons.prems]]) (use Cons.IH in auto)
  qed
qed simp

text \<open>
  C19. From its creation to its end the table on the heap behaves as the table of lists: any sequence
  of \<open>insert\<close>, \<open>search\<close> and \<open>delete\<close> returns, with the same answers or the same fault, never through a block
  that was freed, and \<open>DestroyHashTab\<close> then frees every node and every data block once and leaves none.
\<close>
theorem hash_life_cycle:
  "follows (heap_run ops no_blocks NewHashTab_at) (list_run ops NewHashTab)
     (\<lambda>(hp, pt, vs) (ht, vs'). vs = vs' \<and>
        (\<exists>hp'. DestroyHashTab_at hp pt = Some (Inr hp') \<and> hh_node hp' = Map.empty \<and> hh_data hp' = Map.empty))"
proof -
  have "follows (heap_run ops no_blocks NewHashTab_at) (list_run ops NewHashTab)
      (\<lambda>(hp', pt', vs) (ht', vs'). heap_table hp' pt' ht' \<and> vs = vs')"
    by (rule heap_run_follows [OF new_table])
  then show ?thesis
    using destroy_frees_all by (cases "list_run ops NewHashTab :: ('a HashTab \<times> 'a option list) res") fastforce+
qed

end
