(* ===== verification/Cache_Destroy.thy ===== *)
theory Cache_Destroy
  imports Cache
begin

text \<open>
  The end of a cache: \<open>DestroyCache\<close> of \<open>cache/cache.c\<close> frees the table, hands the data of every unit
  to its destructor, and frees the units, the nodes of the list and its sentinel.
\<close>

section \<open>Operations\<close>

text \<open>
  \<open>DestroyHashTab\<close> on the table, whose chains are lists here: the data blocks in the order in which
  they are freed. (On the heap of nodes and blocks it is \<open>DestroyHashTab_at\<close>.)
\<close>

definition table_blocks :: "'v HashTab \<Rightarrow> 'v list" where
  "table_blocks ht = concat (map (map nd_data) (ht_h ht))"

text \<open>
  The loop of \<open>DestroyLinkList\<close> with the destructor \<open>destroySavaUnit\<close>, which gives the data of the
  unit to the cache's own destructor or to \<open>free\<close>: the data in the order in which they are ended.
\<close>

partial_function (option) destroy_units ::
  "'v saveUnit heap \<Rightarrow> LinkList \<Rightarrow> ptr \<Rightarrow> 'v list \<Rightarrow> ('v saveUnit heap \<times> 'v list) run" where
  "destroy_units hp l t ds =
     (if t = ll_tail l then Some (Inr (hp, ds))
      else bindR (Some (get_next hp t)) (\<lambda>next.
           bindR (Some (get_data hp t)) (\<lambda>ui.
           bindR (Some (freeLinkNode hp t)) (\<lambda>hp.
           destroy_units hp l next (ds @ [su_data ui])))))"

definition DestroyCache :: "'v Cache \<Rightarrow> ('v saveUnit heap \<times> ptr list \<times> 'v list) run" where
  "DestroyCache c =
     (let blocks = table_blocks (c_hTab c); l = c_lList c
      in bindR (Some (get_next (c_heap c) (ll_head l))) (\<lambda>t.
         bindR (destroy_units (c_heap c) l t []) (\<lambda>(hp, ds).
         bindR (Some (freeLinkNode hp (ll_head l))) (\<lambda>hp. Some (Inr (hp, blocks, ds))))))"

section \<open>What it frees\<close>

lemma destroy_units_ok:
  assumes "ll_tail l = Some h" and "distinct (h # xs)" and "\<forall>a \<in> set xs. alloc hp a \<and> dat hp a \<noteq> None"
    and "xs = [] \<Longrightarrow> t = Some h" and "xs \<noteq> [] \<Longrightarrow> t = Some (hd xs) \<and> seg hp (hd xs) (tl xs) h"
  shows "\<exists>hp'. destroy_units hp l t ds = Some (Inr (hp', ds @ map (\<lambda>a. su_data (the (dat hp a))) xs)) \<and>
     (\<forall>b. hp_cells hp' b = (if b \<in> set xs then None else hp_cells hp b))"
  using assms(2-)
proof (induction xs arbitrary: hp t ds)
  case Nil
  then show ?case using assms(1) by (simp add: destroy_units.simps)
next
  case (Cons x xs)
  let ?hp = "free_cell hp x"
  have t: "t = Some x" "t \<noteq> ll_tail l" and s: "seg hp x xs h" and x: "alloc hp x" "x \<notin> set xs" "x \<noteq> h"
    using Cons.prems assms(1) by auto
  obtain u where u: "dat hp x = Some u" using Cons.prems(2) by auto
  have cells: "freeLinkNode hp t = Inr ?hp" "get_next hp t = Inr (nx hp x)" "get_data hp t = Inr u"
    using t(1) x(1) u by (simp_all add: freeLinkNode_def field_defs heap_simps)
  have "seg ?hp (hd xs) (tl xs) h" if "xs \<noteq> []"
  proof -
    from that obtain y ys where xs: "xs = y # ys" by (cases xs) auto
    have "seg ?hp y ys h = seg hp y ys h"
      by (rule seg_frame) (use x xs in \<open>auto simp: heap_simps\<close>)
    with s xs show ?thesis by simp
  qed
  moreover have "nx hp x = (if xs = [] then Some h else Some (hd xs))"
    using s by (cases xs) auto
  moreover have "\<forall>a \<in> set xs. alloc ?hp a \<and> dat ?hp a \<noteq> None"
    using Cons.prems(2) x(2) by (auto simp: heap_simps)
  moreover have "distinct (h # xs)" using Cons.prems(1) by simp
  ultimately have "\<exists>hp'. destroy_units ?hp l (nx hp x) (ds @ [su_data u]) =
        Some (Inr (hp', (ds @ [su_data u]) @ map (\<lambda>a. su_data (the (dat ?hp a))) xs)) \<and>
      (\<forall>b. hp_cells hp' b = (if b \<in> set xs then None else hp_cells ?hp b))"
    by (intro Cons.IH) simp_all
  moreover have "map (\<lambda>a. su_data (the (dat ?hp a))) xs = map (\<lambda>a. su_data (the (dat hp a))) xs"
    using x(2) by (auto simp: heap_simps)
  ultimately show ?case
    using t(2) cells u by (subst destroy_units.simps) (auto simp: heap_simps)
qed

text \<open>
  A cache ends without a fault: the data of its entries are ended once each, from the most recently
  used on, and no node of its list is left.
\<close>

lemma DestroyCache_ok:
  assumes "cache_rel c es"
  shows "\<exists>hp xs h. DestroyCache c = Some (Inr (hp, table_blocks (c_hTab c), map e_data es)) \<and>
     cache_inv c xs \<and> ll_head (c_lList c) = Some h \<and>
     (\<forall>b. hp_cells hp b = (if b \<in> set (h # xs) then None else hp_cells (c_heap c) b))"
proof -
  obtain xs where xs: "cache_inv c xs" "entries c xs = es" using assms by (auto simp: cache_rel_def)
  obtain h where h: "ll_head (c_lList c) = Some h" "ll_tail (c_lList c) = Some h" "distinct (h # xs)"
      "\<forall>a \<in> set (h # xs). alloc (c_heap c) a \<and> a < hp_brk (c_heap c)" "seg (c_heap c) h xs h"
    using dll_head [OF cache_invD(1) [OF xs(1)]] .
  have first: "get_next (c_heap c) (ll_head (c_lList c)) = Inr (nx (c_heap c) h)"
    using h(1,4) by (simp add: field_defs heap_simps)
  have data: "\<forall>a \<in> set xs. alloc (c_heap c) a \<and> dat (c_heap c) a \<noteq> None"
    using h(4) cache_invD(2) [OF xs(1)] by (simp add: units_ok_def)
  have "\<exists>hp'. destroy_units (c_heap c) (c_lList c) (nx (c_heap c) h) [] =
        Some (Inr (hp', [] @ map (\<lambda>a. su_data (the (dat (c_heap c) a))) xs)) \<and>
      (\<forall>b. hp_cells hp' b = (if b \<in> set xs then None else hp_cells (c_heap c) b))"
    using h(3,5) data by (intro destroy_units_ok [OF h(2)]) (auto simp: neq_Nil_conv)
  moreover have "map (\<lambda>a. su_data (the (dat (c_heap c) a))) xs = map e_data es"
    using xs(2) by (auto simp: entries_def view_def unit_at_def)
  ultimately obtain hp1 where hp1: "destroy_units (c_heap c) (c_lList c) (nx (c_heap c) h) [] = Some (Inr (hp1, map e_data es))"
      "\<forall>b. hp_cells hp1 b = (if b \<in> set xs then None else hp_cells (c_heap c) b)"
    by auto
  then have "alloc hp1 h" using h(3,4) by (simp add: alloc_def)
  then have "DestroyCache c = Some (Inr (free_cell hp1 h, table_blocks (c_hTab c), map e_data es))"
    using first hp1(1) h(1) by (simp add: DestroyCache_def Let_def freeLinkNode_def cell_at_def)
  moreover have "\<forall>b. hp_cells (free_cell hp1 h) b = (if b \<in> set (h # xs) then None else hp_cells (c_heap c) b)"
    using hp1(2) by (auto simp: heap_simps)
  ultimately show ?thesis using xs(1) h(1) by blast
qed

end
