(* ===== verification/Message_Pointers.thy ===== *)
theory Message_Pointers
  imports Message_Hostile
begin

text \<open>
  When \<open>decode\<close> returns: the names it reads in a packet, the compression pointers it meets in them,
  and that it ends when these point back. Bytes of the packet that are no pointer are not
  constrained, whatever their value.
\<close>

section \<open>The names that are read\<close>

text \<open>
  The labels from \<open>num\<close> on: the offset of the zero byte or of the pointer they end at, and where the
  pointer leads.
\<close>

function label_tail :: "carr \<Rightarrow> nat \<Rightarrow> (nat \<times> nat option) option" where
  "label_tail buf num =
     (case rd8 buf num of
        Inl _ \<Rightarrow> None
      | Inr n \<Rightarrow>
          if n = 0 then Some (num, None)
          else if 0xc0 \<le> n then
            (case rd8 buf (num + 1) of Inl _ \<Rightarrow> None | Inr l \<Rightarrow> Some (num, Some (unat (be16 (and n 0x3f) l))))
          else label_tail buf (num + unat n + 1))"
  by pat_completeness auto

termination label_tail
  by (relation "measure (\<lambda>(buf, num). length buf - num)") (auto dest!: rd8_in_bounds)

declare label_tail.simps [simp del]

definition name_end :: "carr \<Rightarrow> nat \<Rightarrow> nat option" where
  "name_end buf off = map_option (\<lambda>(i, t). if t = None then i + 1 else i + 2) (label_tail buf off)"

text \<open>The items of a packet: its questions (\<open>k = 0\<close>), then the records of the three sections.\<close>

definition items :: "message \<Rightarrow> nat \<Rightarrow> nat" where
  "items h k = (case k of 0 \<Rightarrow> unat (msg_q_count h) | Suc s \<Rightarrow> unat (msg_RR_count h ! s))"

definition behind_item :: "carr \<Rightarrow> nat \<Rightarrow> nat \<Rightarrow> nat option" where
  "behind_item buf k off =
     (case name_end buf off of
        None \<Rightarrow> None
      | Some p \<Rightarrow>
          if k = 0 then Some (p + 4)
          else (case rd16 buf (p + 8) of Inl _ \<Rightarrow> None | Inr len \<Rightarrow> Some (p + 10 + unat len)))"

primrec item_at :: "carr \<Rightarrow> nat \<Rightarrow> nat \<Rightarrow> nat \<Rightarrow> nat option" where
  "item_at buf k off 0 = Some off"
| "item_at buf k off (Suc i) = Option.bind (item_at buf k off i) (behind_item buf k)"

primrec section_at :: "carr \<Rightarrow> message \<Rightarrow> nat \<Rightarrow> nat option" where
  "section_at buf h 0 = Some 12"
| "section_at buf h (Suc k) = Option.bind (section_at buf h k) (\<lambda>off. item_at buf k off (items h k))"

text \<open>The names of an item: that of the record or question, and the one in the data of an alias or a name server.\<close>

definition names_of_item :: "carr \<Rightarrow> nat \<Rightarrow> nat \<Rightarrow> nat list" where
  "names_of_item buf k off =
     off # (case name_end buf off of
              None \<Rightarrow> []
            | Some p \<Rightarrow> if k \<noteq> 0 \<and> rd16 buf p \<in> {Inr TYPE_CNAME, Inr TYPE_NS} then [p + 10] else [])"

definition names_of_section :: "carr \<Rightarrow> message \<Rightarrow> nat \<Rightarrow> nat list" where
  "names_of_section buf h k =
     (case section_at buf h k of
        None \<Rightarrow> []
      | Some off \<Rightarrow> concat (map (names_of_item buf k) (List.map_filter (item_at buf k off) [0..<items h k])))"

definition names_of :: "carr \<Rightarrow> nat list" where
  "names_of buf = (case decode_header buf of Inl _ \<Rightarrow> [] | Inr h \<Rightarrow> concat (map (names_of_section buf h) [0..<4]))"

text \<open>The offsets at which the decoder reads labels: the names, and what their pointers lead to.\<close>

inductive reads_labels :: "carr \<Rightarrow> nat \<Rightarrow> bool" for buf where
  reads_name: "off \<in> set (names_of buf) \<Longrightarrow> reads_labels buf off"
| reads_pointer: "reads_labels buf off \<Longrightarrow> label_tail buf off = Some (i, Some t) \<Longrightarrow> reads_labels buf t"

section \<open>The name decoder\<close>

text \<open>Where the loop over the labels stops, and what it has written when it stops at a pointer.\<close>

definition in_label :: "carr \<Rightarrow> nat \<Rightarrow> nat \<Rightarrow> bool" where
  "in_label buf num p \<longleftrightarrow> num < p \<and> (\<forall>n. rd8 buf num = Inr n \<longrightarrow> p = num + 1 \<or> 0 < n \<and> n < 0xc0 \<and> p \<le> num + unat n + 1)"

lemma in_label_start [simp]: "in_label buf num (num + 1)" "in_label buf num (Suc num)"
  by (simp_all add: in_label_def)

lemma passed_iff:
  assumes "in_label buf num p" and "rd8 buf num = Inr n" and "n \<noteq> 0"
  shows "n < of_nat (p - num) \<longleftrightarrow> n < 0xc0 \<and> p = num + unat n + 1"
proof -
  have "unat n < 2 ^ LENGTH(8)" by (rule unsigned_less)
  then have n: "unat n < 256" "0 < unat n" using assms(3) by (simp_all add: unat_gt_0)
  obtain d where d: "p = num + d" "0 < d" "d = 1 \<or> n < 0xc0 \<and> d \<le> unat n + 1"
    using assms(1,2) by (auto simp: in_label_def dest: less_imp_add_positive)
  then have "d < 256" using n by (auto simp: word_less_nat_alt)
  then have u: "unat (of_nat d :: byte) = d" by (simp add: unat_of_nat)
  show ?thesis
    using d n by (auto simp: word_less_nat_alt u)
qed

lemma decode_labels_stops:
  "decode_labels buf num p nm w = Inr r \<Longrightarrow> in_label buf num p \<Longrightarrow>
     (\<forall>q a. r = Name_End q a \<longrightarrow> (\<exists>i. label_tail buf num = Some (i, None) \<and> q = i + 1)) \<and>
     (\<forall>t nx a w'. r = Name_Jump t nx a w' \<longrightarrow>
        (\<exists>i. label_tail buf num = Some (i, Some t) \<and> nx = i + 2 \<and> w \<le> w' \<and> length a = length nm \<and>
           (w' = w \<longrightarrow> i = num) \<and> (w' = w \<or> w' \<le> length nm)))"
proof (induction buf num p nm w rule: decode_labels.induct)
  case (1 buf num p nm w)
  from "1.prems"(1) obtain n where n: "rd8 buf num = Inr n"
    by (subst (asm) decode_labels.simps) (auto simp: bindE_Inr_iff)
  consider (root) "n = 0" | (pointer) "0xc0 \<le> n" "n \<noteq> 0" "\<not> n < of_nat (p - num)"
    | (next_label) "n \<noteq> 0" "n < of_nat (p - num)" | (char) "n \<noteq> 0" "\<not> n < of_nat (p - num)" "\<not> 0xc0 \<le> n"
    by blast
  then show ?case
  proof cases
    case root
    then have "p = num + 1" using "1.prems"(2) n by (auto simp: in_label_def)
    then show ?thesis
      using "1.prems"(1) n root by (subst (asm) decode_labels.simps, subst label_tail.simps) (auto simp: bindE_Inr_iff)
  next
    case pointer
    then show ?thesis
      using "1.prems"(1) n by (subst (asm) decode_labels.simps, subst label_tail.simps) (auto simp: bindE_Inr_iff)
  next
    case next_label
    then have p: "n < 0xc0" "p = num + unat n + 1" using passed_iff [OF "1.prems"(2) n] by simp_all
    then have tl: "label_tail buf num = label_tail buf p"
      using n next_label(1) leD [of "0xc0" n] by (subst label_tail.simps) auto
    from "1.prems"(1) n next_label obtain nm1 where nm1: "wr8 nm w (of_char (CHR ''.'')) = Inr nm1"
        "decode_labels buf p (p + 1) nm1 (w + 1) = Inr r"
      by (subst (asm) decode_labels.simps) (auto simp: bindE_Inr_iff)
    have "length nm1 = length nm" "w < length nm"
      using wr8_cases(3) [OF nm1(1)] same_below_length [OF wr8_cases(2) [OF nm1(1)]] by auto
    then show ?thesis
      using "1.IH"(1) [OF n next_label nm1] tl by auto
  next
    case char
    from "1.prems"(1) n char obtain c nm1 where c: "rd8 buf p = Inr c" "wr8 nm w c = Inr nm1"
        "decode_labels buf num (p + 1) nm1 (w + 1) = Inr r"
      by (subst (asm) decode_labels.simps) (auto simp: bindE_Inr_iff)
    have "p \<noteq> num + unat n + 1" using passed_iff [OF "1.prems"(2) n char(1)] char(2,3) by (auto simp: not_le)
    moreover have "0 < unat n" using char(1) by (simp add: unat_gt_0)
    ultimately have "in_label buf num (p + 1)"
      using "1.prems"(2) n char by (auto simp: in_label_def not_le word_gt_0)
    moreover have "length nm1 = length nm" "w < length nm"
      using wr8_cases(3) [OF c(2)] same_below_length [OF wr8_cases(2) [OF c(2)]] by auto
    ultimately show ?thesis
      using "1.IH"(2) [OF n char c] by auto
  qed
qed

lemmas labels_end_tail = decode_labels_stops [OF _ in_label_start(1), THEN conjunct1, rule_format, OF _ refl]
  and labels_jump_tail = decode_labels_stops [OF _ in_label_start(1), THEN conjunct2, rule_format, OF _ refl]

text \<open>
  When the pointers that are met point back, every jump either goes on with a longer name or goes
  back in the packet, so the recursion ends.
\<close>

lemma decodeName_returns:
  assumes bw: "\<And>off i t. R off \<Longrightarrow> label_tail buf off = Some (i, Some t) \<Longrightarrow> R t \<and> t < i" and R: "R off"
  shows "decodeName buf off nm w \<noteq> None"
  using R
proof (induction "(length nm - w, off)" arbitrary: off nm w rule: wf_induct [OF wf_lex_prod [OF wf_less wf_less]])
  case (1 off nm w)
  show ?case
  proof (cases "rd8 buf off")
    case (Inr n)
    show ?thesis
    proof (cases "n = 0")
      case False
      show ?thesis
      proof (cases "decode_labels buf off (off + 1) nm w")
        case r: (Inr r)
        show ?thesis
        proof (cases r)
          case (Name_Jump t nx nm' w')
          obtain i where j: "label_tail buf off = Some (i, Some t)" "w \<le> w'" "length nm' = length nm"
              "w' = w \<longrightarrow> i = off" "w' = w \<or> w' \<le> length nm"
            using labels_jump_tail [OF r [unfolded Name_Jump]] by blast
          note t = bw [OF 1(2) j(1)]
          have "(length nm' - w' < length nm - w) \<or> (length nm' - w' = length nm - w \<and> t < off)"
            using j t by (cases "w' = w") auto
          then have "decodeName buf t nm' w' \<noteq> None"
            using 1(1) t by (auto simp: in_lex_prod)
          then show ?thesis
            using r Name_Jump decodeName_loop [OF Inr False, of nm w]
            by (auto simp: after_labels_def bindR_def split: sum.splits)
        qed (use r decodeName_loop [OF Inr False, of nm w] in \<open>auto simp: after_labels_def\<close>)
      qed (use decodeName_loop [OF Inr False, of nm w] in auto)
    qed (use Inr in \<open>subst decodeName.simps, cases "wr8 nm w 0", auto\<close>)
  qed (subst decodeName.simps, simp)
qed

lemma decodeName_end:
  "decodeName buf off nm w = Some (Inr (p, a)) \<Longrightarrow> name_end buf off = Some p"
proof -
  have "\<forall>x. r = Inr x \<longrightarrow> name_end buf off = Some (fst x)" if "decodeName buf off nm w = Some r" for r
    using that
  proof (induction rule: decodeName_induct)
    case (root off nm w)
    then show ?case by (subst name_end_def, subst label_tail.simps) (auto simp: bindE_Inr_iff)
  next
    case (labels_end off nm w n q a)
    then show ?case using labels_end_tail [OF labels_end(3)] by (auto simp: name_end_def)
  next
    case (labels_jump off nm w n t nx a w' r)
    then show ?case using labels_jump_tail [OF labels_jump(3)] by (auto simp: name_end_def bindE_Inr_iff)
  qed auto
  then show "decodeName buf off nm w = Some (Inr (p, a)) \<Longrightarrow> name_end buf off = Some p" by fastforce
qed

section \<open>The packet decoder\<close>

lemma foldR_upt_returns:
  assumes "P 0 s" and "\<And>i s. i < n \<Longrightarrow> P i s \<Longrightarrow> f s i \<noteq> None"
    and "\<And>i s s'. i < n \<Longrightarrow> P i s \<Longrightarrow> f s i = Some (Inr s') \<Longrightarrow> P (Suc i) s'"
  shows "foldR f s [0..<n] \<noteq> None"
  using assms
proof (induction n)
  case (Suc n)
  show ?case
  proof (cases "foldR f s [0..<n]")
    case (Some r)
    show ?thesis
    proof (cases r)
      case (Inr t)
      then have t: "foldR f s [0..<n] = Some (Inr t)" using Some by simp
      have "P n t" by (rule foldR_upt_Inr [where P = P, OF t Suc.prems(1)]) (use Suc.prems(3) in simp)
      then have "f t n \<noteq> None" using Suc.prems(2) by simp
      then show ?thesis using t by (simp add: foldR_append bindR_not_None del: not_None_eq)
    qed (use Some in \<open>simp add: foldR_append\<close>)
  qed (use Suc in auto)
qed simp

text \<open>The decoder is at the item \<open>i\<close> of the part \<open>k\<close> of the packet.\<close>

definition at_item :: "carr \<Rightarrow> message \<Rightarrow> nat \<Rightarrow> nat \<Rightarrow> nat \<Rightarrow> bool" where
  "at_item buf h k i p \<longleftrightarrow> (\<exists>off. section_at buf h k = Some off \<and> item_at buf k off i = Some p)"

lemma at_item_next:
  "at_item buf h k i p \<Longrightarrow> behind_item buf k p = Some p' \<Longrightarrow> at_item buf h k (Suc i) p'"
  by (auto simp: at_item_def)

lemma at_item_section: "at_item buf h k (items h k) p \<Longrightarrow> at_item buf h (Suc k) 0 p"
  by (auto simp: at_item_def)

lemma at_item_names:
  assumes "decode_header buf = Inr h" and "at_item buf h k i p" and "i < items h k" and "k < 4"
    and "off \<in> set (names_of_item buf k p)"
  shows "reads_labels buf off"
proof -
  obtain s where s: "section_at buf h k = Some s" "item_at buf k s i = Some p"
    using assms(2) by (auto simp: at_item_def)
  have "p \<in> set (List.map_filter (item_at buf k s) [0..<items h k])"
    using s(2) assms(3) by (force simp: map_filter_def)
  then have "off \<in> set (names_of_section buf h k)"
    using s(1) assms(5) by (auto simp: names_of_section_def)
  then show ?thesis
    using assms(1,4) by (intro reads_name) (force simp: names_of_def)
qed

lemma decode_rr_end:
  assumes "decode_rr buf p = Some (Inr (r, p'))"
  shows "behind_item buf (Suc s) p = Some p'"
  using assms decodeName_end
  by (fastforce simp: decode_rr_def bindR_Inr_iff Let_def behind_item_def split: if_splits)

text \<open>The items are decoded one after the other when their names are.\<close>

lemma decode_rr_returns:
  assumes names: "\<And>off nm. off \<in> set (names_of_item buf (Suc s) p) \<Longrightarrow> decodeName buf off nm 0 \<noteq> None"
  shows "decode_rr buf p \<noteq> None"
proof (cases "decodeName buf p (uninit MAX_LEN) 0")
  case None
  then show ?thesis using names [of p] by (simp add: names_of_item_def)
next
  case (Some r)
  show ?thesis
  proof (cases r)
    case (Inr x)
    obtain q a where x: "x = (q, a)" by fastforce
    have e: "name_end buf p = Some q" using Some Inr x decodeName_end by simp
    show ?thesis
    proof (cases "rd16 buf q")
      case (Inr ty)
      have "decodeName buf (q + 10) nm 0 \<noteq> None" if "ty = TYPE_CNAME \<or> ty = TYPE_NS" for nm
        using names [of "q + 10"] that e Inr by (auto simp: names_of_item_def)
      then show ?thesis
        unfolding decode_rr_def Some \<open>r = Inr x\<close> x Inr bindR_simps prod.case Let_def
        by (simp add: bindR_not_None split_def del: not_None_eq)
    qed (use Some Inr x in \<open>simp add: decode_rr_def\<close>)
  qed (use Some in \<open>simp add: decode_rr_def\<close>)
qed

lemma decode_questions_return:
  assumes h: "decode_header buf = Inr h"
    and names: "\<And>off nm. reads_labels buf off \<Longrightarrow> decodeName buf off nm 0 \<noteq> None"
  shows "foldR (decode_ques_step buf) (h, 12) [0..<items h 0] \<noteq> None"
    and "foldR (decode_ques_step buf) (h, 12) [0..<items h 0] = Some (Inr (m, p)) \<Longrightarrow> at_item buf h 1 0 p"
proof -
  let ?P = "\<lambda>i (m :: message, p). at_item buf h 0 i p"
  have start: "?P 0 (h, 12)" by (simp add: at_item_def)
  have step: "?P (Suc i) st'" if P: "?P i st" and r: "decode_ques_step buf st i = Some (Inr st')" for i st st'
  proof -
    obtain m p where st: "st = (m, p)" by fastforce
    obtain q nm where q: "decodeName buf p (uninit MAX_LEN) 0 = Some (Inr (q, nm))" "snd st' = q + 4"
      using r st by (auto simp: decode_ques_step_def bindR_Inr_iff split: if_splits)
    then have "behind_item buf 0 p = Some (snd st')" using decodeName_end by (simp add: behind_item_def)
    then show ?thesis using P st at_item_next by (cases st') auto
  qed
  show "foldR (decode_ques_step buf) (h, 12) [0..<items h 0] \<noteq> None"
  proof (rule foldR_upt_returns [where P = ?P, OF start])
    fix i st assume i: "i < items h 0" and P: "?P i st"
    obtain m p where st: "st = (m, p)" by fastforce
    have "reads_labels buf p" using at_item_names [OF h _ i] P st by (simp add: names_of_item_def)
    from names [OF this] show "decode_ques_step buf st i \<noteq> None"
      by (simp add: st decode_ques_step_def bindR_not_None split_def del: not_None_eq)
  qed (use step in blast)
  assume "foldR (decode_ques_step buf) (h, 12) [0..<items h 0] = Some (Inr (m, p))"
  from foldR_upt_Inr [where P = ?P, OF this start] step have "?P (items h 0) (m, p)" by blast
  then show "at_item buf h 1 0 p" using at_item_section [of buf h 0 p] by simp
qed

lemma decode_section_returns:
  assumes h: "decode_header buf = Inr h" "msg_RR_count m0 = msg_RR_count h" and s: "s < 3"
    and names: "\<And>off nm. reads_labels buf off \<Longrightarrow> decodeName buf off nm 0 \<noteq> None"
    and start: "at_item buf h (Suc s) 0 p0"
  shows "decode_section buf (m0, p0) s \<noteq> None"
    and "decode_section buf (m0, p0) s = Some (Inr (m, p)) \<Longrightarrow> msg_RR_count m = msg_RR_count h \<and> at_item buf h (Suc (Suc s)) 0 p"
proof -
  let ?P = "\<lambda>i (m :: message, p). msg_RR_count m = msg_RR_count h \<and> at_item buf h (Suc s) i p"
  have n: "unat (msg_RR_count m0 ! s) = items h (Suc s)" using h(2) by (simp add: items_def)
  have P0: "?P 0 (m0, p0)" using start h(2) by simp
  have step: "?P (Suc i) st'" if "?P i st" "decode_rr_step buf s st i = Some (Inr st')" for i st st'
    using that decode_rr_end at_item_next
    by (fastforce simp: decode_rr_step_def bindR_Inr_iff split: if_splits)
  show "decode_section buf (m0, p0) s \<noteq> None"
    unfolding decode_section_def fst_conv n
  proof (rule foldR_upt_returns [where P = ?P, OF P0])
    fix i st assume i: "i < items h (Suc s)" and P: "?P i st"
    obtain m p where st: "st = (m, p)" by fastforce
    have "reads_labels buf off" if "off \<in> set (names_of_item buf (Suc s) p)" for off
      using at_item_names [OF h(1) _ i _ that] P st s by simp
    then have "decode_rr buf p \<noteq> None" using decode_rr_returns names by blast
    then show "decode_rr_step buf s st i \<noteq> None"
      by (simp add: st decode_rr_step_def bindR_not_None split_def del: not_None_eq)
  qed (use step in blast)
  assume "decode_section buf (m0, p0) s = Some (Inr (m, p))"
  then have "foldR (decode_rr_step buf s) (m0, p0) [0..<items h (Suc s)] = Some (Inr (m, p))"
    using n by (simp add: decode_section_def)
  from foldR_upt_Inr [where P = ?P, OF this P0] step have "?P (items h (Suc s)) (m, p)" by blast
  then show "msg_RR_count m = msg_RR_count h \<and> at_item buf h (Suc (Suc s)) 0 p"
    using at_item_section by auto
qed

lemma decode_returns:
  assumes names: "\<And>off nm. reads_labels buf off \<Longrightarrow> decodeName buf off nm 0 \<noteq> None"
  shows "decode buf \<noteq> None"
proof (cases "decode_header buf")
  case h: (Inr h)
  note q = decode_questions_return [OF h names]
  have sections: "foldR (decode_section buf) st [0..<3] \<noteq> None"
    if st: "foldR (decode_ques_step buf) (h, 12) [0..<items h 0] = Some (Inr st)" for st
  proof -
    let ?P = "\<lambda>s (m :: message, p). msg_RR_count m = msg_RR_count h \<and> at_item buf h (Suc s) 0 p"
    obtain m p where mp: "st = (m, p)" by fastforce
    have "length (msg_ques h) = MAX_SIZE" using decode_header_Inr [OF h] by (simp add: msg_shape_def)
    then have "msg_RR_count m = msg_RR_count h"
      using decode_ques_Inr [OF st [unfolded mp]] ques_only_fields(2) by blast
    then have P0: "?P 0 st" using q(2) [OF _ st [unfolded mp]] mp by simp
    show ?thesis
    proof (rule foldR_upt_returns [where P = ?P, OF P0])
      fix s st st' assume s: "s < 3" and "?P s st"
      then obtain m p where mp: "st = (m, p)" "msg_RR_count m = msg_RR_count h" "at_item buf h (Suc s) 0 p" by auto
      note d = decode_section_returns [OF h mp(2) s names mp(3)]
      show "decode_section buf st s \<noteq> None" using d(1) mp(1) by simp
      assume "decode_section buf st s = Some (Inr st')"
      then show "?P (Suc s) st'" using d(2) [of "fst st'" "snd st'"] mp(1) by (simp add: split_def)
    qed
  qed
  have n: "unat (msg_q_count h) = items h 0" by (simp add: items_def)
  obtain r where r: "foldR (decode_ques_step buf) (h, 12) [0..<items h 0] = Some r" using q(1) by blast
  show ?thesis
  proof (cases r)
    case (Inr st)
    show ?thesis
      unfolding decode_def h n r Inr bindR_simps
      by (rule bindR_not_None) (use sections r Inr in auto)
  qed (simp add: decode_def h n r)
qed (simp add: decode_def)

section \<open>Property\<close>

text \<open>
  C34. Decoding terminates on every packet whose compression pointers point back: the pointer at
  which a name that \<open>decode\<close> reads ends (the name of a question or a record, the one in the data of an
  alias or a name server, or what another pointer has led to) leads to a lower offset. Other bytes
  may have any value. The recursion through pointers and all loops end, with a message or with a
  fault.
\<close>
theorem decode_terminates_on_backward_pointers:
  assumes "\<And>off i t. reads_labels buf off \<Longrightarrow> label_tail buf off = Some (i, Some t) \<Longrightarrow> t < i"
  shows "decode buf \<noteq> None"
proof (rule decode_returns)
  show "decodeName buf off nm 0 \<noteq> None" if "reads_labels buf off" for off nm
    by (rule decodeName_returns [where R = "reads_labels buf", OF _ that]) (use assms reads_pointer in blast)
qed

text \<open>An answer with the identifier \<open>0xc0c0\<close> and the address 192.168.0.1.\<close>

definition private_answer :: "byte list" where
  "private_answer = [0xc0, 0xc0, 0x81, 0x80, 0, 1, 0, 1, 0, 0, 0, 0,
     1, 0x61, 2, 0x63, 0x6e, 0, 0, 1, 0, 1,
     0xc0, 12, 0, 1, 0, 1, 0, 0, 0, 60, 0, 4, 192, 168, 0, 1]"

lemma private_answer_names: "names_of (map Some private_answer) = [12, 22]"
  by code_simp

theorem decode_terminates_on_backward_pointers_witness:
  "decode (map Some private_answer) \<noteq> None"
proof (rule decode_terminates_on_backward_pointers)
  fix off i t
  have tails: "label_tail (map Some private_answer) 12 = Some (17, None)"
      "label_tail (map Some private_answer) 22 = Some (22, Some 12)"
    by code_simp+
  assume "reads_labels (map Some private_answer) off"
  then have "off \<in> {12, 22}"
    by induction (auto simp: private_answer_names tails)
  moreover assume "label_tail (map Some private_answer) off = Some (i, Some t)"
  ultimately show "t < i" using tails by auto
qed

end
