(* ===== verification/Message_Compression.thy ===== *)
theory Message_Compression
  imports Message_Codec
begin

text \<open>
  What name compression makes of a name that occurs more than once in a packet, whatever the encoder
  writes between and behind the occurrences: the name takes two bytes the second time, and both
  occurrences stay readable.
\<close>

section \<open>What the encoder writes\<close>

text \<open>
  The encoder goes on from offset \<open>p0\<close>: with a question, a record, a name, or bytes that are no name.
\<close>

inductive encodes_on :: "carr \<Rightarrow> nat \<Rightarrow> names \<Rightarrow> carr \<Rightarrow> nat \<Rightarrow> names \<Rightarrow> bool" for b0 p0 h0 where
  encodes_start: "encodes_on b0 p0 h0 b0 p0 h0"
| encodes_bytes: "encodes_on b0 p0 h0 b p h \<Longrightarrow> same_below p b b' \<Longrightarrow> encodes_on b0 p0 h0 b' (p + n) h"
| encodes_name: "encodes_on b0 p0 h0 b p h \<Longrightarrow> encodeName arr b p h = Inr (b', n, h') \<Longrightarrow> cstr arr = Inr s \<Longrightarrow>
    good_name s \<Longrightarrow> p + length s + 2 \<le> length b \<Longrightarrow> encodes_on b0 p0 h0 b' (p + n) h'"
| encodes_ques: "encodes_on b0 p0 h0 b p h \<Longrightarrow> encodeQues q b p h = Inr (b', n, h') \<Longrightarrow> ques_view q = Inr x \<Longrightarrow>
    good_name (qv_name x) \<Longrightarrow> p + ques_size x \<le> length b \<Longrightarrow> encodes_on b0 p0 h0 b' (p + n) h'"
| encodes_rr: "encodes_on b0 p0 h0 b p h \<Longrightarrow> encodeRR r b p h = Inr (r', b', n, h') \<Longrightarrow> rr_view r = Inr y \<Longrightarrow>
    rr_ok y \<Longrightarrow> p + rr_size y \<le> length b \<Longrightarrow> encodes_on b0 p0 h0 b' (p + n) h'"

text \<open>A name that was encoded is in the table.\<close>

lemma insert_ht_map:
  assumes "insert_ht ht s v = Inr ht'" and "ht_inv ht" and "good_key s" and "card (dom (ht_map ht)) < 2 ^ 29"
  shows "ht_inv ht'" and "ht_map ht' = (ht_map ht)(s \<mapsto> v)"
  using ht.put_ok [OF assms(2,4,3), of v] assms(1) by auto

lemma encodeName_loop_dom:
  "encodeName_loop name buf num p cnt (l @ name) ht = Inr (b, q, ht') \<Longrightarrow> ht_inv ht \<Longrightarrow>
     good_key (l @ name) \<Longrightarrow> card (dom (ht_map ht)) + length name < 2 ^ 29 \<Longrightarrow>
     l @ name \<in> dom (ht_map ht') \<and> dom (ht_map ht) \<subseteq> dom (ht_map ht')"
proof (induction name arbitrary: buf num p cnt l ht)
  case Nil
  then obtain h where h: "insert_ht ht l (of_nat num) = Inr h" "ht' = h"
    by (auto simp: bindE_Inr_iff)
  show ?case using insert_ht_map(2) [OF h(1) Nil(2)] h(2) Nil(3,4) by auto
next
  case (Cons c name)
  show ?case
  proof (cases "c = of_char (CHR ''.'')")
    case False
    with Cons.prems(1) obtain b1 where
        "encodeName_loop name b1 num (p + 1) (cnt + 1) ((l @ [c]) @ name) ht = Inr (b, q, ht')"
      by (auto simp: bindE_Inr_iff)
    from Cons.IH [OF this] Cons.prems show ?thesis by simp
  next
    case True
    with Cons.prems(1) obtain h1 b1 pos where h1: "insert_ht ht (l @ c # name) (of_nat num) = Inr h1"
        "getPos name h1 = Inr pos"
        "if pos \<noteq> 0 then h1 = ht'
         else encodeName_loop name b1 p (p + 1) 0 ([] @ name) h1 = Inr (b, q, ht')"
      by (auto simp: bindE_Inr_iff split: if_splits)
    have room: "card (dom (ht_map ht)) < 2 ^ 29" using Cons.prems(4) by simp
    note m = insert_ht_map [OF h1(1) Cons.prems(2,3) room]
    have "card (dom (ht_map h1)) + length name < 2 ^ 29"
      using Cons.prems(4) ht.finite_alpha [OF Cons.prems(2)] m(2) by (simp add: card_insert_if)
    moreover have "good_key name" using Cons.prems(3) by (simp add: good_key_def)
    ultimately have "pos = 0 \<Longrightarrow> dom (ht_map h1) \<subseteq> dom (ht_map ht')"
      using Cons.IH [of b1 p "p + 1" 0 "[]" h1] h1(3) m(1) by simp
    then have "dom (ht_map h1) \<subseteq> dom (ht_map ht')" using h1(3) by (cases "pos = 0") auto
    then show ?thesis using m(2) by auto
  qed
qed


lemma encodeName_dom:
  assumes enc: "encodeName arr buf p ht = Inr (b, n, ht')" and st: "enc_state buf p ht" and arr: "cstr arr = Inr s"
    and good: "good_name s" and room: "p + length s + 2 \<le> length buf" "length buf \<le> 2 ^ 14"
  shows "s \<in> dom (ht_map ht')" and "dom (ht_map ht) \<subseteq> dom (ht_map ht')"
proof -
  have inv: "ht_inv ht" "card (dom (ht_map ht)) \<le> p" and k: "good_key s" "is_cstring s"
    and known: "ht_map ht s = Some pos \<Longrightarrow> known_name buf p s pos" for pos
    using st good by (auto simp: enc_state_def good_name_def good_key_def)
  have "s \<in> dom (ht_map ht') \<and> dom (ht_map ht) \<subseteq> dom (ht_map ht')"
  proof (cases "ht_map ht s")
    case (Some pos)
    then have "or 0xc000 pos \<noteq> 0" using known pointer_word(1) by (simp add: known_name_def)
    then have "ht' = ht"
      using enc Some by (simp add: encodeName_def arr getPos_ok [OF inv(1) k(2)] bindE_Inr_iff)
    then show ?thesis using Some by auto
  next
    case None
    then obtain q where q: "encodeName_loop s buf p (p + 1) 0 ([] @ s) ht = Inr (b, q, ht')"
      using enc by (auto simp: encodeName_def arr getPos_ok [OF inv(1) k(2)] bindE_Inr_iff)
    show ?thesis
      using encodeName_loop_dom [OF q inv(1)] k(1) inv(2) room by simp
  qed
  then show "s \<in> dom (ht_map ht')" "dom (ht_map ht) \<subseteq> dom (ht_map ht')" by simp_all
qed

lemma encodeQues_dom:
  assumes enc: "encodeQues q buf p ht = Inr (b, n, ht')" and st: "enc_state buf p ht" and q: "ques_view q = Inr x"
    and good: "good_name (qv_name x)" and room: "p + ques_size x \<le> length buf" "length buf \<le> 2 ^ 14"
  shows "dom (ht_map ht) \<subseteq> dom (ht_map ht')"
proof -
  have "cstr (q_name q) = Inr (qv_name x)" using q by (auto simp: ques_view_def bindE_Inr_iff)
  moreover obtain b1 m where "encodeName (q_name q) buf p ht = Inr (b1, m, ht')"
    using enc by (auto simp: encodeQues_def bindE_Inr_iff)
  ultimately show ?thesis using encodeName_dom(2) [OF _ st _ good _ room(2)] room(1) by (auto simp: ques_size_def)
qed

lemma encodeRR_dom:
  assumes enc: "encodeRR r buf p ht = Inr (r', b, n, ht')" and st: "enc_state buf p ht" and v: "rr_view r = Inr x"
    and ok: "rr_ok x" and room: "p + rr_size x \<le> length buf" "length buf \<le> 2 ^ 14"
  shows "dom (ht_map ht) \<subseteq> dom (ht_map ht')"
proof -
  have gn: "good_name (rv_name x)" using ok by (simp add: rr_ok_def)
  have rn: "p + length (rv_name x) + 10 \<le> length buf" using room(1) by (simp add: rr_size_def)
  obtain b0 m h b1 b2 b3 where h: "encodeName (rr_name r) buf p ht = Inr (b0, m, h)"
      "wr16 b0 (p + m) (rr_type r) = Inr b1" "wr16 b1 (p + m + 2) (rr_class r) = Inr b2"
      "wr32 b2 (p + m + 4) (rr_TTL r) = Inr b3" "m \<le> length (rv_name x) + 2" "enc_state b3 (p + m + 8) h"
      "same_below p buf b3"
    by (rule encodeRR_head [OF st v gn rn room(2)])
  have name: "cstr (rr_name r) = Inr (rv_name x)" and d: "data_view r = Inr (rv_data x)"
    using v by (auto simp: rr_view_def bindE_Inr_iff)
  have "dom (ht_map ht) \<subseteq> dom (ht_map h)"
    by (rule encodeName_dom(2) [OF h(1) st name gn _ room(2)]) (use rn in simp)
  also have "\<dots> \<subseteq> dom (ht_map ht')"
    using d
  proof (cases rule: data_view_cases)
    case (1 s)
    then obtain b4 k where e: "encodeName (rr_string_data r) b3 (p + m + 10) h = Inr (b4, k, ht')"
      using enc h(1-4) by (auto simp: encodeRR_def Let_def bindE_Inr_iff ac_simps)
    have l: "length b3 = length buf" using same_below_length [OF h(7)] .
    have "enc_state b3 (p + m + 10) h" using enc_state_same [OF h(6) same_below_refl] by simp
    then show ?thesis
      by (rule encodeName_dom(2) [OF e _ 1(3)]) (use ok 1(2) room h(5) l in \<open>auto simp: rr_ok_def rr_size_def\<close>)
  next
    case (2 a bs)
    then have "ht' = h" using enc h(1-4) by (auto simp: encodeRR_def Let_def bindE_Inr_iff)
    then show ?thesis by simp
  qed
  finally show ?thesis .
qed

text \<open>What was written stays, and the table keeps its names.\<close>

lemma encodes_on_ok:
  assumes "encodes_on b0 p0 h0 b p h" and st: "enc_state b0 p0 h0" and len: "length b0 \<le> 2 ^ 14"
  shows "enc_state b p h \<and> same_below p0 b0 b \<and> p0 \<le> p \<and> dom (ht_map h0) \<subseteq> dom (ht_map h)"
  using assms(1)
proof induction
  case (encodes_bytes b p h b' n)
  then show ?case using enc_state_same [of b p h b' "p + n"] same_below_trans [of p0 b0 b p b' p0] by auto
next
  case (encodes_name b p h arr b' n h' s)
  have l: "length b \<le> 2 ^ 14" using encodes_name(6) same_below_length len by metis
  note e = encodes_name(6) [THEN conjunct1]
  obtain b1 n1 h1 where 1: "encodeName arr b p h = Inr (b1, n1, h1)" "enc_state b1 (p + n1) h1" "same_below p b b1"
    by (rule encodeName_ok [OF e encodes_name(3-5) l])
  have "dom (ht_map h0) \<subseteq> dom (ht_map h')"
    using encodes_name(6) encodeName_dom(2) [OF encodes_name(2) e encodes_name(3-5) l] by blast
  then show ?case using 1 encodes_name(2,6) same_below_trans [of p0 b0 b p b' p0] by simp
next
  case (encodes_ques b p h q b' n h' x)
  have l: "length b \<le> 2 ^ 14" using encodes_ques(6) same_below_length len by metis
  note e = encodes_ques(6) [THEN conjunct1]
  obtain b1 n1 h1 where 1: "encodeQues q b p h = Inr (b1, n1, h1)" "enc_state b1 (p + n1) h1" "same_below p b b1"
    by (rule encodeQues_ok [OF e encodes_ques(3-5) l])
  have "dom (ht_map h0) \<subseteq> dom (ht_map h')"
    using encodes_ques(6) encodeQues_dom [OF encodes_ques(2) e encodes_ques(3-5) l] by blast
  then show ?case using 1 encodes_ques(2,6) same_below_trans [of p0 b0 b p b' p0] by simp
next
  case (encodes_rr b p h r r' b' n h' y)
  have l: "length b \<le> 2 ^ 14" using encodes_rr(6) same_below_length len by metis
  note e = encodes_rr(6) [THEN conjunct1]
  obtain r1 b1 n1 h1 where 1: "encodeRR r b p h = Inr (r1, b1, n1, h1)" "enc_state b1 (p + n1) h1" "same_below p b b1"
    by (rule encodeRR_ok [OF e encodes_rr(3-5) l])
  have "dom (ht_map h0) \<subseteq> dom (ht_map h')"
    using encodes_rr(6) encodeRR_dom [OF encodes_rr(2) e encodes_rr(3-5) l] by blast
  then show ?case using 1 encodes_rr(2,6) same_below_trans [of p0 b0 b p b' p0] by simp
qed (use st in simp)

section \<open>Property\<close>

text \<open>
  C35. Name compression: in a buffer of at most 16 KB, wherever the encoder has come to and whatever it
  has encoded, a name it encodes takes at most its length and two bytes; when it has gone on with
  questions, records, names and other bytes behind it and comes to the name again, this takes two
  bytes and leaves the table as it is. Both copies decode to the name, and still do when the
  encoder has gone on to write behind them.
\<close>
theorem name_compression:
  assumes "length b0 \<le> 2 ^ 14" and "encodes_on b0 p0 NewHashTab buf p ht"
    and "cstr arr = Inr s" and "good_name s" and "p + length s + 2 \<le> length buf"
    and "encodeName arr buf p ht = Inr (buf1, n, ht1)"
    and "encodes_on buf1 (p + n) ht1 buf2 p2 ht2" and "cstr arr' = Inr s" and "p2 + 2 \<le> length buf2"
  shows "n \<le> length s + 2 \<and> (\<exists>buf3. encodeName arr' buf2 p2 ht2 = Inr (buf3, 2, ht2) \<and>
     (\<forall>buf4 p4 ht4. encodes_on buf3 (p2 + 2) ht2 buf4 p4 ht4 \<longrightarrow>
        (\<exists>a. decodeName buf4 p (uninit MAX_LEN) 0 = Some (Inr (p + n, a)) \<and> cstr a = Inr s) \<and>
        (\<exists>a. decodeName buf4 p2 (uninit MAX_LEN) 0 = Some (Inr (p2 + 2, a)) \<and> cstr a = Inr s)))"
proof -
  note 0 = encodes_on_ok [OF assms(2) enc_state_NewHashTab assms(1)]
  have l: "length buf \<le> 2 ^ 14" using 0 assms(1) same_below_length by metis
  obtain 1: "enc_state buf1 (p + n) ht1" "same_below p buf buf1" "name_at buf1 p s (p + n)" "n \<le> length s + 2"
    using encodeName_ok [OF conjunct1 [OF 0] assms(3-5) l] assms(6) by (metis Inr_inject Pair_inject)
  have "s \<in> dom (ht_map ht1)" by (rule encodeName_dom(1) [OF assms(6) conjunct1 [OF 0] assms(3-5) l])
  moreover have l1: "length buf1 \<le> 2 ^ 14" using l same_below_length [OF 1(2)] by simp
  note 2 = encodes_on_ok [OF assms(7) 1(1) l1]
  ultimately obtain pos where pos: "ht_map ht2 s = Some pos" by blast
  obtain buf3 where 3: "encodeName arr' buf2 p2 ht2 = Inr (buf3, 2, ht2)" "name_at buf3 p2 s (p2 + 2)" "same_below p2 buf2 buf3"
    by (rule encodeName_known [OF conjunct1 [OF 2] assms(8,4) pos assms(9)])
  have e3: "enc_state buf3 (p2 + 2) ht2" using enc_state_same [OF conjunct1 [OF 2] 3(3)] by simp
  have l3: "length buf3 \<le> 2 ^ 14" using l1 2 same_below_length 3(3) by metis
  have "(\<exists>a. decodeName buf4 p (uninit MAX_LEN) 0 = Some (Inr (p + n, a)) \<and> cstr a = Inr s) \<and>
      (\<exists>a. decodeName buf4 p2 (uninit MAX_LEN) 0 = Some (Inr (p2 + 2, a)) \<and> cstr a = Inr s)"
    if "encodes_on buf3 (p2 + 2) ht2 buf4 p4 ht4" for buf4 p4 ht4
  proof -
    have s4: "same_below (p2 + 2) buf3 buf4" using encodes_on_ok [OF that e3 l3] by simp
    have "same_below (p + n) buf1 buf4"
      using same_below_trans [of "p + n" buf1 buf3 "p2 + 2" buf4 "p + n"] same_below_trans [of "p + n" buf1 buf2 p2 buf3 "p + n"]
        2 3(3) s4 by simp
    note n = name_at_same [OF 1(3) this] name_at_same [OF 3(2) s4]
    show ?thesis using decodeName_fresh [OF n(1) assms(4)] decodeName_fresh [OF n(2) assms(4)] by metis
  qed
  then show ?thesis using 1(4) 3(1) by blast
qed


text \<open>A question for the name, and then the name of a record.\<close>

theorem name_compression_witness:
  "\<exists>b1 n ht b2 b3 b4 a. encodeName (map Some (bytes ''a.cn'' @ [0])) (uninit 1024) 12 NewHashTab = Inr (b1, n, ht) \<and>
     wr16 b1 (12 + n) TYPE_A = Inr b2 \<and> wr16 b2 (12 + n + 2) 1 = Inr b3 \<and>
     encodeName (map Some (bytes ''a.cn'' @ [0, 0])) b3 (12 + n + 4) ht = Inr (b4, 2, ht) \<and>
     decodeName b4 (12 + n + 4) (uninit MAX_LEN) 0 = Some (Inr (12 + n + 6, a)) \<and> cstr a = Inr (bytes ''a.cn'')"
proof -
  let ?s = "bytes ''a.cn''" and ?b = "uninit 1024"
  have good: "good_name ?s"
    by (simp add: good_name_def good_key_def HASH_KEY_MAX_LEN_def bytes_def is_cstring_def)
  have arr: "cstr (map Some (?s @ [0])) = Inr ?s" "cstr (map Some (?s @ [0, 0])) = Inr ?s"
      "12 + length ?s + 2 \<le> length ?b" "length ?b \<le> 2 ^ 14"
    by (simp_all add: bytes_def)
  obtain b1 n ht where b1: "encodeName (map Some (?s @ [0])) ?b 12 NewHashTab = Inr (b1, n, ht)"
      "same_below 12 ?b b1" "n \<le> length ?s + 2"
    by (rule encodeName_ok [OF enc_state_NewHashTab arr(1) good arr(3,4)])
  have l: "length b1 = 1024" "n \<le> 6" using same_below_length [OF b1(2)] b1(3) by (simp_all add: bytes_def)
  obtain b2 where b2: "wr16 b1 (12 + n) TYPE_A = Inr b2" "same_below (12 + n) b1 b2"
    by (rule wr16_ok [of "12 + n" b1 TYPE_A]) (use l in auto)
  obtain b3 where b3: "wr16 b2 (12 + n + 2) 1 = Inr b3" "same_below (12 + n + 2) b2 b3"
    by (rule wr16_ok [of "12 + n + 2" b2 1]) (use l same_below_length [OF b2(2)] in auto)
  have "same_below (12 + n) b1 b3" using same_below_trans [OF b2(2) b3(2)] by simp
  then have "encodes_on b1 (12 + n) ht b3 (12 + n + 4) ht" by (rule encodes_bytes [OF encodes_start])
  moreover have "12 + n + 4 + 2 \<le> length b3" using l same_below_length [OF b2(2)] same_below_length [OF b3(2)] by simp
  ultimately obtain b4 where b4: "encodeName (map Some (?s @ [0, 0])) b3 (12 + n + 4) ht = Inr (b4, 2, ht)"
      "\<And>b5 p5 ht5. encodes_on b4 (12 + n + 4 + 2) ht b5 p5 ht5 \<Longrightarrow>
        \<exists>a. decodeName b5 (12 + n + 4) (uninit MAX_LEN) 0 = Some (Inr (12 + n + 4 + 2, a)) \<and> cstr a = Inr ?s"
    using name_compression [OF arr(4) encodes_start arr(1) good arr(3) b1(1) _ arr(2)] by blast
  from b4(2) [OF encodes_start] show ?thesis using b1(1) b2(1) b3(1) b4(1) by auto
qed

end
