(* ===== verification/Spec2Isabelle.thy ===== *)
theory Spec2Isabelle
  imports Server_Faults Server_Pool Server_Workers Server_Show Cli Hash_Refinement Cache_Destroy
    Message_Pointers Message_Compression
begin

text \<open>
  A verification development for DNS_Relayer, a DNS relay in C. The program answers the DNS queries
  of its clients from a cache and from a host file, and relays the others to a DNS server.

  \<^bold>\<open>The program.\<close> \<open>server.c\<close> is the relay: \<open>main\<close> reads its options (\<open>tool/arg.c\<close>), indexes the host file
  (\<open>tool/file_reader.c\<close>), creates the cache (\<open>cache/cache.c\<close>) and a pool of threads
  (\<open>pool/thread_pool.c\<close> over the queue of \<open>pool/queue.c\<close>), and turns every datagram it receives into
  a task of the pool. The task, \<open>handler\<close>, decodes the datagram (\<open>message/message.c\<close>), looks for the
  name in the cache and in the host file and otherwise asks the DNS server, whose answer goes to
  the client and into the cache. The cache is a hash table (\<open>cache/hash.c\<close>) of pointers into a doubly
  linked list (\<open>cache/linkList.c\<close>) in the order of last use; the same hash table serves the options,
  the index of the host file and the name compression of the encoder. \<open>relayer.c\<close> is a relay without
  a cache, \<open>cli.c\<close> a client that shows one answer; both use the wrappers of \<open>tool/wrap.c\<close>.
  \<open>tool/clog.c\<close> writes the log.

  \<^bold>\<open>The theories\<close>, each with the source it models:

  \<^item> C_Prelude: faults, results, character arrays with unwritten bytes, the functions of \<open>string.h\<close>.
  \<^item> Wire: reading and writing bytes, words and blocks at an offset of a buffer.
  \<^item> Hash (\<open>cache/hash.c\<close>): \<open>HashTab\<close> with its buckets, \<open>insert_ht\<close>, \<open>search\<close>, \<open>delete_ht\<close>, \<open>rescale\<close>.
    Hash_Heap has the same file with its pointers: nodes and data as blocks of a heap, chains through
    \<open>next\<close>, \<open>malloc\<close> and \<open>free\<close>, and \<open>DestroyHashTab\<close>; Hash_Refinement relates the two.
  \<^item> LinkList (\<open>cache/linkList.c\<close>): a heap of nodes and the operations on sentinel and neighbours.
  \<^item> Cache (\<open>cache/cache.c\<close>): \<open>CachePut\<close> and \<open>CacheGet\<close>, the latter as its two critical sections.
    Cache_Destroy has \<open>DestroyCache\<close>.
  \<^item> Message, Message_Names, Message_Codec, Message_Compression, Message_Hostile, Message_Pointers,
    Message_Show (\<open>message/message.c\<close>): the setters, \<open>encode\<close> and \<open>decode\<close>; names on the wire; the
    round trip; names that are repeated; packets from an adversary; when \<open>decode\<close> returns; the debugging output \<open>showMsg\<close> and \<open>showMem\<close>.
  \<^item> FileReader (\<open>tool/file_reader.c\<close>), Clog (\<open>tool/clog.c\<close>), Arg (\<open>tool/arg.c\<close>), Wrap (\<open>tool/wrap.c\<close>).
  \<^item> Server (\<open>server.c\<close>): items, \<open>handler\<close> in its parts, \<open>main\<close> up to its loop. Server_Items,
    Server_Reply and Server_Caching hold its lemmas, Server_Samples the data of the witnesses,
    Server_Properties, Server_Faults and Server_Startup the properties, Server_Run the loop over
    many requests with the invariant of the whole state. Server_Tasks has the handler as a thread that
    makes one step for each critical section of the cache, each access of the stream of the host file
    and each call of the socket library; Server_Threads runs any number of such threads,
    Server_Schedules has requests for one name under every schedule, and Server_Workers puts the
    threads on the workers of the pool. Server_Show has \<open>showHelp\<close>, \<open>checkItem\<close> and
    \<open>tmpSend\<close>.
  \<^item> Queue (\<open>pool/queue.c\<close>): \<open>SafeEnque\<close>, \<open>SafeDeque\<close> and \<open>SafeDestroy\<close> as a step relation.
    Queue_Invariants, Queue_Reach, Queue_Schedules, Queue_Shutdown and Queue_Locks hold its lemmas
    and Queue_Properties its properties. Thread_Pool (\<open>pool/thread_pool.c\<close>) runs workers over it;
    Pool_Order has the order in which its tasks run and Pool_Serving that they all do. Server_Pool
    puts the relay on a pool of one thread.
  \<^item> Relayer (\<open>relayer.c\<close>) and Cli (\<open>cli.c\<close>).

  \<^bold>\<open>How the code is modelled.\<close> A struct is a record with the source's fields; \<open>unsigned\<close> and fixed-width
  integers are words, and \<open>int\<close> and \<open>time_t\<close> are integers. An array of \<open>char\<close> is a list of optional bytes,
  \<open>None\<close> where nothing has been written. A step outside defined behaviour is a value of \<open>fault\<close>
  (division by zero, access out of bounds, read of unwritten memory, bad pointer) in the left of a
  sum; a recursion or loop that may not end is a partial function, with \<open>None\<close> for a run that never
  returns. Pointers are explicit where the code shares or frees nodes (the list, the queue); where a
  block belongs to one owner it is its value. Allocation always succeeds. A chain of the hash
  table is the list of its nodes in Hash, on which the other components build, and a chain of cells in
  Hash_Heap, which is shown to follow it. A handler's effects are a list of events, the datagrams sent and
  the sockets opened and closed; the DNS server is a function from a datagram to what comes back,
  and each call of \<open>time\<close> has its own reading of a clock \<open>clk\<close>, by the number of the call in the
  handler (0 to 4 in the cache part, 5 to 8 in the file part, from 9 on in the caching of an answer).

  \<^bold>\<open>What is proved.\<close>

  \<^item> The hash table is a finite map through growing and shrinking, the linked list a list, and the cache
    refines a least-recently-used cache with times to live (\<open>lru_put\<close>, \<open>lru_get\<close>), also over any
    sequence of calls. The laws are stated as the locales \<open>string_table\<close>, \<open>node_list\<close> and \<open>lru_store\<close>,
    interpreted by the code's model, and the server uses only them. \<open>DestroyCache\<close> ends the data of
    every entry once and frees the list. On the heap, every sequence of
    operations between \<open>NewHashTab\<close> and \<open>DestroyHashTab\<close> follows the table of lists, frees what it
    takes out, touches no freed block, and leaves nothing allocated that was not there before.
  \<^item> \<open>decode\<close> inverts \<open>encode\<close>, name compression included; what it returns of any packet is well-formed;
    it returns on every packet in which the pointers it reads point back. A name that was encoded
    before takes two bytes, whatever was encoded in between. The locale \<open>wire_format\<close> is shared by questions,
    records and sections.
  \<^item> The handler answers from the cache, along an alias, from the host file, with NAME_ERR for a
    blocked name, by relaying, and with SERVER_FAILURE without an answer; relayed addresses of a name are served
    from the cache afterwards. The program starts with the sizes of its manual and answers every request of
    a sequence exactly once, without a fault, and keeps the invariant \<open>server_ok\<close>, as long as the requests
    are well-formed and the answers of the DNS server fit the items (\<open>job_ok\<close>) and the cache does not lose
    its only entry (\<open>calm_run\<close>).
  \<^item> Alone, the handler as a thread is the handler. Any number of them, interleaved in any order, answer
    each its own request within 14 steps and keep \<open>server_ok\<close>, under the same conditions and
    as long as no lookup is overtaken (\<open>undisturbed\<close>); handlers of other types than A, NS and CNAME cannot
    be, and under no schedule are handlers that ask for the addresses of one name, which the host file
    does not have, on a cache with nothing else in it (\<open>holds_only\<close>) and with answers that hold only these
    addresses, before they expire. The bound is 6 steps
    for the three lookups in the cache, 1 for a miss in the host file, 4 for the calls of the relay and 3
    for the items of its answer. On the pool this gives the whole program with any number of threads: under
    every such interleaving of its threads and handlers each request gets its one answer, in a
    bounded number of steps.
  \<^item> The queue is first-in first-out under every interleaving, never uses freed memory, counts its users,
    uses no destroyed lock when its callers have counted themselves in time, and after the start of
    \<open>SafeDestroy\<close> every schedule is finite; the pool loses and doubles no task.
    Tasks are taken in the order of \<open>AddTask\<close> (the locale \<open>fifo_service\<close>), a measure falls with every
    step of the workers, and when they rest every task has been started. With one thread the whole
    program, from its command line on, answers the requests in their order under every schedule, under
    the conditions of a sequence.
    Where closing the pool may hang or use a destroyed mutex is shown too.
  \<^item> The plain relay forwards requests and answers unchanged, but addresses its answers with unwritten
    bytes; the client sends the query it is told and shows what it gets.
  \<^item> Inputs that lead the code out of defined behaviour: expiry of the last entry of the cache, two
    interleaved lookups, hostile packets, records of more than ten, and others.

  \<^bold>\<open>Bounds.\<close> Keys of the hash table are shorter than 50 bytes, so names in messages are as well, and a
  cached name leaves room for \<open>:A\<close>, \<open>:NS\<close> or \<open>:CNAME\<close>. Packets fit 1024 bytes and the encoder's offsets fit the 14
  bits of a compression pointer. A cache holds at least two entries, three where the three items of
  an answer must all stay, and at most \<open>2 ^ 28\<close>, so that the counters do not wrap. In a run an
  item takes at most 478 bytes of a reply: two of them, the header and one question fit 1024. A run assumes
  that the cache never loses its only entry (\<open>calm\<close>), since it would shrink its table to nothing.
  Nothing uses fuel; loops of the code are structural, measured or partial functions.

  \<^bold>\<open>Concurrency.\<close> Queue and pool interleave at every access of shared memory and every call of the thread
  library, under sequential consistency; signals wake at least one waiter, and threads may also wake
  without one. Thread 0 owns the pool and destroys the queue. Handlers of the server interleave at every
  critical section of the cache (\<open>CacheGet\<close> has two), at the seek and at the scan of a lookup in the
  host file, and at their calls of the socket library; the rest of a handler touches only its own
  memory. Handlers, workers, queue and main thread interleave in one run of the machine of
  Server_Workers. With one thread no two handlers overlap, and no assumption on lookups is needed.

  \<^bold>\<open>Not modelled.\<close> The text of log lines and prompts beyond what is read to print them; the branches of
  \<open>DEBUG\<close>, which only print and send a copy (the functions they call are modelled); functions that only
  pass their parts to \<open>free\<close> or \<open>DestroyHashTab\<close> (\<open>DestroyArg\<close>, \<open>file_reader_free\<close>);
  the formatting of IPv6 addresses by \<open>inet_ntop\<close>, a parameter; \<open>test.c\<close>, \<open>test/file_reader_test.c\<close> and the scripts, which
  test by hand.
\<close>

end
